(* ===== verification/Prelude.thy ===== *)
theory Prelude
  imports "HOL-Library.Word" "HOL-Library.Monad_Syntax" "HOL-Library.Signed_Division"
begin

text \<open>
  Shared vocabulary of the development: the machine types of the x86-64 target, arithmetic on
  addresses written as images of natural numbers, and the byte-addressed memory with its
  little-endian loads and stores.

  \<^item> An address (any C pointer, \<open>size_t\<close>, \<open>unsigned long\<close>) is a 64-bit word; \<open>+\<close> and \<open>-\<close> wrap.
  \<^item> The memory is a total function from addresses to bytes.
  \<^item> \<open>ptr n\<close> is the address with number \<open>n\<close>; the collection \<open>wnat\<close> moves comparisons, sums and
    differences of such addresses to the natural numbers where they do not wrap.
  \<^item> The locale \<open>cell_memory\<close> states what a load and a store of a fixed width promise; it is
    interpreted on the 64-bit, 32-bit and 16-bit accesses of the code.
\<close>

unbundle bit_operations_syntax

named_theorems wnat \<open>arithmetic on addresses that are images of natural numbers\<close>

named_theorems field_defs \<open>definitions of the struct field accesses\<close>

section \<open>Machine words\<close>

type_synonym byte = "8 word"
type_synonym addr = "64 word"
type_synonym mem = "addr \<Rightarrow> byte"

abbreviation NULL :: addr where
  "NULL \<equiv> 0"

abbreviation ptr :: "nat \<Rightarrow> addr" where
  "ptr \<equiv> word_of_nat"

lemma unat_ptr [wnat]: "a < 2 ^ 64 \<Longrightarrow> unat (ptr a) = a"
  by (simp add: unat_of_nat)

lemma ptr_unat [simp]: "ptr (unat x) = x"
  by simp

lemma ptr_eq [wnat]: "a < 2 ^ 64 \<Longrightarrow> b < 2 ^ 64 \<Longrightarrow> ptr a = ptr b \<longleftrightarrow> a = b"
  by (metis unat_ptr)

lemma ptr_eq_0 [wnat]: "a < 2 ^ 64 \<Longrightarrow> ptr a = 0 \<longleftrightarrow> a = 0"
  using ptr_eq [of a 0] by simp

lemma ptr_le [wnat]: "a < 2 ^ 64 \<Longrightarrow> b < 2 ^ 64 \<Longrightarrow> ptr a \<le> ptr b \<longleftrightarrow> a \<le> b"
  by (simp add: word_le_nat_alt unat_ptr)

lemma ptr_less [wnat]: "a < 2 ^ 64 \<Longrightarrow> b < 2 ^ 64 \<Longrightarrow> ptr a < ptr b \<longleftrightarrow> a < b"
  by (simp add: word_less_nat_alt unat_ptr)

lemma ptr_add [wnat]: "ptr a + ptr b = ptr (a + b)"
  by simp

lemma ptr_add_numeral [wnat]: "ptr a + numeral k = ptr (a + numeral k)"
  by simp

lemma ptr_diff [wnat]: "b \<le> a \<Longrightarrow> ptr a - ptr b = ptr (a - b)"
  by simp

lemma ptr_diff_numeral [wnat]: "numeral k \<le> a \<Longrightarrow> ptr a - numeral k = ptr (a - numeral k)"
  by simp

lemma ptr_diff_1 [wnat]: "1 \<le> a \<Longrightarrow> ptr a - 1 = ptr (a - 1)"
  using ptr_diff [of 1 a] by simp

lemma ptr_less_numeral [wnat]:
  "a < 2 ^ 64 \<Longrightarrow> numeral k < (2 ^ 64 :: nat) \<Longrightarrow> ptr a < numeral k \<longleftrightarrow> a < numeral k"
  using ptr_less [of a "numeral k"] by simp

lemma ptr_numeral_le [wnat]:
  "a < 2 ^ 64 \<Longrightarrow> numeral k < (2 ^ 64 :: nat) \<Longrightarrow> numeral k \<le> ptr a \<longleftrightarrow> numeral k \<le> a"
  using ptr_le [of "numeral k" a] by simp

lemma ex_ptr: obtains n where "x = ptr n" and "n < 2 ^ 64"
proof
  show "x = ptr (unat x)" by simp
  show "unat x < 2 ^ 64" using unsigned_less [of x] by simp
qed

section \<open>Rounding to a power of two\<close>

text \<open>
  The source rounds with masks: \<open>sz & ~(p - 1)\<close> and \<open>(sz + p - 1) & ~(p - 1)\<close> for a power of two
  \<open>p\<close>. On the unsigned value the first is the largest multiple of \<open>p\<close> below.
\<close>

lemma and_not_mask_eq:
  fixes x :: "'a::len word"
  shows "x AND NOT (mask k) = push_bit k (drop_bit k x)"
  by (rule bit_word_eqI) (auto simp: bit_simps)

lemma unat_push_drop:
  fixes x :: "'a::len word"
  shows "unat (push_bit k (drop_bit k x)) = unat x div 2 ^ k * 2 ^ k"
proof -
  have less: "unat x div 2 ^ k * 2 ^ k < 2 ^ LENGTH('a)"
    using unsigned_less [of x] by (rule order_le_less_trans [OF div_times_less_eq_dividend])
  have "drop_bit k x = word_of_nat (unat x div 2 ^ k)"
    by (metis unat_drop_bit_eq drop_bit_eq_div word_unat_eq_iff le_unat_uoi div_le_dividend)
  then have "push_bit k (drop_bit k x) = word_of_nat (unat x div 2 ^ k * 2 ^ k)"
    by (simp add: push_bit_eq_mult)
  with less show ?thesis
    by (simp add: unat_of_nat del: of_nat_mult)
qed

lemma round_down_pow2:
  fixes p :: addr
  assumes "p = 2 ^ k"
  shows "x AND NOT (p - 1) = ptr (unat x div 2 ^ k * 2 ^ k)"
proof -
  have "NOT (p - 1) = NOT (mask k :: addr)"
    using assms by (simp add: mask_eq_exp_minus_1)
  then have "unat (x AND NOT (p - 1)) = unat x div 2 ^ k * 2 ^ k"
    by (simp only: and_not_mask_eq unat_push_drop)
  then show ?thesis
    by (metis ptr_unat)
qed

lemma and_7_dvd:
  assumes "8 dvd n" and "n < 2 ^ 64"
  shows "ptr n AND 7 = 0"
proof -
  have "ptr n AND 7 = take_bit 3 (ptr n)"
    using take_bit_eq_mask [of 3 "ptr n"] by (simp add: mask_numeral)
  moreover have "unat (take_bit 3 (ptr n)) = n mod 8"
    using assms(2) by (simp add: take_bit_eq_mod unat_mod unat_ptr)
  ultimately show ?thesis
    using assms(1) by (simp flip: unat_eq_zero)
qed

section \<open>Little-endian encoding\<close>

primrec le_nat :: "byte list \<Rightarrow> nat" where
  "le_nat [] = 0"
| "le_nat (b # bs) = unat b + 256 * le_nat bs"

primrec nat_le :: "nat \<Rightarrow> nat \<Rightarrow> byte list" where
  "nat_le 0 v = []"
| "nat_le (Suc n) v = word_of_nat (v mod 256) # nat_le n (v div 256)"

lemma length_nat_le [simp]: "length (nat_le n v) = n"
  by (induction n arbitrary: v) auto

lemma le_nat_nat_le: "le_nat (nat_le n v) = v mod 256 ^ n"
proof (induction n arbitrary: v)
  case 0
  then show ?case by simp
next
  case (Suc n)
  have "unat (word_of_nat (v mod 256) :: byte) = v mod 256"
    by (simp add: unat_of_nat)
  then show ?case
    by (simp add: Suc.IH mod_mult2_eq)
qed

section \<open>The byte memory\<close>

primrec write_bytes :: "mem \<Rightarrow> addr \<Rightarrow> byte list \<Rightarrow> mem" where
  "write_bytes m a [] = m"
| "write_bytes m a (b # bs) = write_bytes (m(a := b)) (a + 1) bs"

primrec read_bytes :: "mem \<Rightarrow> addr \<Rightarrow> nat \<Rightarrow> byte list" where
  "read_bytes m a 0 = []"
| "read_bytes m a (Suc n) = m a # read_bytes m (a + 1) n"

definition in_range :: "addr \<Rightarrow> nat \<Rightarrow> addr \<Rightarrow> bool" where
  "in_range a n x \<longleftrightarrow> unat (x - a) < n"

lemma length_read_bytes [simp]: "length (read_bytes m a n) = n"
  by (induction n arbitrary: a) auto

lemma unat_sub_Suc:
  assumes "x \<noteq> (a :: addr)"
  shows "unat (x - a) = Suc (unat (x - (a + 1)))"
proof -
  have "x - a = x - (a + 1) + 1" and "x - (a + 1) + 1 \<noteq> 0"
    using assms by (simp_all add: algebra_simps)
  then show ?thesis
    using unatSuc [of "x - (a + 1)"] by (simp add: add.commute)
qed

lemma in_range_Suc: "in_range a (Suc n) x \<longleftrightarrow> x = a \<or> in_range (a + 1) n x"
proof (cases "x = a")
  case True
  then show ?thesis by (simp add: in_range_def)
next
  case False
  then show ?thesis by (simp add: in_range_def unat_sub_Suc)
qed

lemma in_range_0 [simp]: "\<not> in_range a 0 x"
  by (simp add: in_range_def)

lemma write_bytes_other: "\<not> in_range a (length bs) x \<Longrightarrow> write_bytes m a bs x = m x"
  by (induction bs arbitrary: m a) (auto simp: in_range_Suc)

lemma read_bytes_cong:
  "(\<And>x. in_range a n x \<Longrightarrow> m x = m' x) \<Longrightarrow> read_bytes m a n = read_bytes m' a n"
  by (induction n arbitrary: a) (auto simp: in_range_Suc)

lemma not_in_range_pred: "n < 2 ^ 64 \<Longrightarrow> \<not> in_range (a + 1) n a"
  by (simp add: in_range_def unsigned_minus_1_eq_mask mask_eq_exp_minus_1)

lemma read_write_bytes:
  "length bs \<le> 2 ^ 64 \<Longrightarrow> read_bytes (write_bytes m a bs) a (length bs) = bs"
proof (induction bs arbitrary: m a)
  case Nil
  then show ?case by simp
next
  case (Cons b bs)
  then have "\<not> in_range (a + 1) (length bs) a"
    by (intro not_in_range_pred) simp
  then have "write_bytes (m(a := b)) (a + 1) bs a = b"
    by (simp add: write_bytes_other)
  with Cons show ?case by simp
qed

lemma nth_read_bytes: "i < n \<Longrightarrow> read_bytes m a n ! i = m (a + word_of_nat i)"
proof (induction n arbitrary: a i)
  case 0
  then show ?case by simp
next
  case (Suc n)
  then show ?case by (cases i) (simp_all add: algebra_simps)
qed

lemma in_range_ptr [wnat]:
  assumes "a + n \<le> 2 ^ 64" and "x < 2 ^ 64"
  shows "in_range (ptr a) n (ptr x) \<longleftrightarrow> a \<le> x \<and> x < a + n"
proof (cases "a < 2 ^ 64")
  case False
  with assms have "n = 0" and "a = 2 ^ 64" by auto
  with assms show ?thesis by simp
next
  case a: True
  show ?thesis
  proof (cases "a \<le> x")
    case True
    then have "unat (ptr x - ptr a) = x - a"
      using assms by (simp add: ptr_diff unat_ptr del: of_nat_diff)
    with True show ?thesis by (auto simp: in_range_def)
  next
    case False
    with a assms have "unat (ptr x - ptr a) = 2 ^ 64 + x - a"
      by (simp add: unat_sub_if' unat_ptr)
    with False assms show ?thesis by (simp add: in_range_def)
  qed
qed

section \<open>Loads and stores of a fixed width\<close>

locale cell_memory =
  fixes load :: "mem \<Rightarrow> addr \<Rightarrow> 'v"
    and store :: "mem \<Rightarrow> addr \<Rightarrow> 'v \<Rightarrow> mem"
    and width :: nat
  assumes load_store_same: "load (store m a v) a = v"
    and load_cong: "(\<And>x. in_range a width x \<Longrightarrow> m x = m' x) \<Longrightarrow> load m a = load m' a"
    and store_other: "\<not> in_range a width x \<Longrightarrow> store m a v x = m x"
begin

lemma load_store_disjoint:
  assumes "\<And>x. in_range b width x \<Longrightarrow> \<not> in_range a width x"
  shows "load (store m a v) b = load m b"
  by (rule load_cong) (simp add: assms store_other)

lemma load_store_ptr:
  assumes "a + width \<le> b \<or> b + width \<le> a" and "a + width \<le> 2 ^ 64" and "b + width \<le> 2 ^ 64"
  shows "load (store m (ptr a) v) (ptr b) = load m (ptr b)"
proof (rule load_store_disjoint)
  fix x
  assume x: "in_range (ptr b) width x"
  obtain n where n: "x = ptr n" "n < 2 ^ 64" by (rule ex_ptr)
  from x n assms show "\<not> in_range (ptr a) width x"
    by (auto simp: in_range_ptr)
qed

end

definition load64 :: "mem \<Rightarrow> addr \<Rightarrow> 64 word" where
  "load64 m a = word_of_nat (le_nat (read_bytes m a 8))"

definition store64 :: "mem \<Rightarrow> addr \<Rightarrow> 64 word \<Rightarrow> mem" where
  "store64 m a v = write_bytes m a (nat_le 8 (unat v))"

definition load32 :: "mem \<Rightarrow> addr \<Rightarrow> 32 word" where
  "load32 m a = word_of_nat (le_nat (read_bytes m a 4))"

definition store32 :: "mem \<Rightarrow> addr \<Rightarrow> 32 word \<Rightarrow> mem" where
  "store32 m a v = write_bytes m a (nat_le 4 (unat v))"

definition load16 :: "mem \<Rightarrow> addr \<Rightarrow> 16 word" where
  "load16 m a = word_of_nat (le_nat (read_bytes m a 2))"

definition store16 :: "mem \<Rightarrow> addr \<Rightarrow> 16 word \<Rightarrow> mem" where
  "store16 m a v = write_bytes m a (nat_le 2 (unat v))"

text \<open>Encoding a value of \<open>n\<close> bytes, writing it and reading it back gives the value.\<close>

lemma le_nat_read_write:
  assumes "v < 256 ^ n" and "n \<le> 2 ^ 64"
  shows "le_nat (read_bytes (write_bytes m a (nat_le n v)) a n) = v"
  using read_write_bytes [of "nat_le n v" m a] assms by (simp add: le_nat_nat_le)

interpretation m64: cell_memory load64 store64 8
proof
  fix m :: mem and a v
  have "unat v < 256 ^ 8" for v :: "64 word"
    using unsigned_less [of v] by simp
  then show "load64 (store64 m a v) a = v"
    by (simp add: load64_def store64_def le_nat_read_write)
qed (auto simp: load64_def store64_def write_bytes_other cong: read_bytes_cong
       intro!: arg_cong [where f = "\<lambda>bs. word_of_nat (le_nat bs)"])

interpretation m32: cell_memory load32 store32 4
proof
  fix m :: mem and a v
  have "unat v < 256 ^ 4" for v :: "32 word"
    using unsigned_less [of v] by simp
  then show "load32 (store32 m a v) a = v"
    by (simp add: load32_def store32_def le_nat_read_write)
qed (auto simp: load32_def store32_def write_bytes_other cong: read_bytes_cong
       intro!: arg_cong [where f = "\<lambda>bs. word_of_nat (le_nat bs)"])

interpretation m16: cell_memory load16 store16 2
proof
  fix m :: mem and a v
  have "unat v < 256 ^ 2" for v :: "16 word"
    using unsigned_less [of v] by simp
  then show "load16 (store16 m a v) a = v"
    by (simp add: load16_def store16_def le_nat_read_write)
qed (auto simp: load16_def store16_def write_bytes_other cong: read_bytes_cong
       intro!: arg_cong [where f = "\<lambda>bs. word_of_nat (le_nat bs)"])

declare m64.load_store_same [simp] m32.load_store_same [simp] m16.load_store_same [simp]

text \<open>On addresses that are multiples of eight the 64-bit cells do not overlap.\<close>

lemma load64_store64_aligned [wnat]:
  assumes "8 dvd a" and "8 dvd b" and "a < 2 ^ 64" and "b < 2 ^ 64"
  shows "load64 (store64 m (ptr a) v) (ptr b) = (if a = b then v else load64 m (ptr b))"
proof (cases "a = b")
  case True
  then show ?thesis by simp
next
  case False
  obtain i j where "a = 8 * i" and "b = 8 * j" using assms(1,2) by (auto elim!: dvdE)
  with False assms(3,4) have "a + 8 \<le> b \<or> b + 8 \<le> a" and "a + 8 \<le> 2 ^ 64" and "b + 8 \<le> 2 ^ 64"
    by auto
  with False show ?thesis by (simp add: m64.load_store_ptr)
qed

text \<open>From here on a sum or difference of addresses is normalised to the form \<open>ptr n\<close>.\<close>

lemma ptr_Suc: "ptr s + 1 = ptr (Suc s)"
  by simp

lemma uint_eq [simp]: "uint x = uint y \<longleftrightarrow> x = (y :: 'a :: len word)"
  by (simp add: word_uint_eq_iff)

lemma unat_pred: "n \<noteq> (0 :: 'a :: len word) \<Longrightarrow> unat n = Suc (unat (n - 1))"
  by (metis Suc_pred' unat_gt_0 unat_minus_one)

declare of_nat_add [simp del] of_nat_diff [simp del] of_nat_Suc [simp del]
declare ptr_Suc [simp]
declare ptr_add [simp] ptr_add_numeral [simp] ptr_diff [simp] ptr_diff_numeral [simp]

section \<open>Frame conditions\<close>

definition unchanged_outside :: "nat set \<Rightarrow> mem \<Rightarrow> mem \<Rightarrow> bool" where
  "unchanged_outside S m m' \<longleftrightarrow> (\<forall>x. unat x \<notin> S \<longrightarrow> m' x = m x)"

lemma unchanged_refl [simp]: "unchanged_outside S m m"
  by (simp add: unchanged_outside_def)

lemma unchanged_trans [trans]:
  "unchanged_outside S m m' \<Longrightarrow> unchanged_outside S m' m'' \<Longrightarrow> unchanged_outside S m m''"
  by (simp add: unchanged_outside_def)

lemma unchanged_mono: "unchanged_outside S m m' \<Longrightarrow> S \<subseteq> T \<Longrightarrow> unchanged_outside T m m'"
  by (auto simp: unchanged_outside_def)

lemma unchanged_store64:
  assumes "{a ..< a + 8} \<subseteq> S" and "a + 8 \<le> 2 ^ 64"
  shows "unchanged_outside S m (store64 m (ptr a) v)"
  unfolding unchanged_outside_def
proof (intro allI impI)
  fix x :: addr
  assume x: "unat x \<notin> S"
  have "\<not> in_range (ptr a) 8 (ptr (unat x))"
    using assms x unsigned_less [of x] by (subst in_range_ptr) auto
  then show "store64 m (ptr a) v x = m x"
    by (simp add: m64.store_other)
qed

lemma unchanged_load64:
  assumes "unchanged_outside S m m'" and "{a ..< a + 8} \<inter> S = {}" and "a + 8 \<le> 2 ^ 64"
  shows "load64 m' (ptr a) = load64 m (ptr a)"
proof (rule m64.load_cong)
  fix x :: addr
  assume x: "in_range (ptr a) 8 x"
  have "unat x \<in> {a ..< a + 8}"
    using x assms(3) unsigned_less [of x] in_range_ptr [of a 8 "unat x"] by simp
  with assms show "m' x = m x" by (auto simp: unchanged_outside_def)
qed

end
