(* ===== verification/Areas.thy ===== *)
theory Areas
  imports Prelude
begin

text \<open>
  The abstract view of the allocator's free list: a list of areas \<open>(start, size)\<close> over the natural
  numbers. A well-formed list is sorted by address, its areas are multiples of the granularity 8,
  large enough for a list node (24 bytes), and no two of them touch. \<open>free_area\<close> and \<open>alloc_area\<close>
  say what returning a block and first-fit allocation mean on such lists; \<open>bytes\<close> is the set of
  addresses a list covers. The pointer-level routines of \<open>Heap\<close> are proved to implement them.
\<close>

type_synonym area = "nat \<times> nat"

definition area_ok :: "area \<Rightarrow> bool" where
  "area_ok A \<longleftrightarrow> 8 dvd fst A \<and> 8 dvd snd A \<and> 24 \<le> snd A \<and> 0 < fst A \<and> fst A + snd A < 2 ^ 63"

definition all_above :: "nat \<Rightarrow> area list \<Rightarrow> bool" where
  "all_above x As \<longleftrightarrow> list_all (\<lambda>A. x < fst A) As"

fun areas_ok :: "area list \<Rightarrow> bool" where
  "areas_ok [] \<longleftrightarrow> True"
| "areas_ok (A # As) \<longleftrightarrow> area_ok A \<and> all_above (fst A + snd A) As \<and> areas_ok As"

definition bytes :: "area list \<Rightarrow> nat set" where
  "bytes As = (\<Union>A \<in> set As. {fst A ..< fst A + snd A})"

definition block_apart :: "nat \<Rightarrow> nat \<Rightarrow> area list \<Rightarrow> bool" where
  "block_apart b z As \<longleftrightarrow> list_all (\<lambda>A. b + z \<le> fst A \<or> fst A + snd A \<le> b) As"

text \<open>Returning the block of \<open>z\<close> bytes at \<open>b\<close>: insert it in order and merge with its neighbours.\<close>

fun free_area :: "nat \<Rightarrow> nat \<Rightarrow> area list \<Rightarrow> area list" where
  "free_area b z [] = [(b, z)]"
| "free_area b z ((s, n) # As) =
     (if s + n < b then (s, n) # free_area b z As
      else if s = b + z then (b, n + z) # As
      else if s + n = b then
        (case As of
           [] \<Rightarrow> [(s, n + z)]
         | (s', n') # As' \<Rightarrow>
             if b + z = s' then (s, n + z + n') # As' else (s, n + z) # (s', n') # As')
      else (b, z) # (s, n) # As)"

text \<open>First fit: the whole area when less than 56 bytes would be left, else its front.\<close>

fun alloc_area :: "nat \<Rightarrow> area list \<Rightarrow> (nat \<times> nat \<times> area list) option" where
  "alloc_area z [] = None"
| "alloc_area z ((s, n) # As) =
     (if z \<le> n then
        if n < z + 56 then Some (s, n, As) else Some (s, z, (s + z, n - z) # As)
      else map_option (\<lambda>(b, k, Bs). (b, k, (s, n) # Bs)) (alloc_area z As))"

section \<open>Coverage and well-formedness\<close>

lemma bytes_Nil [simp]: "bytes [] = {}"
  by (simp add: bytes_def)

lemma bytes_Cons [simp]: "bytes (A # As) = {fst A ..< fst A + snd A} \<union> bytes As"
  by (simp add: bytes_def)

lemma bytes_append [simp]: "bytes (As @ Bs) = bytes As \<union> bytes Bs"
  by (simp add: bytes_def)

lemma above_Nil [simp]: "all_above x []"
  by (simp add: all_above_def)

lemma above_Cons [simp]: "all_above x (A # As) \<longleftrightarrow> x < fst A \<and> all_above x As"
  by (simp add: all_above_def)

lemma above_append [simp]: "all_above x (As @ Bs) \<longleftrightarrow> all_above x As \<and> all_above x Bs"
  by (simp add: all_above_def)

lemma above_mono: "all_above y As \<Longrightarrow> x \<le> y \<Longrightarrow> all_above x As"
  by (induction As) auto

lemma aboveD: "all_above x As \<Longrightarrow> A \<in> set As \<Longrightarrow> x < fst A"
  by (auto simp: all_above_def list_all_iff)

lemma areas_ok_append:
  "areas_ok (As @ Bs) \<longleftrightarrow>
     areas_ok As \<and> areas_ok Bs \<and> (\<forall>A \<in> set As. all_above (fst A + snd A) Bs)"
  by (induction As) auto

lemma areas_ok_area: "areas_ok As \<Longrightarrow> A \<in> set As \<Longrightarrow> area_ok A"
  by (induction As) auto

lemma block_apart_Cons [simp]:
  "block_apart b z (A # As) \<longleftrightarrow> (b + z \<le> fst A \<or> fst A + snd A \<le> b) \<and> block_apart b z As"
  by (simp add: block_apart_def)

lemma block_apart_Nil [simp]: "block_apart b z []"
  by (simp add: block_apart_def)

lemma block_apart_append [simp]:
  "block_apart b z (As @ Bs) \<longleftrightarrow> block_apart b z As \<and> block_apart b z Bs"
  by (simp add: block_apart_def)

lemma above_block_apart: "all_above x As \<Longrightarrow> b + z \<le> Suc x \<Longrightarrow> block_apart b z As"
  by (induction As) auto

lemma ivl_disjoint_iff:
  assumes "0 < (z :: nat)" and "0 < n"
  shows "{b ..< b + z} \<inter> {s ..< s + n} = {} \<longleftrightarrow> b + z \<le> s \<or> s + n \<le> b"
proof
  assume disj: "{b ..< b + z} \<inter> {s ..< s + n} = {}"
  show "b + z \<le> s \<or> s + n \<le> b"
  proof (rule ccontr)
    assume "\<not> (b + z \<le> s \<or> s + n \<le> b)"
    with assms have "max b s \<in> {b ..< b + z} \<inter> {s ..< s + n}" by auto
    with disj show False by blast
  qed
qed auto

lemma block_apart_iff_disjoint:
  assumes "0 < z" and "areas_ok As"
  shows "block_apart b z As \<longleftrightarrow> {b ..< b + z} \<inter> bytes As = {}"
  using assms(2)
proof (induction As)
  case Nil
  then show ?case by simp
next
  case (Cons A As)
  then have "0 < snd A" by (auto simp: area_ok_def)
  with assms(1) have "{b ..< b + z} \<inter> {fst A ..< fst A + snd A} = {} \<longleftrightarrow>
      b + z \<le> fst A \<or> fst A + snd A \<le> b"
    by (rule ivl_disjoint_iff)
  with Cons show ?case by (simp add: Int_Un_distrib del: Int_atLeastLessThan)
qed

lemma above_in_bytes: "all_above y As \<Longrightarrow> x \<in> bytes As \<Longrightarrow> y < x"
  by (induction As) auto

lemma in_bytes_ge: "areas_ok (A # As) \<Longrightarrow> x \<in> bytes (A # As) \<Longrightarrow> fst A \<le> x"
  by (auto dest: above_in_bytes)

section \<open>Returning a block\<close>

lemma bytes_free_area:
  assumes "areas_ok As" and "block_apart b z As"
  shows "bytes (free_area b z As) = bytes As \<union> {b ..< b + z}"
  using assms
proof (induction b z As rule: free_area.induct)
  case (1 b z)
  then show ?case by simp
next
  case (2 b z s n As)
  show ?case
  proof (cases "s + n < b")
    case True
    with 2 show ?thesis by auto
  next
    case False
    with "2.prems" show ?thesis
      by (auto simp: area_ok_def split: list.split)
  qed
qed

lemma free_area_above:
  "all_above x As \<Longrightarrow> x < b \<Longrightarrow> all_above x (free_area b z As)"
proof (induction b z As rule: free_area.induct)
  case (1 b z)
  then show ?case by simp
next
  case (2 b z s n As)
  then show ?case by (cases As) auto
qed

lemma area_ok_join: "area_ok (s, n) \<Longrightarrow> area_ok (s + n, k) \<Longrightarrow> area_ok (s, n + k)"
  by (auto simp: area_ok_def dvd_add)

lemma areas_ok_free_area:
  assumes "areas_ok As" and "block_apart b z As" and "area_ok (b, z)"
  shows "areas_ok (free_area b z As)"
  using assms
proof (induction b z As rule: free_area.induct)
  case (1 b z)
  then show ?case by simp
next
  case (2 b z s n As)
  consider (skip) "s + n < b" | (below) "s = b + z" | (after) "s + n = b" "s \<noteq> b + z"
    | (new) "b < s + n" "b + z < s"
    using "2.prems"(2) by fastforce
  then show ?case
  proof cases
    case skip
    with 2 show ?thesis using free_area_above [of "s + n" As b z] by simp
  next
    case below
    with "2.prems" show ?thesis
      using area_ok_join [of b z n] by (simp add: ac_simps)
  next
    case after
    show ?thesis
    proof (cases As)
      case Nil
      with after "2.prems" show ?thesis using area_ok_join [of s n z] by simp
    next
      case (Cons A As')
      obtain s' n' where A: "A = (s', n')" by fastforce
      have join: "area_ok (s, n + z)" using after "2.prems" area_ok_join [of s n z] by simp
      show ?thesis
      proof (cases "b + z = s'")
        case True
        then have s': "s' = s + (n + z)" using after by simp
        with Cons A "2.prems" have "area_ok (s, n + z + n')"
          by (intro area_ok_join [OF join]) simp
        with s' Cons A after "2.prems" show ?thesis by (auto simp: add.assoc)
      next
        case False
        with Cons A after "2.prems" join have "s + (n + z) < s'" by auto
        moreover have "all_above (s + (n + z)) As'"
          using \<open>s + (n + z) < s'\<close> Cons A "2.prems"(1) by (auto intro: above_mono)
        ultimately show ?thesis
          using Cons A after "2.prems" join False by simp
      qed
    qed
  next
    case new
    with "2.prems" show ?thesis by (auto intro: above_mono)
  qed
qed

section \<open>First-fit allocation\<close>

lemma alloc_area_size: "alloc_area z As = Some (b, k, Bs) \<Longrightarrow> z \<le> k \<and> k < z + 56"
  by (induction z As arbitrary: b k Bs rule: alloc_area.induct) (auto split: if_splits)

lemma alloc_area_None: "alloc_area z As = None \<longleftrightarrow> (\<forall>A \<in> set As. snd A < z)"
  by (induction z As rule: alloc_area.induct) auto

lemma alloc_area_bytes: "alloc_area z As = Some (b, k, Bs) \<Longrightarrow> bytes As = bytes Bs \<union> {b ..< b + k}"
  by (induction z As arbitrary: b k Bs rule: alloc_area.induct) (auto split: if_splits)

lemma alloc_area_above:
  "alloc_area z As = Some (b, k, Bs) \<Longrightarrow> all_above x As \<Longrightarrow> all_above x Bs \<and> x < b"
  by (induction z As arbitrary: b k Bs rule: alloc_area.induct) (auto split: if_splits)

lemma alloc_area_ok:
  assumes "alloc_area z As = Some (b, k, Bs)" and "areas_ok As" and "8 dvd z" and "24 \<le> z"
  shows "areas_ok Bs \<and> area_ok (b, k) \<and> block_apart b k Bs"
  using assms
proof (induction z As arbitrary: b k Bs rule: alloc_area.induct)
  case (1 z)
  then show ?case by simp
next
  case (2 z s n As)
  consider (whole) "z \<le> n" "n < z + 56" | (front) "z + 56 \<le> n" | (later) "n < z"
    by linarith
  then show ?case
  proof cases
    case whole
    with "2.prems" show ?thesis by (auto intro: above_block_apart)
  next
    case front
    with "2.prems" have "b = s" "k = z" "Bs = (s + z, n - z) # As" by auto
    with front "2.prems" show ?thesis
      using above_block_apart [of "s + n" As s z] by (auto simp: area_ok_def dvd_add)
  next
    case later
    with "2.prems" obtain Cs where cs: "alloc_area z As = Some (b, k, Cs)" and bs: "Bs = (s, n) # Cs"
      by auto
    with 2 later have "areas_ok Cs" and "area_ok (b, k)" and "block_apart b k Cs" by auto
    moreover have "all_above (s + n) Cs" and "s + n < b"
      using alloc_area_above [OF cs, of "s + n"] "2.prems"(2) by auto
    ultimately show ?thesis using bs "2.prems"(2) by auto
  qed
qed

section \<open>A list is determined by the bytes it covers\<close>

lemma hd_area_unique:
  assumes "areas_ok (A # As)" and "areas_ok (B # Bs)" and "bytes (A # As) = bytes (B # Bs)"
  shows "A = B"
proof -
  have sizes: "0 < snd A" "0 < snd B" using assms(1,2) by (auto simp: area_ok_def)
  then have "fst A \<in> bytes (B # Bs)" and "fst B \<in> bytes (A # As)"
    using assms(3) by auto
  then have eq: "fst A = fst B"
    using in_bytes_ge [OF assms(1)] in_bytes_ge [OF assms(2)] by (meson le_antisym)
  have "fst A + snd A \<notin> bytes (A # As)" and "fst B + snd B \<notin> bytes (B # Bs)"
    using assms(1,2) by (auto dest: above_in_bytes)
  moreover have "fst B + snd B \<in> bytes (A # As)" if "snd B < snd A" using that eq by simp
  moreover have "fst A + snd A \<in> bytes (B # Bs)" if "snd A < snd B" using that eq by simp
  ultimately have "snd A = snd B" using assms(3) by (metis nat_neq_iff)
  with eq show ?thesis by (simp add: prod_eq_iff)
qed

lemma areas_unique:
  "areas_ok As \<Longrightarrow> areas_ok Bs \<Longrightarrow> bytes As = bytes Bs \<Longrightarrow> As = Bs"
proof (induction As arbitrary: Bs)
  case Nil
  then show ?case by (cases Bs) (auto simp: area_ok_def set_eq_iff)
next
  case (Cons A As)
  have "bytes (A # As) \<noteq> {}"
    using Cons.prems(1) by (auto simp: area_ok_def)
  then obtain B Bs' where Bs: "Bs = B # Bs'"
    using Cons.prems(3) by (cases Bs) auto
  with Cons.prems have AB: "A = B"
    using hd_area_unique by blast
  have disj: "{fst A ..< fst A + snd A} \<inter> bytes Cs = {}" if "all_above (fst A + snd A) Cs" for Cs
    using that by (fastforce dest: above_in_bytes)
  have "bytes As = bytes Bs'"
    using Cons.prems Bs AB disj [of As] disj [of Bs'] by auto
  with Cons Bs AB show ?case by auto
qed

text \<open>Freeing the block an allocation returned restores the very same list.\<close>

lemma free_alloc_area:
  assumes "alloc_area z As = Some (b, k, Bs)" and "areas_ok As" and "8 dvd z" and "24 \<le> z"
  shows "free_area b k Bs = As"
proof (rule areas_unique)
  have ok: "areas_ok Bs" "area_ok (b, k)" "block_apart b k Bs"
    using alloc_area_ok [OF assms] by auto
  show "areas_ok (free_area b k Bs)"
    using ok by (intro areas_ok_free_area)
  show "bytes (free_area b k Bs) = bytes As"
    using bytes_free_area [OF ok(1,3)] alloc_area_bytes [OF assms(1)] by simp
qed (rule assms(2))

end
