(* ===== verification/Heap.thy ===== *)
theory Heap
  imports Areas
begin

text \<open>
  The heap of free areas (\<open>malloc/heap.h\<close>, \<open>heap_alloc.c\<close>, \<open>heap_alloc_at.c\<close>, \<open>heap_free.c\<close>, the
  consistency check of \<open>heap_debug.c\<close>). A free area keeps its list node, a \<open>struct heap_free_area\<close>,
  in its last 24 bytes: \<open>size\<close> at offset 0, \<open>next\<close> at 8, \<open>prev\<close> at 16. \<open>heap\<close> is the address of the
  cell that holds the pointer to the first node. All routines work on the byte memory; a list walk
  is a \<open>partial_function (option)\<close>, so that a walk that would not end is \<open>None\<close>.
\<close>

section \<open>Sizes and node fields\<close>

definition HEAP_GRANULARITY :: addr where
  "HEAP_GRANULARITY = 8"

definition sizeof_heap_free_area :: addr where
  "sizeof_heap_free_area = 24"

definition HEAP_ADJUST_SIZE :: "addr \<Rightarrow> addr" where
  "HEAP_ADJUST_SIZE sz = (sz + HEAP_GRANULARITY - 1) AND NOT (HEAP_GRANULARITY - 1)"

definition HEAP_MIN_SIZE :: addr where
  "HEAP_MIN_SIZE = HEAP_ADJUST_SIZE sizeof_heap_free_area"

definition HEAP_MIN_FREE_AREA_SIZE :: addr where
  "HEAP_MIN_FREE_AREA_SIZE = HEAP_ADJUST_SIZE (sizeof_heap_free_area + 32)"

definition fa_size :: "mem \<Rightarrow> addr \<Rightarrow> addr" where
  "fa_size m fa = load64 m fa"

definition fa_next :: "mem \<Rightarrow> addr \<Rightarrow> addr" where
  "fa_next m fa = load64 m (fa + 8)"

definition fa_prev :: "mem \<Rightarrow> addr \<Rightarrow> addr" where
  "fa_prev m fa = load64 m (fa + 16)"

definition set_fa_size :: "addr \<Rightarrow> addr \<Rightarrow> mem \<Rightarrow> mem" where
  "set_fa_size fa v m = store64 m fa v"

definition set_fa_next :: "addr \<Rightarrow> addr \<Rightarrow> mem \<Rightarrow> mem" where
  "set_fa_next fa v m = store64 m (fa + 8) v"

definition set_fa_prev :: "addr \<Rightarrow> addr \<Rightarrow> mem \<Rightarrow> mem" where
  "set_fa_prev fa v m = store64 m (fa + 16) v"

definition HEAP_FREE_AREA_END :: "addr \<Rightarrow> addr" where
  "HEAP_FREE_AREA_END fa = fa + sizeof_heap_free_area"

definition HEAP_FREE_AREA_START :: "mem \<Rightarrow> addr \<Rightarrow> addr" where
  "HEAP_FREE_AREA_START m fa = fa + sizeof_heap_free_area - fa_size m fa"

definition HEAP_FREE_AREA_SIZE :: "mem \<Rightarrow> addr \<Rightarrow> addr" where
  "HEAP_FREE_AREA_SIZE m fa = fa_size m fa"

section \<open>List surgery\<close>

definition heap_delete :: "addr \<Rightarrow> addr \<Rightarrow> mem \<Rightarrow> mem" where
  "heap_delete heap fa m =
     (let m1 = (if fa_next m fa \<noteq> NULL then set_fa_prev (fa_next m fa) (fa_prev m fa) m else m)
      in if fa_prev m1 fa \<noteq> NULL then set_fa_next (fa_prev m1 fa) (fa_next m1 fa) m1
         else store64 m1 heap (fa_next m1 fa))"

definition heap_link_free_area :: "addr \<Rightarrow> addr \<Rightarrow> addr \<Rightarrow> addr \<Rightarrow> mem \<Rightarrow> mem" where
  "heap_link_free_area heap fa prev next m =
     (let m1 = set_fa_next fa next m;
          m2 = set_fa_prev fa prev m1;
          m3 = (if prev \<noteq> NULL then set_fa_next prev fa m2 else store64 m2 heap fa)
      in if next \<noteq> NULL then set_fa_prev next fa m3 else m3)"

definition heap_link_free_area_after :: "addr \<Rightarrow> addr \<Rightarrow> addr \<Rightarrow> mem \<Rightarrow> mem" where
  "heap_link_free_area_after heap fa prev m =
     (let m1 = (if prev \<noteq> NULL then set_fa_next prev fa m else store64 m heap fa)
      in set_fa_prev fa prev m1)"

definition heap_add_free_area ::
  "addr \<Rightarrow> addr \<Rightarrow> addr \<Rightarrow> addr \<Rightarrow> addr \<Rightarrow> mem \<Rightarrow> mem \<times> addr" where
  "heap_add_free_area heap mem sz prev next m =
     (let fa = mem + sz - sizeof_heap_free_area;
          m1 = set_fa_size fa sz m
      in (heap_link_free_area heap fa prev next m1, fa))"

definition heap_free_area_alloc :: "addr \<Rightarrow> addr \<Rightarrow> addr \<Rightarrow> mem \<Rightarrow> mem \<times> addr" where
  "heap_free_area_alloc heap fa sz m =
     (let fa_sz = fa_size m fa
      in if fa_sz < sz + HEAP_MIN_FREE_AREA_SIZE then (heap_delete heap fa m, fa_sz)
         else (set_fa_size fa (fa_sz - sz) m, sz))"

section \<open>Allocation\<close>

text \<open>The \<open>for\<close> loop of \<open>__heap_alloc\<close>: the first area of at least \<open>size\<close> bytes, or \<open>NULL\<close>.\<close>

partial_function (option) heap_alloc_search :: "mem \<Rightarrow> addr \<Rightarrow> addr \<Rightarrow> addr option" where
  "heap_alloc_search m sz fa =
     (if fa = NULL then Some NULL
      else if sz \<le> fa_size m fa then Some fa
      else heap_alloc_search m sz (fa_next m fa))"

text \<open>The result is the memory, the block (\<open>NULL\<close> on failure) and the value left in \<open>*size\<close>.\<close>

definition heap_alloc :: "addr \<Rightarrow> addr \<Rightarrow> mem \<Rightarrow> (mem \<times> addr \<times> addr) option" where
  "heap_alloc heap sz m =
     (let asz = HEAP_ADJUST_SIZE sz;
          asz = (if asz < sizeof_heap_free_area then HEAP_ADJUST_SIZE sizeof_heap_free_area else asz)
      in case heap_alloc_search m asz (load64 m heap) of
           None \<Rightarrow> None
         | Some fa \<Rightarrow>
             if fa = NULL then Some (m, NULL, sz)
             else (let mem = HEAP_FREE_AREA_START m fa;
                       (m', sz') = heap_free_area_alloc heap fa asz m
                   in Some (m', mem, sz')))"

text \<open>The loop of \<open>__heap_alloc_at\<close> stops at the first area that starts at or below \<open>mem\<close>.\<close>

partial_function (option) heap_alloc_at_search :: "mem \<Rightarrow> addr \<Rightarrow> addr \<Rightarrow> addr option" where
  "heap_alloc_at_search m mem fa =
     (if fa = NULL then Some NULL
      else if HEAP_FREE_AREA_START m fa \<le> mem then Some fa
      else heap_alloc_at_search m mem (fa_next m fa))"

definition heap_alloc_at :: "addr \<Rightarrow> addr \<Rightarrow> addr \<Rightarrow> mem \<Rightarrow> (mem \<times> addr) option" where
  "heap_alloc_at heap mem sz m =
     (let asz = HEAP_ADJUST_SIZE sz
      in case heap_alloc_at_search m mem (load64 m heap) of
           None \<Rightarrow> None
         | Some fa \<Rightarrow>
             if fa \<noteq> NULL \<and> HEAP_FREE_AREA_START m fa = mem \<and> asz \<le> fa_size m fa
             then Some (heap_free_area_alloc heap fa asz m)
             else Some (m, 0))"

section \<open>Returning a block\<close>

partial_function (option) heap_free_search ::
  "mem \<Rightarrow> addr \<Rightarrow> addr \<Rightarrow> addr \<Rightarrow> (addr \<times> addr) option" where
  "heap_free_search m mem prev_fa fa =
     (if fa = NULL then Some (prev_fa, fa)
      else if mem \<le> HEAP_FREE_AREA_END fa then Some (prev_fa, fa)
      else heap_free_search m mem fa (fa_next m fa))"

text \<open>The part of \<open>__heap_free\<close> after the search, with the \<open>prev_fa\<close> and \<open>fa\<close> it found.\<close>

definition heap_free_at :: "addr \<Rightarrow> addr \<Rightarrow> addr \<Rightarrow> addr \<Rightarrow> addr \<Rightarrow> mem \<Rightarrow> mem \<times> addr" where
  "heap_free_at heap mem sz prev_fa fa m =
     (let end = mem + sz
      in if fa \<noteq> NULL \<and> HEAP_FREE_AREA_START m fa \<le> end then
           (let fa_sz = fa_size m fa + sz
            in if HEAP_FREE_AREA_START m fa = end then
                 (if prev_fa \<noteq> NULL \<and> mem = HEAP_FREE_AREA_END prev_fa then
                    (let fa_sz = fa_sz + fa_size m prev_fa;
                         m1 = heap_link_free_area_after heap fa (fa_prev m prev_fa) m
                     in (set_fa_size fa fa_sz m1, fa))
                  else (set_fa_size fa fa_sz m, fa))
               else
                 (let next_fa = fa_next m fa
                  in if next_fa \<noteq> NULL \<and> end = HEAP_FREE_AREA_START m next_fa then
                       (let fa_sz = fa_sz + fa_size m next_fa;
                            m1 = heap_link_free_area_after heap next_fa prev_fa m;
                            fa = next_fa
                        in (set_fa_size fa fa_sz m1, fa))
                     else
                       (let fa = fa + sz;
                            m1 = heap_link_free_area heap fa prev_fa next_fa m
                        in (set_fa_size fa fa_sz m1, fa))))
         else heap_add_free_area heap mem sz prev_fa fa m)"

definition heap_free :: "addr \<Rightarrow> addr \<Rightarrow> addr \<Rightarrow> mem \<Rightarrow> (mem \<times> addr) option" where
  "heap_free heap mem sz m =
     (case heap_free_search m mem NULL (load64 m heap) of
        None \<Rightarrow> None
      | Some (prev_fa, fa) \<Rightarrow> Some (heap_free_at heap mem sz prev_fa fa m))"

section \<open>The consistency check\<close>

datatype heap_check_error =
    First_prev_nonzero | Alignment_error | Prev_corrupted | Unmerged | Overlaps

partial_function (option) heap_check_loop ::
  "mem \<Rightarrow> addr \<Rightarrow> addr \<Rightarrow> (heap_check_error + unit) option" where
  "heap_check_loop m prev fa =
     (if fa = NULL then Some (Inr ())
      else if HEAP_FREE_AREA_END fa AND (HEAP_GRANULARITY - 1) \<noteq> 0
              \<or> fa_size m fa AND (HEAP_GRANULARITY - 1) \<noteq> 0 then Some (Inl Alignment_error)
      else if fa_prev m fa \<noteq> prev then Some (Inl Prev_corrupted)
      else if prev \<noteq> NULL \<and> HEAP_FREE_AREA_START m fa \<le> HEAP_FREE_AREA_END prev
      then Some (Inl (if HEAP_FREE_AREA_END prev = HEAP_FREE_AREA_START m fa then Unmerged
                      else Overlaps))
      else heap_check_loop m fa (fa_next m fa))"

definition heap_check :: "addr \<Rightarrow> mem \<Rightarrow> (heap_check_error + unit) option" where
  "heap_check heap m =
     (if heap \<noteq> NULL \<and> fa_prev m heap \<noteq> NULL then Some (Inl First_prev_nonzero)
      else heap_check_loop m NULL heap)"

end
