(* ===== verification/Heap_Refine.thy ===== *)
theory Heap_Refine
  imports Heap
begin

text \<open>
  The pointer-level heap implements the abstract area lists. The free list is described by the
  numbers of its nodes: \<open>links\<close> says that a run of nodes is doubly linked, \<open>rep\<close> that it starts at
  the head cell. Three splice lemmas (link, link after, delete) carry every list update of the code;
  \<open>heap_inv\<close> is the invariant of the component and ties nodes and sizes to an area list.
\<close>

section \<open>Node fields do not interfere\<close>

definition node_at :: "nat \<Rightarrow> bool" where
  "node_at a \<longleftrightarrow> 8 dvd a \<and> 0 < a \<and> a + 24 < 2 ^ 64"

definition cell_at :: "nat \<Rightarrow> bool" where
  "cell_at h \<longleftrightarrow> 8 dvd h \<and> 0 < h \<and> h + 8 \<le> 2 ^ 64"

definition nodes_apart :: "nat \<Rightarrow> nat \<Rightarrow> bool" where
  "nodes_apart a b \<longleftrightarrow> a = b \<or> a + 24 \<le> b \<or> b + 24 \<le> a"

definition cell_apart :: "nat \<Rightarrow> nat \<Rightarrow> bool" where
  "cell_apart h a \<longleftrightarrow> h + 8 \<le> a \<or> a + 24 \<le> h"

lemmas set_fa_defs = set_fa_size_def set_fa_next_def set_fa_prev_def
lemmas get_fa_defs = fa_size_def fa_next_def fa_prev_def

lemma fa_rw [simp]:
  assumes "node_at a" "node_at b" "nodes_apart a b"
  shows "fa_size (set_fa_size (ptr a) v m) (ptr b) = (if a = b then v else fa_size m (ptr b))"
    and "fa_size (set_fa_next (ptr a) v m) (ptr b) = fa_size m (ptr b)"
    and "fa_size (set_fa_prev (ptr a) v m) (ptr b) = fa_size m (ptr b)"
    and "fa_next (set_fa_size (ptr a) v m) (ptr b) = fa_next m (ptr b)"
    and "fa_next (set_fa_next (ptr a) v m) (ptr b) = (if a = b then v else fa_next m (ptr b))"
    and "fa_next (set_fa_prev (ptr a) v m) (ptr b) = fa_next m (ptr b)"
    and "fa_prev (set_fa_size (ptr a) v m) (ptr b) = fa_prev m (ptr b)"
    and "fa_prev (set_fa_next (ptr a) v m) (ptr b) = fa_prev m (ptr b)"
    and "fa_prev (set_fa_prev (ptr a) v m) (ptr b) = (if a = b then v else fa_prev m (ptr b))"
  using assms
  unfolding node_at_def nodes_apart_def set_fa_defs get_fa_defs ptr_add_numeral
  by (subst load64_store64_aligned; auto)+

lemma cell_rw [simp]:
  assumes "cell_at h" "node_at b" "cell_apart h b"
  shows "load64 (set_fa_size (ptr b) v m) (ptr h) = load64 m (ptr h)"
    and "load64 (set_fa_next (ptr b) v m) (ptr h) = load64 m (ptr h)"
    and "load64 (set_fa_prev (ptr b) v m) (ptr h) = load64 m (ptr h)"
    and "fa_size (store64 m (ptr h) v) (ptr b) = fa_size m (ptr b)"
    and "fa_next (store64 m (ptr h) v) (ptr b) = fa_next m (ptr b)"
    and "fa_prev (store64 m (ptr h) v) (ptr b) = fa_prev m (ptr b)"
  using assms
  unfolding node_at_def cell_at_def cell_apart_def set_fa_defs get_fa_defs ptr_add_numeral
  by (subst load64_store64_aligned; auto)+

lemma node_at_ptr_not_NULL [simp]: "node_at a \<Longrightarrow> ptr a \<noteq> NULL"
  by (simp add: node_at_def ptr_eq_0)

lemma node_at_ptr_eq [simp]: "node_at a \<Longrightarrow> node_at b \<Longrightarrow> ptr a = ptr b \<longleftrightarrow> a = b"
  by (simp add: node_at_def ptr_eq)

section \<open>Linked runs of nodes\<close>

primrec first_nd :: "nat list \<Rightarrow> addr \<Rightarrow> addr" where
  "first_nd [] n = n"
| "first_nd (a # as) n = ptr a"

primrec last_nd :: "addr \<Rightarrow> nat list \<Rightarrow> addr" where
  "last_nd p [] = p"
| "last_nd p (a # as) = last_nd (ptr a) as"

primrec links :: "mem \<Rightarrow> addr \<Rightarrow> nat list \<Rightarrow> addr \<Rightarrow> bool" where
  "links m p [] n \<longleftrightarrow> True"
| "links m p (a # as) n \<longleftrightarrow>
     fa_prev m (ptr a) = p \<and> fa_next m (ptr a) = first_nd as n \<and> links m (ptr a) as n"

definition rep :: "mem \<Rightarrow> nat \<Rightarrow> nat list \<Rightarrow> addr \<Rightarrow> bool" where
  "rep m h ns n \<longleftrightarrow> load64 m (ptr h) = first_nd ns n \<and> links m NULL ns n"

fun nodes_sorted :: "nat list \<Rightarrow> bool" where
  "nodes_sorted [] \<longleftrightarrow> True"
| "nodes_sorted (a # as) \<longleftrightarrow> (\<forall>b \<in> set as. a + 24 \<le> b) \<and> nodes_sorted as"

definition wf_nodes :: "nat \<Rightarrow> nat list \<Rightarrow> bool" where
  "wf_nodes h ns \<longleftrightarrow> cell_at h \<and> (\<forall>a \<in> set ns. node_at a \<and> cell_apart h a) \<and> nodes_sorted ns"

lemma nodes_sorted_append:
  "nodes_sorted (as @ bs) \<longleftrightarrow>
     nodes_sorted as \<and> nodes_sorted bs \<and> (\<forall>a \<in> set as. \<forall>b \<in> set bs. a + 24 \<le> b)"
  by (induction as) auto

lemma wf_nodesD:
  assumes "wf_nodes h ns"
  shows "cell_at h" and "a \<in> set ns \<Longrightarrow> node_at a" and "a \<in> set ns \<Longrightarrow> cell_apart h a"
  using assms by (auto simp: wf_nodes_def)

lemma nodes_sorted_apart:
  "nodes_sorted ns \<Longrightarrow> a \<in> set ns \<Longrightarrow> b \<in> set ns \<Longrightarrow> nodes_apart a b"
  by (induction ns) (auto simp: nodes_apart_def)

lemma wf_nodes_apart: "wf_nodes h ns \<Longrightarrow> a \<in> set ns \<Longrightarrow> b \<in> set ns \<Longrightarrow> nodes_apart a b"
  by (auto simp: wf_nodes_def intro: nodes_sorted_apart)

lemma first_nd_append [simp]: "first_nd (as @ bs) n = first_nd as (first_nd bs n)"
  by (cases as) auto

lemma last_nd_append [simp]: "last_nd p (as @ bs) = last_nd (last_nd p as) bs"
  by (induction as arbitrary: p) auto

lemma links_append [simp]:
  "links m p (as @ bs) n \<longleftrightarrow> links m p as (first_nd bs n) \<and> links m (last_nd p as) bs n"
  by (induction as arbitrary: p) auto

lemma rep_append:
  "rep m h (as @ bs) n \<longleftrightarrow> rep m h as (first_nd bs n) \<and> links m (last_nd NULL as) bs n"
  by (auto simp: rep_def)

lemma links_cong:
  assumes "\<And>a. a \<in> set ns \<Longrightarrow> fa_next m' (ptr a) = fa_next m (ptr a)"
    and "\<And>a. a \<in> set ns \<Longrightarrow> fa_prev m' (ptr a) = fa_prev m (ptr a)"
  shows "links m' p ns n \<longleftrightarrow> links m p ns n"
  using assms by (induction ns arbitrary: p) auto

lemma rep_cong:
  assumes "\<And>a. a \<in> set ns \<Longrightarrow> fa_next m' (ptr a) = fa_next m (ptr a)"
    and "\<And>a. a \<in> set ns \<Longrightarrow> fa_prev m' (ptr a) = fa_prev m (ptr a)"
    and "load64 m' (ptr h) = load64 m (ptr h)"
  shows "rep m' h ns n \<longleftrightarrow> rep m h ns n"
  using links_cong [of ns m' m NULL n] assms by (simp add: rep_def)

text \<open>Redirecting the exit of a run that starts at the head cell.\<close>

definition set_succ :: "addr \<Rightarrow> addr \<Rightarrow> addr \<Rightarrow> mem \<Rightarrow> mem" where
  "set_succ heap prev v m = (if prev \<noteq> NULL then set_fa_next prev v m else store64 m heap v)"

definition set_pred :: "addr \<Rightarrow> addr \<Rightarrow> mem \<Rightarrow> mem" where
  "set_pred next v m = (if next \<noteq> NULL then set_fa_prev next v m else m)"

lemma wf_nodes_appendD:
  assumes "wf_nodes h (as @ bs)"
  shows "wf_nodes h as" and "wf_nodes h bs"
  using assms by (auto simp: wf_nodes_def nodes_sorted_append)

lemma wf_nodes_mid:
  assumes "wf_nodes h (as @ c # bs)"
  shows "node_at c" and "cell_apart h c" and "cell_at h"
    and "a \<in> set as \<union> set bs \<Longrightarrow> node_at a \<and> cell_apart h a \<and> nodes_apart a c \<and> nodes_apart c a \<and> a \<noteq> c"
  using assms by (auto simp: wf_nodes_def nodes_sorted_append nodes_apart_def)

lemma set_succ_rep:
  assumes "rep m h as n" and "wf_nodes h as"
  shows "rep (set_succ (ptr h) (last_nd NULL as) n' m) h as n'"
proof (cases as rule: rev_cases)
  case Nil
  then show ?thesis by (simp add: rep_def set_succ_def)
next
  case (snoc bs c)
  have wf: "wf_nodes h (bs @ [c])" using assms(2) snoc by simp
  let ?m = "set_fa_next (ptr c) n' m"
  have "rep ?m h bs (ptr c) \<longleftrightarrow> rep m h bs (ptr c)"
    using wf_nodes_mid [OF wf] by (intro rep_cong) auto
  with assms(1) snoc wf_nodes_mid [OF wf] show ?thesis
    by (simp add: set_succ_def rep_append nodes_apart_def)
qed

lemma set_pred_links:
  assumes "links m p bs NULL" and "wf_nodes h bs"
  shows "links (set_pred (first_nd bs NULL) p' m) p' bs NULL"
proof (cases bs)
  case Nil
  then show ?thesis by simp
next
  case (Cons c cs)
  have wf: "wf_nodes h ([] @ c # cs)" using assms(2) Cons by simp
  let ?m = "set_fa_prev (ptr c) p' m"
  have "links ?m (ptr c) cs NULL \<longleftrightarrow> links m (ptr c) cs NULL"
    using wf_nodes_mid [OF wf] by (intro links_cong) auto
  with assms(1) Cons wf_nodes_mid [OF wf] show ?thesis
    by (simp add: set_pred_def nodes_apart_def)
qed

text \<open>Where the two redirections write: at the last node before and the first node after.\<close>

lemma last_nd_cases:
  obtains "last_nd NULL as = NULL" "as = []" | a where "a \<in> set as" "last_nd NULL as = ptr a"
  by (cases as rule: rev_cases) auto

lemma first_nd_cases:
  obtains "first_nd bs NULL = NULL" "bs = []" | b where "b \<in> set bs" "first_nd bs NULL = ptr b"
  by (cases bs) auto

lemma set_succ_keeps [simp]:
  assumes "wf_nodes h as" and "node_at b" and "cell_apart h b" and "\<forall>a \<in> set as. nodes_apart a b"
  shows "fa_prev (set_succ (ptr h) (last_nd NULL as) v m) (ptr b) = fa_prev m (ptr b)"
    and "fa_size (set_succ (ptr h) (last_nd NULL as) v m) (ptr b) = fa_size m (ptr b)"
    and "b \<notin> set as \<Longrightarrow> fa_next (set_succ (ptr h) (last_nd NULL as) v m) (ptr b) = fa_next m (ptr b)"
proof -
  note wf = wf_nodesD [OF assms(1)]
  show "fa_prev (set_succ (ptr h) (last_nd NULL as) v m) (ptr b) = fa_prev m (ptr b)"
    using assms wf by (cases rule: last_nd_cases [of as]) (auto simp: set_succ_def)
  show "fa_size (set_succ (ptr h) (last_nd NULL as) v m) (ptr b) = fa_size m (ptr b)"
    using assms wf by (cases rule: last_nd_cases [of as]) (auto simp: set_succ_def)
  show "fa_next (set_succ (ptr h) (last_nd NULL as) v m) (ptr b) = fa_next m (ptr b)"
    if "b \<notin> set as"
    using assms wf that by (cases rule: last_nd_cases [of as]) (auto simp: set_succ_def)
qed

lemma set_pred_keeps [simp]:
  assumes "wf_nodes h bs" and "node_at b" and "\<forall>c \<in> set bs. nodes_apart c b"
  shows "fa_next (set_pred (first_nd bs NULL) v m) (ptr b) = fa_next m (ptr b)"
    and "fa_size (set_pred (first_nd bs NULL) v m) (ptr b) = fa_size m (ptr b)"
    and "b \<notin> set bs \<Longrightarrow> fa_prev (set_pred (first_nd bs NULL) v m) (ptr b) = fa_prev m (ptr b)"
proof -
  note wf = wf_nodesD [OF assms(1)]
  show "fa_next (set_pred (first_nd bs NULL) v m) (ptr b) = fa_next m (ptr b)"
    using assms wf by (cases rule: first_nd_cases [of bs]) (auto simp: set_pred_def)
  show "fa_size (set_pred (first_nd bs NULL) v m) (ptr b) = fa_size m (ptr b)"
    using assms wf by (cases rule: first_nd_cases [of bs]) (auto simp: set_pred_def)
  show "fa_prev (set_pred (first_nd bs NULL) v m) (ptr b) = fa_prev m (ptr b)" if "b \<notin> set bs"
    using assms wf that by (cases rule: first_nd_cases [of bs]) (auto simp: set_pred_def)
qed

lemma set_pred_head [simp]:
  "wf_nodes h bs \<Longrightarrow> load64 (set_pred (first_nd bs NULL) v m) (ptr h) = load64 m (ptr h)"
  using wf_nodesD [of h bs] by (cases rule: first_nd_cases [of bs]) (auto simp: set_pred_def)

section \<open>The three splices\<close>

text \<open>
  In each lemma the list is \<open>as @ c # bs\<close>: the nodes before, the node the routine is called for and
  the nodes after. What the memory held between \<open>as\<close> and \<open>bs\<close> before does not matter.
\<close>

lemma wf_nodes_splits:
  assumes "wf_nodes h (as @ c # bs)"
  shows "wf_nodes h as" and "wf_nodes h bs" and "wf_nodes h (as @ bs)" and "c \<notin> set as" and "c \<notin> set bs"
    and "a \<in> set bs \<Longrightarrow> a \<notin> set as" and "a \<in> set as \<Longrightarrow> a \<notin> set bs"
proof -
  show "wf_nodes h as" and "wf_nodes h bs" and "wf_nodes h (as @ bs)" and "c \<notin> set as" and "c \<notin> set bs"
    using assms by (auto simp: wf_nodes_def nodes_sorted_append)
  show "a \<notin> set as" if "a \<in> set bs"
    using assms that by (fastforce simp: wf_nodes_def nodes_sorted_append)
  then show "a \<notin> set bs" if "a \<in> set as" using that by blast
qed

lemma wf_nodes_ball:
  assumes "wf_nodes h (as @ c # bs)" and "b \<in> set (as @ c # bs)"
  shows "node_at b" and "cell_apart h b" and "\<forall>a \<in> set as. nodes_apart a b"
    and "\<forall>a \<in> set bs. nodes_apart a b" and "nodes_apart c b"
  using assms wf_nodes_apart [OF assms(1)] wf_nodesD [OF assms(1)] by auto

lemma link_unfold:
  "heap_link_free_area heap fa prev next m =
     set_pred next fa (set_succ heap prev fa (set_fa_prev fa prev (set_fa_next fa next m)))"
  by (simp add: heap_link_free_area_def set_pred_def set_succ_def Let_def)

lemma link_after_unfold:
  "heap_link_free_area_after heap fa prev m = set_fa_prev fa prev (set_succ heap prev fa m)"
  by (simp add: heap_link_free_area_after_def set_succ_def Let_def)

lemma delete_unfold:
  "heap_delete heap fa m =
     (let m1 = set_pred (fa_next m fa) (fa_prev m fa) m
      in set_succ heap (fa_prev m1 fa) (fa_next m1 fa) m1)"
  by (simp add: heap_delete_def set_pred_def set_succ_def Let_def)

lemma set_succ_mid:
  assumes wf: "wf_nodes h (as @ c # bs)" and "rep m h as x" and "links m y bs NULL"
  shows "rep (set_succ (ptr h) (last_nd NULL as) v m) h as v"
    and "links (set_succ (ptr h) (last_nd NULL as) v m) y bs NULL"
proof -
  note sp = wf_nodes_splits [OF wf] and bl = wf_nodes_ball [OF wf]
  show "rep (set_succ (ptr h) (last_nd NULL as) v m) h as v"
    using assms(2) sp(1) by (rule set_succ_rep)
  show "links (set_succ (ptr h) (last_nd NULL as) v m) y bs NULL"
    using assms(3) sp bl by (subst links_cong) auto
qed

lemma set_pred_mid:
  assumes wf: "wf_nodes h (as @ c # bs)" and "rep m h as x" and "links m y bs NULL"
  shows "rep (set_pred (first_nd bs NULL) v m) h as x"
    and "links (set_pred (first_nd bs NULL) v m) v bs NULL"
proof -
  note sp = wf_nodes_splits [OF wf] and bl = wf_nodes_ball [OF wf]
  show "rep (set_pred (first_nd bs NULL) v m) h as x"
    using assms(2) sp bl by (subst rep_cong) auto
  show "links (set_pred (first_nd bs NULL) v m) v bs NULL"
    using assms(3) sp(2) by (rule set_pred_links)
qed

lemma set_mid_fields:
  assumes wf: "wf_nodes h (as @ c # bs)" and "rep m h as x" and "links m y bs NULL"
  shows "rep (set_fa_next (ptr c) v m) h as x" and "rep (set_fa_prev (ptr c) v m) h as x"
    and "rep (set_fa_size (ptr c) v m) h as x"
    and "links (set_fa_next (ptr c) v m) y bs NULL" and "links (set_fa_prev (ptr c) v m) y bs NULL"
    and "links (set_fa_size (ptr c) v m) y bs NULL"
proof -
  note mid = wf_nodes_mid [OF wf]
  show "rep (set_fa_next (ptr c) v m) h as x"
    using assms(2) mid by (subst rep_cong) auto
  show "rep (set_fa_prev (ptr c) v m) h as x"
    using assms(2) mid by (subst rep_cong) auto
  show "rep (set_fa_size (ptr c) v m) h as x"
    using assms(2) mid by (subst rep_cong) auto
  show "links (set_fa_next (ptr c) v m) y bs NULL"
    using assms(3) mid by (subst links_cong) auto
  show "links (set_fa_prev (ptr c) v m) y bs NULL"
    using assms(3) mid by (subst links_cong) auto
  show "links (set_fa_size (ptr c) v m) y bs NULL"
    using assms(3) mid by (subst links_cong) auto
qed

lemma link_splice:
  assumes wf: "wf_nodes h (as @ c # bs)" and "rep m h as x" and "links m y bs NULL"
  shows "rep (heap_link_free_area (ptr h) (ptr c) (last_nd NULL as) (first_nd bs NULL) m)
           h (as @ c # bs) NULL"
proof -
  let ?m1 = "set_fa_next (ptr c) (first_nd bs NULL) m"
  let ?m2 = "set_fa_prev (ptr c) (last_nd NULL as) ?m1"
  let ?m3 = "set_succ (ptr h) (last_nd NULL as) (ptr c) ?m2"
  note sp = wf_nodes_splits [OF wf] and bl = wf_nodes_ball [OF wf]
  have 1: "rep ?m1 h as x" "links ?m1 y bs NULL"
    using set_mid_fields [OF assms] by auto
  have 2: "rep ?m2 h as x" "links ?m2 y bs NULL"
    using set_mid_fields [OF wf 1] by auto
  have 3: "rep ?m3 h as (ptr c)" "links ?m3 y bs NULL"
    using set_succ_mid [OF wf 2] by auto
  have 4: "rep (set_pred (first_nd bs NULL) (ptr c) ?m3) h as (ptr c)"
    "links (set_pred (first_nd bs NULL) (ptr c) ?m3) (ptr c) bs NULL"
    using set_pred_mid [OF wf 3] by auto
  show ?thesis
    using 4 sp bl [of c] by (simp add: link_unfold rep_append)
qed

lemma link_after_splice:
  assumes wf: "wf_nodes h (as @ c # bs)" and "rep m h as x" and "links m (ptr c) bs NULL"
    and nx: "fa_next m (ptr c) = first_nd bs NULL"
  shows "rep (heap_link_free_area_after (ptr h) (ptr c) (last_nd NULL as) m) h (as @ c # bs) NULL"
proof -
  let ?m1 = "set_succ (ptr h) (last_nd NULL as) (ptr c) m"
  note sp = wf_nodes_splits [OF wf] and bl = wf_nodes_ball [OF wf]
  have 1: "rep ?m1 h as (ptr c)" "links ?m1 (ptr c) bs NULL"
    using set_succ_mid [OF assms(1-3)] by auto
  have "rep (set_fa_prev (ptr c) (last_nd NULL as) ?m1) h as (ptr c)"
    "links (set_fa_prev (ptr c) (last_nd NULL as) ?m1) (ptr c) bs NULL"
    using set_mid_fields [OF wf 1] by auto
  then show ?thesis
    using nx sp bl [of c] by (simp add: link_after_unfold rep_append)
qed

lemma delete_splice:
  assumes wf: "wf_nodes h (as @ c # bs)" and "rep m h (as @ c # bs) NULL"
  shows "rep (heap_delete (ptr h) (ptr c) m) h (as @ bs) NULL"
proof -
  note sp = wf_nodes_splits [OF wf] and bl = wf_nodes_ball [OF wf]
  have m: "rep m h as (ptr c)" "links m (ptr c) bs NULL" "fa_prev m (ptr c) = last_nd NULL as"
    "fa_next m (ptr c) = first_nd bs NULL"
    using assms(2) by (auto simp: rep_append)
  let ?m1 = "set_pred (first_nd bs NULL) (last_nd NULL as) m"
  have m1: "rep ?m1 h as (ptr c)" "links ?m1 (last_nd NULL as) bs NULL"
    using set_pred_mid [OF wf m(1,2)] by auto
  have "fa_prev ?m1 (ptr c) = last_nd NULL as" "fa_next ?m1 (ptr c) = first_nd bs NULL"
    using m sp bl [of c] by auto
  then have "heap_delete (ptr h) (ptr c) m = set_succ (ptr h) (last_nd NULL as) (first_nd bs NULL) ?m1"
    using m by (simp add: delete_unfold Let_def)
  then show ?thesis
    using set_succ_mid [OF wf m1] by (simp add: rep_append)
qed

lemma rep_set_size:
  assumes "wf_nodes h ns" and "c \<in> set ns"
  shows "rep (set_fa_size (ptr c) v m) h ns n \<longleftrightarrow> rep m h ns n"
  using wf_nodesD [OF assms(1)] wf_nodes_apart [OF assms] assms(2) by (intro rep_cong) auto

section \<open>Sizes and frame of the splices\<close>

lemma splice_sizes [simp]:
  assumes "wf_nodes h (as @ c # bs)" and "b \<in> set (as @ c # bs)"
  shows "fa_size (heap_link_free_area (ptr h) (ptr c) (last_nd NULL as) (first_nd bs NULL) m) (ptr b)
           = fa_size m (ptr b)"
    and "fa_size (heap_link_free_area_after (ptr h) (ptr c) (last_nd NULL as) m) (ptr b)
           = fa_size m (ptr b)"
  using wf_nodes_splits [OF assms(1)] wf_nodes_ball [OF assms] wf_nodes_mid [OF assms(1)]
  by (simp_all add: link_unfold link_after_unfold)

lemma delete_sizes:
  assumes wf: "wf_nodes h (as @ c # bs)" and "rep m h (as @ c # bs) NULL" and b: "b \<in> set (as @ c # bs)"
  shows "fa_size (heap_delete (ptr h) (ptr c) m) (ptr b) = fa_size m (ptr b)"
proof -
  note sp = wf_nodes_splits [OF wf] and bc = wf_nodes_ball [OF wf, of c] and bb = wf_nodes_ball [OF wf b]
  have "fa_prev m (ptr c) = last_nd NULL as" "fa_next m (ptr c) = first_nd bs NULL"
    using assms(2) by (auto simp: rep_append)
  then show ?thesis
    using sp bc bb by (simp add: delete_unfold Let_def)
qed

lemma unchanged_set_fa:
  assumes "node_at a" and "{a ..< a + 24} \<subseteq> S"
  shows "unchanged_outside S m (set_fa_size (ptr a) v m)"
    and "unchanged_outside S m (set_fa_next (ptr a) v m)"
    and "unchanged_outside S m (set_fa_prev (ptr a) v m)"
proof -
  have cell: "unchanged_outside S m (store64 m (ptr (a + k)) v)" if "k \<le> 16" for k
    using assms that by (intro unchanged_store64) (auto simp: node_at_def subset_iff)
  show "unchanged_outside S m (set_fa_size (ptr a) v m)"
    using cell [of 0] by (simp add: set_fa_size_def)
  show "unchanged_outside S m (set_fa_next (ptr a) v m)"
    using cell [of 8] by (simp add: set_fa_next_def)
  show "unchanged_outside S m (set_fa_prev (ptr a) v m)"
    using cell [of 16] by (simp add: set_fa_prev_def)
qed

lemma unchanged_set_succ:
  assumes "wf_nodes h as" and "\<forall>a \<in> set as. {a ..< a + 24} \<subseteq> S" and "{h ..< h + 8} \<subseteq> S"
  shows "unchanged_outside S m (set_succ (ptr h) (last_nd NULL as) v m)"
  using assms wf_nodesD [OF assms(1)]
  by (cases rule: last_nd_cases [of as])
    (auto simp: set_succ_def cell_at_def unchanged_set_fa unchanged_store64)

lemma unchanged_set_pred:
  assumes "wf_nodes h bs" and "\<forall>a \<in> set bs. {a ..< a + 24} \<subseteq> S"
  shows "unchanged_outside S m (set_pred (first_nd bs NULL) v m)"
  using assms wf_nodesD [OF assms(1)]
  by (cases rule: first_nd_cases [of bs]) (auto simp: set_pred_def unchanged_set_fa)

lemma unchanged_link:
  assumes wf: "wf_nodes h (as @ c # bs)"
    and S: "\<forall>a \<in> set (as @ c # bs). {a ..< a + 24} \<subseteq> S" "{h ..< h + 8} \<subseteq> S"
  shows "unchanged_outside S m
      (heap_link_free_area (ptr h) (ptr c) (last_nd NULL as) (first_nd bs NULL) m)"
    and "unchanged_outside S m (heap_link_free_area_after (ptr h) (ptr c) (last_nd NULL as) m)"
proof -
  note sp = wf_nodes_splits [OF wf] and c = wf_nodes_mid(1) [OF wf]
  have S': "\<forall>a \<in> set as. {a ..< a + 24} \<subseteq> S" "\<forall>a \<in> set bs. {a ..< a + 24} \<subseteq> S" "{c ..< c + 24} \<subseteq> S"
    using S(1) by simp_all
  note succ = unchanged_set_succ [OF sp(1) S'(1) S(2)] and pred = unchanged_set_pred [OF sp(2) S'(2)]
    and fa = unchanged_set_fa [OF c S'(3)]
  show "unchanged_outside S m
      (heap_link_free_area (ptr h) (ptr c) (last_nd NULL as) (first_nd bs NULL) m)"
    unfolding link_unfold
    by (rule unchanged_trans [OF unchanged_trans [OF unchanged_trans [OF fa(2) fa(3)] succ] pred])
  show "unchanged_outside S m (heap_link_free_area_after (ptr h) (ptr c) (last_nd NULL as) m)"
    unfolding link_after_unfold by (rule unchanged_trans [OF succ fa(3)])
qed

lemma unchanged_delete:
  assumes wf: "wf_nodes h (as @ c # bs)" and "rep m h (as @ c # bs) NULL"
    and S: "\<forall>a \<in> set (as @ c # bs). {a ..< a + 24} \<subseteq> S" "{h ..< h + 8} \<subseteq> S"
  shows "unchanged_outside S m (heap_delete (ptr h) (ptr c) m)"
proof -
  note sp = wf_nodes_splits [OF wf] and bc = wf_nodes_ball [OF wf, of c]
  have fields: "fa_prev m (ptr c) = last_nd NULL as" "fa_next m (ptr c) = first_nd bs NULL"
    using assms(2) by (auto simp: rep_append)
  have S': "\<forall>a \<in> set as. {a ..< a + 24} \<subseteq> S" "\<forall>a \<in> set bs. {a ..< a + 24} \<subseteq> S"
    using S(1) by simp_all
  have "heap_delete (ptr h) (ptr c) m =
      set_succ (ptr h) (last_nd NULL as) (first_nd bs NULL)
        (set_pred (first_nd bs NULL) (last_nd NULL as) m)"
    using fields sp bc by (simp add: delete_unfold Let_def)
  then show ?thesis
    using unchanged_trans [OF unchanged_set_pred [OF sp(2) S'(2)] unchanged_set_succ [OF sp(1) S'(1) S(2)]]
    by simp
qed

end
