(* ===== verification/Heap_Correct.thy ===== *)
theory Heap_Correct
  imports Heap_Refine
begin

text \<open>
  The invariant of the heap and the correctness of its operations: allocation is first fit on the
  abstract area list, returning a block merges it with its neighbours, both leave memory outside the
  heap alone. The walks of the code end on every heap that satisfies the invariant.
\<close>

section \<open>The heap invariant\<close>

definition nn :: "area \<Rightarrow> nat" where
  "nn A = fst A + snd A - 24"

definition sizes_ok :: "mem \<Rightarrow> area list \<Rightarrow> bool" where
  "sizes_ok m As \<longleftrightarrow> list_all (\<lambda>A. fa_size m (ptr (nn A)) = ptr (snd A)) As"

definition heap_inv :: "mem \<Rightarrow> nat \<Rightarrow> area list \<Rightarrow> bool" where
  "heap_inv m h As \<longleftrightarrow>
     areas_ok As \<and> cell_at h \<and> block_apart h 8 As \<and> rep m h (map nn As) NULL \<and> sizes_ok m As"

lemma sizes_ok_simps [simp]:
  "sizes_ok m []"
  "sizes_ok m (A # As) \<longleftrightarrow> fa_size m (ptr (nn A)) = ptr (snd A) \<and> sizes_ok m As"
  "sizes_ok m (As @ Bs) \<longleftrightarrow> sizes_ok m As \<and> sizes_ok m Bs"
  by (simp_all add: sizes_ok_def)

lemma sizes_ok_cong:
  "(\<And>A. A \<in> set As \<Longrightarrow> fa_size m' (ptr (nn A)) = fa_size m (ptr (nn A))) \<Longrightarrow>
     sizes_ok m' As \<longleftrightarrow> sizes_ok m As"
  by (induction As) auto

lemma area_ok_node:
  assumes "area_ok A"
  shows "node_at (nn A)" and "nn A + 24 = fst A + snd A" and "fst A \<le> nn A"
    and "{nn A ..< nn A + 24} \<subseteq> {fst A ..< fst A + snd A}"
  using assms by (auto simp: area_ok_def node_at_def nn_def dvd_diff_nat)

lemma areas_ok_nodes_sorted: "areas_ok As \<Longrightarrow> nodes_sorted (map nn As)"
proof (induction As)
  case Nil
  then show ?case by simp
next
  case (Cons A As)
  have "nn A + 24 \<le> nn B" if "B \<in> set As" for B
    using Cons.prems that area_ok_node [of A] area_ok_node [of B] areas_ok_area [of As B]
      aboveD [of "fst A + snd A" As B] by auto
  with Cons show ?case by auto
qed

lemma wf_nodes_areas:
  assumes "areas_ok As" and "cell_at h" and "block_apart h 8 As"
  shows "wf_nodes h (map nn As)"
proof -
  have "node_at (nn A) \<and> cell_apart h (nn A)" if "A \<in> set As" for A
    using that areas_ok_area [OF assms(1) that] assms(3) area_ok_node [of A]
    by (auto simp: cell_apart_def block_apart_def list_all_iff)
  with assms show ?thesis
    by (auto simp: wf_nodes_def areas_ok_nodes_sorted)
qed

lemma area_bounds [simp]:
  assumes "area_ok A"
  shows "HEAP_FREE_AREA_END (ptr (nn A)) = ptr (fst A + snd A)"
    and "fa_size m (ptr (nn A)) = ptr (snd A) \<Longrightarrow> HEAP_FREE_AREA_START m (ptr (nn A)) = ptr (fst A)"
proof -
  have e: "ptr (nn A) + sizeof_heap_free_area = ptr (fst A + snd A)"
    unfolding sizeof_heap_free_area_def ptr_add_numeral area_ok_node(2) [OF assms] ..
  then show "HEAP_FREE_AREA_END (ptr (nn A)) = ptr (fst A + snd A)"
    by (simp add: HEAP_FREE_AREA_END_def)
  show "HEAP_FREE_AREA_START m (ptr (nn A)) = ptr (fst A)"
    if "fa_size m (ptr (nn A)) = ptr (snd A)"
    using that e by (simp add: HEAP_FREE_AREA_START_def)
qed

lemma area_ok_ptr:
  assumes "area_ok A"
  shows "ptr (nn A) \<noteq> NULL" and "fst A < 2 ^ 64" and "snd A < 2 ^ 64" and "fst A + snd A < 2 ^ 64"
  using assms area_ok_node(1) [OF assms] by (auto simp: area_ok_def)

section \<open>The walks of the free list\<close>

lemma heap_alloc_search_areas:
  assumes "\<forall>A \<in> set As. area_ok A" and "links m p (map nn As) NULL" and "sizes_ok m As" and "z < 2 ^ 64"
  shows "heap_alloc_search m (ptr z) (first_nd (map nn As) NULL) =
           Some (case find (\<lambda>A. z \<le> snd A) As of None \<Rightarrow> NULL | Some A \<Rightarrow> ptr (nn A))"
  using assms
proof (induction As arbitrary: p)
  case Nil
  then show ?case by (simp add: heap_alloc_search.simps)
next
  case (Cons A As)
  then have "area_ok A" by simp
  note A = area_ok_ptr [OF this]
  show ?case
  proof (cases "z \<le> snd A")
    case True
    with Cons.prems A show ?thesis
      by (subst heap_alloc_search.simps) (simp add: ptr_le)
  next
    case False
    with Cons.prems A Cons.IH [of "ptr (nn A)"] show ?thesis
      by (subst heap_alloc_search.simps) (simp add: ptr_le)
  qed
qed

lemma heap_alloc_at_search_areas:
  assumes "\<forall>A \<in> set As. area_ok A" and "links m p (map nn As) NULL" and "sizes_ok m As" and "b < 2 ^ 64"
  shows "heap_alloc_at_search m (ptr b) (first_nd (map nn As) NULL) =
           Some (case find (\<lambda>A. fst A \<le> b) As of None \<Rightarrow> NULL | Some A \<Rightarrow> ptr (nn A))"
  using assms
proof (induction As arbitrary: p)
  case Nil
  then show ?case by (simp add: heap_alloc_at_search.simps)
next
  case (Cons A As)
  then have ok: "area_ok A" by simp
  note A = area_ok_ptr [OF ok]
  show ?case
  proof (cases "fst A \<le> b")
    case True
    with Cons.prems A ok show ?thesis
      by (subst heap_alloc_at_search.simps) (simp add: ptr_le)
  next
    case False
    with Cons.prems A ok Cons.IH [of "ptr (nn A)"] show ?thesis
      by (subst heap_alloc_at_search.simps) (simp add: ptr_le)
  qed
qed

lemma heap_free_search_areas:
  assumes "\<forall>A \<in> set As. area_ok A \<and> fst A + snd A < b" and "links m p (map nn (As @ Bs)) NULL"
    and "b < 2 ^ 64" and "case Bs of [] \<Rightarrow> True | B # _ \<Rightarrow> area_ok B \<and> b \<le> fst B + snd B"
  shows "heap_free_search m (ptr b) p (first_nd (map nn (As @ Bs)) NULL) =
           Some (last_nd p (map nn As), first_nd (map nn Bs) NULL)"
  using assms
proof (induction As arbitrary: p)
  case Nil
  then show ?case
    by (subst heap_free_search.simps) (auto simp: area_ok_ptr ptr_le dest: area_ok_ptr(4) split: list.splits)
next
  case (Cons A As)
  then have ok: "area_ok A" by simp
  note A = area_ok_ptr [OF ok]
  from Cons.prems A ok Cons.IH [of "ptr (nn A)"] show ?case
    by (subst heap_free_search.simps) (simp add: ptr_le)
qed

section \<open>Rounding sizes\<close>

definition adjust :: "nat \<Rightarrow> nat" where
  "adjust z = (z + 7) div 8 * 8"

lemma HEAP_ADJUST_SIZE_ptr:
  assumes "z + 7 < 2 ^ 64"
  shows "HEAP_ADJUST_SIZE (ptr z) = ptr (adjust z)"
proof -
  have "HEAP_ADJUST_SIZE (ptr z) = ptr (z + 7) AND NOT (8 - 1)"
    by (simp add: HEAP_ADJUST_SIZE_def HEAP_GRANULARITY_def ptr_diff_1 add.commute)
  also have "\<dots> = ptr (unat (ptr (z + 7)) div 2 ^ 3 * 2 ^ 3)"
    by (rule round_down_pow2) simp
  finally show ?thesis
    using assms by (simp add: unat_ptr adjust_def)
qed

lemma adjust_bounds: "z \<le> adjust z" "adjust z < z + 8" "8 dvd adjust z"
  unfolding adjust_def by presburger+

lemma adjust_dvd: "8 dvd z \<Longrightarrow> adjust z = z"
  by (auto simp: adjust_def)

lemma HEAP_ADJUST_SIZE_24 [simp]: "HEAP_ADJUST_SIZE 24 = 24"
  using HEAP_ADJUST_SIZE_ptr [of 24] by (simp add: adjust_def)

lemma HEAP_MIN_SIZE_eq [simp]: "HEAP_MIN_SIZE = 24"
  by (simp add: HEAP_MIN_SIZE_def sizeof_heap_free_area_def)

lemma HEAP_MIN_FREE_AREA_SIZE_eq [simp]: "HEAP_MIN_FREE_AREA_SIZE = 56"
  using HEAP_ADJUST_SIZE_ptr [of 56]
  by (simp add: HEAP_MIN_FREE_AREA_SIZE_def sizeof_heap_free_area_def adjust_def)

section \<open>Allocating from one area\<close>

lemma alloc_area_skip:
  "\<forall>A \<in> set As. snd A < z \<Longrightarrow>
     alloc_area z (As @ Bs) = map_option (\<lambda>(b, k, Cs). (b, k, As @ Cs)) (alloc_area z Bs)"
  by (induction As) (auto simp: option.map_comp comp_def split_beta' option.map_ident)

lemma heap_invD:
  assumes "heap_inv m h As"
  shows "areas_ok As" and "\<forall>A \<in> set As. area_ok A" and "wf_nodes h (map nn As)"
    and "rep m h (map nn As) NULL" and "sizes_ok m As" and "links m NULL (map nn As) NULL"
    and "load64 m (ptr h) = first_nd (map nn As) NULL" and "cell_at h" and "block_apart h 8 As"
  using assms by (auto simp: heap_inv_def rep_def areas_ok_area wf_nodes_areas)

lemma heap_inv_frame:
  assumes "A \<in> set As" and "areas_ok As"
  shows "{nn A ..< nn A + 24} \<subseteq> bytes As"
  using assms area_ok_node(4) [OF areas_ok_area [OF assms(2,1)]] by (auto simp: bytes_def)

lemma heap_inv_frame_nodes:
  assumes "areas_ok As" and "bytes As \<subseteq> S"
  shows "\<forall>a \<in> set (map nn As). {a ..< a + 24} \<subseteq> S"
  using assms heap_inv_frame by fastforce

lemma heap_free_area_alloc_correct:
  assumes inv: "heap_inv m h (As @ (s, n) # Bs)" and z: "z \<le> n" "8 dvd z" "0 < z"
    and S: "bytes (As @ (s, n) # Bs) \<union> {h ..< h + 8} \<subseteq> S"
  shows "\<exists>m'. heap_free_area_alloc (ptr h) (ptr (nn (s, n))) (ptr z) m =
             (m', ptr (if n < z + 56 then n else z)) \<and>
           heap_inv m' h (if n < z + 56 then As @ Bs else As @ (s + z, n - z) # Bs) \<and>
           unchanged_outside S m m'"
proof -
  note I = heap_invD [OF inv]
  have ok: "area_ok (s, n)" using I(2) by simp
  have sz: "fa_size m (ptr (nn (s, n))) = ptr n" using I(5) by simp
  have wf: "wf_nodes h (map nn As @ nn (s, n) # map nn Bs)" using I(3) by simp
  have S': "\<forall>a \<in> set (map nn As @ nn (s, n) # map nn Bs). {a ..< a + 24} \<subseteq> S" "{h ..< h + 8} \<subseteq> S"
    using heap_inv_frame_nodes [OF I(1), of S] S by simp_all
  have lt: "ptr n < ptr z + 56 \<longleftrightarrow> n < z + 56"
    using ok z by (simp add: ptr_less area_ok_def)
  show ?thesis
  proof (cases "n < z + 56")
    case True
    let ?m = "heap_delete (ptr h) (ptr (nn (s, n))) m"
    have rep: "rep m h (map nn As @ nn (s, n) # map nn Bs) NULL" using I(4) by simp
    have "sizes_ok ?m (As @ Bs) \<longleftrightarrow> sizes_ok m (As @ Bs)"
      by (rule sizes_ok_cong) (use delete_sizes [OF wf rep] in auto)
    moreover have "rep ?m h (map nn (As @ Bs)) NULL"
      using delete_splice [OF wf rep] by simp
    ultimately have "heap_inv ?m h (As @ Bs)"
      using I by (auto simp: heap_inv_def areas_ok_append)
    moreover have "unchanged_outside S m ?m"
      using unchanged_delete [OF wf rep S'] .
    ultimately show ?thesis
      using True sz lt by (simp add: heap_free_area_alloc_def)
  next
    case False
    let ?m = "set_fa_size (ptr (nn (s, n))) (ptr (n - z)) m"
    let ?C = "(s + z, n - z)"
    have nn: "nn ?C = nn (s, n)" using z by (simp add: nn_def)
    have C: "area_ok ?C" using ok z False by (auto simp: area_ok_def dvd_add)
    note mid = wf_nodes_mid [OF wf]
    have "fa_size ?m (ptr (nn A)) = fa_size m (ptr (nn A))" if "A \<in> set (As @ Bs)" for A
      using mid(1) mid(4) [of "nn A"] that by auto
    then have "sizes_ok ?m (As @ Bs) \<longleftrightarrow> sizes_ok m (As @ Bs)"
      by (rule sizes_ok_cong)
    moreover have "rep ?m h (map nn As @ nn (s, n) # map nn Bs) NULL"
      using rep_set_size [OF wf, of "nn (s, n)"] I(4) by simp
    moreover have "areas_ok (As @ ?C # Bs)" "block_apart h 8 (As @ ?C # Bs)"
      using I(1,9) C z by (auto simp: areas_ok_append)
    ultimately have "heap_inv ?m h (As @ ?C # Bs)"
      using I mid nn by (auto simp: heap_inv_def nodes_apart_def)
    moreover have "unchanged_outside S m ?m"
      using S'(1) mid(1) by (intro unchanged_set_fa) auto
    ultimately show ?thesis
      using False sz lt z by (simp add: heap_free_area_alloc_def)
  qed
qed

section \<open>Allocation is first fit\<close>

definition request :: "nat \<Rightarrow> nat" where
  "request z = max 24 (adjust z)"

lemma request_bounds: "z \<le> request z" "24 \<le> request z" "8 dvd request z" "request z \<le> z + 24"
  using adjust_bounds [of z] by (auto simp: request_def max_def)

lemma adjusted_request:
  assumes "z + 7 < 2 ^ 64"
  shows "(if HEAP_ADJUST_SIZE (ptr z) < sizeof_heap_free_area
          then HEAP_ADJUST_SIZE sizeof_heap_free_area else HEAP_ADJUST_SIZE (ptr z)) = ptr (request z)"
proof -
  have "adjust z < 2 ^ 64" using assms by (auto simp: adjust_def)
  with assms show ?thesis
    by (simp add: HEAP_ADJUST_SIZE_ptr sizeof_heap_free_area_def request_def ptr_less_numeral max_def)
qed

lemma alloc_area_find:
  "alloc_area z As = None \<Longrightarrow> find (\<lambda>A. z \<le> snd A) As = None"
  by (auto simp: alloc_area_None find_None_iff not_le)

lemma alloc_area_split:
  assumes "alloc_area z As = Some (b, k, Cs)"
  obtains As1 n As2 where "As = As1 @ (b, n) # As2" and "\<forall>A \<in> set As1. snd A < z" and "z \<le> n"
    and "k = (if n < z + 56 then n else z)"
    and "Cs = (if n < z + 56 then As1 @ As2 else As1 @ (b + z, n - z) # As2)"
proof -
  have "\<not> (\<forall>A \<in> set As. snd A < z)" using assms by (metis alloc_area_None option.distinct(1))
  then have "\<exists>A \<in> set As. z \<le> snd A" by (auto simp: not_less)
  then obtain As1 A As2 where As: "As = As1 @ A # As2" "z \<le> snd A" "\<forall>A \<in> set As1. snd A < z"
    using split_list_first_prop [of As "\<lambda>A. z \<le> snd A"] by (metis not_less)
  obtain s n where A: "A = (s, n)" by fastforce
  have "alloc_area z As = map_option (\<lambda>(b, k, Cs). (b, k, As1 @ Cs)) (alloc_area z (A # As2))"
    using As by (simp add: alloc_area_skip)
  with assms A As that [of As1 n As2] show thesis
    by (auto split: if_splits)
qed

lemma find_first:
  "\<forall>A \<in> set As. \<not> P A \<Longrightarrow> P B \<Longrightarrow> find P (As @ B # Bs) = Some B"
  by (induction As) auto

lemma heap_alloc_failure:
  assumes "heap_inv m h As" and "z + 7 < 2 ^ 64" and "request z < 2 ^ 64"
    and "alloc_area (request z) As = None"
  shows "heap_alloc (ptr h) (ptr z) m = Some (m, NULL, ptr z)"
  using heap_alloc_search_areas [of As m NULL "request z"] heap_invD [OF assms(1)] assms
  by (simp add: heap_alloc_def Let_def adjusted_request alloc_area_find)

lemma heap_alloc_success:
  assumes inv: "heap_inv m h As" and z: "z + 7 < 2 ^ 64"
    and alloc: "alloc_area (request z) As = Some (b, k, Bs)"
  shows "\<exists>m'. heap_alloc (ptr h) (ptr z) m = Some (m', ptr b, ptr k) \<and> heap_inv m' h Bs \<and>
           unchanged_outside (bytes As \<union> {h ..< h + 8}) m m'"
proof -
  note I = heap_invD [OF inv]
  obtain As1 n As2 where As: "As = As1 @ (b, n) # As2" and small: "\<forall>A \<in> set As1. snd A < request z"
    and n: "request z \<le> n" and k: "k = (if n < request z + 56 then n else request z)"
    and Bs: "Bs = (if n < request z + 56 then As1 @ As2 else As1 @ (b + request z, n - request z) # As2)"
    using alloc by (rule alloc_area_split)
  have ok: "area_ok (b, n)" using I(2) As by simp
  have "n < 2 ^ 64" using ok by (simp add: area_ok_def)
  with n have r: "request z < 2 ^ 64" by linarith
  have "find (\<lambda>A. request z \<le> snd A) As = Some (b, n)"
    unfolding As using small n by (intro find_first) auto
  then have search: "heap_alloc_search m (ptr (request z)) (load64 m (ptr h)) = Some (ptr (nn (b, n)))"
    using heap_alloc_search_areas [OF I(2,6,5) r] I(7) by simp
  have start: "HEAP_FREE_AREA_START m (ptr (nn (b, n))) = ptr b"
    using area_bounds(2) [OF ok] I(5) As by simp
  obtain m' where "heap_free_area_alloc (ptr h) (ptr (nn (b, n))) (ptr (request z)) m = (m', ptr k)"
    and "heap_inv m' h Bs" and "unchanged_outside (bytes As \<union> {h ..< h + 8}) m m'"
    using heap_free_area_alloc_correct [of m h As1 b n As2 "request z" "bytes As \<union> {h ..< h + 8}"]
      inv n request_bounds [of z] unfolding k Bs As by auto
  with search start area_ok_ptr(1) [OF ok] z show ?thesis
    by (simp add: heap_alloc_def Let_def adjusted_request)
qed

section \<open>Returning a block merges it with its neighbours\<close>

text \<open>The shape of every outcome: one area \<open>C\<close> replaces what was between \<open>As\<close> and \<open>Bs\<close>.\<close>

lemma heap_inv_intro:
  assumes "areas_ok (As @ C # Bs)" and "cell_at h" and "block_apart h 8 (As @ C # Bs)"
    and "rep m' h (map nn As @ nn C # map nn Bs) NULL" and "fa_size m' (ptr (nn C)) = ptr (snd C)"
    and "sizes_ok m (As @ Bs)"
    and "\<And>a. a \<in> set (map nn As @ map nn Bs) \<Longrightarrow> fa_size m' (ptr a) = fa_size m (ptr a)"
  shows "heap_inv m' h (As @ C # Bs)"
proof -
  have "sizes_ok m' (As @ Bs) \<longleftrightarrow> sizes_ok m (As @ Bs)"
    using assms(7) by (intro sizes_ok_cong) auto
  with assms show ?thesis by (simp add: heap_inv_def)
qed

lemma free_area_skip:
  "\<forall>A \<in> set As. fst A + snd A < b \<Longrightarrow> free_area b z (As @ Bs) = As @ free_area b z Bs"
  by (induction As) auto

text \<open>Writing the final size at the node of \<open>C\<close> after the links are in place.\<close>

lemma heap_inv_set_size:
  assumes "areas_ok (As @ C # Bs)" and "cell_at h" and "block_apart h 8 (As @ C # Bs)"
    and "rep m' h (map nn As @ nn C # map nn Bs) NULL" and "sizes_ok m (As @ Bs)"
    and "\<And>a. a \<in> set (map nn As @ map nn Bs) \<Longrightarrow> fa_size m' (ptr a) = fa_size m (ptr a)"
  shows "heap_inv (set_fa_size (ptr (nn C)) (ptr (snd C)) m') h (As @ C # Bs)"
proof -
  have wf: "wf_nodes h (map nn As @ nn C # map nn Bs)"
    using wf_nodes_areas [OF assms(1-3)] by simp
  note mid = wf_nodes_mid [OF wf]
  let ?m = "set_fa_size (ptr (nn C)) (ptr (snd C)) m'"
  have "rep ?m h (map nn As @ nn C # map nn Bs) NULL"
    using rep_set_size [OF wf, of "nn C"] assms(4) by simp
  moreover have "fa_size ?m (ptr (nn C)) = ptr (snd C)"
    using mid(1) by (simp add: nodes_apart_def)
  moreover have "fa_size ?m (ptr a) = fa_size m (ptr a)" if "a \<in> set (map nn As @ map nn Bs)" for a
    using that mid(1) mid(4) [of a] assms(6) [OF that] by auto
  ultimately show ?thesis
    using assms(1-3,5) by (intro heap_inv_intro [where m = m]) auto
qed

lemma heap_inv_linked:
  assumes "areas_ok (As @ C # Bs)" and "cell_at h" and "block_apart h 8 (As @ C # Bs)"
    and "rep m h (map nn As) x" and "links m y (map nn Bs) NULL" and "sizes_ok m (As @ Bs)"
  shows "heap_inv (set_fa_size (ptr (nn C)) (ptr (snd C))
           (heap_link_free_area (ptr h) (ptr (nn C)) (last_nd NULL (map nn As))
             (first_nd (map nn Bs) NULL) m)) h (As @ C # Bs)"
proof -
  have wf: "wf_nodes h (map nn As @ nn C # map nn Bs)"
    using wf_nodes_areas [OF assms(1-3)] by simp
  show ?thesis
    using assms(1-3) link_splice [OF wf assms(4,5)] assms(6)
    by (rule heap_inv_set_size) (simp add: splice_sizes(1) [OF wf])
qed

lemma heap_inv_added:
  assumes "areas_ok (As @ C # Bs)" and "cell_at h" and "block_apart h 8 (As @ C # Bs)"
    and "rep m h (map nn As) x" and "links m y (map nn Bs) NULL" and "sizes_ok m (As @ Bs)"
  shows "heap_inv (heap_link_free_area (ptr h) (ptr (nn C)) (last_nd NULL (map nn As))
             (first_nd (map nn Bs) NULL) (set_fa_size (ptr (nn C)) (ptr (snd C)) m)) h (As @ C # Bs)"
proof -
  have wf: "wf_nodes h (map nn As @ nn C # map nn Bs)"
    using wf_nodes_areas [OF assms(1-3)] by simp
  note mid = wf_nodes_mid [OF wf]
  let ?m = "set_fa_size (ptr (nn C)) (ptr (snd C)) m"
  have "rep ?m h (map nn As) x" "links ?m y (map nn Bs) NULL"
    using set_mid_fields(3,6) [OF wf assms(4,5)] by auto
  note rep = link_splice [OF wf this]
  have "fa_size ?m (ptr a) = fa_size m (ptr a)" if "a \<in> set (map nn As @ map nn Bs)" for a
    using that mid(1) mid(4) [of a] by auto
  then show ?thesis
    using assms(1-3,6) rep mid(1) by (intro heap_inv_intro [where m = m])
      (auto simp: splice_sizes(1) [OF wf] nodes_apart_def)
qed

text \<open>What the search of \<open>__heap_free\<close> leaves: the areas before the block and the rest.\<close>

definition free_ctx :: "mem \<Rightarrow> nat \<Rightarrow> nat \<Rightarrow> nat \<Rightarrow> area list \<Rightarrow> area list \<Rightarrow> bool" where
  "free_ctx m h b z As Bs \<longleftrightarrow>
     heap_inv m h (As @ Bs) \<and> area_ok (b, z) \<and> block_apart b z (As @ Bs) \<and>
     (h + 8 \<le> b \<or> b + z \<le> h) \<and> (\<forall>A \<in> set As. fst A + snd A < b) \<and>
     (case Bs of [] \<Rightarrow> True | B # _ \<Rightarrow> b \<le> fst B + snd B)"

definition freed_ok :: "mem \<Rightarrow> nat \<Rightarrow> nat \<Rightarrow> nat \<Rightarrow> area list \<Rightarrow> mem \<times> addr \<Rightarrow> bool" where
  "freed_ok m h b z As r \<longleftrightarrow>
     (\<exists>C. heap_inv (fst r) h (free_area b z As) \<and> C \<in> set (free_area b z As) \<and> snd r = ptr (nn C) \<and>
       fst C \<le> b \<and> b + z \<le> fst C + snd C \<and>
       unchanged_outside (bytes As \<union> {b ..< b + z} \<union> {h ..< h + 8}) m (fst r))"

lemma freed_okI:
  assumes "r = (m', ptr (nn C))" and "heap_inv m' h (As1 @ C # Cs)"
    and "unchanged_outside (bytes As \<union> {b ..< b + z} \<union> {h ..< h + 8}) m m'"
    and "free_area b z As = As1 @ Ds" and "Ds = C # Cs" and "fst C \<le> b" and "b + z \<le> fst C + snd C"
  shows "freed_ok m h b z As r"
  unfolding freed_ok_def using assms by (intro exI [of _ C]) simp

lemma free_ctxD:
  assumes "free_ctx m h b z As Bs"
  shows "areas_ok (free_area b z (As @ Bs))" and "cell_at h" and "block_apart h 8 (free_area b z (As @ Bs))"
    and "free_area b z (As @ Bs) = As @ free_area b z Bs"
    and "bytes (free_area b z (As @ Bs)) = bytes (As @ Bs) \<union> {b ..< b + z}"
    and "rep m h (map nn As) (first_nd (map nn Bs) NULL)" and "links m (last_nd NULL (map nn As)) (map nn Bs) NULL"
    and "sizes_ok m (As @ Bs)" and "areas_ok (As @ Bs)" and "area_ok (b, z)"
proof -
  have inv: "heap_inv m h (As @ Bs)" and b: "area_ok (b, z)" and ap: "block_apart b z (As @ Bs)"
    and hb: "h + 8 \<le> b \<or> b + z \<le> h" and lt: "\<forall>A \<in> set As. fst A + snd A < b"
    using assms by (auto simp: free_ctx_def)
  note I = heap_invD [OF inv]
  show ok: "areas_ok (free_area b z (As @ Bs))" using I(1) ap b by (rule areas_ok_free_area)
  show byt: "bytes (free_area b z (As @ Bs)) = bytes (As @ Bs) \<union> {b ..< b + z}"
    using I(1) ap by (rule bytes_free_area)
  have "{h ..< h + 8} \<inter> bytes (As @ Bs) = {}"
    using I(1,9) block_apart_iff_disjoint [of 8 "As @ Bs" h] by simp
  then have "{h ..< h + 8} \<inter> bytes (free_area b z (As @ Bs)) = {}"
    using byt hb by auto
  then show "block_apart h 8 (free_area b z (As @ Bs))"
    using block_apart_iff_disjoint [of 8 "free_area b z (As @ Bs)" h] ok by simp
  show "free_area b z (As @ Bs) = As @ free_area b z Bs" using lt by (rule free_area_skip)
  show "rep m h (map nn As) (first_nd (map nn Bs) NULL)" "links m (last_nd NULL (map nn As)) (map nn Bs) NULL"
    using I(4) by (auto simp: rep_append)
qed (use assms in \<open>auto simp: free_ctx_def heap_inv_def\<close>)

lemma free_frame:
  assumes ctx: "free_ctx m h b z As Bs" and C: "free_area b z Bs = C # Cs"
    and S: "S = bytes (As @ Bs) \<union> {b ..< b + z} \<union> {h ..< h + 8}"
  shows "wf_nodes h (map nn As @ nn C # map nn Cs)"
    and "\<forall>a \<in> set (map nn As @ nn C # map nn Cs). {a ..< a + 24} \<subseteq> S" and "{h ..< h + 8} \<subseteq> S"
    and "areas_ok (As @ C # Cs)" and "block_apart h 8 (As @ C # Cs)"
proof -
  note F = free_ctxD [OF ctx]
  have eq: "free_area b z (As @ Bs) = As @ C # Cs" using F(4) C by simp
  show "areas_ok (As @ C # Cs)" and "block_apart h 8 (As @ C # Cs)"
    using F(1,3) eq by simp_all
  then show "wf_nodes h (map nn As @ nn C # map nn Cs)"
    using wf_nodes_areas [of "As @ C # Cs" h] F(2) by simp
  have "bytes (As @ C # Cs) \<subseteq> S" using F(5) eq S by (simp del: bytes_append bytes_Cons)
  then show "\<forall>a \<in> set (map nn As @ nn C # map nn Cs). {a ..< a + 24} \<subseteq> S"
    using heap_inv_frame_nodes [OF \<open>areas_ok (As @ C # Cs)\<close>] by simp
qed (simp add: S)

lemma heap_free_at_new:
  assumes ctx: "free_ctx m h b z As Bs" and new: "free_area b z Bs = (b, z) # Bs"
    and far: "case Bs of [] \<Rightarrow> True | B # _ \<Rightarrow> b + z < fst B"
  shows "freed_ok m h b z (As @ Bs)
           (heap_free_at (ptr h) (ptr b) (ptr z) (last_nd NULL (map nn As)) (first_nd (map nn Bs) NULL) m)"
proof -
  note F = free_ctxD [OF ctx] and W = free_frame [OF ctx new refl]
  let ?m = "heap_link_free_area (ptr h) (ptr (nn (b, z))) (last_nd NULL (map nn As))
              (first_nd (map nn Bs) NULL) (set_fa_size (ptr (nn (b, z))) (ptr z) m)"
  have "\<not> (first_nd (map nn Bs) NULL \<noteq> NULL \<and>
      HEAP_FREE_AREA_START m (first_nd (map nn Bs) NULL) \<le> ptr b + ptr z)"
  proof (cases Bs)
    case (Cons B Bs')
    then have B: "area_ok B" "fa_size m (ptr (nn B)) = ptr (snd B)" "b + z < fst B"
      using F(8,9) far by (auto simp: areas_ok_append)
    then show ?thesis
      using Cons area_ok_ptr [OF B(1)] by (simp add: ptr_le)
  qed simp
  moreover have "ptr b + ptr z - sizeof_heap_free_area = ptr (nn (b, z))"
    using F(10) by (simp add: sizeof_heap_free_area_def nn_def area_ok_def)
  ultimately have "heap_free_at (ptr h) (ptr b) (ptr z) (last_nd NULL (map nn As))
      (first_nd (map nn Bs) NULL) m = (?m, ptr (nn (b, z)))"
    by (auto simp: heap_free_at_def heap_add_free_area_def Let_def)
  moreover have "heap_inv ?m h (As @ (b, z) # Bs)"
    using heap_inv_added [OF W(4) F(2) W(5) F(6,7,8)] by simp
  moreover have "unchanged_outside (bytes (As @ Bs) \<union> {b ..< b + z} \<union> {h ..< h + 8}) m ?m"
    using W(1-3) wf_nodes_mid(1) [OF W(1)]
    by (intro unchanged_trans [OF unchanged_set_fa(1) unchanged_link(1)]) auto
  ultimately show ?thesis
    by (rule freed_okI [OF _ _ _ F(4) new]) (use F(10) far in auto)
qed

text \<open>The block ends where the next area starts: that area grows down.\<close>

lemma heap_free_at_below:
  assumes ctx: "free_ctx m h b z As ((s, n) # Bs)" and s: "s = b + z"
  shows "freed_ok m h b z (As @ (s, n) # Bs)
           (heap_free_at (ptr h) (ptr b) (ptr z) (last_nd NULL (map nn As)) (ptr (nn (s, n))) m)"
proof -
  note F = free_ctxD [OF ctx]
  have C: "free_area b z ((s, n) # Bs) = (b, n + z) # Bs"
    using s F(10) by (auto simp: area_ok_def)
  note W = free_frame [OF ctx C refl]
  have ok: "area_ok (s, n)" and sz: "fa_size m (ptr (nn (s, n))) = ptr n"
    using F(8,9) by (auto simp: areas_ok_append)
  have nn: "nn (b, n + z) = nn (s, n)" using s by (simp add: nn_def)
  have prev: "\<not> (last_nd NULL (map nn As) \<noteq> NULL \<and> ptr b = HEAP_FREE_AREA_END (last_nd NULL (map nn As)))"
  proof (cases As rule: rev_cases)
    case (snoc As' A)
    then have "area_ok A" "fst A + snd A < b"
      using F(9) ctx by (auto simp: areas_ok_append free_ctx_def)
    then show ?thesis
      using snoc area_ok_ptr [of A] area_ok_ptr [OF F(10)] by (simp add: ptr_eq)
  qed simp
  let ?m = "set_fa_size (ptr (nn (b, n + z))) (ptr (snd (b, n + z))) m"
  have "heap_free_at (ptr h) (ptr b) (ptr z) (last_nd NULL (map nn As)) (ptr (nn (s, n))) m =
      (?m, ptr (nn (b, n + z)))"
    using prev nn ok sz s area_ok_ptr [OF ok] by (auto simp: heap_free_at_def Let_def)
  moreover have "heap_inv ?m h (As @ (b, n + z) # Bs)"
    using F(6,7,8) nn by (intro heap_inv_set_size [OF W(4) F(2) W(5)]) (auto simp: rep_append)
  moreover have "unchanged_outside (bytes (As @ (s, n) # Bs) \<union> {b ..< b + z} \<union> {h ..< h + 8}) m ?m"
    using W(2) wf_nodes_mid(1) [OF W(1)] by (intro unchanged_set_fa) auto
  ultimately show ?thesis
    by (rule freed_okI [OF _ _ _ F(4) C]) (use F(10) s in auto)
qed

text \<open>The block starts where an area ends, and the area after it starts where the block ends.\<close>

lemma heap_free_at_between:
  assumes ctx: "free_ctx m h b z As ((s, n) # (s', n') # Bs)" and b: "b = s + n" and s': "s' = b + z"
  shows "freed_ok m h b z (As @ (s, n) # (s', n') # Bs)
           (heap_free_at (ptr h) (ptr b) (ptr z) (last_nd NULL (map nn As)) (ptr (nn (s, n))) m)"
proof -
  note F = free_ctxD [OF ctx]
  have ok: "area_ok (s, n)" "area_ok (s', n')" and sz: "fa_size m (ptr (nn (s, n))) = ptr n"
      "fa_size m (ptr (nn (s', n'))) = ptr n'"
    using F(8,9) by (auto simp: areas_ok_append)
  have C: "free_area b z ((s, n) # (s', n') # Bs) = (s, n + z + n') # Bs"
    using b s' F(10) ok by (auto simp: area_ok_def)
  note W = free_frame [OF ctx C refl]
  have nn: "nn (s, n + z + n') = nn (s', n')" using b s' by (simp add: nn_def)
  have nx: "fa_next m (ptr (nn (s, n))) = ptr (nn (s', n'))" using F(7) by simp
  have start: "HEAP_FREE_AREA_START m (ptr (nn (s, n))) = ptr s"
    "HEAP_FREE_AREA_START m (ptr (nn (s', n'))) = ptr (b + z)"
    using area_bounds(2) [OF ok(1)] area_bounds(2) [OF ok(2)] sz s' by auto
  have cmp: "ptr s \<le> ptr (b + z)" "ptr s \<noteq> ptr (b + z)"
    using ok F(10) b s' by (auto simp: area_ok_def ptr_le ptr_eq)
  let ?l = "heap_link_free_area_after (ptr h) (ptr (nn (s', n'))) (last_nd NULL (map nn As)) m"
  let ?m = "set_fa_size (ptr (nn (s, n + z + n'))) (ptr (snd (s, n + z + n'))) ?l"
  have "heap_free_at (ptr h) (ptr b) (ptr z) (last_nd NULL (map nn As)) (ptr (nn (s, n))) m =
      (?m, ptr (nn (s, n + z + n')))"
    using nn nx sz start cmp area_ok_ptr [OF ok(1)] area_ok_ptr [OF ok(2)]
    by (simp add: heap_free_at_def Let_def)
  moreover have "heap_inv ?m h (As @ (s, n + z + n') # Bs)"
    using link_after_splice [OF W(1) F(6)] F(7,8) nn splice_sizes(2) [OF W(1)]
    by (intro heap_inv_set_size [OF W(4) F(2) W(5)]) auto
  moreover have "unchanged_outside (bytes (As @ (s, n) # (s', n') # Bs) \<union> {b ..< b + z} \<union> {h ..< h + 8}) m ?m"
    using W(1-3) wf_nodes_mid(1) [OF W(1)] unchanged_link(2) [OF W(1-3)] unfolding nn
    by (intro unchanged_trans [OF unchanged_link(2) unchanged_set_fa(1)]) auto
  ultimately show ?thesis
    by (rule freed_okI [OF _ _ _ F(4) C]) (use F(10) b in auto)
qed

text \<open>The block starts where an area ends and touches nothing after it: the node moves up.\<close>

lemma heap_free_at_after:
  assumes ctx: "free_ctx m h b z As ((s, n) # Bs)" and b: "b = s + n"
    and far: "case Bs of [] \<Rightarrow> True | B # _ \<Rightarrow> b + z < fst B"
  shows "freed_ok m h b z (As @ (s, n) # Bs)
           (heap_free_at (ptr h) (ptr b) (ptr z) (last_nd NULL (map nn As)) (ptr (nn (s, n))) m)"
proof -
  note F = free_ctxD [OF ctx]
  have ok: "area_ok (s, n)" and sz: "fa_size m (ptr (nn (s, n))) = ptr n"
    using F(8,9) by (auto simp: areas_ok_append)
  have C: "free_area b z ((s, n) # Bs) = (s, n + z) # Bs"
    using b F(10) ok far by (auto simp: area_ok_def split: list.splits)
  note W = free_frame [OF ctx C refl]
  have nn: "ptr (nn (s, n)) + ptr z = ptr (nn (s, n + z))" using ok by (simp add: nn_def area_ok_def add.assoc)
  have nx: "fa_next m (ptr (nn (s, n))) = first_nd (map nn Bs) NULL" using F(7) by simp
  have nomerge: "\<not> (first_nd (map nn Bs) NULL \<noteq> NULL \<and>
      ptr (b + z) = HEAP_FREE_AREA_START m (first_nd (map nn Bs) NULL))"
  proof (cases Bs)
    case (Cons B Bs')
    then have B: "area_ok B" "fa_size m (ptr (nn B)) = ptr (snd B)" "b + z < fst B"
      using F(8,9) far by (auto simp: areas_ok_append)
    then show ?thesis
      using Cons area_ok_ptr [OF B(1)] by (simp add: ptr_eq)
  qed simp
  have start: "HEAP_FREE_AREA_START m (ptr (nn (s, n))) = ptr s"
    using area_bounds(2) [OF ok] sz by auto
  have cmp: "ptr s \<le> ptr (b + z)" "ptr s \<noteq> ptr (b + z)"
    using ok F(10) b by (auto simp: area_ok_def ptr_le ptr_eq)
  let ?l = "heap_link_free_area (ptr h) (ptr (nn (s, n + z))) (last_nd NULL (map nn As))
              (first_nd (map nn Bs) NULL) m"
  let ?m = "set_fa_size (ptr (nn (s, n + z))) (ptr (snd (s, n + z))) ?l"
  have "heap_free_at (ptr h) (ptr b) (ptr z) (last_nd NULL (map nn As)) (ptr (nn (s, n))) m =
      (?m, ptr (nn (s, n + z)))"
    using nn nx sz start cmp nomerge area_ok_ptr [OF ok]
    by (auto simp: heap_free_at_def Let_def)
  moreover have "heap_inv ?m h (As @ (s, n + z) # Bs)"
    using F(6-8) by (intro heap_inv_linked [OF W(4) F(2) W(5)]) auto
  moreover have "unchanged_outside (bytes (As @ (s, n) # Bs) \<union> {b ..< b + z} \<union> {h ..< h + 8}) m ?m"
    using W(1-3) wf_nodes_mid(1) [OF W(1)]
    by (intro unchanged_trans [OF unchanged_link(1) unchanged_set_fa(1)]) auto
  ultimately show ?thesis
    by (rule freed_okI [OF _ _ _ F(4) C]) (use F(10) b in auto)
qed

lemma split_at_block:
  obtains As1 As2 where "As = As1 @ As2" and "\<forall>A \<in> set As1. fst A + snd A < (b :: nat)"
    and "case As2 of [] \<Rightarrow> True | B # _ \<Rightarrow> b \<le> fst B + snd B"
proof
  let ?P = "\<lambda>A. fst A + snd A < b"
  show "As = takeWhile ?P As @ dropWhile ?P As" by simp
  show "\<forall>A \<in> set (takeWhile ?P As). fst A + snd A < b" by (auto dest: set_takeWhileD)
  show "case dropWhile ?P As of [] \<Rightarrow> True | B # _ \<Rightarrow> b \<le> fst B + snd B"
    using hd_dropWhile [of ?P As] by (auto simp del: dropWhile_eq_Nil_conv split: list.split)
qed

lemma heap_free_at_correct:
  assumes ctx: "free_ctx m h b z As Bs"
  shows "freed_ok m h b z (As @ Bs)
           (heap_free_at (ptr h) (ptr b) (ptr z) (last_nd NULL (map nn As)) (first_nd (map nn Bs) NULL) m)"
proof (cases Bs)
  case Nil
  then show ?thesis using heap_free_at_new [of m h b z As "[]"] ctx by simp
next
  case (Cons B Bs')
  obtain s n where B: "B = (s, n)" by fastforce
  have apart: "b + z \<le> s \<or> s + n \<le> b" and reach: "b \<le> s + n" and z: "24 \<le> z"
    and apart': "block_apart b z Bs'" and up: "all_above (s + n) Bs'"
    using ctx Cons B by (auto simp: free_ctx_def area_ok_def heap_inv_def areas_ok_append)
  consider (new) "b + z < s" | (below) "s = b + z" | (after) "b = s + n"
    using apart reach by linarith
  then show ?thesis
  proof cases
    case new
    then show ?thesis using heap_free_at_new [of m h b z As Bs] ctx Cons B by simp
  next
    case below
    then show ?thesis using heap_free_at_below [of m h b z As s n Bs'] ctx Cons B by simp
  next
    case after
    have "case Bs' of [] \<Rightarrow> True | D # _ \<Rightarrow> b + z \<le> fst D"
      using apart' up after by (cases Bs') auto
    then consider (far) "case Bs' of [] \<Rightarrow> True | D # _ \<Rightarrow> b + z < fst D"
      | (touch) s' n' Bs'' where "Bs' = (s', n') # Bs''" "s' = b + z"
      by (cases Bs') (auto simp: le_less)
    then show ?thesis
    proof cases
      case far
      then show ?thesis using heap_free_at_after [of m h b z As s n Bs'] ctx Cons B after by simp
    next
      case touch
      then show ?thesis
        using heap_free_at_between [of m h b z As s n s' n' Bs''] ctx Cons B after by simp
    qed
  qed
qed

lemma heap_free_correct:
  assumes inv: "heap_inv m h As" and blk: "area_ok (b, z)" and apart: "block_apart b z As"
    and hb: "h + 8 \<le> b \<or> b + z \<le> h"
  obtains m' C where "heap_free (ptr h) (ptr b) (ptr z) m = Some (m', ptr (nn C))"
    and "heap_inv m' h (free_area b z As)" and "C \<in> set (free_area b z As)"
    and "fst C \<le> b" and "b + z \<le> fst C + snd C"
    and "unchanged_outside (bytes As \<union> {b ..< b + z} \<union> {h ..< h + 8}) m m'"
proof -
  note I = heap_invD [OF inv]
  obtain As1 As2 where As: "As = As1 @ As2" and lt: "\<forall>A \<in> set As1. fst A + snd A < b"
    and ge: "case As2 of [] \<Rightarrow> True | B # _ \<Rightarrow> b \<le> fst B + snd B"
    by (rule split_at_block)
  let ?r = "heap_free_at (ptr h) (ptr b) (ptr z) (last_nd NULL (map nn As1)) (first_nd (map nn As2) NULL) m"
  have "heap_free_search m (ptr b) NULL (first_nd (map nn (As1 @ As2)) NULL) =
      Some (last_nd NULL (map nn As1), first_nd (map nn As2) NULL)"
    using I(2,6) As lt ge area_ok_ptr(2) [OF blk]
    by (intro heap_free_search_areas) (auto split: list.splits)
  then have "heap_free (ptr h) (ptr b) (ptr z) m = Some ?r"
    using I(7) As by (simp add: heap_free_def)
  moreover have "free_ctx m h b z As1 As2"
    using assms lt ge As by (simp add: free_ctx_def)
  then have "freed_ok m h b z As ?r"
    using heap_free_at_correct As by simp
  ultimately show thesis
    using that unfolding freed_ok_def by (metis prod.collapse)
qed

end
