(* ===== verification/Heap_Props.thy ===== *)
theory Heap_Props
  imports Heap_Correct
begin

text \<open>
  The contract of the heap as its clients use it. The locale \<open>heap_store\<close> speaks of the set of free
  bytes a heap owns and never of lists or nodes; \<open>heap_trim\<close> extends it by the routines that look at
  and remove the area a block was merged into. Both are interpreted on the pointer-level routines.
  The last section holds the properties of the component.
\<close>

section \<open>The interface of the heap\<close>

definition fits :: "nat set \<Rightarrow> nat \<Rightarrow> bool" where
  "fits F z \<longleftrightarrow> (\<exists>b k. area_ok (b, k) \<and> {b ..< b + k} \<subseteq> F \<and> request z \<le> k)"

locale heap_store =
  fixes owns :: "mem \<Rightarrow> nat set \<Rightarrow> bool"
    and hcell :: "nat set"
    and alloc :: "addr \<Rightarrow> mem \<Rightarrow> (mem \<times> addr \<times> addr) option"
    and free :: "addr \<Rightarrow> addr \<Rightarrow> mem \<Rightarrow> (mem \<times> addr) option"
  assumes alloc_fits: "owns m F \<Longrightarrow> z + 24 < 2 ^ 64 \<Longrightarrow> fits F z \<Longrightarrow>
      \<exists>m' b k. alloc (ptr z) m = Some (m', ptr b, ptr k) \<and> area_ok (b, k) \<and> request z \<le> k \<and>
        k < request z + 56 \<and> {b ..< b + k} \<subseteq> F \<and> owns m' (F - {b ..< b + k}) \<and>
        unchanged_outside (F \<union> hcell) m m'"
    and alloc_not_fits: "owns m F \<Longrightarrow> z + 24 < 2 ^ 64 \<Longrightarrow> \<not> fits F z \<Longrightarrow>
      alloc (ptr z) m = Some (m, NULL, ptr z)"
    and free_block: "owns m F \<Longrightarrow> area_ok (b, k) \<Longrightarrow> {b ..< b + k} \<inter> (F \<union> hcell) = {} \<Longrightarrow>
      \<exists>m' fa. free (ptr b) (ptr k) m = Some (m', fa) \<and> owns m' (F \<union> {b ..< b + k}) \<and>
        unchanged_outside (F \<union> {b ..< b + k} \<union> hcell) m m'"
    and owns_frame: "owns m F \<Longrightarrow> unchanged_outside S m m' \<Longrightarrow> S \<inter> (F \<union> hcell) = {} \<Longrightarrow> owns m' F"
    and owns_cell: "owns m F \<Longrightarrow> hcell \<inter> F = {}"
begin

text \<open>Allocation always returns; what it returns was free and no longer is.\<close>

lemma alloc_total:
  assumes "owns m F" and "z + 24 < 2 ^ 64"
  obtains (ok) m' b k where "alloc (ptr z) m = Some (m', ptr b, ptr k)" and "area_ok (b, k)"
      and "request z \<le> k" and "k < request z + 56" and "{b ..< b + k} \<subseteq> F"
      and "owns m' (F - {b ..< b + k})" and "unchanged_outside (F \<union> hcell) m m'"
  | (fail) "alloc (ptr z) m = Some (m, NULL, ptr z)" and "\<not> fits F z"
  using alloc_fits [OF assms] alloc_not_fits [OF assms] by blast

text \<open>Freeing what was allocated restores the set of free bytes.\<close>

lemma alloc_free_restores:
  assumes "owns m F" and "z + 24 < 2 ^ 64" and "fits F z"
  shows "\<exists>m' b k m'' fa. alloc (ptr z) m = Some (m', ptr b, ptr k) \<and>
           free (ptr b) (ptr k) m' = Some (m'', fa) \<and> owns m'' F"
proof -
  obtain m' b k where 1: "alloc (ptr z) m = Some (m', ptr b, ptr k)" "area_ok (b, k)"
      "{b ..< b + k} \<subseteq> F" "owns m' (F - {b ..< b + k})"
    using alloc_fits [OF assms] by blast
  then have "{b ..< b + k} \<inter> ((F - {b ..< b + k}) \<union> hcell) = {}"
    using owns_cell [OF assms(1)] by auto
  then obtain m'' fa where "free (ptr b) (ptr k) m' = Some (m'', fa)"
      "owns m'' ((F - {b ..< b + k}) \<union> {b ..< b + k})"
    using free_block [OF 1(4,2)] by blast
  moreover have "(F - {b ..< b + k}) \<union> {b ..< b + k} = F" using 1(3) by auto
  ultimately show ?thesis using 1(1) by auto
qed

text \<open>The retry of the allocator: after a fresh block of enough bytes is added, allocation succeeds.\<close>

lemma extend_then_alloc:
  assumes "owns m F" and "area_ok (c, n)" and "{c ..< c + n} \<inter> (F \<union> hcell) = {}"
    and "z + 24 < 2 ^ 64" and "request z \<le> n"
  shows "\<exists>m1 fa m' b k. free (ptr c) (ptr n) m = Some (m1, fa) \<and>
           alloc (ptr z) m1 = Some (m', ptr b, ptr k) \<and> area_ok (b, k) \<and> request z \<le> k \<and>
           k < request z + 56 \<and> {b ..< b + k} \<subseteq> F \<union> {c ..< c + n} \<and>
           owns m' (F \<union> {c ..< c + n} - {b ..< b + k}) \<and>
           unchanged_outside (F \<union> {c ..< c + n} \<union> hcell) m m'"
proof -
  obtain m1 fa where 1: "free (ptr c) (ptr n) m = Some (m1, fa)" "owns m1 (F \<union> {c ..< c + n})"
      "unchanged_outside (F \<union> {c ..< c + n} \<union> hcell) m m1"
    using free_block [OF assms(1-3)] by blast
  have "fits (F \<union> {c ..< c + n}) z"
    using assms(2,5) by (auto simp: fits_def)
  then show ?thesis
    using alloc_fits [OF 1(2) assms(4)] 1 by (blast intro: unchanged_trans)
qed

end

section \<open>The code provides the interface\<close>

definition heap_owns :: "nat \<Rightarrow> mem \<Rightarrow> nat set \<Rightarrow> bool" where
  "heap_owns h m F \<longleftrightarrow> (\<exists>As. heap_inv m h As \<and> bytes As = F)"

lemma interval_in_one_area:
  assumes "areas_ok As" and "0 < k" and "{b ..< b + k} \<subseteq> bytes As"
  shows "\<exists>A \<in> set As. fst A \<le> b \<and> b + k \<le> fst A + snd A"
  using assms
proof (induction As)
  case Nil
  then show ?case by simp
next
  case (Cons A As)
  have gap: "fst A + snd A \<notin> bytes (A # As)"
    using Cons.prems(1) by (auto dest: above_in_bytes)
  consider "b + k \<le> fst A + snd A" | "fst A + snd A \<le> b" | "b < fst A + snd A" "fst A + snd A < b + k"
    by linarith
  then show ?case
  proof cases
    case 1
    have "b \<in> {b ..< b + k}" using Cons.prems(2) by simp
    then have "b \<in> bytes (A # As)" using Cons.prems(3) by blast
    then have "fst A \<le> b" using Cons.prems(1) in_bytes_ge by blast
    with 1 show ?thesis by auto
  next
    case 2
    then have "{b ..< b + k} \<subseteq> bytes As" using Cons.prems(3) by fastforce
    with Cons show ?thesis by auto
  next
    case 3
    then have "fst A + snd A \<in> {b ..< b + k}" by simp
    with gap Cons.prems(3) show ?thesis by blast
  qed
qed

lemma fits_alloc_area:
  assumes "areas_ok As"
  shows "fits (bytes As) z \<longleftrightarrow> alloc_area (request z) As \<noteq> None"
proof
  assume "fits (bytes As) z"
  then obtain b k where "area_ok (b, k)" "{b ..< b + k} \<subseteq> bytes As" "request z \<le> k"
    by (auto simp: fits_def)
  then obtain A where "A \<in> set As" "fst A \<le> b" "b + k \<le> fst A + snd A"
    using interval_in_one_area [OF assms, of k b] by (auto simp: area_ok_def)
  with \<open>request z \<le> k\<close> show "alloc_area (request z) As \<noteq> None"
    by (auto simp: alloc_area_None not_less intro!: bexI [of _ A])
next
  assume "alloc_area (request z) As \<noteq> None"
  then obtain A where A: "A \<in> set As" "request z \<le> snd A"
    by (auto simp: alloc_area_None not_less)
  then have "area_ok (fst A, snd A)" "{fst A ..< fst A + snd A} \<subseteq> bytes As"
    using areas_ok_area [OF assms] by (auto simp: bytes_def)
  with A(2) show "fits (bytes As) z" unfolding fits_def by blast
qed

lemma heap_inv_cell: "heap_inv m h As \<Longrightarrow> {h ..< h + 8} \<inter> bytes As = {}"
  using block_apart_iff_disjoint [of 8 As h] by (simp add: heap_inv_def)

lemma heap_inv_unchanged:
  assumes "heap_inv m h As" and "unchanged_outside S m m'" and "S \<inter> (bytes As \<union> {h ..< h + 8}) = {}"
  shows "heap_inv m' h As"
proof -
  note I = heap_invD [OF assms(1)]
  have cell: "load64 m' (ptr (nn A + i)) = load64 m (ptr (nn A + i))"
    if "A \<in> set As" "i \<le> 16" for A i
  proof (rule unchanged_load64 [OF assms(2)])
    have "area_ok A" using I(2) that(1) by blast
    note N = area_ok_node [OF this] and P = area_ok_ptr [OF this]
    have "{nn A + i ..< nn A + i + 8} \<subseteq> {nn A ..< nn A + 24}" using that(2) by auto
    also have "\<dots> \<subseteq> bytes As" using that(1) I(1) by (rule heap_inv_frame)
    finally show "{nn A + i ..< nn A + i + 8} \<inter> S = {}" using assms(3) by blast
    show "nn A + i + 8 \<le> 2 ^ 64" using N(2) P(4) that(2) by linarith
  qed
  have fields: "fa_size m' (ptr (nn A)) = fa_size m (ptr (nn A))"
    "fa_next m' (ptr (nn A)) = fa_next m (ptr (nn A))"
    "fa_prev m' (ptr (nn A)) = fa_prev m (ptr (nn A))" if "A \<in> set As" for A
    using cell [OF that, of 0] cell [OF that, of 8] cell [OF that, of 16]
    by (simp_all add: get_fa_defs)
  have "load64 m' (ptr h) = load64 m (ptr h)"
    using assms(3) I(8) by (intro unchanged_load64 [OF assms(2)]) (auto simp: cell_at_def)
  then have "rep m' h (map nn As) NULL \<longleftrightarrow> rep m h (map nn As) NULL"
    using fields by (intro rep_cong) auto
  moreover have "sizes_ok m' As \<longleftrightarrow> sizes_ok m As"
    using fields by (intro sizes_ok_cong)
  ultimately show ?thesis using assms(1) by (simp add: heap_inv_def)
qed

lemma heap_owns_alloc_fits:
  assumes "heap_owns h m F" and "z + 24 < 2 ^ 64" and "fits F z"
  shows "\<exists>m' b k. heap_alloc (ptr h) (ptr z) m = Some (m', ptr b, ptr k) \<and> area_ok (b, k) \<and>
           request z \<le> k \<and> k < request z + 56 \<and> {b ..< b + k} \<subseteq> F \<and>
           heap_owns h m' (F - {b ..< b + k}) \<and> unchanged_outside (F \<union> {h ..< h + 8}) m m'"
proof -
  obtain As where inv: "heap_inv m h As" and F: "bytes As = F"
    using assms(1) by (auto simp: heap_owns_def)
  note I = heap_invD [OF inv]
  obtain b k Bs where al: "alloc_area (request z) As = Some (b, k, Bs)"
    using assms(3) fits_alloc_area [OF I(1)] F by auto
  note ok = alloc_area_ok [OF al I(1) request_bounds(3,2)]
  have "{b ..< b + k} \<inter> bytes Bs = {}"
    using ok block_apart_iff_disjoint [of k Bs b] by (auto simp: area_ok_def)
  then have "bytes Bs = F - {b ..< b + k}" and sub: "{b ..< b + k} \<subseteq> F"
    using alloc_area_bytes [OF al] F by auto
  moreover obtain m' where "heap_alloc (ptr h) (ptr z) m = Some (m', ptr b, ptr k)" "heap_inv m' h Bs"
      "unchanged_outside (bytes As \<union> {h ..< h + 8}) m m'"
    using heap_alloc_success [OF inv _ al] assms(2) by auto
  ultimately show ?thesis
    using ok alloc_area_size [OF al] F by (auto simp: heap_owns_def)
qed

interpretation hs: heap_store "heap_owns h" "{h ..< h + 8}" "heap_alloc (ptr h)" "heap_free (ptr h)"
  for h
proof (unfold_locales, goal_cases)
  case (1 m F z)
  then show ?case by (rule heap_owns_alloc_fits)
next
  case (2 m F z)
  then obtain As where "heap_inv m h As" "bytes As = F" by (auto simp: heap_owns_def)
  moreover have "request z < 2 ^ 64" using 2(2) request_bounds(4) [of z] by linarith
  moreover have "alloc_area (request z) As = None"
    using calculation 2(3) fits_alloc_area [of As z] by (metis heap_inv_def)
  ultimately show ?case
    using 2(2) by (intro heap_alloc_failure) auto
next
  case (3 m F b k)
  then obtain As where inv: "heap_inv m h As" and F: "bytes As = F" by (auto simp: heap_owns_def)
  note I = heap_invD [OF inv]
  have "0 < k" using 3(2) by (simp add: area_ok_def)
  then have apart: "block_apart b k As"
    using 3(3) block_apart_iff_disjoint [OF _ I(1)] F by blast
  have "{b ..< b + k} \<inter> {h ..< h + 8} = {}" using 3(3) by blast
  then have hb: "h + 8 \<le> b \<or> b + k \<le> h"
    using ivl_disjoint_iff [OF \<open>0 < k\<close>, of 8 b h] by linarith
  obtain m' C where r: "heap_free (ptr h) (ptr b) (ptr k) m = Some (m', ptr (nn C))"
      "heap_inv m' h (free_area b k As)" and "C \<in> set (free_area b k As)" "fst C \<le> b" "b + k \<le> fst C + snd C"
    and u: "unchanged_outside (bytes As \<union> {b ..< b + k} \<union> {h ..< h + 8}) m m'"
    by (rule heap_free_correct [OF inv 3(2) apart hb])
  from r u show ?case
    using bytes_free_area [OF I(1) apart] F by (auto simp: heap_owns_def)
next
  case (4 m F S m')
  then obtain As where inv: "heap_inv m h As" and F: "bytes As = F" by (auto simp: heap_owns_def)
  have "heap_inv m' h As"
    using 4(3) by (intro heap_inv_unchanged [OF inv 4(2)]) (simp add: F)
  with F show ?case unfolding heap_owns_def by blast
next
  case (5 m F)
  then show ?case using heap_inv_cell by (auto simp: heap_owns_def)
qed

section \<open>Allocation at an address\<close>

lemma find_start_sorted:
  assumes "areas_ok ((s, n) # As)"
  shows "find (\<lambda>A. fst A \<le> b) ((s, n) # As) = (if s \<le> b then Some (s, n) else None)"
proof -
  have "b < fst A" if "b < s" "A \<in> set As" for A
    using assms that aboveD [of "s + n" As A] by simp
  then show ?thesis by (auto simp: find_None_iff not_le)
qed

lemma heap_alloc_at_skip:
  assumes "heap_inv m h As" and "b < 2 ^ 64" and "z + 7 < 2 ^ 64"
    and "\<And>s n As'. As = (s, n) # As' \<Longrightarrow> s = b \<Longrightarrow> n < adjust z"
  shows "heap_alloc_at (ptr h) (ptr b) (ptr z) m = Some (m, 0)"
proof (cases As)
  case Nil
  with assms heap_invD [OF assms(1)] show ?thesis
    by (simp add: heap_alloc_at_def heap_alloc_at_search.simps)
next
  case (Cons A As')
  obtain s n where A: "A = (s, n)" by fastforce
  note I = heap_invD [OF assms(1)]
  have ok: "area_ok (s, n)" and sn: "s < 2 ^ 64" "n < 2 ^ 64"
    using I(2) Cons A by (auto simp: area_ok_def)
  have "adjust z < 2 ^ 64" using assms(3) by (auto simp: adjust_def)
  moreover have "n < adjust z" if "s = b" using assms(4) Cons A that by blast
  ultimately show ?thesis
    using heap_alloc_at_search_areas [OF I(2,6,5) assms(2)] I(5,7) Cons A ok sn assms
      find_start_sorted [of s n As' b] I(1)
    by (auto simp: heap_alloc_at_def HEAP_ADJUST_SIZE_ptr area_bounds ptr_eq ptr_le ptr_less not_le)
qed

lemma heap_alloc_at_head:
  assumes "heap_inv m h ((s, n) # As)" and "0 < z" and "z + 7 < 2 ^ 64" and "adjust z \<le> n"
  shows "\<exists>m'. heap_alloc_at (ptr h) (ptr s) (ptr z) m =
             Some (m', ptr (if n < adjust z + 56 then n else adjust z)) \<and>
           heap_inv m' h (if n < adjust z + 56 then As else (s + adjust z, n - adjust z) # As) \<and>
           unchanged_outside (bytes ((s, n) # As) \<union> {h ..< h + 8}) m m'"
proof -
  note I = heap_invD [OF assms(1)]
  have ok: "area_ok (s, n)" and sn: "s < 2 ^ 64" "n < 2 ^ 64"
    using I(2) by (auto simp: area_ok_def)
  have z: "0 < adjust z" "8 dvd adjust z" "adjust z < 2 ^ 64"
    using assms(2,3) adjust_bounds [of z] by (auto simp: adjust_def)
  have "heap_alloc_at_search m (ptr s) (load64 m (ptr h)) = Some (ptr (nn (s, n)))"
    using heap_alloc_at_search_areas [OF I(2,6,5) sn(1)] I(1,7) find_start_sorted [of s n As s] by simp
  then have "heap_alloc_at (ptr h) (ptr s) (ptr z) m =
      Some (heap_free_area_alloc (ptr h) (ptr (nn (s, n))) (ptr (adjust z)) m)"
    using I(5) ok sn z assms(3,4) by (simp add: heap_alloc_at_def HEAP_ADJUST_SIZE_ptr ptr_le area_ok_ptr)
  moreover have "\<exists>m'. heap_free_area_alloc (ptr h) (ptr (nn (s, n))) (ptr (adjust z)) m =
             (m', ptr (if n < adjust z + 56 then n else adjust z)) \<and>
           heap_inv m' h (if n < adjust z + 56 then [] @ As else [] @ (s + adjust z, n - adjust z) # As) \<and>
           unchanged_outside (bytes ([] @ (s, n) # As) \<union> {h ..< h + 8}) m m'"
    by (rule heap_free_area_alloc_correct) (use assms(1,4) z in auto)
  ultimately show ?thesis by auto
qed

section \<open>Looking at and removing areas\<close>

locale heap_trim = heap_store owns hcell alloc free
  for owns hcell alloc free +
  fixes area_size area_start :: "mem \<Rightarrow> addr \<Rightarrow> addr"
    and area_end :: "addr \<Rightarrow> addr"
    and delete :: "addr \<Rightarrow> mem \<Rightarrow> mem"
    and alloc_at :: "addr \<Rightarrow> addr \<Rightarrow> mem \<Rightarrow> (mem \<times> addr) option"
  assumes free_merged: "owns m F \<Longrightarrow> area_ok (b, k) \<Longrightarrow> {b ..< b + k} \<inter> (F \<union> hcell) = {} \<Longrightarrow>
      \<exists>m' fa s n. free (ptr b) (ptr k) m = Some (m', fa) \<and> owns m' (F \<union> {b ..< b + k}) \<and>
        unchanged_outside (F \<union> {b ..< b + k} \<union> hcell) m m' \<and> area_ok (s, n) \<and>
        {b ..< b + k} \<subseteq> {s ..< s + n} \<and> {s ..< s + n} \<subseteq> F \<union> {b ..< b + k} \<and>
        area_size m' fa = ptr n \<and> area_start m' fa = ptr s \<and> area_end fa = ptr (s + n) \<and>
        owns (delete fa m') (F \<union> {b ..< b + k} - {s ..< s + n}) \<and>
        unchanged_outside (F \<union> {b ..< b + k} \<union> hcell) m' (delete fa m')"
    and alloc_at_block: "owns m F \<Longrightarrow> b < 2 ^ 64 \<Longrightarrow> 0 < z \<Longrightarrow> z + 7 < 2 ^ 64 \<Longrightarrow>
      alloc_at (ptr b) (ptr z) m = Some (m, 0) \<or>
      (\<exists>m' k. alloc_at (ptr b) (ptr z) m = Some (m', ptr k) \<and> adjust z \<le> k \<and> 8 dvd k \<and>
        {b ..< b + k} \<subseteq> F \<and> b + k < 2 ^ 63 \<and> owns m' (F - {b ..< b + k}) \<and>
        unchanged_outside (F \<union> hcell) m m')"
begin

text \<open>Cutting a block back: the bytes from \<open>a\<close> to the end go back to the heap, the front stays out.\<close>

lemma free_tail:
  assumes "owns m F" and "area_ok (b, k)" and "{b ..< b + k} \<inter> (F \<union> hcell) = {}"
    and "8 dvd a" and "a + 24 \<le> k" and "24 \<le> a"
  shows "\<exists>m' fa. free (ptr (b + a)) (ptr (k - a)) m = Some (m', fa) \<and> area_ok (b, a) \<and>
           owns m' (F \<union> {b + a ..< b + k}) \<and> {b ..< b + a} \<inter> (F \<union> {b + a ..< b + k} \<union> hcell) = {} \<and>
           unchanged_outside (F \<union> {b + a ..< b + k} \<union> hcell) m m'"
proof -
  have "area_ok (b + a, k - a)" "area_ok (b, a)" and e: "b + a + (k - a) = b + k"
    using assms(2,4-6) by (auto simp: area_ok_def dvd_add dvd_diff_nat)
  moreover have sub: "{b + a ..< b + a + (k - a)} \<subseteq> {b ..< b + k}" "{b ..< b + a} \<subseteq> {b ..< b + k}"
    using assms(5) by auto
  moreover have "{b + a ..< b + a + (k - a)} \<inter> (F \<union> hcell) = {}"
    using assms(3) sub(1) by blast
  moreover have "{b ..< b + a} \<inter> (F \<union> {b + a ..< b + k} \<union> hcell) = {}"
    using assms(3) sub(2) by fastforce
  ultimately show ?thesis
    using free_block [OF assms(1), of "b + a" "k - a"] e by auto
qed

end

lemma areas_split_bytes:
  assumes "areas_ok (As @ (s, n) # Bs)"
  shows "bytes (As @ Bs) = bytes (As @ (s, n) # Bs) - {s ..< s + n}"
proof -
  have "areas_ok (As @ Bs)" "block_apart s n As"  "block_apart s n Bs" "0 < n"
    using assms aboveD above_block_apart [of "s + n" Bs s n]
    by (force simp: areas_ok_append block_apart_def list_all_iff area_ok_def)+
  then have "{s ..< s + n} \<inter> bytes (As @ Bs) = {}"
    using block_apart_iff_disjoint [of n "As @ Bs" s] by simp
  then show ?thesis by auto
qed

lemma heap_delete_owned:
  assumes inv: "heap_inv m h As" and "(s, n) \<in> set As"
  shows "heap_owns h (heap_delete (ptr h) (ptr (nn (s, n))) m) (bytes As - {s ..< s + n})"
    and "unchanged_outside (bytes As \<union> {h ..< h + 8}) m (heap_delete (ptr h) (ptr (nn (s, n))) m)"
proof -
  obtain As1 As2 where As: "As = As1 @ (s, n) # As2" using assms(2) by (meson split_list)
  let ?m = "heap_delete (ptr h) (ptr (nn (s, n))) m"
  note I = heap_invD [OF inv]
  have wf: "wf_nodes h (map nn As1 @ nn (s, n) # map nn As2)" using I(3) As by simp
  have rep: "rep m h (map nn As1 @ nn (s, n) # map nn As2) NULL" using I(4) As by simp
  have "sizes_ok ?m (As1 @ As2) \<longleftrightarrow> sizes_ok m (As1 @ As2)"
    by (rule sizes_ok_cong) (use delete_sizes [OF wf rep] in auto)
  moreover have "rep ?m h (map nn (As1 @ As2)) NULL"
    using delete_splice [OF wf rep] by simp
  ultimately have "heap_inv ?m h (As1 @ As2)"
    using I As by (auto simp: heap_inv_def areas_ok_append)
  then show "heap_owns h ?m (bytes As - {s ..< s + n})"
    using areas_split_bytes [of As1 s n As2] I(1) As unfolding heap_owns_def by blast
  show "unchanged_outside (bytes As \<union> {h ..< h + 8}) m ?m"
    using unchanged_delete [OF wf rep] heap_inv_frame_nodes [OF I(1), of "bytes As \<union> {h ..< h + 8}"] As
    by simp
qed

lemma heap_free_merged:
  assumes "heap_owns h m F" and blk: "area_ok (b, k)" and disj: "{b ..< b + k} \<inter> (F \<union> {h ..< h + 8}) = {}"
  shows "\<exists>m' fa s n. heap_free (ptr h) (ptr b) (ptr k) m = Some (m', fa) \<and>
        heap_owns h m' (F \<union> {b ..< b + k}) \<and>
        unchanged_outside (F \<union> {b ..< b + k} \<union> {h ..< h + 8}) m m' \<and> area_ok (s, n) \<and>
        {b ..< b + k} \<subseteq> {s ..< s + n} \<and> {s ..< s + n} \<subseteq> F \<union> {b ..< b + k} \<and>
        HEAP_FREE_AREA_SIZE m' fa = ptr n \<and> HEAP_FREE_AREA_START m' fa = ptr s \<and>
        HEAP_FREE_AREA_END fa = ptr (s + n) \<and>
        heap_owns h (heap_delete (ptr h) fa m') (F \<union> {b ..< b + k} - {s ..< s + n}) \<and>
        unchanged_outside (F \<union> {b ..< b + k} \<union> {h ..< h + 8}) m' (heap_delete (ptr h) fa m')"
proof -
  obtain As where inv: "heap_inv m h As" and F: "bytes As = F" using assms(1) by (auto simp: heap_owns_def)
  note I = heap_invD [OF inv]
  have "0 < k" using blk by (simp add: area_ok_def)
  then have apart: "block_apart b k As"
    using disj block_apart_iff_disjoint [OF _ I(1)] F by blast
  have "{b ..< b + k} \<inter> {h ..< h + 8} = {}" using disj by blast
  then have hb: "h + 8 \<le> b \<or> b + k \<le> h"
    using ivl_disjoint_iff [OF \<open>0 < k\<close>, of 8 b h] by linarith
  obtain m' C where r: "heap_free (ptr h) (ptr b) (ptr k) m = Some (m', ptr (nn C))"
      and inv': "heap_inv m' h (free_area b k As)" and C: "C \<in> set (free_area b k As)"
      "fst C \<le> b" "b + k \<le> fst C + snd C"
    and u: "unchanged_outside (bytes As \<union> {b ..< b + k} \<union> {h ..< h + 8}) m m'"
    by (rule heap_free_correct [OF inv blk apart hb])
  obtain s n where sn: "C = (s, n)" by fastforce
  have B: "bytes (free_area b k As) = F \<union> {b ..< b + k}" using bytes_free_area [OF I(1) apart] F by auto
  note I' = heap_invD [OF inv']
  have ok: "area_ok (s, n)" using I'(2) C(1) sn by blast
  have sz: "fa_size m' (ptr (nn (s, n))) = ptr n" using I'(5) C(1) sn by (auto simp: sizes_ok_def list_all_iff)
  have "{s ..< s + n} \<subseteq> F \<union> {b ..< b + k}" using C(1) sn unfolding B [symmetric] by (force simp: bytes_def)
  moreover have "heap_owns h m' (F \<union> {b ..< b + k})" using inv' B unfolding heap_owns_def by blast
  ultimately show ?thesis
    using r u F sn ok C sz area_bounds [OF ok] heap_delete_owned [OF inv' C(1) [unfolded sn]]
    by (intro exI [of _ m'] exI [of _ "ptr (nn C)"] exI [of _ s] exI [of _ n])
      (simp add: B HEAP_FREE_AREA_SIZE_def)
qed

lemma heap_alloc_at_owned:
  assumes "heap_owns h m F" and "b < 2 ^ 64" and "0 < z" and "z + 7 < 2 ^ 64"
  shows "heap_alloc_at (ptr h) (ptr b) (ptr z) m = Some (m, 0) \<or>
      (\<exists>m' k. heap_alloc_at (ptr h) (ptr b) (ptr z) m = Some (m', ptr k) \<and> adjust z \<le> k \<and> 8 dvd k \<and>
        {b ..< b + k} \<subseteq> F \<and> b + k < 2 ^ 63 \<and> heap_owns h m' (F - {b ..< b + k}) \<and>
        unchanged_outside (F \<union> {h ..< h + 8}) m m')"
proof -
  obtain As where inv: "heap_inv m h As" and F: "bytes As = F" using assms(1) by (auto simp: heap_owns_def)
  show ?thesis
  proof (cases "\<exists>n As'. As = (b, n) # As' \<and> adjust z \<le> n")
    case False
    then have "heap_alloc_at (ptr h) (ptr b) (ptr z) m = Some (m, 0)"
      by (intro heap_alloc_at_skip [OF inv assms(2,4)]) (auto simp: not_le)
    then show ?thesis by blast
  next
    case True
    then obtain n As' where As: "As = (b, n) # As'" and n: "adjust z \<le> n" by blast
    have ok: "area_ok (b, n)" "areas_ok ([] @ (b, n) # As')" using heap_invD(1) [OF inv] As by auto
    have split: "bytes As' = F - {b ..< b + n}"
      using areas_split_bytes [OF ok(2)] F As by simp
    define k where "k = (if n < adjust z + 56 then n else adjust z)"
    define Bs where "Bs = (if n < adjust z + 56 then As' else (b + adjust z, n - adjust z) # As')"
    have k: "adjust z \<le> k" "k \<le> n" "8 dvd k"
      using n ok(1) adjust_bounds(3) [of z] by (simp_all add: area_ok_def k_def)
    obtain m' where m': "heap_alloc_at (ptr h) (ptr b) (ptr z) m = Some (m', ptr k)"
        "heap_inv m' h Bs" "unchanged_outside (bytes ((b, n) # As') \<union> {h ..< h + 8}) m m'"
      using heap_alloc_at_head [OF inv [unfolded As] assms(3,4) n] unfolding k_def Bs_def by (elim exE conjE)
    have sub: "{b ..< b + n} \<subseteq> F" using F As by auto
    have "{b + adjust z ..< b + n} \<union> (F - {b ..< b + n}) = F - {b ..< b + adjust z}"
      using sub n by fastforce
    then have "bytes Bs = F - {b ..< b + k}"
      using split n by (simp add: Bs_def k_def)
    then have "heap_owns h m' (F - {b ..< b + k})" using m'(2) unfolding heap_owns_def by blast
    moreover have "{b ..< b + k} \<subseteq> {b ..< b + n}" using k(2) by simp
    then have "{b ..< b + k} \<subseteq> F" using sub by (rule subset_trans)
    moreover have "b + k < 2 ^ 63" using k(2) ok(1) by (simp add: area_ok_def)
    moreover have "unchanged_outside (F \<union> {h ..< h + 8}) m m'" using m'(3) F As by simp
    ultimately show ?thesis using m'(1) k by blast
  qed
qed

interpretation ht: heap_trim "heap_owns h" "{h ..< h + 8}" "heap_alloc (ptr h)" "heap_free (ptr h)"
    HEAP_FREE_AREA_SIZE HEAP_FREE_AREA_START HEAP_FREE_AREA_END "heap_delete (ptr h)" "heap_alloc_at (ptr h)"
  for h
proof (unfold_locales, goal_cases)
  case (1 m F b k)
  then show ?case by (rule heap_free_merged)
next
  case (2 m F b z)
  then show ?case by (rule heap_alloc_at_owned)
qed

section \<open>The consistency check\<close>

text \<open>What the check demands of the chain of nodes it walks, from a node \<open>fa\<close> reached from \<open>prev\<close>.\<close>

fun checked_chain :: "mem \<Rightarrow> addr \<Rightarrow> addr \<Rightarrow> addr list \<Rightarrow> bool" where
  "checked_chain m prev fa [] \<longleftrightarrow> fa = NULL"
| "checked_chain m prev fa (n # ns) \<longleftrightarrow>
     fa = n \<and> n \<noteq> NULL \<and> 8 dvd unat (HEAP_FREE_AREA_END n) \<and> 8 dvd unat (fa_size m n) \<and> fa_prev m n = prev \<and>
     (prev \<noteq> NULL \<longrightarrow> HEAP_FREE_AREA_END prev < HEAP_FREE_AREA_START m n) \<and>
     checked_chain m n (fa_next m n) ns"

lemma granularity_mask: "x AND (HEAP_GRANULARITY - 1) = 0 \<longleftrightarrow> 8 dvd unat x"
proof -
  have "x AND (HEAP_GRANULARITY - 1) = take_bit 3 x"
    using take_bit_eq_mask [of 3 x] by (simp add: HEAP_GRANULARITY_def mask_numeral)
  moreover have "unat (take_bit 3 x) = unat x mod 8" by (simp add: take_bit_eq_mod unat_mod)
  ultimately show ?thesis by (metis dvd_eq_mod_eq_0 unat_0 unat_eq_zero)
qed

lemma heap_check_loop_sound:
  assumes "heap_check_loop m prev fa = Some r"
  shows "r = Inr () \<longrightarrow> (\<exists>ns. checked_chain m prev fa ns)"
proof (rule heap_check_loop.raw_induct [OF _ assms], rule impI)
  fix loop :: "mem \<Rightarrow> addr \<Rightarrow> addr \<Rightarrow> (heap_check_error + unit) option" and m prev fa and r :: "heap_check_error + unit"
  assume IH: "\<And>m prev fa r. loop m prev fa = Some r \<Longrightarrow> r = Inr () \<longrightarrow> (\<exists>ns. checked_chain m prev fa ns)"
    and r: "r = Inr ()"
    and step: "(if fa = NULL then Some (Inr ())
      else if HEAP_FREE_AREA_END fa AND (HEAP_GRANULARITY - 1) \<noteq> 0
              \<or> fa_size m fa AND (HEAP_GRANULARITY - 1) \<noteq> 0 then Some (Inl Alignment_error)
      else if fa_prev m fa \<noteq> prev then Some (Inl Prev_corrupted)
      else if prev \<noteq> NULL \<and> HEAP_FREE_AREA_START m fa \<le> HEAP_FREE_AREA_END prev
      then Some (Inl (if HEAP_FREE_AREA_END prev = HEAP_FREE_AREA_START m fa then Unmerged
                      else Overlaps))
      else loop m fa (fa_next m fa)) = Some r"
  show "\<exists>ns. checked_chain m prev fa ns"
  proof (cases "fa = NULL")
    case True
    then have "checked_chain m prev fa []" by simp
    then show ?thesis by blast
  next
    case False
    with step r have rest: "loop m fa (fa_next m fa) = Some (Inr ())" and ok: "8 dvd unat (HEAP_FREE_AREA_END fa)"
        "8 dvd unat (fa_size m fa)" "fa_prev m fa = prev"
        "prev \<noteq> NULL \<longrightarrow> HEAP_FREE_AREA_END prev < HEAP_FREE_AREA_START m fa"
      by (auto simp: granularity_mask not_le split: if_splits)
    from IH [OF rest] obtain ns where "checked_chain m fa (fa_next m fa) ns" by blast
    with False ok have "checked_chain m prev fa (fa # ns)" by simp
    then show ?thesis by blast
  qed
qed

lemma heap_check_loop_complete:
  "checked_chain m prev fa ns \<Longrightarrow> heap_check_loop m prev fa = Some (Inr ())"
proof (induction ns arbitrary: prev fa)
  case Nil
  then show ?case by (simp add: heap_check_loop.simps)
next
  case (Cons n ns)
  then show ?case
    by (subst heap_check_loop.simps) (auto simp: granularity_mask not_le)
qed

lemma heap_inv_chain:
  assumes "areas_ok As" and "links m p (map nn As) NULL" and "sizes_ok m As"
    and "p = NULL \<or> (\<exists>A. area_ok A \<and> p = ptr (nn A) \<and> all_above (fst A + snd A) As)"
  shows "checked_chain m p (first_nd (map nn As) NULL) (map (\<lambda>A. ptr (nn A)) As)"
  using assms
proof (induction As arbitrary: p)
  case Nil
  then show ?case by simp
next
  case (Cons B As)
  then have ok: "area_ok B" by simp
  have "8 dvd unat (ptr (fst B + snd B))" "8 dvd unat (ptr (snd B))"
    using ok by (simp_all add: unat_ptr area_ok_def dvd_add)
  moreover have "HEAP_FREE_AREA_END p < HEAP_FREE_AREA_START m (ptr (nn B))" if "p \<noteq> NULL"
    using Cons.prems that ok area_ok_ptr(2) [OF ok] by (auto simp: ptr_less area_ok_def)
  moreover have "checked_chain m (ptr (nn B)) (first_nd (map nn As) NULL) (map (\<lambda>A. ptr (nn A)) As)"
    using Cons.prems ok by (intro Cons.IH) auto
  ultimately show ?case
    using Cons.prems ok area_ok_ptr(1) [OF ok] by (auto simp: area_ok_node)
qed

section \<open>Heaps in concrete memories\<close>

text \<open>Two small heaps whose list cell is at 4096, built by the code from an all-zero memory.\<close>

definition demo_heap1 :: mem where
  "demo_heap1 = fst (the (heap_free (ptr 4096) (ptr 8192) (ptr 256) (\<lambda>_. 0)))"

definition demo_heap2 :: mem where
  "demo_heap2 = fst (the (heap_free (ptr 4096) (ptr 12288) (ptr 128) demo_heap1))"

lemma load64_zero: "load64 (\<lambda>_. 0) a = 0"
proof -
  have "le_nat (read_bytes (\<lambda>_. 0) a n) = 0" for n by (induction n arbitrary: a) simp_all
  then show ?thesis by (simp add: load64_def)
qed

lemma heap_inv_zero: "cell_at h \<Longrightarrow> heap_inv (\<lambda>_. 0) h []"
  by (simp add: heap_inv_def rep_def load64_zero)

lemma demo_heap1_inv: "heap_inv demo_heap1 4096 [(8192, 256)]"
proof -
  have "heap_inv (\<lambda>_. 0) 4096 []" by (rule heap_inv_zero) (simp add: cell_at_def)
  moreover have "area_ok (8192, 256)" by (simp add: area_ok_def)
  ultimately obtain m' C where "heap_free (ptr 4096) (ptr 8192) (ptr 256) (\<lambda>_. 0) = Some (m', ptr (nn C))"
      "heap_inv m' 4096 (free_area 8192 256 [])"
    by (rule heap_free_correct) auto
  then show ?thesis by (simp add: demo_heap1_def)
qed

lemma demo_heap2_inv: "heap_inv demo_heap2 4096 [(8192, 256), (12288, 128)]"
proof -
  have "area_ok (12288, 128)" by (simp add: area_ok_def)
  with demo_heap1_inv obtain m' C where
      "heap_free (ptr 4096) (ptr 12288) (ptr 128) demo_heap1 = Some (m', ptr (nn C))"
      "heap_inv m' 4096 (free_area 12288 128 [(8192, 256)])"
    by (rule heap_free_correct) auto
  then show ?thesis by (simp add: demo_heap2_def)
qed

section \<open>Properties\<close>

text \<open>
  C1. Returning a block to a well-formed heap terminates and implements the abstract \<open>free_area\<close>: the
  pointer structure afterwards represents the sorted list in which the block has been merged with the
  areas it touches; the pointer returned is the node of the area that now contains the block; and no
  byte outside the free areas, the block and the list cell is written.
\<close>

theorem heap_free_refines:
  assumes "heap_inv m h As" and "area_ok (b, k)" and "{b ..< b + k} \<inter> (bytes As \<union> {h ..< h + 8}) = {}"
  shows "\<exists>m' C. heap_free (ptr h) (ptr b) (ptr k) m = Some (m', ptr (nn C)) \<and>
           heap_inv m' h (free_area b k As) \<and> C \<in> set (free_area b k As) \<and>
           {b ..< b + k} \<subseteq> {fst C ..< fst C + snd C} \<and>
           bytes (free_area b k As) = bytes As \<union> {b ..< b + k} \<and>
           unchanged_outside (bytes As \<union> {b ..< b + k} \<union> {h ..< h + 8}) m m'"
proof -
  have ok: "areas_ok As" "0 < k" using assms(1,2) by (auto simp: heap_inv_def area_ok_def)
  have apart: "block_apart b k As" using assms(3) block_apart_iff_disjoint [OF ok(2,1)] by blast
  have "{b ..< b + k} \<inter> {h ..< h + 8} = {}" using assms(3) by blast
  then have hb: "h + 8 \<le> b \<or> b + k \<le> h"
    using ivl_disjoint_iff [OF ok(2), of 8 b h] by linarith
  show ?thesis
    using bytes_free_area [OF ok(1) apart]
    by (rule_tac heap_free_correct [OF assms(1,2) apart hb]) fastforce
qed

theorem heap_free_refines_witness:
  "\<exists>m'. heap_free (ptr 4096) (ptr 8448) (ptr 3840) demo_heap2 = Some (m', ptr 12392) \<and>
        heap_inv m' 4096 [(8192, 4224)]"
proof -
  have "area_ok (8448, 3840)" by (simp add: area_ok_def)
  moreover have "{8448 ..< 8448 + 3840} \<inter> (bytes [(8192, 256), (12288, 128)] \<union> {4096 ..< 4096 + 8}) = {}"
    by auto
  ultimately show ?thesis
    using heap_free_refines [OF demo_heap2_inv] by (fastforce simp: nn_def)
qed

text \<open>
  C2. Allocation from a well-formed heap terminates and is first fit: it implements \<open>alloc_area\<close> on
  the rounded request. When an area is large enough the block comes from the front of the first such
  area (all of it when less than 56 bytes would remain), else the heap is untouched, \<open>NULL\<close> is
  returned and \<open>*size\<close> keeps its value.
\<close>

theorem heap_alloc_refines:
  assumes "heap_inv m h As" and "z + 24 < 2 ^ 64"
  shows "case alloc_area (request z) As of
           None \<Rightarrow> heap_alloc (ptr h) (ptr z) m = Some (m, NULL, ptr z)
         | Some (b, k, Bs) \<Rightarrow> z \<le> k \<and> area_ok (b, k) \<and>
             (\<exists>m'. heap_alloc (ptr h) (ptr z) m = Some (m', ptr b, ptr k) \<and> heap_inv m' h Bs \<and>
               bytes Bs = bytes As - {b ..< b + k} \<and> {b ..< b + k} \<subseteq> bytes As \<and>
               unchanged_outside (bytes As \<union> {h ..< h + 8}) m m')"
proof (cases "alloc_area (request z) As")
  case None
  then show ?thesis
    using assms request_bounds [of z] by (simp add: heap_alloc_failure)
next
  case (Some r)
  obtain b k Bs where r: "r = (b, k, Bs)" by (cases r)
  with Some have al: "alloc_area (request z) As = Some (b, k, Bs)" by simp
  have ok: "areas_ok As" using assms(1) by (simp add: heap_inv_def)
  note A = alloc_area_ok [OF al ok request_bounds(3,2)]
  then have "{b ..< b + k} \<inter> bytes Bs = {}"
    using block_apart_iff_disjoint [of k Bs b] by (auto simp: area_ok_def)
  then have "bytes Bs = bytes As - {b ..< b + k}" "{b ..< b + k} \<subseteq> bytes As"
    using alloc_area_bytes [OF al] by auto
  moreover have "z \<le> k" using alloc_area_size [OF al] request_bounds(1) [of z] by linarith
  ultimately show ?thesis
    using heap_alloc_success [OF assms(1) _ al] assms(2) A al by auto
qed

theorem heap_alloc_refines_witness:
  "\<exists>m'. heap_alloc (ptr 4096) (ptr 100) demo_heap2 = Some (m', ptr 8192, ptr 104) \<and>
        heap_inv m' 4096 [(8296, 152), (12288, 128)]"
  using heap_alloc_refines [OF demo_heap2_inv, of 100] by (simp add: request_def adjust_def) blast

text \<open>
  C3. Allocation and freeing cancel: freeing the block just allocated, with the size the allocation
  reported, gives back exactly the list of free areas there was before.
\<close>

theorem heap_alloc_free_roundtrip:
  assumes "heap_inv m h As" and "z + 24 < 2 ^ 64" and "heap_alloc (ptr h) (ptr z) m = Some (m', ptr b, ptr k)"
    and "0 < b" and "b < 2 ^ 64" and "k < 2 ^ 64"
  shows "\<exists>m'' fa. heap_free (ptr h) (ptr b) (ptr k) m' = Some (m'', fa) \<and> heap_inv m'' h As"
proof -
  have ok: "areas_ok As" using assms(1) by (simp add: heap_inv_def)
  have "alloc_area (request z) As \<noteq> None"
    using heap_alloc_failure [OF assms(1), of z] request_bounds(4) [of z] assms(2-5) ptr_eq_0 [OF assms(5)]
    by (auto simp del: not_None_eq)
  then obtain c n Bs where al: "alloc_area (request z) As = Some (c, n, Bs)" by auto
  note A = alloc_area_ok [OF al ok request_bounds(3,2)]
  obtain m1 where m1: "heap_alloc (ptr h) (ptr z) m = Some (m1, ptr c, ptr n)" "heap_inv m1 h Bs"
    using heap_alloc_success [OF assms(1) _ al] assms(2) by auto
  have "c < 2 ^ 64" "n < 2 ^ 64" using A by (auto simp: area_ok_def)
  with m1(1) assms(3,5,6) have eq: "m1 = m'" "c = b" "n = k" by (auto simp: ptr_eq)
  have "{c ..< c + n} \<subseteq> bytes As" using alloc_area_bytes [OF al] by blast
  then have "{c ..< c + n} \<inter> {h ..< h + 8} = {}" using heap_inv_cell [OF assms(1)] by blast
  then have "h + 8 \<le> c \<or> c + n \<le> h"
    using A ivl_disjoint_iff [of n 8 c h] by (auto simp: area_ok_def)
  then show ?thesis
    using A free_alloc_area [OF al ok request_bounds(3,2)] eq m1(2)
    by (metis heap_free_correct [of m' h Bs b k])
qed

theorem heap_alloc_free_roundtrip_witness:
  "\<exists>m' m'' fa. heap_alloc (ptr 4096) (ptr 100) demo_heap2 = Some (m', ptr 8192, ptr 104) \<and>
       heap_free (ptr 4096) (ptr 8192) (ptr 104) m' = Some (m'', fa) \<and>
       heap_inv m'' 4096 [(8192, 256), (12288, 128)]"
proof -
  obtain m' where m': "heap_alloc (ptr 4096) (ptr 100) demo_heap2 = Some (m', ptr 8192, ptr 104)"
    using heap_alloc_success [OF demo_heap2_inv, of 100 8192 104 "[(8296, 152), (12288, 128)]"]
    by (auto simp: request_def adjust_def)
  then show ?thesis using heap_alloc_free_roundtrip [OF demo_heap2_inv _ m'] by auto
qed

text \<open>
  C32. Allocation at the start of a free area depends on its place in the list. At the first area it succeeds when the
  area has enough bytes and takes its front (all of it when less than 56 bytes would remain). At any
  later area it fails, whatever that area's size: the loop stops at the first area whose start is
  not above the address. In-place growth is therefore possible only into the lowest free area.
\<close>

theorem heap_alloc_at_first_area_only:
  assumes "heap_inv m h ((s, n) # As)" and "0 < z" and "z + 7 < 2 ^ 64"
  shows "(adjust z \<le> n \<longrightarrow>
           (\<exists>m' k Bs. heap_alloc_at (ptr h) (ptr s) (ptr z) m = Some (m', ptr k) \<and>
              k = (if n < adjust z + 56 then n else adjust z) \<and> z \<le> k \<and>
              heap_inv m' h Bs \<and> Bs = (if n = k then As else (s + k, n - k) # As) \<and>
              unchanged_outside (bytes ((s, n) # As) \<union> {h ..< h + 8}) m m')) \<and>
         (\<forall>(b, k) \<in> set As. heap_alloc_at (ptr h) (ptr b) (ptr z) m = Some (m, 0))"
proof (intro conjI impI ballI; (clarify)?)
  assume z: "adjust z \<le> n"
  show "\<exists>m' k Bs. heap_alloc_at (ptr h) (ptr s) (ptr z) m = Some (m', ptr k) \<and>
      k = (if n < adjust z + 56 then n else adjust z) \<and> z \<le> k \<and>
      heap_inv m' h Bs \<and> Bs = (if n = k then As else (s + k, n - k) # As) \<and>
      unchanged_outside (bytes ((s, n) # As) \<union> {h ..< h + 8}) m m'"
    using heap_alloc_at_head [OF assms z] adjust_bounds(1) [of z] z
    by (elim exE conjE, intro exI conjI) (assumption, auto)
next
  fix b k
  assume "(b, k) \<in> set As"
  moreover have "areas_ok ((s, n) # As)" using assms(1) by (simp add: heap_inv_def)
  ultimately have "s + n < b" "area_ok (b, k)"
    using aboveD [of "s + n" As "(b, k)"] areas_ok_area [of As "(b, k)"] by auto
  then show "heap_alloc_at (ptr h) (ptr b) (ptr z) m = Some (m, 0)"
    by (intro heap_alloc_at_skip [OF assms(1) _ assms(3)]) (auto simp: area_ok_def)
qed

theorem heap_alloc_at_first_area_only_witness:
  "(\<exists>m'. heap_alloc_at (ptr 4096) (ptr 8192) (ptr 60) demo_heap2 = Some (m', ptr 64) \<and>
        heap_inv m' 4096 [(8256, 192), (12288, 128)]) \<and>
   heap_alloc_at (ptr 4096) (ptr 12288) (ptr 60) demo_heap2 = Some (demo_heap2, 0)"
  using heap_alloc_at_first_area_only [OF demo_heap2_inv, of 60] by (auto simp: adjust_def)

text \<open>
  The consistency check passes exactly on finite chains of nodes whose ends and sizes are
  multiples of 8, whose \<open>prev\<close> pointers match and whose areas ascend with a gap between neighbours.
\<close>

theorem heap_check_exact:
  "heap_check heap m = Some (Inr ()) \<longleftrightarrow> (\<exists>ns. checked_chain m NULL heap ns)"
proof
  assume "heap_check heap m = Some (Inr ())"
  then have "heap_check_loop m NULL heap = Some (Inr ())" by (simp add: heap_check_def split: if_splits)
  then show "\<exists>ns. checked_chain m NULL heap ns" using heap_check_loop_sound by blast
next
  assume "\<exists>ns. checked_chain m NULL heap ns"
  then obtain ns where ns: "checked_chain m NULL heap ns" by blast
  then have "heap = NULL \<or> fa_prev m heap = NULL" by (cases ns) auto
  then show "heap_check heap m = Some (Inr ())"
    using heap_check_loop_complete [OF ns] by (simp add: heap_check_def)
qed

text \<open>
  Every heap that satisfies the invariant, and so every heap that allocation and freeing produce,
  passes the consistency check.
\<close>

theorem heap_check_accepts:
  assumes "heap_inv m h As"
  shows "heap_check (load64 m (ptr h)) m = Some (Inr ())"
proof -
  note I = heap_invD [OF assms]
  have chain: "checked_chain m NULL (load64 m (ptr h)) (map (\<lambda>A. ptr (nn A)) As)"
    using heap_inv_chain [OF I(1,6,5)] I(7) by simp
  then have "load64 m (ptr h) = NULL \<or> fa_prev m (load64 m (ptr h)) = NULL" by (cases As) auto
  then show ?thesis using heap_check_loop_complete [OF chain] by (simp add: heap_check_def)
qed

theorem heap_check_accepts_witness: "heap_check (load64 demo_heap2 (ptr 4096)) demo_heap2 = Some (Inr ())"
  using heap_check_accepts [OF demo_heap2_inv] .

end
