(* ===== verification/System.thy ===== *)
theory System
  imports Prelude
begin

text \<open>
  The machine the loader runs on: its state and the system-call wrappers of \<open>rtld/lib.c\<close>. The kernel
  is a parameter: a function from a system-call number, its arguments, the kernel's own state and the
  memory to the raw result register, the new state and the new memory. The wrappers hand the raw
  result on as they do in the code (\<open>syscall\<close> of \<open>base.S\<close> does not turn it into \<open>-1\<close> and \<open>errno\<close>).
\<close>

section \<open>State and kernel\<close>

type_synonym 'w kernel = "addr \<Rightarrow> addr list \<Rightarrow> 'w \<times> mem \<Rightarrow> addr \<times> 'w \<times> mem"

text \<open>
  \<open>world\<close> is the kernel's state, \<open>smem\<close> the memory, \<open>errno\<close> and \<open>pagesize\<close> the globals \<open>errno\<close> and
  \<open>__pagesize\<close>.
\<close>

record 'w lstate =
  world :: 'w
  smem :: mem
  errno :: "32 word"
  pagesize :: addr

definition SYS_read :: addr where "SYS_read = 0"
definition SYS_write :: addr where "SYS_write = 1"
definition SYS_open :: addr where "SYS_open = 2"
definition SYS_close :: addr where "SYS_close = 3"
definition SYS_fstat :: addr where "SYS_fstat = 5"
definition SYS_lseek :: addr where "SYS_lseek = 8"
definition SYS_mmap :: addr where "SYS_mmap = 9"
definition SYS_mprotect :: addr where "SYS_mprotect = 10"
definition SYS_munmap :: addr where "SYS_munmap = 11"
definition SYS_exit :: addr where "SYS_exit = 60"

definition ENOMEM :: "32 word" where
  "ENOMEM = 12"

definition set_errno :: "32 word \<Rightarrow> 'w lstate \<Rightarrow> 'w lstate" where
  "set_errno e s = s\<lparr>errno := e\<rparr>"

definition syscall :: "'w kernel \<Rightarrow> addr \<Rightarrow> addr list \<Rightarrow> 'w lstate \<Rightarrow> 'w lstate \<times> addr" where
  "syscall K sysno args s =
     (case K sysno args (world s, smem s) of (r, w, m) \<Rightarrow> (s\<lparr>world := w, smem := m\<rparr>, r))"

section \<open>The wrappers\<close>

definition mmap ::
  "'w kernel \<Rightarrow> addr \<Rightarrow> addr \<Rightarrow> addr \<Rightarrow> addr \<Rightarrow> addr \<Rightarrow> addr \<Rightarrow> 'w lstate \<Rightarrow> 'w lstate \<times> addr" where
  "mmap K start len prot flags fd offset = syscall K SYS_mmap [start, len, prot, flags, fd, offset]"

text \<open>The wrappers that return \<open>int\<close> keep the low 32 bits of the result.\<close>

definition munmap :: "'w kernel \<Rightarrow> addr \<Rightarrow> addr \<Rightarrow> 'w lstate \<Rightarrow> 'w lstate \<times> 32 word" where
  "munmap K start len s = (case syscall K SYS_munmap [start, len] s of (s', r) \<Rightarrow> (s', ucast r))"

definition mprotect :: "'w kernel \<Rightarrow> addr \<Rightarrow> addr \<Rightarrow> addr \<Rightarrow> 'w lstate \<Rightarrow> 'w lstate \<times> 32 word" where
  "mprotect K a len prot s = (case syscall K SYS_mprotect [a, len, prot] s of (s', r) \<Rightarrow> (s', ucast r))"

definition sys_close :: "'w kernel \<Rightarrow> 32 word \<Rightarrow> 'w lstate \<Rightarrow> 'w lstate \<times> 32 word" where
  "sys_close K fd s = (case syscall K SYS_close [scast fd] s of (s', r) \<Rightarrow> (s', ucast r))"

definition sys_fstat :: "'w kernel \<Rightarrow> 32 word \<Rightarrow> addr \<Rightarrow> 'w lstate \<Rightarrow> 'w lstate \<times> 32 word" where
  "sys_fstat K fd buf s = (case syscall K SYS_fstat [scast fd, buf] s of (s', r) \<Rightarrow> (s', ucast r))"

definition sys_read :: "'w kernel \<Rightarrow> 32 word \<Rightarrow> addr \<Rightarrow> addr \<Rightarrow> 'w lstate \<Rightarrow> 'w lstate \<times> 32 word" where
  "sys_read K fd buf count s = (case syscall K SYS_read [scast fd, buf, count] s of (s', r) \<Rightarrow> (s', ucast r))"

definition sys_lseek :: "'w kernel \<Rightarrow> 32 word \<Rightarrow> addr \<Rightarrow> 32 word \<Rightarrow> 'w lstate \<Rightarrow> 'w lstate \<times> addr" where
  "sys_lseek K fd offset whence = syscall K SYS_lseek [scast fd, offset, scast whence]"

text \<open>\<open>__open\<close>: the mode argument is read only when \<open>O_CREAT\<close> (octal 100) is among the flags.\<close>

definition sys_open :: "'w kernel \<Rightarrow> addr \<Rightarrow> 32 word \<Rightarrow> 32 word \<Rightarrow> 'w lstate \<Rightarrow> 'w lstate \<times> 32 word" where
  "sys_open K file oflag marg s =
     (let mode = (if oflag AND 64 \<noteq> 0 then marg else 0)
      in case syscall K SYS_open [file, scast oflag, ucast mode] s of (s', r) \<Rightarrow> (s', ucast r))"

section \<open>Outcomes\<close>

text \<open>
  Code of the loader may end the process: by \<open>SYS_exit\<close> (\<open>dprintf_die\<close>, \<open>dputs_die\<close> and a failed
  \<open>assert\<close> all end in it, with code 1), by reading through a NULL pointer, by a division by zero, or by
  an access outside an array, after which C says nothing about the run. A walk may also run forever. \<open>Some (Inr r)\<close> is a normal return, \<open>Some (Inl c)\<close> the end of the process,
  \<open>None\<close> a loop that does not end. The text of diagnostics is not modelled.
\<close>

datatype stop = Exited "32 word" | Null_deref | Div_by_zero | Out_of_bounds

type_synonym 'a outcome = "(stop + 'a) option"

abbreviation oreturn :: "'a \<Rightarrow> 'a outcome" where
  "oreturn x \<equiv> Some (Inr x)"

abbreviation ostop :: "stop \<Rightarrow> 'a outcome" where
  "ostop c \<equiv> Some (Inl c)"

definition obind :: "'a outcome \<Rightarrow> ('a \<Rightarrow> 'b outcome) \<Rightarrow> 'b outcome" where
  "obind x f = Option.bind x (\<lambda>r. case r of Inl c \<Rightarrow> Some (Inl c) | Inr y \<Rightarrow> f y)"

definition oassert :: "bool \<Rightarrow> unit outcome" where
  "oassert b = (if b then oreturn () else ostop (Exited 1))"

definition olift :: "'a option \<Rightarrow> 'a outcome" where
  "olift x = map_option Inr x"

lemma obind_simps [simp]:
  "obind (oreturn x) f = f x" "obind (ostop c) f = ostop c" "obind None f = None"
  by (simp_all add: obind_def)

lemma obind_return [simp]: "obind x oreturn = x"
  by (cases x) (auto simp: obind_def split: sum.splits)

lemma obind_assoc: "obind (obind x f) g = obind x (\<lambda>y. obind (f y) g)"
  by (cases x) (auto simp: obind_def split: sum.splits)

lemma oassert_simps [simp]: "oassert True = oreturn ()" "oassert False = ostop (Exited 1)"
  by (simp_all add: oassert_def)

lemma olift_simps [simp]: "olift (Some x) = oreturn x" "olift None = None"
  by (simp_all add: olift_def)

lemma obind_eq_return: "obind x f = oreturn z \<longleftrightarrow> (\<exists>y. x = oreturn y \<and> f y = oreturn z)"
  by (cases x) (auto simp: obind_def split: sum.splits)

lemma obind_mono [partial_function_mono]:
  assumes "mono_option B" and "\<And>y. mono_option (\<lambda>f. C y f)"
  shows "mono_option (\<lambda>f. obind (B f) (\<lambda>y. C y f))"
proof -
  have "mono_option (\<lambda>f. case r of Inl c \<Rightarrow> Some (Inl c) | Inr y \<Rightarrow> C y f)" for r
    using assms(2) by (cases r) (simp_all add: option.const_mono)
  with assms(1) show ?thesis
    unfolding obind_def by (rule bind_mono)
qed

section \<open>Facts\<close>

lemma syscall_fields [simp]:
  assumes "syscall K n args s = (s', r)"
  shows "errno s' = errno s" and "pagesize s' = pagesize s"
    and "K n args (world s, smem s) = (r, world s', smem s')"
  using assms by (auto simp: syscall_def split: prod.splits)

end
