(* ===== verification/Strlib.thy ===== *)
theory Strlib
  imports Prelude
begin

text \<open>
  The string and memory routines of \<open>rtld/lib.c\<close> on the byte memory: \<open>__strlen\<close>, \<open>__strcpy\<close>,
  \<open>__strcmp\<close>, \<open>memset\<close>, \<open>memcpy\<close>. The walks that look for a terminating NUL may leave the string and
  are \<open>partial_function (option)\<close>; the counted loops terminate by their counter. \<open>cstr m s xs\<close> says that
  the NUL-terminated string at address number \<open>s\<close> is \<open>xs\<close>. The locale \<open>string_compare\<close> is what the
  loader's searches by name rely on.
\<close>

section \<open>The routines\<close>

text \<open>\<open>for (p = s; *p; p++);\<close>\<close>

partial_function (option) strlen_loop :: "mem \<Rightarrow> addr \<Rightarrow> addr option" where
  "strlen_loop m p = (if m p = 0 then Some p else strlen_loop m (p + 1))"

definition strlen :: "mem \<Rightarrow> addr \<Rightarrow> addr option" where
  "strlen m s = map_option (\<lambda>p. p - s) (strlen_loop m s)"

text \<open>\<open>while ((*dst = *src) != 0) { src++; dst++; }\<close>\<close>

partial_function (option) strcpy_loop :: "addr \<Rightarrow> addr \<Rightarrow> mem \<Rightarrow> mem option" where
  "strcpy_loop dst src m =
     (let c = m src; m' = m(dst := c)
      in if c \<noteq> 0 then strcpy_loop (dst + 1) (src + 1) m' else Some m')"

definition strcpy :: "addr \<Rightarrow> addr \<Rightarrow> mem \<Rightarrow> (mem \<times> addr) option" where
  "strcpy dest src m = map_option (\<lambda>m'. (m', dest)) (strcpy_loop dest src m)"

text \<open>The difference of two \<open>unsigned char\<close>s as an \<open>int\<close>; the loop ends at a difference or a NUL of \<open>s1\<close>.\<close>

partial_function (option) strcmp :: "mem \<Rightarrow> addr \<Rightarrow> addr \<Rightarrow> int option" where
  "strcmp m s1 s2 =
     (let r = uint (m s1) - uint (m s2)
      in if r = 0 \<and> m s1 \<noteq> 0 then strcmp m (s1 + 1) (s2 + 1) else Some r)"

function memset_loop :: "addr \<Rightarrow> byte \<Rightarrow> addr \<Rightarrow> mem \<Rightarrow> mem" where
  "memset_loop p c n m = (if n = 0 then m else memset_loop (p + 1) c (n - 1) (m(p := c)))"
  by pat_completeness auto
termination
  by (relation "measure (\<lambda>(p, c, n, m). unat n)") (auto simp: unat_minus_one unat_gt_0)

text \<open>The \<open>int c\<close> argument is cut to a byte.\<close>

definition memset :: "addr \<Rightarrow> 32 word \<Rightarrow> addr \<Rightarrow> mem \<Rightarrow> mem \<times> addr" where
  "memset s c n m = (memset_loop s (ucast c) n m, s)"

function memcpy_loop :: "addr \<Rightarrow> addr \<Rightarrow> addr \<Rightarrow> mem \<Rightarrow> mem" where
  "memcpy_loop r1 r2 n m =
     (if n = 0 then m else memcpy_loop (r1 + 1) (r2 + 1) (n - 1) (m(r1 := m r2)))"
  by pat_completeness auto
termination
  by (relation "measure (\<lambda>(r1, r2, n, m). unat n)") (auto simp: unat_minus_one unat_gt_0)

definition memcpy :: "addr \<Rightarrow> addr \<Rightarrow> addr \<Rightarrow> mem \<Rightarrow> mem \<times> addr" where
  "memcpy s1 s2 n m = (memcpy_loop s1 s2 n m, s1)"

declare memset_loop.simps [simp del] memcpy_loop.simps [simp del]

section \<open>Strings in memory\<close>

fun cstr :: "mem \<Rightarrow> nat \<Rightarrow> byte list \<Rightarrow> bool" where
  "cstr m s [] \<longleftrightarrow> s < 2 ^ 64 \<and> m (ptr s) = 0"
| "cstr m s (x # xs) \<longleftrightarrow> x \<noteq> 0 \<and> m (ptr s) = x \<and> s < 2 ^ 64 \<and> cstr m (Suc s) xs"

lemma cstr_bound: "cstr m s xs \<Longrightarrow> s + length xs < 2 ^ 64"
  by (induction xs arbitrary: s) fastforce+

lemma cstr_unique: "cstr m s xs \<Longrightarrow> cstr m s ys \<Longrightarrow> xs = ys"
proof (induction xs arbitrary: s ys)
  case Nil
  then show ?case by (cases ys) auto
next
  case (Cons x xs)
  then show ?case by (cases ys) auto
qed

lemma cstr_cong:
  "(\<And>x. unat x \<in> {s .. s + length xs} \<Longrightarrow> m' x = m x) \<Longrightarrow> cstr m s xs \<Longrightarrow> cstr m' s xs"
proof (induction xs arbitrary: s)
  case Nil
  then show ?case by (auto simp: unat_ptr)
next
  case (Cons x xs)
  have "m' (ptr s) = x" using Cons.prems by (auto simp: unat_ptr)
  moreover have "cstr m' (Suc s) xs" using Cons.prems by (intro Cons.IH) auto
  ultimately show ?case using Cons.prems(2) by simp
qed

lemma cstr_unchanged:
  "unchanged_outside S m m' \<Longrightarrow> cstr m s xs \<Longrightarrow> {s .. s + length xs} \<inter> S = {} \<Longrightarrow> cstr m' s xs"
  by (rule cstr_cong) (auto simp: unchanged_outside_def)

section \<open>Functional correctness\<close>

lemma strlen_loop_cstr: "cstr m s xs \<Longrightarrow> strlen_loop m (ptr s) = Some (ptr (s + length xs))"
proof (induction xs arbitrary: s)
  case Nil
  then show ?case by (subst strlen_loop.simps) simp
next
  case (Cons x xs)
  then have "strlen_loop m (ptr (Suc s)) = Some (ptr (Suc s + length xs))" by simp
  with Cons.prems show ?case by (subst strlen_loop.simps) simp
qed

lemma strlen_cstr: "cstr m s xs \<Longrightarrow> strlen m (ptr s) = Some (ptr (length xs))"
  by (simp add: strlen_def strlen_loop_cstr)

text \<open>The value \<open>__strcmp\<close> computes, on byte lists.\<close>

fun cmp_bytes :: "byte list \<Rightarrow> byte list \<Rightarrow> int" where
  "cmp_bytes [] [] = 0"
| "cmp_bytes [] (y # ys) = - uint y"
| "cmp_bytes (x # xs) [] = uint x"
| "cmp_bytes (x # xs) (y # ys) = (if x = y then cmp_bytes xs ys else uint x - uint y)"

lemma strcmp_cstr:
  "cstr m a xs \<Longrightarrow> cstr m b ys \<Longrightarrow> strcmp m (ptr a) (ptr b) = Some (cmp_bytes xs ys)"
proof (induction xs ys arbitrary: a b rule: cmp_bytes.induct)
  case (4 x xs y ys)
  then show ?case
    by (subst strcmp.simps) (auto simp: Let_def)
qed (subst strcmp.simps, simp add: Let_def uint_0_iff)+

lemma cmp_bytes_0: "0 \<notin> set xs \<Longrightarrow> 0 \<notin> set ys \<Longrightarrow> cmp_bytes xs ys = 0 \<longleftrightarrow> xs = ys"
  by (induction xs ys rule: cmp_bytes.induct) (auto simp: uint_0_iff)

lemma cstr_nonzero: "cstr m s xs \<Longrightarrow> 0 \<notin> set xs"
  by (induction xs arbitrary: s) auto

lemma memset_loop_eq:
  "memset_loop p c n m = (\<lambda>x. if in_range p (unat n) x then c else m x)"
proof (induction p c n m rule: memset_loop.induct)
  case (1 p c n m)
  show ?case
  proof (cases "n = 0")
    case True
    then show ?thesis by (simp add: memset_loop.simps)
  next
    case False
    then have "unat n = Suc (unat (n - 1))" by (rule unat_pred)
    moreover have "memset_loop p c n m = memset_loop (p + 1) c (n - 1) (m(p := c))"
      using False by (subst memset_loop.simps) simp
    ultimately show ?thesis
      unfolding 1 [OF False] by (auto simp: in_range_Suc)
  qed
qed

text \<open>A forward copy is the copy of the old contents when the source does not meet the target.\<close>

lemma memcpy_loop_eq:
  assumes "\<And>x. in_range r1 (unat n) x \<Longrightarrow> \<not> in_range r2 (unat n) x"
  shows "memcpy_loop r1 r2 n m = (\<lambda>x. if in_range r1 (unat n) x then m (r2 + (x - r1)) else m x)"
  using assms
proof (induction r1 r2 n m rule: memcpy_loop.induct)
  case (1 r1 r2 n m)
  show ?case
  proof (cases "n = 0")
    case True
    then show ?thesis by (simp add: memcpy_loop.simps)
  next
    case False
    then have n: "unat n = Suc (unat (n - 1))" by (rule unat_pred)
    have apart: "in_range (r1 + 1) (unat (n - 1)) x \<Longrightarrow> \<not> in_range (r2 + 1) (unat (n - 1)) x" for x
      using 1(2) [of x] n by (simp add: in_range_Suc)
    have r1: "\<not> in_range (r1 + 1) (unat (n - 1)) r1"
      using unsigned_less [of "n - 1"] by (intro not_in_range_pred) simp
    have src: "r2 + (x - r1) \<noteq> r1" if "in_range (r1 + 1) (unat (n - 1)) x" for x
    proof
      assume eq: "r2 + (x - r1) = r1"
      then have "r1 - r2 = x - r1" by (metis add_diff_cancel_left')
      then have "in_range r2 (unat n) r1"
        using that n in_range_Suc [of r1 "unat (n - 1)" x] unfolding in_range_def by metis
      moreover have "in_range r1 (unat n) r1" using n by (simp add: in_range_Suc)
      ultimately show False using 1(2) by blast
    qed
    have "memcpy_loop r1 r2 n m = memcpy_loop (r1 + 1) (r2 + 1) (n - 1) (m(r1 := m r2))"
      using False by (subst memcpy_loop.simps) simp
    also have "\<dots> = (\<lambda>x. if in_range (r1 + 1) (unat (n - 1)) x then (m(r1 := m r2)) (r2 + 1 + (x - (r1 + 1)))
        else (m(r1 := m r2)) x)"
      using 1(1) [OF False apart] .
    also have "\<dots> = (\<lambda>x. if in_range r1 (unat n) x then m (r2 + (x - r1)) else m x)"
      using n r1 src by (auto simp: fun_eq_iff in_range_Suc algebra_simps)
    finally show ?thesis .
  qed
qed

text \<open>In numbers: what a fill and a copy between two blocks that do not meet leave in memory.\<close>

lemma memset_ptr:
  assumes "a + n \<le> 2 ^ 64" and "n < 2 ^ 64"
  shows "\<And>x. x < 2 ^ 64 \<Longrightarrow>
           memset_loop (ptr a) c (ptr n) m (ptr x) = (if x \<in> {a ..< a + n} then c else m (ptr x))"
    and "unchanged_outside {a ..< a + n} m (memset_loop (ptr a) c (ptr n) m)"
proof -
  show at: "memset_loop (ptr a) c (ptr n) m (ptr x) = (if x \<in> {a ..< a + n} then c else m (ptr x))"
    if "x < 2 ^ 64" for x
    using assms that by (simp add: memset_loop_eq unat_ptr in_range_ptr)
  show "unchanged_outside {a ..< a + n} m (memset_loop (ptr a) c (ptr n) m)"
    unfolding unchanged_outside_def
  proof (intro allI impI)
    fix x :: addr
    assume "unat x \<notin> {a ..< a + n}"
    moreover have "unat x < 2 ^ 64" using unsigned_less [of x] by simp
    ultimately show "memset_loop (ptr a) c (ptr n) m x = m x" using at [of "unat x"] by auto
  qed
qed

lemma memcpy_ptr:
  assumes "a + n \<le> 2 ^ 64" and "b + n \<le> 2 ^ 64" and "n < 2 ^ 64" and "{a ..< a + n} \<inter> {b ..< b + n} = {}"
  shows "\<And>i. i < n \<Longrightarrow> memcpy_loop (ptr a) (ptr b) (ptr n) m (ptr (a + i)) = m (ptr (b + i))"
    and "unchanged_outside {a ..< a + n} m (memcpy_loop (ptr a) (ptr b) (ptr n) m)"
proof -
  have "\<not> in_range (ptr b) (unat (ptr n)) x" if "in_range (ptr a) (unat (ptr n)) x" for x
  proof -
    have x: "unat x < 2 ^ 64" using unsigned_less [of x] by simp
    then have "unat x \<in> {a ..< a + n}"
      using that in_range_ptr [OF assms(1) x] assms(3) by (simp add: unat_ptr)
    then have "unat x \<notin> {b ..< b + n}" using assms(4) by blast
    then show ?thesis
      using in_range_ptr [OF assms(2) x] assms(3) by (simp add: unat_ptr)
  qed
  note eq = memcpy_loop_eq [OF this]
  show "memcpy_loop (ptr a) (ptr b) (ptr n) m (ptr (a + i)) = m (ptr (b + i))" if "i < n" for i
    using assms that by (subst eq) (auto simp: unat_ptr in_range_ptr)
  show "unchanged_outside {a ..< a + n} m (memcpy_loop (ptr a) (ptr b) (ptr n) m)"
    unfolding unchanged_outside_def
  proof (intro allI impI)
    fix x :: addr
    assume "unat x \<notin> {a ..< a + n}"
    moreover have x: "unat x < 2 ^ 64" using unsigned_less [of x] by simp
    ultimately have "\<not> in_range (ptr a) (unat (ptr n)) (ptr (unat x))"
      using assms(1,3) by (simp only: unat_ptr in_range_ptr) auto
    then show "memcpy_loop (ptr a) (ptr b) (ptr n) m x = m x" by (subst eq) auto
  qed
qed

text \<open>Copying a string to a place that does not meet it writes the string and its NUL, and no more.\<close>

lemma strcpy_loop_cstr:
  assumes "cstr m s xs" and "d + length xs < 2 ^ 64" and "{d .. d + length xs} \<inter> {s .. s + length xs} = {}"
  shows "\<exists>m'. strcpy_loop (ptr d) (ptr s) m = Some m' \<and> cstr m' d xs \<and>
           unchanged_outside {d .. d + length xs} m m'"
  using assms
proof (induction xs arbitrary: m s d)
  case Nil
  then show ?case
    by (subst strcpy_loop.simps) (auto simp: unchanged_outside_def unat_ptr)
next
  case (Cons x xs)
  let ?m = "m(ptr d := x)"
  have d: "d < 2 ^ 64" using Cons.prems(2) by simp
  have "Suc s \<le> d \<or> d < s" "d \<notin> {Suc s .. Suc s + length xs}"
    using Cons.prems(3) by (auto simp: disjoint_iff not_less_eq_eq)
  then have src: "cstr ?m (Suc s) xs"
    using Cons.prems(1) d by (intro cstr_cong [of "Suc s" xs ?m m]) (auto simp: unat_ptr)
  have "Suc d + length xs < 2 ^ 64" "{Suc d .. Suc d + length xs} \<inter> {Suc s .. Suc s + length xs} = {}"
    using Cons.prems(2,3) by auto
  from Cons.IH [OF src this] obtain m' where m': "strcpy_loop (ptr (Suc d)) (ptr (Suc s)) ?m = Some m'"
      "cstr m' (Suc d) xs" "unchanged_outside {Suc d .. Suc d + length xs} ?m m'"
    by blast
  have "m' (ptr d) = x" using m'(3) d by (auto simp: unchanged_outside_def unat_ptr)
  moreover have "unchanged_outside {d .. d + length (x # xs)} m m'"
    using m'(3) d by (auto simp: unchanged_outside_def unat_ptr)
  moreover have "strcpy_loop (ptr d) (ptr s) m = Some m'"
    using m'(1) Cons.prems(1) by (subst strcpy_loop.simps) (simp add: Let_def)
  ultimately show ?case using m'(2) Cons.prems(1) d by auto
qed

end
