(* ===== verification/Malloc.thy ===== *)
theory Malloc
  imports Heap_Props System Strlib
begin

text \<open>
  The allocator the loader uses (\<open>malloc/malloc.h\<close>, \<open>malloc.c\<close>, \<open>free.c\<close>, \<open>realloc.c\<close>, \<open>calloc.c\<close>,
  \<open>memalign.c\<close>, and \<open>_emalloc\<close>, \<open>__strdup\<close> of \<open>rtld/lib.c\<close>) in the configuration the build selects:
  no threads, no \<open>sbrk\<close>, \<open>munmap\<close> that can unmap parts of a mapping, no debugging. A block has an
  8-byte header holding its total size; the user address is the base plus 8. \<open>heap\<close> is the address of
  the variable \<open>__malloc_heap\<close>, \<open>K\<close> the kernel. \<open>None\<close> means that a walk of the free list does not end.
\<close>

section \<open>Sizes and headers\<close>

definition MALLOC_ALIGNMENT :: addr where
  "MALLOC_ALIGNMENT = 8"

definition MALLOC_HEADER_SIZE :: addr where
  "MALLOC_HEADER_SIZE = (if MALLOC_ALIGNMENT < 8 then 8 else MALLOC_ALIGNMENT)"

definition MALLOC_HEAP_EXTEND_SIZE :: "'w lstate \<Rightarrow> addr" where
  "MALLOC_HEAP_EXTEND_SIZE s = pagesize s"

definition MALLOC_UNMAP_THRESHOLD :: "'w lstate \<Rightarrow> addr" where
  "MALLOC_UNMAP_THRESHOLD s = 8 * pagesize s"

definition MALLOC_MIN_SIZE :: "'w lstate \<Rightarrow> addr" where
  "MALLOC_MIN_SIZE s = 2 * pagesize s"

definition MALLOC_REALLOC_MIN_FREE_SIZE :: addr where
  "MALLOC_REALLOC_MIN_FREE_SIZE = HEAP_MIN_SIZE + 16"

definition MALLOC_SET_SIZE :: "addr \<Rightarrow> addr \<Rightarrow> mem \<Rightarrow> mem" where
  "MALLOC_SET_SIZE base sz m = store64 m base sz"

definition MALLOC_SETUP :: "addr \<Rightarrow> addr \<Rightarrow> mem \<Rightarrow> mem \<times> addr" where
  "MALLOC_SETUP base sz m = (MALLOC_SET_SIZE base sz m, base + MALLOC_HEADER_SIZE)"

definition MALLOC_BASE :: "addr \<Rightarrow> addr" where
  "MALLOC_BASE a = a - MALLOC_HEADER_SIZE"

definition MALLOC_SIZE :: "mem \<Rightarrow> addr \<Rightarrow> addr" where
  "MALLOC_SIZE m a = load64 m (MALLOC_BASE a)"

definition MALLOC_ROUND_DOWN :: "addr \<Rightarrow> addr \<Rightarrow> addr" where
  "MALLOC_ROUND_DOWN sz power_of_2_size = sz AND NOT (power_of_2_size - 1)"

definition MALLOC_ROUND_UP :: "addr \<Rightarrow> addr \<Rightarrow> addr" where
  "MALLOC_ROUND_UP sz power_of_2_size =
     MALLOC_ROUND_DOWN (sz + (power_of_2_size - 1)) power_of_2_size"

definition MALLOC_ROUND_DOWN_TO_PAGE_SIZE :: "'w lstate \<Rightarrow> addr \<Rightarrow> addr" where
  "MALLOC_ROUND_DOWN_TO_PAGE_SIZE s sz = MALLOC_ROUND_DOWN sz (pagesize s)"

definition MALLOC_ROUND_UP_TO_PAGE_SIZE :: "'w lstate \<Rightarrow> addr \<Rightarrow> addr" where
  "MALLOC_ROUND_UP_TO_PAGE_SIZE s sz = MALLOC_ROUND_UP sz (pagesize s)"

text \<open>\<open>__heap_is_empty(heap)\<close> expands to a test of its argument.\<close>

definition heap_is_empty :: "addr \<Rightarrow> bool" where
  "heap_is_empty heap = (heap = NULL)"

section \<open>Allocation\<close>

text \<open>
  \<open>mmap\<close> is called with \<open>PROT_READ | PROT_WRITE\<close> = 3 and \<open>MAP_PRIVATE | MAP_ANONYMOUS\<close> = 34; the
  result is compared with \<open>(void *)-1\<close>.
\<close>

definition malloc_from_heap ::
  "'w kernel \<Rightarrow> addr \<Rightarrow> addr \<Rightarrow> 'w lstate \<Rightarrow> ('w lstate \<times> addr) option" where
  "malloc_from_heap K sz heap s =
     do {
       (m1, mem, sz) \<leftarrow> heap_alloc heap (sz + MALLOC_HEADER_SIZE) (smem s);
       (s, mem, sz) \<leftarrow>
         (if mem = NULL then
            (let block_size = (if sz < MALLOC_HEAP_EXTEND_SIZE s then MALLOC_HEAP_EXTEND_SIZE s
                               else MALLOC_ROUND_UP_TO_PAGE_SIZE s sz);
                 (s, block) = mmap K 0 block_size 3 34 0 0 (s\<lparr>smem := m1\<rparr>)
             in if block \<noteq> - 1 then
                  do {
                    (m2, fa) \<leftarrow> heap_free heap block block_size (smem s);
                    (m3, mem, sz) \<leftarrow> heap_alloc heap sz m2;
                    Some (s\<lparr>smem := m3\<rparr>, mem, sz)
                  }
                else Some (s, mem, sz))
          else Some (s\<lparr>smem := m1\<rparr>, mem, sz));
       if mem \<noteq> NULL then
         (let (m, mem) = MALLOC_SETUP mem sz (smem s) in Some (s\<lparr>smem := m\<rparr>, mem))
       else Some (s, mem)
     }"

definition malloc :: "'w kernel \<Rightarrow> addr \<Rightarrow> addr \<Rightarrow> 'w lstate \<Rightarrow> ('w lstate \<times> addr) option" where
  "malloc K heap sz s =
     (if sz = 0 then Some (set_errno ENOMEM s, 0)
      else if MALLOC_HEADER_SIZE * - 2 < sz then Some (set_errno ENOMEM s, 0)
      else do {
        (s, mem) \<leftarrow> malloc_from_heap K sz heap s;
        if mem = NULL then Some (set_errno ENOMEM s, 0) else Some (s, mem)
      })"

text \<open>\<open>malloc_init\<close> makes the static area, whose node is at \<open>fa\<close>, the heap.\<close>

definition malloc_init :: "addr \<Rightarrow> addr \<Rightarrow> 'w lstate \<Rightarrow> 'w lstate" where
  "malloc_init heap fa s = s\<lparr>smem := store64 (smem s) heap fa\<rparr>"

section \<open>Freeing\<close>

text \<open>The unmapping half of \<open>__free_to_heap\<close>: the area \<open>fa\<close> has grown beyond the threshold.\<close>

definition free_unmap :: "'w kernel \<Rightarrow> addr \<Rightarrow> addr \<Rightarrow> 'w lstate \<Rightarrow> 'w lstate option" where
  "free_unmap K heap fa s =
     (let start = HEAP_FREE_AREA_START (smem s) fa;
          end = HEAP_FREE_AREA_END fa;
          m = heap_delete heap fa (smem s)
      in do {
        (m, start) \<leftarrow>
          (if heap_is_empty heap then
             do {
               (m, fa) \<leftarrow> heap_free heap start (MALLOC_MIN_SIZE s) m;
               Some (m, start + MALLOC_MIN_SIZE s)
             }
           else Some (m, start));
        let unmap_start = MALLOC_ROUND_UP_TO_PAGE_SIZE s start;
        let unmap_end = MALLOC_ROUND_DOWN_TO_PAGE_SIZE s end;
        (m, unmap_start) \<leftarrow>
          (if start < unmap_start then
             (let unmap_start = (if unmap_start - start < HEAP_MIN_FREE_AREA_SIZE
                                 then unmap_start + pagesize s else unmap_start)
              in do {
                (m, fa) \<leftarrow> heap_free heap start (unmap_start - start) m;
                Some (m, unmap_start)
              })
           else Some (m, unmap_start));
        (m, unmap_end) \<leftarrow>
          (if unmap_end < end then
             (let unmap_end = (if end - unmap_end < HEAP_MIN_FREE_AREA_SIZE
                               then unmap_end - pagesize s else unmap_end)
              in do {
                (m, fa) \<leftarrow> heap_free heap unmap_end (end - unmap_end) m;
                Some (m, unmap_end)
              })
           else Some (m, unmap_end));
        let s = s\<lparr>smem := m\<rparr>;
        Some (if unmap_start < unmap_end
              then fst (munmap K unmap_start (unmap_end - unmap_start) s) else s)
      })"

definition free_to_heap :: "'w kernel \<Rightarrow> addr \<Rightarrow> addr \<Rightarrow> 'w lstate \<Rightarrow> 'w lstate option" where
  "free_to_heap K mem heap s =
     (if mem = NULL then Some s
      else
        (let sz = MALLOC_SIZE (smem s) mem;
             mem = MALLOC_BASE mem
         in do {
           (m, fa) \<leftarrow> heap_free heap mem sz (smem s);
           let s = s\<lparr>smem := m\<rparr>;
           if HEAP_FREE_AREA_SIZE m fa < MALLOC_UNMAP_THRESHOLD s then Some s
           else free_unmap K heap fa s
         }))"

definition free :: "'w kernel \<Rightarrow> addr \<Rightarrow> addr \<Rightarrow> 'w lstate \<Rightarrow> 'w lstate option" where
  "free K heap mem s = free_to_heap K mem heap s"

section \<open>The routines built on them\<close>

definition realloc :: "'w kernel \<Rightarrow> addr \<Rightarrow> addr \<Rightarrow> addr \<Rightarrow> 'w lstate \<Rightarrow> ('w lstate \<times> addr) option" where
  "realloc K heap mem new_size s =
     (if new_size = 0 then
        do {
          s \<leftarrow> free K heap mem s;
          malloc K heap new_size s
        }
      else if mem = NULL then malloc K heap new_size s
      else if MALLOC_HEADER_SIZE * - 2 < new_size then Some (s, NULL)
      else
        (let base_mem = MALLOC_BASE mem;
             sz = MALLOC_SIZE (smem s) mem;
             new_size = HEAP_ADJUST_SIZE (new_size + MALLOC_HEADER_SIZE);
             new_size = (if new_size < sizeof_heap_free_area
                         then HEAP_ADJUST_SIZE sizeof_heap_free_area else new_size)
         in if sz < new_size then
              do {
                (m, extra) \<leftarrow> heap_alloc_at heap (base_mem + sz) (new_size - sz) (smem s);
                let s = s\<lparr>smem := m\<rparr>;
                if extra \<noteq> 0 then
                  Some (s\<lparr>smem := MALLOC_SET_SIZE base_mem (sz + extra) (smem s)\<rparr>, mem)
                else
                  do {
                    (s, new_mem) \<leftarrow> malloc K heap (new_size - MALLOC_HEADER_SIZE) s;
                    if new_mem \<noteq> NULL then
                      do {
                        let s = s\<lparr>smem := fst (memcpy new_mem mem (sz - MALLOC_HEADER_SIZE) (smem s))\<rparr>;
                        s \<leftarrow> free K heap mem s;
                        Some (s, new_mem)
                      }
                    else Some (s, new_mem)
                  }
              }
            else if new_size + MALLOC_REALLOC_MIN_FREE_SIZE \<le> sz then
              do {
                (m, fa) \<leftarrow> heap_free heap (base_mem + new_size) (sz - new_size) (smem s);
                Some (s\<lparr>smem := MALLOC_SET_SIZE base_mem new_size m\<rparr>, mem)
              }
            else Some (s, mem)))"

definition calloc :: "'w kernel \<Rightarrow> addr \<Rightarrow> addr \<Rightarrow> addr \<Rightarrow> 'w lstate \<Rightarrow> ('w lstate \<times> addr) option" where
  "calloc K heap nmemb lsize s =
     (let sz = lsize * nmemb
      in if nmemb \<noteq> 0 \<and> lsize \<noteq> sz div nmemb then Some (set_errno ENOMEM s, NULL)
         else do {
           (s, result) \<leftarrow> malloc K heap sz s;
           if result \<noteq> NULL then Some (s\<lparr>smem := fst (memset result 0 sz (smem s))\<rparr>, result)
           else Some (s, result)
         })"

definition memalign :: "'w kernel \<Rightarrow> addr \<Rightarrow> addr \<Rightarrow> addr \<Rightarrow> 'w lstate \<Rightarrow> ('w lstate \<times> addr) option" where
  "memalign K heap alignment sz s =
     (let sz = HEAP_ADJUST_SIZE sz
      in do {
        (s, mem) \<leftarrow> malloc K heap (sz + 2 * alignment) s;
        if mem = NULL then Some (s, 0)
        else if alignment < MALLOC_ALIGNMENT then Some (s, mem)
        else
          (let base = MALLOC_BASE mem;
               tot_addr = mem;
               tot_end_addr = base + MALLOC_SIZE (smem s) mem;
               addr = MALLOC_ROUND_UP tot_addr alignment
           in do {
             (m, base, addr) \<leftarrow>
               (if addr \<noteq> tot_addr then
                  (let addr = (if addr - tot_addr < HEAP_MIN_SIZE
                               then MALLOC_ROUND_UP (tot_addr + HEAP_MIN_SIZE) alignment else addr);
                       init_size = addr - tot_addr
                   in do {
                     (m, fa) \<leftarrow> heap_free heap base init_size (smem s);
                     Some (m, base + init_size, addr)
                   })
                else Some (smem s, base, addr));
             let end_addr = addr + sz;
             (m, end_addr) \<leftarrow>
               (if end_addr + MALLOC_REALLOC_MIN_FREE_SIZE < tot_end_addr then
                  do {
                    (m, fa) \<leftarrow> heap_free heap end_addr (tot_end_addr - end_addr) m;
                    Some (m, end_addr)
                  }
                else Some (m, tot_end_addr));
             let (m, mem) = MALLOC_SETUP base (end_addr - base) m;
             Some (s\<lparr>smem := m\<rparr>, mem)
           })
      })"

section \<open>The loader's own wrappers\<close>

definition emalloc :: "'w kernel \<Rightarrow> addr \<Rightarrow> addr \<Rightarrow> 'w lstate \<Rightarrow> ('w lstate \<times> addr) outcome" where
  "emalloc K heap sz s =
     do {
       (s, newp) \<leftarrow> malloc K heap sz s;
       Some (if newp = NULL then Inl (Exited 1) else Inr (s, newp))
     }"

text \<open>\<open>__strdup\<close> asks for \<open>__strlen(s)\<close> bytes, without room for the terminating NUL.\<close>

definition strdup :: "'w kernel \<Rightarrow> addr \<Rightarrow> addr \<Rightarrow> 'w lstate \<Rightarrow> ('w lstate \<times> addr) outcome" where
  "strdup K heap str s =
     do {
       n \<leftarrow> strlen (smem s) str;
       r \<leftarrow> emalloc K heap n s;
       case r of
         Inl c \<Rightarrow> Some (Inl c)
       | Inr (s, newp) \<Rightarrow>
           do {
             (m, d) \<leftarrow> strcpy newp str (smem s);
             Some (Inr (s\<lparr>smem := m\<rparr>, newp))
           }
     }"

end
