(* ===== verification/Malloc_Inv.thy ===== *)
theory Malloc_Inv
  imports Malloc
begin

text \<open>
  What the allocator maintains. \<open>page_source\<close> is what it relies on from the kernel: fresh page-aligned
  blocks from anonymous \<open>mmap\<close>, failure reported as \<open>-1\<close>, and \<open>munmap\<close> that touches nothing outside
  its range. The live blocks are a map from base addresses to total sizes; \<open>malloc_inv\<close> says that their
  headers hold their sizes, that they do not overlap each other, the free areas or the variable
  \<open>__malloc_heap\<close>, and that everything is mapped. \<open>F\<close> is the set of free bytes.
\<close>

section \<open>The kernel's side\<close>

definition page_source :: "'w kernel \<Rightarrow> ('w \<Rightarrow> nat set) \<Rightarrow> nat \<Rightarrow> bool" where
  "page_source K mapped ps \<longleftrightarrow>
     (\<exists>p. 12 \<le> p \<and> p \<le> 30 \<and> ps = 2 ^ p) \<and>
     (\<forall>n w m a w' m'. 0 < n \<longrightarrow> ps dvd n \<longrightarrow> n < 2 ^ 64 \<longrightarrow>
        K SYS_mmap [0, ptr n, 3, 34, 0, 0] (w, m) = (a, w', m') \<longrightarrow>
        a = - 1 \<and> m' = m \<and> mapped w' = mapped w \<or>
        (\<exists>c. a = ptr c \<and> 0 < c \<and> ps dvd c \<and> c + n < 2 ^ 63 \<and> {c ..< c + n} \<inter> mapped w = {} \<and>
             mapped w' = mapped w \<union> {c ..< c + n} \<and> unchanged_outside {c ..< c + n} m m')) \<and>
     (\<forall>c n w m r w' m'. ps dvd c \<longrightarrow> ps dvd n \<longrightarrow> c + n < 2 ^ 63 \<longrightarrow>
        K SYS_munmap [ptr c, ptr n] (w, m) = (r, w', m') \<longrightarrow>
        mapped w - {c ..< c + n} \<subseteq> mapped w' \<and> unchanged_outside {c ..< c + n} m m')"

lemma page_size:
  assumes "page_source K mapped ps"
  shows "8 dvd ps" and "4096 \<le> ps" and "ps \<le> 2 ^ 30" and "\<exists>p < 64. ps = 2 ^ p"
proof -
  obtain p where p: "12 \<le> p" "p \<le> 30" "ps = 2 ^ p" using assms by (auto simp: page_source_def)
  have "(2 :: nat) ^ 3 dvd 2 ^ p" using p(1) by (intro le_imp_power_dvd) simp
  then show "8 dvd ps" using p(3) by simp
  have "(2 :: nat) ^ 12 \<le> 2 ^ p" using p(1) by (intro power_increasing) auto
  then show "4096 \<le> ps" using p(3) by simp
  show "ps \<le> 2 ^ 30" unfolding p(3) using p(2) by (intro power_increasing) auto
  show "\<exists>p < 64. ps = 2 ^ p" using p by (intro exI [of _ p]) auto
qed

lemma mmap_cases:
  assumes "page_source K mapped ps" and "0 < n" and "ps dvd n" and "n < 2 ^ 64"
    and "mmap K 0 (ptr n) 3 34 0 0 s = (s', a)"
  obtains (failed) "a = - 1" and "smem s' = smem s" and "mapped (world s') = mapped (world s)"
  | (fresh) c where "a = ptr c" and "0 < c" and "ps dvd c" and "c + n < 2 ^ 63"
      and "{c ..< c + n} \<inter> mapped (world s) = {}" and "mapped (world s') = mapped (world s) \<union> {c ..< c + n}"
      and "unchanged_outside {c ..< c + n} (smem s) (smem s')"
proof -
  have "K SYS_mmap [0, ptr n, 3, 34, 0, 0] (world s, smem s) = (a, world s', smem s')"
    using assms(5) by (simp add: mmap_def)
  note law = assms(1) [unfolded page_source_def, THEN conjunct2, THEN conjunct1, rule_format,
    OF assms(2-4) this]
  from law show thesis using that by blast
qed

lemma munmap_frame:
  assumes "page_source K mapped ps" and "ps dvd c" and "ps dvd n" and "c + n < 2 ^ 63"
  shows "mapped (world s) - {c ..< c + n} \<subseteq> mapped (world (fst (munmap K (ptr c) (ptr n) s)))"
    and "unchanged_outside {c ..< c + n} (smem s) (smem (fst (munmap K (ptr c) (ptr n) s)))"
    and "pagesize (fst (munmap K (ptr c) (ptr n) s)) = pagesize s"
proof -
  obtain r s' where r: "syscall K SYS_munmap [ptr c, ptr n] s = (s', r)" by fastforce
  then have k: "K SYS_munmap [ptr c, ptr n] (world s, smem s) = (r, world s', smem s')" by simp
  have eq: "fst (munmap K (ptr c) (ptr n) s) = s'" using r by (simp add: munmap_def)
  note law = assms(1) [unfolded page_source_def, THEN conjunct2, THEN conjunct2, rule_format]
  have "mapped (world s) - {c ..< c + n} \<subseteq> mapped (world s') \<and> unchanged_outside {c ..< c + n} (smem s) (smem s')"
    by (rule law [OF assms(2-4) k])
  then show "mapped (world s) - {c ..< c + n} \<subseteq> mapped (world (fst (munmap K (ptr c) (ptr n) s)))"
    and "unchanged_outside {c ..< c + n} (smem s) (smem (fst (munmap K (ptr c) (ptr n) s)))"
    unfolding eq by blast+
  show "pagesize (fst (munmap K (ptr c) (ptr n) s)) = pagesize s" unfolding eq using r by simp
qed

section \<open>Rounding to a power of two\<close>

lemma ptr_pow2: "ptr (2 ^ p) = 2 ^ p"
  by simp

lemma MALLOC_ROUND_DOWN_ptr:
  assumes "a < 2 ^ 64" and "P = 2 ^ p"
  obtains d where "MALLOC_ROUND_DOWN (ptr a) (ptr P) = ptr d" and "P dvd d" and "d \<le> a" and "a < d + P"
proof
  show "MALLOC_ROUND_DOWN (ptr a) (ptr P) = ptr (a div P * P)"
    using round_down_pow2 [OF ptr_pow2, of "ptr a" p] assms by (simp add: MALLOC_ROUND_DOWN_def unat_ptr)
  have "0 < P" using assms(2) by simp
  then show "P dvd a div P * P" "a div P * P \<le> a" "a < a div P * P + P"
    using dividend_less_div_times [of P a] by auto
qed

lemma MALLOC_ROUND_UP_ptr:
  assumes "a + P \<le> 2 ^ 64" and "P = 2 ^ p"
  obtains u where "MALLOC_ROUND_UP (ptr a) (ptr P) = ptr u" and "P dvd u" and "a \<le> u" and "u < a + P"
proof -
  have P: "1 \<le> P" using assms(2) by simp
  have e: "ptr a + (ptr P - 1) = ptr (a + (P - 1))" using P by (simp add: ptr_diff_1)
  obtain d where "MALLOC_ROUND_DOWN (ptr (a + (P - 1))) (ptr P) = ptr d" "P dvd d" "d \<le> a + (P - 1)"
      "a + (P - 1) < d + P"
  proof (rule MALLOC_ROUND_DOWN_ptr)
    show "a + (P - 1) < 2 ^ 64" using assms(1) P by linarith
  qed (use assms(2) in auto)
  then show thesis using that [of d] P by (simp add: MALLOC_ROUND_UP_def e)
qed

section \<open>Live blocks\<close>

type_synonym blocks = "nat \<rightharpoonup> nat"

definition live_bytes :: "blocks \<Rightarrow> nat set" where
  "live_bytes L = (\<Union>b \<in> dom L. {b ..< b + the (L b)})"

definition live_ok :: "blocks \<Rightarrow> mem \<Rightarrow> bool" where
  "live_ok L m \<longleftrightarrow>
     (\<forall>b k. L b = Some k \<longrightarrow> area_ok (b, k) \<and> load64 m (ptr b) = ptr k) \<and>
     (\<forall>b k b' k'. L b = Some k \<longrightarrow> L b' = Some k' \<longrightarrow> b \<noteq> b' \<longrightarrow> {b ..< b + k} \<inter> {b' ..< b' + k'} = {})"

lemma live_bytesI:
  assumes "L b = Some k"
  shows "{b ..< b + k} \<subseteq> live_bytes L"
  using assms by (force simp: live_bytes_def)

lemma user_part: "{b + 8 ..< b + k} \<subseteq> {b ..< b + (k :: nat)}"
  by auto

lemma in_live_bytes: "x \<in> live_bytes L \<longleftrightarrow> (\<exists>b k. L b = Some k \<and> x \<in> {b ..< b + k})"
  by (force simp: live_bytes_def)

lemma live_block:
  assumes "live_ok L m" and "L b = Some k"
  shows "area_ok (b, k)" and "load64 m (ptr b) = ptr k" and "b + 8 \<le> 2 ^ 64" and "0 < k"
  using assms by (fastforce simp: live_ok_def area_ok_def)+

lemma live_ok_frame:
  assumes "live_ok L m" and "unchanged_outside S m m'" and "S \<inter> live_bytes L = {}"
  shows "live_ok L m'"
proof -
  have "load64 m' (ptr b) = load64 m (ptr b)" if "L b = Some k" for b k
  proof (rule unchanged_load64 [OF assms(2)])
    note B = live_block [OF assms(1) that]
    have "{b ..< b + 8} \<subseteq> {b ..< b + k}" using B(1) by (auto simp: area_ok_def)
    then show "{b ..< b + 8} \<inter> S = {}" using live_bytesI [of L, OF that] assms(3) by blast
    show "b + 8 \<le> 2 ^ 64" by (rule B)
  qed
  with assms(1) show ?thesis by (simp add: live_ok_def)
qed

lemma live_ok_remove: "live_ok L m \<Longrightarrow> live_ok (L(b := None)) m"
  by (auto simp: live_ok_def)

lemma live_bytes_remove:
  assumes "live_ok L m" and "L b = Some k"
  shows "live_bytes (L(b := None)) = live_bytes L - {b ..< b + k}"
proof -
  have "x \<notin> {b ..< b + k}" if "L b' = Some k'" "b' \<noteq> b" "x \<in> {b' ..< b' + k'}" for x b' k'
    using assms that unfolding live_ok_def by blast
  then show ?thesis
    using assms(2) by (auto simp: set_eq_iff in_live_bytes split: if_splits) (metis option.inject)+
qed

lemma live_fresh: "live_ok L m \<Longrightarrow> area_ok (b, k) \<Longrightarrow> {b ..< b + k} \<inter> live_bytes L = {} \<Longrightarrow> L b = None"
proof (rule ccontr)
  assume a: "live_ok L m" "area_ok (b, k)" "{b ..< b + k} \<inter> live_bytes L = {}" "L b \<noteq> None"
  then obtain k' where k': "L b = Some k'" by blast
  have "b \<in> {b ..< b + k}" "b \<in> {b ..< b + k'}"
    using a(2) live_block(1) [OF a(1) k'] by (auto simp: area_ok_def)
  then show False using a(3) live_bytesI [of L, OF k'] by blast
qed

lemma live_bytes_add:
  assumes "L b = None"
  shows "live_bytes (L(b \<mapsto> k)) = live_bytes L \<union> {b ..< b + k}"
proof -
  have "b' \<noteq> b" if "L b' = Some k'" for b' k' using assms that by auto
  then show ?thesis by (auto simp: set_eq_iff in_live_bytes split: if_splits)
qed

lemma live_ok_add:
  assumes "live_ok L m" and "area_ok (b, k)" and "{b ..< b + k} \<inter> live_bytes L = {}"
  shows "live_ok (L(b \<mapsto> k)) (store64 m (ptr b) (ptr k))"
proof -
  have b: "b + 8 \<le> 2 ^ 64" "{b ..< b + 8} \<subseteq> {b ..< b + k}" using assms(2) by (auto simp: area_ok_def)
  have "unchanged_outside {b ..< b + k} m (store64 m (ptr b) (ptr k))"
    using b by (intro unchanged_store64)
  then have ok: "live_ok L (store64 m (ptr b) (ptr k))" using live_ok_frame assms(1,3) by blast
  have "{b ..< b + k} \<inter> {b' ..< b' + k'} = {}" if "L b' = Some k'" for b' k'
    using live_bytesI [of L, OF that] assms(3) by blast
  with ok assms(2) show ?thesis
    unfolding live_ok_def by (auto simp del: Int_atLeastLessThan simp: Int_commute)
qed

text \<open>Rewriting the header of a block: its size changes, its bytes stay within what it had or was given.\<close>

lemma live_ok_resize:
  assumes "live_ok L m" and "L b = Some k" and "area_ok (b, k')"
    and "{b ..< b + k'} \<inter> live_bytes (L(b := None)) = {}"
  shows "live_ok (L(b \<mapsto> k')) (store64 m (ptr b) (ptr k'))"
    and "live_bytes (L(b \<mapsto> k')) = live_bytes (L(b := None)) \<union> {b ..< b + k'}"
  using live_ok_add [OF live_ok_remove [OF assms(1), of b] assms(3,4)]
    live_bytes_add [of "L(b := None)" b k'] by simp_all

section \<open>The invariant\<close>

definition malloc_inv ::
  "'w kernel \<Rightarrow> ('w \<Rightarrow> nat set) \<Rightarrow> nat \<Rightarrow> nat \<Rightarrow> nat set \<Rightarrow> blocks \<Rightarrow> 'w lstate \<Rightarrow> bool" where
  "malloc_inv K mapped ps h F L s \<longleftrightarrow>
     page_source K mapped ps \<and> pagesize s = ptr ps \<and> heap_owns h (smem s) F \<and> live_ok L (smem s) \<and>
     live_bytes L \<inter> (F \<union> {h ..< h + 8}) = {} \<and> F \<union> {h ..< h + 8} \<union> live_bytes L \<subseteq> mapped (world s)"

lemma malloc_invD:
  assumes "malloc_inv K mapped ps h F L s"
  shows "page_source K mapped ps" and "pagesize s = ptr ps" and "heap_owns h (smem s) F"
    and "live_ok L (smem s)" and "live_bytes L \<inter> (F \<union> {h ..< h + 8}) = {}"
    and "F \<union> {h ..< h + 8} \<union> live_bytes L \<subseteq> mapped (world s)" and "{h ..< h + 8} \<inter> F = {}"
  using assms hs.owns_cell [of h "smem s" F] by (auto simp: malloc_inv_def)

end
