(* ===== verification/Malloc_Correct.thy ===== *)
theory Malloc_Correct
  imports Malloc_Inv
begin

text \<open>
  Correctness of \<open>malloc\<close> and \<open>free\<close> against the invariant of \<open>Malloc_Inv\<close>. Frames are stated with
  \<open>private s\<close>, the bytes the allocator may write: the free bytes, the list cell and what the program has
  not mapped. The proofs use the heap only through its interfaces \<open>heap_store\<close> and \<open>heap_trim\<close>.
\<close>

section \<open>Allocation\<close>

abbreviation spare :: "('w \<Rightarrow> nat set) \<Rightarrow> nat \<Rightarrow> nat set \<Rightarrow> 'w lstate \<Rightarrow> nat set" where
  "spare mapped h F s \<equiv> F \<union> {h ..< h + 8} \<union> - mapped (world s)"

lemma header_size [simp]: "MALLOC_HEADER_SIZE = 8"
  by (simp add: MALLOC_HEADER_SIZE_def MALLOC_ALIGNMENT_def)

lemma request_le: "z \<le> n \<Longrightarrow> 8 dvd n \<Longrightarrow> 24 \<le> n \<Longrightarrow> request z \<le> n"
  by (auto simp: request_def adjust_def elim!: dvdE)

lemma page_block:
  assumes "page_source K mapped ps" and "ps dvd c" and "ps dvd n" and "0 < n" and "0 < c" and "c + n < 2 ^ 63"
  shows "area_ok (c, n)"
  using assms page_size [OF assms(1)] dvd_imp_le [of ps n] by (auto simp: area_ok_def intro: dvd_trans)

text \<open>Handing out a block the heap gave: the header is written and the block becomes live.\<close>

lemma malloc_inv_setup:
  assumes ps: "page_source K mapped ps" "pagesize s = ptr ps" and own: "heap_owns h (smem s) F"
    and live: "live_ok L (smem s)" and apart: "live_bytes L \<inter> (F \<union> {b ..< b + k} \<union> {h ..< h + 8}) = {}"
    and blk: "area_ok (b, k)" "{b ..< b + k} \<inter> (F \<union> {h ..< h + 8}) = {}"
    and sub: "F \<union> {b ..< b + k} \<union> {h ..< h + 8} \<union> live_bytes L \<subseteq> mapped (world s)"
  shows "malloc_inv K mapped ps h F (L(b \<mapsto> k)) (s\<lparr>smem := store64 (smem s) (ptr b) (ptr k)\<rparr>)"
    and "L b = None" and "unchanged_outside {b ..< b + k} (smem s) (store64 (smem s) (ptr b) (ptr k))"
proof -
  let ?m = "store64 (smem s) (ptr b) (ptr k)"
  have b: "b + 8 \<le> 2 ^ 64" "{b ..< b + 8} \<subseteq> {b ..< b + k}" using blk(1) by (auto simp: area_ok_def)
  then show u: "unchanged_outside {b ..< b + k} (smem s) ?m" by (intro unchanged_store64)
  have disj: "{b ..< b + k} \<inter> live_bytes L = {}" using apart by blast
  show none: "L b = None" by (rule live_fresh [OF live blk(1) disj])
  have "heap_owns h ?m F" using hs.owns_frame [OF own u] blk(2) by blast
  moreover have "live_ok (L(b \<mapsto> k)) ?m" by (rule live_ok_add [OF live blk(1) disj])
  moreover have "live_bytes (L(b \<mapsto> k)) = live_bytes L \<union> {b ..< b + k}" by (rule live_bytes_add [of L, OF none])
  ultimately show "malloc_inv K mapped ps h F (L(b \<mapsto> k)) (s\<lparr>smem := ?m\<rparr>)"
    using ps sub apart blk(2) by (auto simp: malloc_inv_def)
qed

text \<open>The block asked of the kernel is a whole number of pages and large enough.\<close>

lemma block_size:
  assumes inv: "page_source K mapped ps" "pagesize s = ptr ps" and z: "z + ps + 24 < 2 ^ 64"
  obtains n where "(if ptr z < MALLOC_HEAP_EXTEND_SIZE s then MALLOC_HEAP_EXTEND_SIZE s
        else MALLOC_ROUND_UP_TO_PAGE_SIZE s (ptr z)) = ptr n"
    and "ps dvd n" and "0 < n" and "n < 2 ^ 64" and "request z \<le> n" and "n \<le> z + ps"
proof (cases "z < ps")
  case True
  note P = page_size [OF inv(1)]
  have "ptr z < ptr ps" using True z by (subst ptr_less) auto
  with True P show thesis
    using z by (intro that [of ps]) (auto simp: inv(2) MALLOC_HEAP_EXTEND_SIZE_def intro!: request_le)
next
  case False
  note P = page_size [OF inv(1)]
  obtain p where p: "ps = 2 ^ p" using P(4) by blast
  have le: "z + ps \<le> 2 ^ 64" using z by linarith
  obtain u where u: "MALLOC_ROUND_UP (ptr z) (ptr ps) = ptr u" "ps dvd u" "z \<le> u" "u < z + ps"
    by (rule MALLOC_ROUND_UP_ptr [OF le p])
  have "8 dvd u" using P(1) u(2) by (rule dvd_trans)
  then have "request z \<le> u" using u(3) False P(2) by (intro request_le) auto
  moreover have "\<not> ptr z < ptr ps" using False z by (subst ptr_less) auto
  ultimately show thesis
    using u False P z
    by (intro that [of u]) (auto simp: inv(2) MALLOC_HEAP_EXTEND_SIZE_def MALLOC_ROUND_UP_TO_PAGE_SIZE_def)
qed

text \<open>
  The outcome of \<open>malloc\<close>: a fresh live block of enough bytes, carved from bytes that were free or not
  mapped, with nothing but spare bytes written; or \<open>NULL\<close> with the same live blocks.
\<close>

definition malloc_good ::
  "'w kernel \<Rightarrow> ('w \<Rightarrow> nat set) \<Rightarrow> nat \<Rightarrow> nat \<Rightarrow> nat \<Rightarrow> nat set \<Rightarrow> blocks \<Rightarrow> 'w lstate \<Rightarrow> 'w lstate \<Rightarrow> addr \<Rightarrow> bool"
  where
  "malloc_good K mapped ps h z F L s s' a \<longleftrightarrow>
     (\<exists>b k F'. a = ptr (b + 8) \<and> L b = None \<and> area_ok (b, k) \<and> request (z + 8) \<le> k \<and>
        k < request (z + 8) + 56 \<and> malloc_inv K mapped ps h F' (L(b \<mapsto> k)) s' \<and>
        F' \<union> {b ..< b + k} \<subseteq> F \<union> - mapped (world s) \<and> mapped (world s) \<subseteq> mapped (world s') \<and>
        unchanged_outside (spare mapped h F s) (smem s) (smem s') \<and> errno s' = errno s)"

lemma malloc_goodI:
  assumes inv: "malloc_inv K mapped ps h F L s"
    and st: "pagesize s1 = pagesize s" "errno s1 = errno s" "mapped (world s1) = mapped (world s) \<union> C"
      "C \<inter> mapped (world s) = {}"
    and u: "unchanged_outside (F \<union> C \<union> {h ..< h + 8}) (smem s) (smem s1)"
    and blk: "area_ok (b, k)" "request (z + 8) \<le> k" "k < request (z + 8) + 56" "{b ..< b + k} \<subseteq> F \<union> C"
    and own: "heap_owns h (smem s1) (F \<union> C - {b ..< b + k})"
  shows "malloc_good K mapped ps h z F L s
           (s1\<lparr>smem := store64 (smem s1) (ptr b) (ptr k)\<rparr>) (ptr (b + 8))"
proof -
  note I = malloc_invD [OF inv]
  let ?F = "F \<union> C - {b ..< b + k}"
  have sub: "F \<union> C \<union> {h ..< h + 8} \<union> live_bytes L \<subseteq> mapped (world s1)" using I(6) st(3) by blast
  have disj: "(F \<union> C \<union> {h ..< h + 8}) \<inter> live_bytes L = {}" using I(5,6) st(4) by blast
  have live: "live_ok L (smem s1)" by (rule live_ok_frame [OF I(4) u disj])
  have cell: "{h ..< h + 8} \<inter> (F \<union> C) = {}" using I(6,7) st(4) by blast
  have apart: "live_bytes L \<inter> (?F \<union> {b ..< b + k} \<union> {h ..< h + 8}) = {}" using disj blk(4) by blast
  have bk: "{b ..< b + k} \<inter> (?F \<union> {h ..< h + 8}) = {}" using cell blk(4) by blast
  have sub': "?F \<union> {b ..< b + k} \<union> {h ..< h + 8} \<union> live_bytes L \<subseteq> mapped (world s1)" using sub blk(4) by blast
  note M = malloc_inv_setup [OF I(1) _ own live apart blk(1) bk sub']
  have ps: "pagesize s1 = ptr ps" using st(1) I(2) by simp
  have "unchanged_outside (spare mapped h F s) (smem s) (store64 (smem s1) (ptr b) (ptr k))"
  proof (rule unchanged_trans)
    show "unchanged_outside (spare mapped h F s) (smem s) (smem s1)"
      by (rule unchanged_mono [OF u]) (use st(4) in blast)
    show "unchanged_outside (spare mapped h F s) (smem s1) (store64 (smem s1) (ptr b) (ptr k))"
      by (rule unchanged_mono [OF M(3) [OF ps]]) (use st(4) blk(4) in blast)
  qed
  moreover have "?F \<union> {b ..< b + k} \<subseteq> F \<union> - mapped (world s)" using blk(4) st(4) by blast
  ultimately show ?thesis
    unfolding malloc_good_def using M(1,2) [OF ps] blk st
    by (intro exI [of _ b] exI [of _ k] exI [of _ ?F]) auto
qed

lemma malloc_from_heap_correct:
  assumes inv: "malloc_inv K mapped ps h F L s" and z: "z + ps + 32 < 2 ^ 64"
  shows "\<exists>s' a. malloc_from_heap K (ptr z) (ptr h) s = Some (s', a) \<and>
           (malloc_good K mapped ps h z F L s s' a \<or>
            a = NULL \<and> \<not> fits F (z + 8) \<and> (\<exists>n. 0 < n \<and> ps dvd n \<and> n \<le> z + 8 + ps \<and> fst (K SYS_mmap [0, ptr n, 3, 34, 0, 0] (world s, smem s)) = - 1) \<and>
              malloc_inv K mapped ps h F L s' \<and> smem s' = smem s \<and> errno s' = errno s \<and> mapped (world s') = mapped (world s))"
proof -
  note I = malloc_invD [OF inv]
  have z8: "z + 8 + 24 < 2 ^ 64" using z by linarith
  have hdr: "MALLOC_SETUP (ptr b) (ptr k) m = (store64 m (ptr b) (ptr k), ptr (b + 8))" for b k m
    by (simp add: MALLOC_SETUP_def MALLOC_SET_SIZE_def)
  have nz: "ptr b \<noteq> NULL" if "area_ok (b, k)" for b k
    using that by (subst ptr_eq_0) (auto simp: area_ok_def)
  show ?thesis
  proof (rule hs.alloc_total [OF I(3) z8])
    fix m1 b k
    assume a: "heap_alloc (ptr h) (ptr (z + 8)) (smem s) = Some (m1, ptr b, ptr k)" "area_ok (b, k)"
      "request (z + 8) \<le> k" "k < request (z + 8) + 56" "{b ..< b + k} \<subseteq> F"
      "heap_owns h m1 (F - {b ..< b + k})" "unchanged_outside (F \<union> {h ..< h + 8}) (smem s) m1"
    have "malloc_good K mapped ps h z F L s
           ((s\<lparr>smem := m1\<rparr>)\<lparr>smem := store64 (smem (s\<lparr>smem := m1\<rparr>)) (ptr b) (ptr k)\<rparr>) (ptr (b + 8))"
      by (rule malloc_goodI [OF inv, where C = "{}"]) (use a in auto)
    then show ?thesis
      using a(1) nz [OF a(2)] by (simp add: malloc_from_heap_def hdr)
  next
    assume f: "heap_alloc (ptr h) (ptr (z + 8)) (smem s) = Some (smem s, NULL, ptr (z + 8))" "\<not> fits F (z + 8)"
    have z8': "z + 8 + ps + 24 < 2 ^ 64" using z by linarith
    obtain n where n: "(if ptr (z + 8) < MALLOC_HEAP_EXTEND_SIZE s then MALLOC_HEAP_EXTEND_SIZE s
        else MALLOC_ROUND_UP_TO_PAGE_SIZE s (ptr (z + 8))) = ptr n" "ps dvd n" "0 < n" "n < 2 ^ 64"
        "request (z + 8) \<le> n" "n \<le> z + 8 + ps"
      by (rule block_size [OF I(1,2) z8'])
    obtain s2 a where s2: "mmap K 0 (ptr n) 3 34 0 0 s = (s2, a)" by fastforce
    then have st: "pagesize s2 = pagesize s" "errno s2 = errno s" by (simp_all add: mmap_def)
    show ?thesis
    proof (rule mmap_cases [OF I(1) n(3,2,4) s2])
      assume r: "a = - 1" "smem s2 = smem s" "mapped (world s2) = mapped (world s)"
      then have "malloc_inv K mapped ps h F L s2" using inv st by (simp add: malloc_inv_def)
      moreover have "fst (K SYS_mmap [0, ptr n, 3, 34, 0, 0] (world s, smem s)) = - 1"
        using s2 r(1) by (simp add: mmap_def)
      ultimately show ?thesis
        using f n(1,2,3,6) s2 r st by (auto simp: malloc_from_heap_def)
    next
      fix c
      assume c: "a = ptr c" "0 < c" "ps dvd c" "c + n < 2 ^ 63" "{c ..< c + n} \<inter> mapped (world s) = {}"
        "mapped (world s2) = mapped (world s) \<union> {c ..< c + n}"
        "unchanged_outside {c ..< c + n} (smem s) (smem s2)"
      have ok: "area_ok (c, n)" by (rule page_block [OF I(1) c(3) n(2,3) c(2,4)])
      have apart: "{c ..< c + n} \<inter> (F \<union> {h ..< h + 8}) = {}" using c(5) I(6) by blast
      have own: "heap_owns h (smem s2) F" by (rule hs.owns_frame [OF I(3) c(7) apart])
      obtain m3 fa m4 b k where h: "heap_free (ptr h) (ptr c) (ptr n) (smem s2) = Some (m3, fa)"
          "heap_alloc (ptr h) (ptr (z + 8)) m3 = Some (m4, ptr b, ptr k)" "area_ok (b, k)"
          "request (z + 8) \<le> k" "k < request (z + 8) + 56" "{b ..< b + k} \<subseteq> F \<union> {c ..< c + n}"
          "heap_owns h m4 (F \<union> {c ..< c + n} - {b ..< b + k})"
          "unchanged_outside (F \<union> {c ..< c + n} \<union> {h ..< h + 8}) (smem s2) m4"
        using hs.extend_then_alloc [OF own ok apart z8 n(5)] by blast
      have "ptr c \<noteq> - 1" using c(4) by (auto simp: word_unat_eq_iff unat_ptr unsigned_minus_1_eq_mask mask_eq_exp_minus_1)
      have "unchanged_outside (F \<union> {c ..< c + n} \<union> {h ..< h + 8}) (smem s) m4"
        by (rule unchanged_trans [OF unchanged_mono [OF c(7)] h(8)]) blast
      then have "malloc_good K mapped ps h z F L s
          ((s2\<lparr>smem := m4\<rparr>)\<lparr>smem := store64 (smem (s2\<lparr>smem := m4\<rparr>)) (ptr b) (ptr k)\<rparr>) (ptr (b + 8))"
        by (intro malloc_goodI [OF inv, where C = "{c ..< c + n}"]) (use h st c in auto)
      then show ?thesis
        using f(1) n(1) s2 h(1,2) nz [OF h(3)] c(1) \<open>ptr c \<noteq> - 1\<close> by (simp add: malloc_from_heap_def hdr)
    qed
  qed
qed

section \<open>Freeing\<close>

text \<open>The bytes before the first and after the last whole page of an area go back to the heap.\<close>

lemma trim_head:
  assumes K: "page_source K mapped ps" "pagesize s = ptr ps" and own: "heap_owns h m G"
    and blk: "area_ok (a, n)" "8 * ps \<le> n" "{a ..< a + n} \<inter> (G \<union> {h ..< h + 8}) = {}"
  shows "\<exists>m' v. (let unmap_start = MALLOC_ROUND_UP_TO_PAGE_SIZE s (ptr a)
            in if ptr a < unmap_start then
             (let unmap_start = (if unmap_start - ptr a < HEAP_MIN_FREE_AREA_SIZE
                                 then unmap_start + pagesize s else unmap_start)
              in do {
                (m, fa) \<leftarrow> heap_free (ptr h) (ptr a) (unmap_start - ptr a) m;
                Some (m, unmap_start)
              })
           else Some (m, unmap_start)) = Some (m', ptr v) \<and>
         ps dvd v \<and> a \<le> v \<and> v \<le> a + 2 * ps \<and> heap_owns h m' (G \<union> {a ..< v}) \<and>
         unchanged_outside (G \<union> {a ..< v} \<union> {h ..< h + 8}) m m'"
proof -
  note P = page_size [OF K(1)]
  obtain p where p: "ps = 2 ^ p" using P(4) by blast
  have bnd: "a + n < 2 ^ 63" "8 dvd a" "0 < a" using blk(1) by (auto simp: area_ok_def)
  have "a + ps \<le> 2 ^ 64" using bnd blk(2) by simp
  then obtain u where u: "MALLOC_ROUND_UP (ptr a) (ptr ps) = ptr u" "ps dvd u" "a \<le> u" "u < a + ps"
    by (rule MALLOC_ROUND_UP_ptr [OF _ p])
  define v where "v = (if a < u \<and> u - a < 56 then u + ps else u)"
  have v: "ps dvd v" "a \<le> v" "v \<le> a + 2 * ps" "v = a \<or> 56 \<le> v - a \<and> a < u" and au: "v = u \<or> a < u"
    using u P(2) by (auto simp: v_def)
  have lt: "ptr a < ptr u \<longleftrightarrow> a < u" using u(3,4) bnd blk(2) P(3) by (intro ptr_less) auto
  have lt2: "ptr (u - a) < (56 :: addr) \<longleftrightarrow> u - a < 56"
    using u(4) P(3) by (intro ptr_less_numeral) auto
  show ?thesis
  proof (cases "a < u")
    case False
    then have "u = a" "v = a" using u(3) v_def by auto
    then show ?thesis
      using own u(1,2) lt by (intro exI [of _ m] exI [of _ a]) (simp add: MALLOC_ROUND_UP_TO_PAGE_SIZE_def K(2))
  next
    case True
    have sub: "{a ..< v} \<subseteq> {a ..< a + n}" using v(3) blk(2) by auto
    have "8 dvd v" using P(1) v(1) by (rule dvd_trans)
    then have "area_ok (a, v - a)"
      using v True bnd blk(2) u(3) by (auto simp: area_ok_def v_def dvd_diff_nat split: if_splits)
    moreover have "{a ..< a + (v - a)} \<inter> (G \<union> {h ..< h + 8}) = {}" using sub blk(3) v(2) by fastforce
    ultimately obtain m' fa where "heap_free (ptr h) (ptr a) (ptr (v - a)) m = Some (m', fa)"
        "heap_owns h m' (G \<union> {a ..< v})" "unchanged_outside (G \<union> {a ..< v} \<union> {h ..< h + 8}) m m'"
      using hs.free_block [OF own, of a "v - a"] v(2) by auto
    then show ?thesis
      using v True lt lt2 u(1)
      by (intro exI [of _ m'] exI [of _ v], cases "u - a < 56")
        (simp_all add: MALLOC_ROUND_UP_TO_PAGE_SIZE_def K(2) Let_def v_def)
  qed
qed

lemma trim_tail:
  assumes K: "page_source K mapped ps" "pagesize s = ptr ps" and own: "heap_owns h m G"
    and blk: "area_ok (a, n)" "8 * ps \<le> n" "{a + 2 * ps ..< a + n} \<inter> (G \<union> {h ..< h + 8}) = {}"
  shows "\<exists>m' v. (let unmap_end = MALLOC_ROUND_DOWN_TO_PAGE_SIZE s (ptr (a + n))
            in if unmap_end < ptr (a + n) then
             (let unmap_end = (if ptr (a + n) - unmap_end < HEAP_MIN_FREE_AREA_SIZE
                               then unmap_end - pagesize s else unmap_end)
              in do {
                (m, fa) \<leftarrow> heap_free (ptr h) unmap_end (ptr (a + n) - unmap_end) m;
                Some (m, unmap_end)
              })
           else Some (m, unmap_end)) = Some (m', ptr v) \<and>
         ps dvd v \<and> v \<le> a + n \<and> a + n \<le> v + 2 * ps \<and> heap_owns h m' (G \<union> {v ..< a + n}) \<and>
         unchanged_outside (G \<union> {v ..< a + n} \<union> {h ..< h + 8}) m m'"
proof -
  note P = page_size [OF K(1)]
  obtain p where p: "ps = 2 ^ p" using P(4) by blast
  let ?e = "a + n"
  have bnd: "?e < 2 ^ 63" "8 dvd ?e" "0 < a" using blk(1) by (auto simp: area_ok_def)
  have e64: "?e < 2 ^ 64" using bnd by simp
  obtain u where u: "MALLOC_ROUND_DOWN (ptr ?e) (ptr ps) = ptr u" "ps dvd u" "u \<le> ?e" "?e < u + ps"
    by (rule MALLOC_ROUND_DOWN_ptr [OF e64 p])
  define v where "v = (if u < ?e \<and> ?e - u < 56 then u - ps else u)"
  have up: "ps \<le> u" using u(4) blk(2) P(2) by linarith
  have v: "ps dvd v" "v \<le> ?e" "?e \<le> v + 2 * ps" "v = ?e \<or> 56 \<le> ?e - v"
    using u P(2) up by (auto simp: v_def dvd_diff_nat)
  have lt: "ptr u < ptr ?e \<longleftrightarrow> u < ?e" using u(3) e64 by (intro ptr_less) auto
  have lt2: "ptr (?e - u) < (56 :: addr) \<longleftrightarrow> ?e - u < 56"
    using e64 by (intro ptr_less_numeral) auto
  show ?thesis
  proof (cases "u < ?e")
    case False
    then have "u = ?e" "v = ?e" using u(3) v_def by auto
    then show ?thesis
      using own u(1,2) lt by (intro exI [of _ m] exI [of _ ?e]) (simp add: MALLOC_ROUND_DOWN_TO_PAGE_SIZE_def K(2))
  next
    case True
    have sub: "{v ..< ?e} \<subseteq> {a + 2 * ps ..< a + n}" using v(3) blk(2) by auto
    have "8 dvd v" using P(1) v(1) by (rule dvd_trans)
    moreover have "56 \<le> ?e - v" "0 < v" using v(3,4) True blk(2) P(2) by (auto simp: v_def)
    ultimately have "area_ok (v, ?e - v)"
      using bnd v(2) by (simp add: area_ok_def dvd_diff_nat)
    moreover have "{v ..< v + (?e - v)} \<inter> (G \<union> {h ..< h + 8}) = {}" using sub blk(3) v(2) by fastforce
    ultimately obtain m' fa where "heap_free (ptr h) (ptr v) (ptr (?e - v)) m = Some (m', fa)"
        "heap_owns h m' (G \<union> {v ..< ?e})" "unchanged_outside (G \<union> {v ..< ?e} \<union> {h ..< h + 8}) m m'"
      using hs.free_block [OF own, of v "?e - v"] v(2) by auto
    moreover have "ptr ?e - (ptr u - ptr ps) = ptr (?e - (u - ps))" using up u(3) by simp
    ultimately show ?thesis
      using v True lt lt2 u(1) up
      by (intro exI [of _ m'] exI [of _ v], cases "?e - u < 56")
        (simp_all add: MALLOC_ROUND_DOWN_TO_PAGE_SIZE_def K(2) Let_def v_def)
  qed
qed

lemma free_unmap_correct:
  assumes K: "page_source K mapped ps" "pagesize s = ptr ps" and h: "ptr h \<noteq> NULL"
    and blk: "area_ok (a, n)" "8 * ps \<le> n" "{a ..< a + n} \<inter> (G \<union> {h ..< h + 8}) = {}"
    and fa: "HEAP_FREE_AREA_START (smem s) fa = ptr a" "HEAP_FREE_AREA_END fa = ptr (a + n)"
    and del: "heap_owns h (heap_delete (ptr h) fa (smem s)) G"
      "unchanged_outside (G \<union> {a ..< a + n} \<union> {h ..< h + 8}) (smem s) (heap_delete (ptr h) fa (smem s))"
  shows "\<exists>s' u v. free_unmap K (ptr h) fa s = Some s' \<and> a \<le> u \<and> u < v \<and> v \<le> a + n \<and>
           heap_owns h (smem s') (G \<union> {a ..< u} \<union> {v ..< a + n}) \<and>
           unchanged_outside (G \<union> {a ..< a + n} \<union> {h ..< h + 8}) (smem s) (smem s') \<and>
           pagesize s' = pagesize s \<and> errno s' = errno s \<and>
           mapped (world s) - {u ..< v} \<subseteq> mapped (world s')"
proof -
  let ?S = "G \<union> {a ..< a + n} \<union> {h ..< h + 8}"
  let ?m = "heap_delete (ptr h) fa (smem s)"
  note P = page_size [OF K(1)]
  have bnd: "a + n < 2 ^ 63" using blk(1) by (simp add: area_ok_def)
  obtain m1 u where h1: "(let unmap_start = MALLOC_ROUND_UP_TO_PAGE_SIZE s (ptr a)
            in if ptr a < unmap_start then
             (let unmap_start = (if unmap_start - ptr a < HEAP_MIN_FREE_AREA_SIZE
                                 then unmap_start + pagesize s else unmap_start)
              in do {
                (m, fa) \<leftarrow> heap_free (ptr h) (ptr a) (unmap_start - ptr a) ?m;
                Some (m, unmap_start)
              })
           else Some (?m, unmap_start)) = Some (m1, ptr u)"
    and u: "ps dvd u" "a \<le> u" "u \<le> a + 2 * ps" "heap_owns h m1 (G \<union> {a ..< u})"
      "unchanged_outside (G \<union> {a ..< u} \<union> {h ..< h + 8}) ?m m1"
    using trim_head [OF K del(1) blk] by blast
  have "{a + 2 * ps ..< a + n} \<subseteq> {a ..< a + n}" "{a + 2 * ps ..< a + n} \<inter> {a ..< u} = {}" using u(3) by auto
  then have disj: "{a + 2 * ps ..< a + n} \<inter> (G \<union> {a ..< u} \<union> {h ..< h + 8}) = {}" using blk(3) by blast
  obtain m2 v where h2: "(let unmap_end = MALLOC_ROUND_DOWN_TO_PAGE_SIZE s (ptr (a + n))
            in if unmap_end < ptr (a + n) then
             (let unmap_end = (if ptr (a + n) - unmap_end < HEAP_MIN_FREE_AREA_SIZE
                               then unmap_end - pagesize s else unmap_end)
              in do {
                (m, fa) \<leftarrow> heap_free (ptr h) unmap_end (ptr (a + n) - unmap_end) m1;
                Some (m, unmap_end)
              })
           else Some (m1, unmap_end)) = Some (m2, ptr v)"
    and v: "ps dvd v" "v \<le> a + n" "a + n \<le> v + 2 * ps" "heap_owns h m2 (G \<union> {a ..< u} \<union> {v ..< a + n})"
      "unchanged_outside (G \<union> {a ..< u} \<union> {v ..< a + n} \<union> {h ..< h + 8}) m1 m2"
    using trim_tail [OF K u(4) blk(1,2) disj] by blast
  have uv: "u < v" using u(3) v(3) blk(2) P(2) by linarith
  have lt: "ptr u < ptr v" using uv v(2) bnd by (subst ptr_less) auto
  let ?s = "fst (munmap K (ptr u) (ptr (v - u)) (s\<lparr>smem := m2\<rparr>))"
  have e: "u + (v - u) = v" using uv by simp
  have dvd: "ps dvd v - u" using u(1) v(1) by (simp add: dvd_diff_nat)
  have le: "u + (v - u) < 2 ^ 63" using v(2) bnd e by simp
  note M = munmap_frame [OF K(1) u(1) dvd le, of "s\<lparr>smem := m2\<rparr>", unfolded e]
  have run: "free_unmap K (ptr h) fa s = Some ?s"
    using h h1 h2 lt uv by (simp add: free_unmap_def heap_is_empty_def fa Let_def)
  have "{u ..< v} \<subseteq> ?S" "G \<union> {a ..< u} \<union> {h ..< h + 8} \<subseteq> ?S"
      "G \<union> {a ..< u} \<union> {v ..< a + n} \<union> {h ..< h + 8} \<subseteq> ?S"
    using u(2) uv v(2) by auto
  note T = unchanged_mono [OF M(2) this(1)] unchanged_mono [OF u(5) this(2)] unchanged_mono [OF v(5) this(3)]
  have "unchanged_outside ?S (smem s) (smem ?s)"
    using unchanged_trans [OF del(2) unchanged_trans [OF T(2) unchanged_trans [OF T(3) T(1) [simplified]]]] by simp
  moreover have "heap_owns h (smem ?s) (G \<union> {a ..< u} \<union> {v ..< a + n})"
  proof (rule hs.owns_frame [OF v(4)])
    show "unchanged_outside {u ..< v} m2 (smem ?s)" using M(2) by simp
    have "{u ..< v} \<subseteq> {a ..< a + n}" using u(2) v(2) by auto
    then show "{u ..< v} \<inter> (G \<union> {a ..< u} \<union> {v ..< a + n} \<union> {h ..< h + 8}) = {}" using blk(3) by fastforce
  qed
  moreover have "errno ?s = errno s" by (simp add: munmap_def split: prod.splits)
  ultimately show ?thesis
    using run u(2) v(2) uv M(1,3) by (intro exI [of _ ?s] exI [of _ u] exI [of _ v]) simp
qed

text \<open>Freeing a live block: it is live no more, its bytes are free or have been given back to the kernel.\<close>

definition free_good ::
  "'w kernel \<Rightarrow> ('w \<Rightarrow> nat set) \<Rightarrow> nat \<Rightarrow> nat \<Rightarrow> nat \<Rightarrow> nat \<Rightarrow> nat set \<Rightarrow> blocks \<Rightarrow> 'w lstate \<Rightarrow> 'w lstate \<Rightarrow> bool"
  where
  "free_good K mapped ps h b k F L s s' \<longleftrightarrow>
     (\<exists>F'. malloc_inv K mapped ps h F' (L(b := None)) s' \<and> F' \<subseteq> F \<union> {b ..< b + k} \<and>
        unchanged_outside (F \<union> {b ..< b + k} \<union> {h ..< h + 8}) (smem s) (smem s') \<and> errno s' = errno s \<and>
        mapped (world s) - (F \<union> {b ..< b + k}) \<subseteq> mapped (world s'))"

lemma free_goodI:
  assumes inv: "malloc_inv K mapped ps h F L s" and b: "L b = Some k"
    and u: "unchanged_outside (F \<union> {b ..< b + k} \<union> {h ..< h + 8}) (smem s) (smem s')"
    and st: "pagesize s' = pagesize s" "errno s' = errno s"
    and own: "heap_owns h (smem s') F'" "F' \<subseteq> F \<union> {b ..< b + k}"
    and sub: "mapped (world s) - (F \<union> {b ..< b + k} - F') \<subseteq> mapped (world s')"
  shows "free_good K mapped ps h b k F L s s'"
proof -
  note I = malloc_invD [OF inv]
  let ?L = "L(b := None)"
  have L: "live_bytes ?L = live_bytes L - {b ..< b + k}" by (rule live_bytes_remove [OF I(4) b])
  then have disj: "(F \<union> {b ..< b + k} \<union> {h ..< h + 8}) \<inter> live_bytes ?L = {}" using I(5) by blast
  have "live_ok ?L (smem s')" by (rule live_ok_frame [OF live_ok_remove [OF I(4)] u disj])
  moreover have "live_bytes ?L \<inter> (F' \<union> {h ..< h + 8}) = {}" using disj own(2) by blast
  moreover have B: "{b ..< b + k} \<subseteq> live_bytes L" by (rule live_bytesI [of L, OF b])
  have "{h ..< h + 8} \<inter> (F \<union> {b ..< b + k}) = {}" using I(5,7) B by blast
  then have "F' \<union> {h ..< h + 8} \<union> live_bytes ?L \<subseteq> mapped (world s')"
    using sub I(6) own(2) L disj B by blast
  ultimately have "malloc_inv K mapped ps h F' ?L s'"
    using I(1,2) st own(1) by (simp add: malloc_inv_def)
  then show ?thesis unfolding free_good_def using own(2) u st sub by blast
qed

lemma free_correct:
  assumes inv: "malloc_inv K mapped ps h F L s" and b: "L b = Some k"
  shows "\<exists>s'. free K (ptr h) (ptr (b + 8)) s = Some s' \<and> free_good K mapped ps h b k F L s s'"
proof -
  note I = malloc_invD [OF inv]
  note B = live_block [OF I(4) b]
  let ?G = "F \<union> {b ..< b + k}"
  have b2: "b + 8 < 2 ^ 64" using B(1) by (simp add: area_ok_def)
  have apart: "{b ..< b + k} \<inter> (F \<union> {h ..< h + 8}) = {}" using live_bytesI [of L, OF b] I(5) by blast
  have h0: "ptr h \<noteq> NULL"
    using I(3) heap_invD(8) by (fastforce simp: heap_owns_def cell_at_def ptr_eq_0)
  obtain m1 fa a n where f: "heap_free (ptr h) (ptr b) (ptr k) (smem s) = Some (m1, fa)" "heap_owns h m1 ?G"
      "unchanged_outside (?G \<union> {h ..< h + 8}) (smem s) m1" "area_ok (a, n)"
      "{b ..< b + k} \<subseteq> {a ..< a + n}" "{a ..< a + n} \<subseteq> ?G"
      "HEAP_FREE_AREA_SIZE m1 fa = ptr n" "HEAP_FREE_AREA_START m1 fa = ptr a" "HEAP_FREE_AREA_END fa = ptr (a + n)"
      "heap_owns h (heap_delete (ptr h) fa m1) (?G - {a ..< a + n})"
      "unchanged_outside (?G \<union> {h ..< h + 8}) m1 (heap_delete (ptr h) fa m1)"
    using ht.free_merged [OF I(3) B(1) apart] by blast
  let ?s = "s\<lparr>smem := m1\<rparr>"
  have nz: "ptr (b + 8) \<noteq> NULL" using b2 by (subst ptr_eq_0) auto
  have entry: "free K (ptr h) (ptr (b + 8)) s =
      (if ptr n < MALLOC_UNMAP_THRESHOLD ?s then Some ?s else free_unmap K (ptr h) fa ?s)"
    using nz f(1,7) B(2) by (simp add: free_def free_to_heap_def MALLOC_SIZE_def MALLOC_BASE_def)
  note P = page_size [OF I(1)]
  have "8 * ptr ps = ptr (8 * ps)" by simp
  then have thr: "ptr n < MALLOC_UNMAP_THRESHOLD ?s \<longleftrightarrow> n < 8 * ps"
    using f(4) P(3) I(2) ptr_less [of n "8 * ps"] by (simp add: MALLOC_UNMAP_THRESHOLD_def area_ok_def)
  show ?thesis
  proof (cases "n < 8 * ps")
    case True
    have "free_good K mapped ps h b k F L s ?s"
      by (rule free_goodI [OF inv b]) (use f(2,3) in auto)
    then show ?thesis using entry thr True by simp
  next
    case False
    have cell: "{h ..< h + 8} \<inter> ?G = {}" using I(7) apart by blast
    have eq: "?G \<union> {a ..< a + n} = ?G" using f(6) by (rule Un_absorb2)
    have disj: "{a ..< a + n} \<inter> (?G - {a ..< a + n} \<union> {h ..< h + 8}) = {}" using cell f(6) by blast
    obtain s' u v where r: "free_unmap K (ptr h) fa ?s = Some s'" "a \<le> u" "u < v" "v \<le> a + n"
        "heap_owns h (smem s') (?G - {a ..< a + n} \<union> {a ..< u} \<union> {v ..< a + n})"
        "unchanged_outside (?G \<union> {h ..< h + 8}) m1 (smem s')" "pagesize s' = pagesize s" "errno s' = errno s"
        "mapped (world s) - {u ..< v} \<subseteq> mapped (world s')"
      using free_unmap_correct [OF I(1) _ h0 f(4) _ disj, of ?s fa] I(2) False f(8-11)
      by (simp add: eq) blast
    have ivl: "{u ..< v} \<subseteq> {a ..< a + n}" "{a ..< u} \<subseteq> {a ..< a + n}" "{v ..< a + n} \<subseteq> {a ..< a + n}"
        "{u ..< v} \<inter> ({a ..< u} \<union> {v ..< a + n}) = {}"
      using r(2-4) by auto
    then have "{u ..< v} \<subseteq> ?G - (?G - {a ..< a + n} \<union> {a ..< u} \<union> {v ..< a + n})" using f(6) by blast
    moreover have "?G - {a ..< a + n} \<union> {a ..< u} \<union> {v ..< a + n} \<subseteq> ?G" using f(6) ivl(2,3) by blast
    ultimately have "free_good K mapped ps h b k F L s s'"
      using r(9) by (intro free_goodI [OF inv b unchanged_trans [OF f(3) r(6)] r(7,8,5)]) blast+
    then show ?thesis using entry thr False r(1) by simp
  qed
qed

text \<open>The outcome of \<open>malloc\<close> on a request that does not wrap.\<close>

lemma malloc_correct:
  assumes inv: "malloc_inv K mapped ps h F L s" and z: "0 < z" "z + ps + 32 < 2 ^ 64"
  shows "\<exists>s' a. malloc K (ptr h) (ptr z) s = Some (s', a) \<and>
           (malloc_good K mapped ps h z F L s s' a \<or>
            a = NULL \<and> \<not> fits F (z + 8) \<and> (\<exists>n. 0 < n \<and> ps dvd n \<and> n \<le> z + 8 + ps \<and> fst (K SYS_mmap [0, ptr n, 3, 34, 0, 0] (world s, smem s)) = - 1) \<and>
              malloc_inv K mapped ps h F L s' \<and> smem s' = smem s \<and> errno s' = ENOMEM \<and> mapped (world s') = mapped (world s))"
proof -
  obtain s' a where r: "malloc_from_heap K (ptr z) (ptr h) s = Some (s', a)"
      "malloc_good K mapped ps h z F L s s' a \<or>
            a = NULL \<and> \<not> fits F (z + 8) \<and> (\<exists>n. 0 < n \<and> ps dvd n \<and> n \<le> z + 8 + ps \<and> fst (K SYS_mmap [0, ptr n, 3, 34, 0, 0] (world s, smem s)) = - 1) \<and>
              malloc_inv K mapped ps h F L s' \<and> smem s' = smem s \<and> errno s' = errno s \<and> mapped (world s') = mapped (world s)"
    using malloc_from_heap_correct [OF inv z(2)] by blast
  have "a \<noteq> NULL" if "malloc_good K mapped ps h z F L s s' a"
    using that by (auto simp: malloc_good_def area_ok_def ptr_eq_0)
  moreover have "ptr z \<noteq> 0" using z by (subst ptr_eq_0) auto
  moreover have "\<not> MALLOC_HEADER_SIZE * - 2 < ptr z"
    using z page_size(2) [OF malloc_invD(1) [OF inv]] by (simp add: word_less_nat_alt unat_ptr)
  ultimately show ?thesis
    using r by (auto simp: malloc_def set_errno_def malloc_inv_def)
qed

end
