(* ===== verification/Alloc_Clients.thy ===== *)
theory Alloc_Clients
  imports Malloc_Correct
begin

text \<open>
  The allocator as its clients see it. The locale \<open>allocator\<close> speaks of live blocks only; it is
  interpreted on \<open>malloc\<close> and \<open>free\<close>, and \<open>calloc\<close>, \<open>_emalloc\<close> and \<open>__strdup\<close> are verified through it.
\<close>

section \<open>The interface of the allocator\<close>

locale allocator =
  fixes inv :: "blocks \<Rightarrow> 'w lstate \<Rightarrow> bool"
    and slack :: nat
    and alloc :: "addr \<Rightarrow> 'w lstate \<Rightarrow> ('w lstate \<times> addr) option"
    and release :: "addr \<Rightarrow> 'w lstate \<Rightarrow> 'w lstate option"
  assumes alloc_block: "inv L s \<Longrightarrow> 0 < z \<Longrightarrow> z + slack < 2 ^ 64 \<Longrightarrow>
      \<exists>s' a. alloc (ptr z) s = Some (s', a) \<and> unchanged_outside (- live_bytes L) (smem s) (smem s') \<and>
        (a = NULL \<and> inv L s' \<or>
         (\<exists>b k. a = ptr (b + 8) \<and> L b = None \<and> area_ok (b, k) \<and> z + 8 \<le> k \<and> inv (L(b \<mapsto> k)) s'))"
    and release_block: "inv L s \<Longrightarrow> L b = Some k \<Longrightarrow>
      \<exists>s'. release (ptr (b + 8)) s = Some s' \<and> inv (L(b := None)) s' \<and>
        unchanged_outside (- live_bytes (L(b := None))) (smem s) (smem s')"
    and write_block: "inv L s \<Longrightarrow> L b = Some k \<Longrightarrow> unchanged_outside {b + 8 ..< b + k} (smem s) m \<Longrightarrow>
      inv L (s\<lparr>smem := m\<rparr>)"
    and live: "inv L s \<Longrightarrow> live_ok L (smem s)"
begin

text \<open>A block that is allocated, filled by its owner and released leaves the other blocks as they were.\<close>

lemma alloc_fill_release:
  assumes i: "inv L s" and z: "0 < z" "z + slack < 2 ^ 64" and a: "alloc (ptr z) s = Some (s1, a)" "a \<noteq> NULL"
    and w: "\<And>b k. a = ptr (b + 8) \<Longrightarrow> z + 8 \<le> k \<Longrightarrow> unchanged_outside {b + 8 ..< b + k} (smem s1) m"
  shows "\<exists>s2. release a (s1\<lparr>smem := m\<rparr>) = Some s2 \<and> inv L s2 \<and>
           unchanged_outside (- live_bytes L) (smem s) (smem s2)"
proof -
  obtain b k where b: "a = ptr (b + 8)" "L b = None" "area_ok (b, k)" "z + 8 \<le> k" "inv (L(b \<mapsto> k)) s1"
    and u: "unchanged_outside (- live_bytes L) (smem s) (smem s1)"
    using alloc_block [OF i z] a by auto
  have B: "{b ..< b + k} \<inter> live_bytes L = {}"
  proof -
    have "live_bytes ((L(b \<mapsto> k))(b := None)) = live_bytes (L(b \<mapsto> k)) - {b ..< b + k}"
      by (rule live_bytes_remove [OF live [OF b(5)]]) simp
    moreover have "(L(b \<mapsto> k))(b := None) = L" using b(2) by auto
    ultimately show ?thesis by auto
  qed
  have wr: "unchanged_outside {b + 8 ..< b + k} (smem s1) m" by (rule w [OF b(1,4)])
  then have "inv (L(b \<mapsto> k)) (s1\<lparr>smem := m\<rparr>)" using write_block [OF b(5), of b k] by simp
  from release_block [OF this, of b k] obtain s2 where "release (ptr (b + 8)) (s1\<lparr>smem := m\<rparr>) = Some s2"
      "inv ((L(b \<mapsto> k))(b := None)) s2"
      "unchanged_outside (- live_bytes ((L(b \<mapsto> k))(b := None))) m (smem s2)" by auto
  moreover have "(L(b \<mapsto> k))(b := None) = L" using b(2) by auto
  moreover have "unchanged_outside (- live_bytes L) (smem s1) m"
    by (rule unchanged_mono [OF wr]) (use B user_part in blast)
  ultimately show ?thesis using b(1) u by (auto intro: unchanged_trans)
qed

end

section \<open>\<open>malloc\<close> and \<open>free\<close> provide it\<close>

definition alloc_inv :: "'w kernel \<Rightarrow> ('w \<Rightarrow> nat set) \<Rightarrow> nat \<Rightarrow> nat \<Rightarrow> blocks \<Rightarrow> 'w lstate \<Rightarrow> bool" where
  "alloc_inv K mapped ps h L s \<longleftrightarrow> (\<exists>F. malloc_inv K mapped ps h F L s)"

lemma malloc_good_frame:
  assumes "malloc_inv K mapped ps h F L s" and "unchanged_outside (spare mapped h F s) (smem s) m"
  shows "unchanged_outside (- live_bytes L) (smem s) m"
  using malloc_invD [OF assms(1)] by (intro unchanged_mono [OF assms(2)]) blast

lemma free_frame_live:
  assumes "malloc_inv K mapped ps h F L s" and "L b = Some k"
    and "unchanged_outside (F \<union> {b ..< b + k} \<union> {h ..< h + 8}) (smem s) m"
  shows "unchanged_outside (- live_bytes (L(b := None))) (smem s) m"
  using malloc_invD [OF assms(1)] live_bytes_remove [of L "smem s" b k] assms(2)
  by (intro unchanged_mono [OF assms(3)]) blast

lemma malloc_inv_write:
  assumes inv: "malloc_inv K mapped ps h F L s" and b: "L b = Some k"
    and u: "unchanged_outside {b + 8 ..< b + k} (smem s) m"
  shows "malloc_inv K mapped ps h F L (s\<lparr>smem := m\<rparr>)"
proof -
  note I = malloc_invD [OF inv]
  note B = live_block [OF I(4) b]
  note sub = user_part [of b k]
  have "{b ..< b + k} \<inter> (F \<union> {h ..< h + 8}) = {}" using live_bytesI [of L, OF b] I(5) by blast
  then have "heap_owns h m F" using sub by (intro hs.owns_frame [OF I(3) u]) blast
  moreover have others: "live_ok (L(b := None)) m"
    by (rule live_ok_frame [OF live_ok_remove [OF I(4)] u])
      (use live_bytes_remove [OF I(4) b] sub in blast)
  have "load64 m (ptr b) = ptr k"
    using unchanged_load64 [OF u, of b] B(2,3) by auto
  then have "load64 m (ptr b') = ptr k'" if "L b' = Some k'" for b' k'
    using live_block(2) [OF others, of b' k'] b that by (cases "b' = b") auto
  then have "live_ok L m" using I(4) by (simp add: live_ok_def)
  ultimately show ?thesis using I by (simp add: malloc_inv_def)
qed

interpretation al: allocator "alloc_inv K mapped ps h" "ps + 32" "malloc K (ptr h)" "free K (ptr h)"
  for K mapped ps h
proof (unfold_locales, goal_cases)
  case (1 L s z)
  then obtain F where inv: "malloc_inv K mapped ps h F L s" by (auto simp: alloc_inv_def)
  have z: "z + ps + 32 < 2 ^ 64" using 1(3) by (simp add: add.assoc)
  obtain s' a where r: "malloc K (ptr h) (ptr z) s = Some (s', a)"
      "malloc_good K mapped ps h z F L s s' a \<or> a = NULL \<and> malloc_inv K mapped ps h F L s' \<and> smem s' = smem s"
    using malloc_correct [OF inv 1(2) z] by blast
  from r(2) show ?case
  proof
    assume g: "malloc_good K mapped ps h z F L s s' a"
    then obtain b k F' where b: "a = ptr (b + 8)" "L b = None" "area_ok (b, k)" "request (z + 8) \<le> k"
        "malloc_inv K mapped ps h F' (L(b \<mapsto> k)) s'" "unchanged_outside (spare mapped h F s) (smem s) (smem s')"
      by (auto simp: malloc_good_def)
    have "z + 8 \<le> k" using b(4) request_bounds(1) [of "z + 8"] by linarith
    moreover have "alloc_inv K mapped ps h (L(b \<mapsto> k)) s'" using b(5) alloc_inv_def by blast
    ultimately show ?thesis using r(1) b malloc_good_frame [OF inv b(6)] by blast
  next
    assume "a = NULL \<and> malloc_inv K mapped ps h F L s' \<and> smem s' = smem s"
    then show ?thesis using r(1) alloc_inv_def by fastforce
  qed
next
  case (2 L s b k)
  then obtain F where inv: "malloc_inv K mapped ps h F L s" by (auto simp: alloc_inv_def)
  obtain s' where s': "free K (ptr h) (ptr (b + 8)) s = Some s'" "free_good K mapped ps h b k F L s s'"
    using free_correct [OF inv 2(2)] by blast
  then show ?case
    using free_frame_live [OF inv 2(2)] by (auto simp: free_good_def alloc_inv_def)
next
  case (3 L s b k m)
  then show ?case using malloc_inv_write unfolding alloc_inv_def by blast
next
  case (4 L s)
  then show ?case using malloc_invD(4) unfolding alloc_inv_def by blast
qed

section \<open>Zeroed and duplicated memory\<close>

lemma calloc_correct:
  assumes i: "alloc_inv K mapped ps h L s" and z: "0 < n * z" "n * z + ps + 32 < 2 ^ 64"
    and nz: "n < 2 ^ 64" "z < 2 ^ 64"
  shows "\<exists>s' a. calloc K (ptr h) (ptr n) (ptr z) s = Some (s', a) \<and>
           unchanged_outside (- live_bytes L) (smem s) (smem s') \<and>
           (a = NULL \<and> alloc_inv K mapped ps h L s' \<or>
            (\<exists>b k. a = ptr (b + 8) \<and> L b = None \<and> n * z + 8 \<le> k \<and> alloc_inv K mapped ps h (L(b \<mapsto> k)) s' \<and>
               (\<forall>x \<in> {b + 8 ..< b + 8 + n * z}. smem s' (ptr x) = 0)))"
proof -
  have prod: "ptr z * ptr n = ptr (n * z)" by (simp add: mult.commute)
  have n0: "0 < n" using z(1) by simp
  have nzl: "n * z < 2 ^ 64" using z(2) by linarith
  have "unat (ptr (n * z) div ptr n) = n * z div n"
    by (simp only: unat_div unat_ptr [OF nzl] unat_ptr [OF nz(1)])
  then have "ptr (n * z) div ptr n = ptr z"
    using n0 by (metis nonzero_mult_div_cancel_left not_gr_zero ptr_unat)
  then have guard: "calloc K (ptr h) (ptr n) (ptr z) s =
      do { (s, result) \<leftarrow> malloc K (ptr h) (ptr (n * z)) s;
           if result \<noteq> NULL then Some (s\<lparr>smem := fst (memset result 0 (ptr (n * z)) (smem s))\<rparr>, result)
           else Some (s, result) }"
    by (simp add: calloc_def prod Let_def del: of_nat_mult)
  have z': "n * z + (ps + 32) < 2 ^ 64" using z(2) by simp
  obtain s1 a where r: "malloc K (ptr h) (ptr (n * z)) s = Some (s1, a)"
      "unchanged_outside (- live_bytes L) (smem s) (smem s1)"
      "a = NULL \<and> alloc_inv K mapped ps h L s1 \<or>
       (\<exists>b k. a = ptr (b + 8) \<and> L b = None \<and> area_ok (b, k) \<and> n * z + 8 \<le> k \<and>
          alloc_inv K mapped ps h (L(b \<mapsto> k)) s1)"
    using al.alloc_block [OF i z(1) z'] by blast
  from r(3) show ?thesis
  proof (elim disjE exE conjE)
    assume "a = NULL" "alloc_inv K mapped ps h L s1"
    then show ?thesis using r guard by auto
  next
    fix b k
    assume b: "a = ptr (b + 8)" "L b = None" "area_ok (b, k)" "n * z + 8 \<le> k"
      "alloc_inv K mapped ps h (L(b \<mapsto> k)) s1"
    have bnd: "b + 8 + n * z \<le> 2 ^ 64" "b + k < 2 ^ 63" using b(3,4) by (auto simp: area_ok_def)
    let ?m = "memset_loop (ptr (b + 8)) 0 (ptr (n * z)) (smem s1)"
    note M = memset_ptr [OF bnd(1) nzl]
    have fill: "unchanged_outside {b + 8 ..< b + k} (smem s1) ?m"
      by (rule unchanged_mono [OF M(2)]) (use b(4) in auto)
    have inv: "alloc_inv K mapped ps h (L(b \<mapsto> k)) (s1\<lparr>smem := ?m\<rparr>)"
      by (rule al.write_block [OF b(5) _ fill]) simp
    have "{b ..< b + k} \<inter> live_bytes L = {}"
      using live_bytes_remove [OF al.live [OF b(5)], of b k] b(2) fun_upd_triv [of L b] by auto
    then have "unchanged_outside (- live_bytes L) (smem s1) ?m"
      using user_part [of b k] by (intro unchanged_mono [OF fill]) blast
    with r(2) have "unchanged_outside (- live_bytes L) (smem s) ?m" by (rule unchanged_trans)
    moreover have "\<forall>x \<in> {b + 8 ..< b + 8 + n * z}. ?m (ptr x) = 0"
      using M(1) bnd b(4) by auto
    moreover have "ptr (b + 8) \<noteq> NULL" using bnd by (subst ptr_eq_0) auto
    then have "calloc K (ptr h) (ptr n) (ptr z) s = Some (s1\<lparr>smem := ?m\<rparr>, ptr (b + 8))"
      using r(1) b(1) by (simp add: guard memset_def del: of_nat_mult)
    ultimately show ?thesis
      using inv b(1,2,4) by (intro exI [of _ "s1\<lparr>smem := ?m\<rparr>"] exI [of _ a]) (simp del: of_nat_mult, blast)
  qed
qed

text \<open>
  \<open>__strdup\<close> is right when the rounding of the request leaves room for the NUL: when the length is not a
  multiple of 8, or is less than 16.
\<close>

lemma request_strict: "n mod 8 \<noteq> 0 \<or> n < 16 \<Longrightarrow> n + 8 < request (n + 8)"
  by (auto simp: request_def adjust_def) presburger+

lemma strdup_correct:
  assumes inv: "malloc_inv K mapped ps h F L s" and str: "cstr (smem s) a xs" "xs \<noteq> []"
    and src: "{a .. a + length xs} \<inter> spare mapped h F s = {}"
    and len: "length xs mod 8 \<noteq> 0 \<or> length xs < 16" "length xs + ps + 32 < 2 ^ 64"
  shows "\<exists>r. strdup K (ptr h) (ptr a) s = Some r \<and>
           (r = Inl (Exited 1) \<and> \<not> fits F (length xs + 8) \<and>
               (\<exists>n. 0 < n \<and> ps dvd n \<and> n \<le> length xs + 8 + ps \<and> fst (K SYS_mmap [0, ptr n, 3, 34, 0, 0] (world s, smem s)) = - 1) \<or>
            (\<exists>s' b k F'. r = Inr (s', ptr (b + 8)) \<and> L b = None \<and> area_ok (b, k) \<and> length xs + 8 < k \<and>
               F' \<union> {b ..< b + k} \<subseteq> F \<union> - mapped (world s) \<and> malloc_inv K mapped ps h F' (L(b \<mapsto> k)) s' \<and> cstr (smem s') (b + 8) xs \<and> cstr (smem s') a xs \<and>
               unchanged_outside (spare mapped h F s) (smem s) (smem s')))"
proof -
  let ?n = "length xs"
  have n: "0 < ?n" using str(2) by simp
  have l: "strlen (smem s) (ptr a) = Some (ptr ?n)" by (rule strlen_cstr [OF str(1)])
  obtain s1 p where r: "malloc K (ptr h) (ptr ?n) s = Some (s1, p)"
      "malloc_good K mapped ps h ?n F L s s1 p \<or> p = NULL \<and> \<not> fits F (?n + 8) \<and>
        (\<exists>n. 0 < n \<and> ps dvd n \<and> n \<le> ?n + 8 + ps \<and> fst (K SYS_mmap [0, ptr n, 3, 34, 0, 0] (world s, smem s)) = - 1)"
    using malloc_correct [OF inv n len(2)] by blast
  from r(2) show ?thesis
  proof
    assume "p = NULL \<and> \<not> fits F (?n + 8) \<and>
        (\<exists>n. 0 < n \<and> ps dvd n \<and> n \<le> ?n + 8 + ps \<and> fst (K SYS_mmap [0, ptr n, 3, 34, 0, 0] (world s, smem s)) = - 1)"
    then show ?thesis using l r(1) by (simp add: strdup_def emalloc_def)
  next
    assume "malloc_good K mapped ps h ?n F L s s1 p"
    then obtain b k F' where b: "p = ptr (b + 8)" "L b = None" "area_ok (b, k)" "request (?n + 8) \<le> k"
        "malloc_inv K mapped ps h F' (L(b \<mapsto> k)) s1" "F' \<union> {b ..< b + k} \<subseteq> F \<union> - mapped (world s)"
        "unchanged_outside (spare mapped h F s) (smem s) (smem s1)"
      by (auto simp: malloc_good_def)
    have k: "?n + 8 < k" using request_strict [OF len(1)] b(4) by linarith
    have bnd: "b + 8 + ?n < 2 ^ 64" using b(3) k by (simp add: area_ok_def)
    have src1: "cstr (smem s1) a xs" by (rule cstr_unchanged [OF b(7) str(1) src])
    have user: "{b + 8 .. b + 8 + ?n} \<subseteq> {b + 8 ..< b + k}" using k by auto
    have blk: "{b + 8 ..< b + k} \<subseteq> spare mapped h F s" using b(6) user_part [of b k] by blast
    have "{b + 8 .. b + 8 + ?n} \<inter> {a .. a + ?n} = {}" using user blk src by blast
    then obtain m where m: "strcpy_loop (ptr (b + 8)) (ptr a) (smem s1) = Some m" "cstr m (b + 8) xs"
        "unchanged_outside {b + 8 .. b + 8 + ?n} (smem s1) m"
      using strcpy_loop_cstr [OF src1 bnd] by blast
    note w = unchanged_mono [OF m(3) user]
    have "malloc_inv K mapped ps h F' (L(b \<mapsto> k)) (s1\<lparr>smem := m\<rparr>)"
      by (rule malloc_inv_write [OF b(5) _ w]) simp
    moreover have fr: "unchanged_outside (spare mapped h F s) (smem s) m"
      by (rule unchanged_trans [OF b(7) unchanged_mono [OF w blk]])
    moreover have "cstr m a xs" by (rule cstr_unchanged [OF fr str(1) src])
    moreover have "ptr (b + 8) \<noteq> NULL" using bnd by (subst ptr_eq_0) auto
    ultimately show ?thesis
      using l r(1) b(1,2,3,6) m(1,2) k
      by (intro exI [of _ "Inr (s1\<lparr>smem := m\<rparr>, ptr (b + 8))"]) (fastforce simp: strdup_def emalloc_def strcpy_def)
  qed
qed

text \<open>Otherwise, when the heap hands out exactly what was asked, the NUL falls just behind the block.\<close>

lemma strdup_past_end:
  assumes "cstr (smem s) a xs" and "malloc K (ptr h) (ptr (length xs)) s = Some (s1, ptr (b + 8))"
    and "ptr (b + 8) \<noteq> NULL" and "cstr (smem s1) a xs" and "b + 8 + length xs < 2 ^ 64"
    and "{b + 8 .. b + 8 + length xs} \<inter> {a .. a + length xs} = {}"
  shows "\<exists>m. strdup K (ptr h) (ptr a) s = Some (Inr (s1\<lparr>smem := m\<rparr>, ptr (b + 8))) \<and>
           m (ptr (b + 8 + length xs)) = 0 \<and> unchanged_outside {b + 8 .. b + 8 + length xs} (smem s1) m"
proof -
  obtain m where m: "strcpy_loop (ptr (b + 8)) (ptr a) (smem s1) = Some m" "cstr m (b + 8) xs"
      "unchanged_outside {b + 8 .. b + 8 + length xs} (smem s1) m"
    using strcpy_loop_cstr [OF assms(4,5,6)] by blast
  have "m (ptr (d + length ys)) = 0" if "cstr m d ys" for d ys
    using that by (induction ys arbitrary: d) fastforce+
  with m assms(2,3) strlen_cstr [OF assms(1)] show ?thesis
    by (intro exI [of _ m]) (simp add: strdup_def emalloc_def strcpy_def)
qed

end
