(* ===== verification/Malloc_Resize.thy ===== *)
theory Malloc_Resize
  imports Alloc_Clients
begin

text \<open>
  Correctness of \<open>realloc\<close> (grow in place, grow by copying, shrink, keep) and of \<open>memalign\<close>: the
  contents survive, the invariant holds, the other blocks are untouched.
\<close>

section \<open>Changing the size of a live block\<close>

lemma malloc_inv_resize:
  assumes inv: "malloc_inv K mapped ps h F L s" and b: "L b = Some k" and own: "heap_owns h m F'"
    and ok: "area_ok (b, k')" and sub: "F' \<union> {b ..< b + k'} \<subseteq> F \<union> {b ..< b + k}"
    and disj: "{b ..< b + k'} \<inter> F' = {}"
    and u: "unchanged_outside (F \<union> {b ..< b + k} \<union> {h ..< h + 8}) (smem s) m"
  shows "malloc_inv K mapped ps h F' (L(b \<mapsto> k')) (s\<lparr>smem := store64 m (ptr b) (ptr k')\<rparr>)"
    and "unchanged_outside (- live_bytes (L(b := None))) (smem s) (store64 m (ptr b) (ptr k'))"
proof -
  note I = malloc_invD [OF inv]
  note B = live_bytesI [of L, OF b] live_bytes_remove [OF I(4) b]
  let ?L = "L(b := None)"
  have live: "live_ok ?L m"
    by (rule live_ok_frame [OF live_ok_remove [OF I(4)] u]) (use B I(5) in blast)
  have cell: "{h ..< h + 8} \<inter> (F \<union> {b ..< b + k}) = {}" using B I(5,7) by blast
  have apart: "live_bytes ?L \<inter> (F' \<union> {b ..< b + k'} \<union> {h ..< h + 8}) = {}" using B(2) I(5) sub by blast
  have bk: "{b ..< b + k'} \<inter> (F' \<union> {h ..< h + 8}) = {}" using disj cell sub by blast
  have mp: "F' \<union> {b ..< b + k'} \<union> {h ..< h + 8} \<union> live_bytes ?L \<subseteq> mapped (world (s\<lparr>smem := m\<rparr>))"
    using I(6) B sub unfolding lstate.select_convs(1) by (simp, blast)
  have "pagesize (s\<lparr>smem := m\<rparr>) = ptr ps" "heap_owns h (smem (s\<lparr>smem := m\<rparr>)) F'" "live_ok ?L (smem (s\<lparr>smem := m\<rparr>))"
    using I(2) own live by simp_all
  note M = malloc_inv_setup [OF I(1) this apart ok bk mp]
  show "malloc_inv K mapped ps h F' (L(b \<mapsto> k')) (s\<lparr>smem := store64 m (ptr b) (ptr k')\<rparr>)"
    using M(1) unfolding fun_upd_upd by simp
  have "{b ..< b + k'} \<subseteq> F \<union> {b ..< b + k} \<union> {h ..< h + 8}" using sub by blast
  from unchanged_mono [OF M(3) this]
  have "unchanged_outside (F \<union> {b ..< b + k} \<union> {h ..< h + 8}) m (store64 m (ptr b) (ptr k'))" by simp
  from free_frame_live [OF inv b unchanged_trans [OF u this]]
  show "unchanged_outside (- live_bytes (L(b := None))) (smem s) (store64 m (ptr b) (ptr k'))" .
qed

text \<open>A read of a byte outside the written set.\<close>

lemma unchanged_at: "unchanged_outside S m m' \<Longrightarrow> x \<notin> S \<Longrightarrow> x < 2 ^ 64 \<Longrightarrow> m' (ptr x) = m (ptr x)"
  by (simp add: unchanged_outside_def unat_ptr)

lemma store_header_at:
  assumes "b + 8 \<le> x" and "x < 2 ^ 64"
  shows "store64 m (ptr b) v (ptr x) = m (ptr x)"
  using unchanged_at [OF unchanged_store64 [of b "{b ..< b + 8}" m v], of x] assms by simp

section \<open>\<open>realloc\<close>\<close>

text \<open>The outcome: the old contents, up to the smaller size, at the block the result points to.\<close>

definition realloc_good ::
  "'w kernel \<Rightarrow> ('w \<Rightarrow> nat set) \<Rightarrow> nat \<Rightarrow> nat \<Rightarrow> nat \<Rightarrow> nat \<Rightarrow> nat \<Rightarrow> blocks \<Rightarrow> 'w lstate \<Rightarrow> 'w lstate \<Rightarrow> addr \<Rightarrow> bool"
  where
  "realloc_good K mapped ps h b k z L s s' a \<longleftrightarrow>
     (\<exists>b' k'. a = ptr (b' + 8) \<and> (b' = b \<or> L b' = None) \<and> z + 8 \<le> k' \<and>
        alloc_inv K mapped ps h (L(b := None, b' \<mapsto> k')) s' \<and>
        (\<forall>i < min k k' - 8. smem s' (ptr (b' + 8 + i)) = smem s (ptr (b + 8 + i))) \<and>
        unchanged_outside (- live_bytes (L(b := None))) (smem s) (smem s'))"

lemma realloc_goodI:
  assumes inv: "malloc_inv K mapped ps h F L s" and b: "L b = Some k" and own: "heap_owns h m F'"
    and ok: "area_ok (b, k')" and sub: "F' \<union> {b ..< b + k'} \<subseteq> F \<union> {b ..< b + k}"
    and disj: "{b ..< b + k'} \<inter> F' = {}"
    and u: "unchanged_outside (F \<union> {b + k' ..< b + k} \<union> {h ..< h + 8}) (smem s) m" and z: "z + 8 \<le> k'"
  shows "realloc_good K mapped ps h b k z L s (s\<lparr>smem := store64 m (ptr b) (ptr k')\<rparr>) (ptr (b + 8))"
proof -
  note I = malloc_invD [OF inv]
  note B = live_bytesI [of L, OF b] live_block(1) [OF I(4) b]
  have "unchanged_outside (F \<union> {b ..< b + k} \<union> {h ..< h + 8}) (smem s) m"
    by (rule unchanged_mono [OF u]) auto
  note R = malloc_inv_resize [OF inv b own ok sub disj this]
  have "store64 m (ptr b) (ptr k') (ptr (b + 8 + i)) = smem s (ptr (b + 8 + i))" if "i < min k k' - 8" for i
  proof -
    have x: "b + 8 + i < 2 ^ 64" "b + 8 + i \<in> {b ..< b + k}" "b + 8 + i \<notin> {b + k' ..< b + k}"
      using that B(2) by (auto simp: area_ok_def)
    then have "b + 8 + i \<notin> F \<union> {b + k' ..< b + k} \<union> {h ..< h + 8}" using B(1) I(5) by blast
    then show ?thesis using unchanged_at [OF u _ x(1)] store_header_at [of b "b + 8 + i"] x(1) by simp
  qed
  moreover have "(L(b := None))(b \<mapsto> k') = L(b \<mapsto> k')" by simp
  ultimately show ?thesis
    unfolding realloc_good_def alloc_inv_def using R z
    by (intro exI [of _ b] exI [of _ k']) auto
qed

lemma request_request: "request (request z) = request z" "request z - 8 + 8 = request z"
  using request_bounds [of z] request_le [of "request z" "request z"] request_bounds(1) [of "request z"] by auto

text \<open>Growing by copying: allocate, copy the user bytes, free the old block.\<close>

lemma realloc_copy:
  assumes inv: "malloc_inv K mapped ps h F L s" and b: "L b = Some k" and n: "k \<le> n" "n = request n" "n + ps + 24 < 2 ^ 64"
    and z: "z + 8 \<le> n"
  shows "\<exists>s' a. do {
            (s, new_mem) \<leftarrow> malloc K (ptr h) (ptr n - MALLOC_HEADER_SIZE) s;
            if new_mem \<noteq> NULL then
              do {
                let s = s\<lparr>smem := fst (memcpy new_mem (ptr (b + 8)) (ptr k - MALLOC_HEADER_SIZE) (smem s))\<rparr>;
                s \<leftarrow> free K (ptr h) (ptr (b + 8)) s;
                Some (s, new_mem)
              }
            else Some (s, new_mem)
          } = Some (s', a) \<and>
          (realloc_good K mapped ps h b k z L s s' a \<or>
           a = NULL \<and> alloc_inv K mapped ps h L s' \<and> smem s' = smem s)"
proof -
  note I = malloc_invD [OF inv]
  note B = live_block [OF I(4) b]
  have k: "24 \<le> k" "b + k < 2 ^ 63" using B(1) by (auto simp: area_ok_def)
  have n8: "ptr n - MALLOC_HEADER_SIZE = ptr (n - 8)" "ptr k - MALLOC_HEADER_SIZE = ptr (k - 8)"
    using n(1) k(1) by simp_all
  have "0 < n - 8" "n - 8 + ps + 32 < 2 ^ 64" using n k by auto
  then obtain s1 p where r: "malloc K (ptr h) (ptr (n - 8)) s = Some (s1, p)"
      "malloc_good K mapped ps h (n - 8) F L s s1 p \<or>
       p = NULL \<and> malloc_inv K mapped ps h F L s1 \<and> smem s1 = smem s"
    using malloc_correct [OF inv] by blast
  from r(2) show ?thesis
  proof
    assume "p = NULL \<and> malloc_inv K mapped ps h F L s1 \<and> smem s1 = smem s"
    then show ?thesis using r(1) n8 alloc_inv_def by fastforce
  next
    assume "malloc_good K mapped ps h (n - 8) F L s s1 p"
    moreover have "n - 8 + 8 = n" using n(1) k(1) by simp
    ultimately obtain c e F1 where c: "p = ptr (c + 8)" "L c = None" "area_ok (c, e)" "n \<le> e"
        "malloc_inv K mapped ps h F1 (L(c \<mapsto> e)) s1" "unchanged_outside (spare mapped h F s) (smem s) (smem s1)"
      using n(2) by (auto simp: malloc_good_def)
    have cb: "c \<noteq> b" using c(2) b by auto
    note I1 = malloc_invD [OF c(5)]
    have disj: "{c ..< c + e} \<inter> {b ..< b + k} = {}"
      using I1(4) cb b unfolding live_ok_def by (auto simp del: Int_atLeastLessThan)
    have ce: "c + e < 2 ^ 63" using c(3) by (simp add: area_ok_def)
    let ?m = "memcpy_loop (ptr (c + 8)) (ptr (b + 8)) (ptr (k - 8)) (smem s1)"
    have len: "c + 8 + (k - 8) \<le> 2 ^ 64" "b + 8 + (k - 8) \<le> 2 ^ 64" "k - 8 < 2 ^ 64"
      using c(4) n(1) k ce by auto
    have ivl: "{c + 8 ..< c + 8 + (k - 8)} \<subseteq> {c + 8 ..< c + e}" "{b + 8 ..< b + 8 + (k - 8)} \<subseteq> {b ..< b + k}"
      using c(4) n(1) k by auto
    then have "{c + 8 ..< c + 8 + (k - 8)} \<inter> {b + 8 ..< b + 8 + (k - 8)} = {}"
      using disj user_part [of c e] by blast
    note M = memcpy_ptr [OF len this, where m = "smem s1"]
    note w = unchanged_mono [OF M(2) ivl(1)]
    have inv2: "malloc_inv K mapped ps h F1 (L(c \<mapsto> e)) (s1\<lparr>smem := ?m\<rparr>)"
      by (rule malloc_inv_write [OF c(5) _ w]) simp
    have b2: "(L(c \<mapsto> e)) b = Some k" using b cb by simp
    obtain s2 where s2: "free K (ptr h) (ptr (b + 8)) (s1\<lparr>smem := ?m\<rparr>) = Some s2"
        "free_good K mapped ps h b k F1 (L(c \<mapsto> e)) (s1\<lparr>smem := ?m\<rparr>) s2"
      using free_correct [OF inv2 b2] by blast
    then obtain F2 where f: "malloc_inv K mapped ps h F2 (L(b := None, c \<mapsto> e)) s2"
        "unchanged_outside (F1 \<union> {b ..< b + k} \<union> {h ..< h + 8}) ?m (smem s2)"
      using cb by (auto simp: free_good_def fun_upd_twist)
    have new: "{c ..< c + e} \<inter> (F1 \<union> {b ..< b + k} \<union> {h ..< h + 8}) = {}"
      using live_bytesI [of "L(c \<mapsto> e)" c e] I1(5) disj by auto
    have "smem s2 (ptr (c + 8 + i)) = smem s (ptr (b + 8 + i))" if "i < min k e - 8" for i
    proof -
      have i: "i < k - 8" "c + 8 + i \<in> {c ..< c + e}" "c + 8 + i < 2 ^ 64" "b + 8 + i \<in> {b ..< b + k}"
          "b + 8 + i < 2 ^ 64"
        using that c(4) n(1) ce k by auto
      have "smem s2 (ptr (c + 8 + i)) = ?m (ptr (c + 8 + i))"
        by (rule unchanged_at [OF f(2) _ i(3)]) (use new i(2) in blast)
      also have "\<dots> = smem s1 (ptr (b + 8 + i))" by (rule M(1) [OF i(1)])
      also have "\<dots> = smem s (ptr (b + 8 + i))"
        by (rule unchanged_at [OF malloc_good_frame [OF inv c(6)] _ i(5)]) (use i(4) live_bytesI [of L, OF b] in blast)
      finally show ?thesis .
    qed
    moreover have "unchanged_outside (- live_bytes (L(b := None))) (smem s) (smem s2)"
    proof -
      have L: "live_bytes (L(b := None)) = live_bytes L - {b ..< b + k}" by (rule live_bytes_remove [OF I(4) b])
      have "live_bytes ((L(c \<mapsto> e))(c := None)) = live_bytes (L(c \<mapsto> e)) - {c ..< c + e}"
        by (rule live_bytes_remove [OF I1(4)]) simp
      moreover have "(L(c \<mapsto> e))(c := None) = L" using c(2) by auto
      ultimately have Lc: "live_bytes L \<inter> {c ..< c + e} = {}" "live_bytes L \<subseteq> live_bytes (L(c \<mapsto> e))" by auto
      have "unchanged_outside (- live_bytes (L(b := None))) (smem s) (smem s1)"
        by (rule unchanged_mono [OF malloc_good_frame [OF inv c(6)]]) (use L in blast)
      moreover have "unchanged_outside (- live_bytes (L(b := None))) (smem s1) ?m"
        by (rule unchanged_mono [OF w]) (use L Lc(1) user_part [of c e] in blast)
      moreover have "unchanged_outside (- live_bytes (L(b := None))) ?m (smem s2)"
        by (rule unchanged_mono [OF f(2)]) (use L Lc(2) I1(5) in blast)
      ultimately show ?thesis by (blast intro: unchanged_trans)
    qed
    moreover have "z + 8 \<le> e" using z c(4) by linarith
    ultimately have "realloc_good K mapped ps h b k z L s s2 (ptr (c + 8))"
      unfolding realloc_good_def alloc_inv_def using f(1) c(2)
      by (intro exI [of _ c] exI [of _ e]) auto
    moreover have "ptr (c + 8) \<noteq> NULL" using ce by (subst ptr_eq_0) auto
    ultimately show ?thesis using r(1) n8 c(1) s2(1) by (simp add: memcpy_def)
  qed
qed

text \<open>Growing in place into the free area that follows the block.\<close>

lemma realloc_extend:
  assumes inv: "malloc_inv K mapped ps h F L s" and b: "L b = Some k" and e: "{b + k ..< b + k + e} \<subseteq> F" "8 dvd e"
    and bnd: "b + k + e < 2 ^ 63" and own: "heap_owns h m (F - {b + k ..< b + k + e})"
    and u: "unchanged_outside (F \<union> {h ..< h + 8}) (smem s) m" and z: "z + 8 \<le> k + e"
  shows "realloc_good K mapped ps h b k z L s (s\<lparr>smem := store64 m (ptr b) (ptr (k + e))\<rparr>) (ptr (b + 8))"
proof (rule realloc_goodI [OF inv b own])
  note I = malloc_invD [OF inv]
  have blk: "area_ok (b, k)" by (rule live_block(1) [OF I(4) b])
  then show "area_ok (b, k + e)" using e(2) bnd by (simp add: area_ok_def dvd_add)
  have split: "{b ..< b + (k + e)} = {b ..< b + k} \<union> {b + k ..< b + k + e}" by auto
  show "F - {b + k ..< b + k + e} \<union> {b ..< b + (k + e)} \<subseteq> F \<union> {b ..< b + k}"
    unfolding split using e(1) by blast
  have "{b ..< b + k} \<inter> F = {}" using live_bytesI [of L, OF b] I(5) by blast
  then show "{b ..< b + (k + e)} \<inter> (F - {b + k ..< b + k + e}) = {}" unfolding split by blast
  show "unchanged_outside (F \<union> {b + (k + e) ..< b + k} \<union> {h ..< h + 8}) (smem s) m" using u by simp
qed (rule z)

lemma realloc_correct:
  assumes inv: "malloc_inv K mapped ps h F L s" and b: "L b = Some k" and z: "0 < z" "z + ps + 64 < 2 ^ 64"
  shows "\<exists>s' a. realloc K (ptr h) (ptr (b + 8)) (ptr z) s = Some (s', a) \<and>
           (realloc_good K mapped ps h b k z L s s' a \<or>
            a = NULL \<and> alloc_inv K mapped ps h L s' \<and> smem s' = smem s)"
proof -
  note I = malloc_invD [OF inv]
  note B = live_block [OF I(4) b] and P = page_size [OF I(1)]
  let ?n = "request (z + 8)"
  have k: "24 \<le> k" "b + k < 2 ^ 63" "8 dvd k" "0 < b" using B(1) by (auto simp: area_ok_def)
  note N = request_bounds [of "z + 8"]
  have n64: "?n < 2 ^ 64" "z + 8 + 7 < 2 ^ 64" using N(4) z(2) by auto
  have sz: "(if HEAP_ADJUST_SIZE (ptr z + MALLOC_HEADER_SIZE) < sizeof_heap_free_area
      then HEAP_ADJUST_SIZE sizeof_heap_free_area else HEAP_ADJUST_SIZE (ptr z + MALLOC_HEADER_SIZE)) = ptr ?n"
    using adjusted_request [OF n64(2)] unfolding header_size ptr_add_numeral .
  have guards: "ptr z \<noteq> 0" "ptr (b + 8) \<noteq> NULL" "\<not> MALLOC_HEADER_SIZE * - 2 < ptr z"
    using z k P(2) by (simp_all add: ptr_eq_0 word_less_nat_alt unat_ptr)
  have base: "MALLOC_BASE (ptr (b + 8)) = ptr b" "MALLOC_SIZE (smem s) (ptr (b + 8)) = ptr k"
    using B(2) by (simp_all add: MALLOC_BASE_def MALLOC_SIZE_def)
  have lt: "ptr k < ptr ?n \<longleftrightarrow> k < ?n" using k n64 by (intro ptr_less) auto
  have le: "ptr ?n + MALLOC_REALLOC_MIN_FREE_SIZE \<le> ptr k \<longleftrightarrow> ?n + 40 \<le> k"
    using k n64 N(4) z(2) P(2) by (simp add: MALLOC_REALLOC_MIN_FREE_SIZE_def ptr_le)
  have apart: "{b ..< b + k} \<inter> (F \<union> {h ..< h + 8}) = {}" using live_bytesI [of L, OF b] I(5) by blast
  note run = realloc_def [of K "ptr h" "ptr (b + 8)" "ptr z" s, unfolded base sz Let_def]
  consider (grow) "k < ?n" | (shrink) "?n + 40 \<le> k" | (same) "?n \<le> k" "\<not> ?n + 40 \<le> k" by linarith
  then show ?thesis
  proof cases
    case grow
    have x: "b + k < 2 ^ 64" "0 < ?n - k" "?n - k + 7 < 2 ^ 64" using k grow n64 N(4) z(2) by auto
    have ext: "ptr ?n - ptr k = ptr (?n - k)" using grow by simp
    from ht.alloc_at_block [OF I(3) x] show ?thesis
    proof (elim disjE exE conjE)
      assume "heap_alloc_at (ptr h) (ptr (b + k)) (ptr (?n - k)) (smem s) = Some (smem s, 0)"
      then show ?thesis
        using realloc_copy [OF inv b, of ?n z, unfolded Let_def] grow lt guards ext N z(2) request_request(1) [of "z + 8"]
        by (simp add: run sz Let_def base)
    next
      fix m e
      assume a: "heap_alloc_at (ptr h) (ptr (b + k)) (ptr (?n - k)) (smem s) = Some (m, ptr e)"
        "adjust (?n - k) \<le> e" "8 dvd e" "{b + k ..< b + k + e} \<subseteq> F" "b + k + e < 2 ^ 63"
        "heap_owns h m (F - {b + k ..< b + k + e})" "unchanged_outside (F \<union> {h ..< h + 8}) (smem s) m"
      have "?n - k \<le> e" using a(2) adjust_bounds(1) [of "?n - k"] by linarith
      then have ze: "z + 8 \<le> k + e" "ptr e \<noteq> 0" using N(1) grow a(5) by (auto simp: ptr_eq_0)
      have "realloc_good K mapped ps h b k z L s (s\<lparr>smem := store64 m (ptr b) (ptr (k + e))\<rparr>) (ptr (b + 8))"
        by (rule realloc_extend [OF inv b a(4,3,5,6,7) ze(1)])
      then show ?thesis
        using a(1) ze(2) grow lt guards ext by (simp add: run sz Let_def base MALLOC_SET_SIZE_def)
    qed
  next
    case shrink
    have "?n + 24 \<le> k" using shrink by simp
    obtain m fa where f: "heap_free (ptr h) (ptr (b + ?n)) (ptr (k - ?n)) (smem s) = Some (m, fa)"
        "area_ok (b, ?n)" "heap_owns h m (F \<union> {b + ?n ..< b + k})"
        "{b ..< b + ?n} \<inter> (F \<union> {b + ?n ..< b + k} \<union> {h ..< h + 8}) = {}"
        "unchanged_outside (F \<union> {b + ?n ..< b + k} \<union> {h ..< h + 8}) (smem s) m"
      using ht.free_tail [OF I(3) B(1) apart N(3) \<open>?n + 24 \<le> k\<close> N(2)] by blast
    have ivl: "{b ..< b + ?n} \<subseteq> {b ..< b + k}" "{b + ?n ..< b + k} \<subseteq> {b ..< b + k}" using shrink by auto
    have "realloc_good K mapped ps h b k z L s (s\<lparr>smem := store64 m (ptr b) (ptr ?n)\<rparr>) (ptr (b + 8))"
      by (rule realloc_goodI [OF inv b f(3,2) _ _ f(5) N(1)]) (use ivl f(4) in blast)+
    then show ?thesis
      using f(1) shrink lt le guards by (simp add: run sz Let_def base MALLOC_SET_SIZE_def)
  next
    case same
    have "L(b := None, b \<mapsto> k) = L" using b by auto
    then have "realloc_good K mapped ps h b k z L s s (ptr (b + 8))"
      unfolding realloc_good_def alloc_inv_def using inv N(1) same(1) by (intro exI [of _ b] exI [of _ k]) auto
    then show ?thesis using same lt le guards by (simp add: run sz Let_def base)
  qed
qed

section \<open>\<open>memalign\<close>\<close>

text \<open>
  Where the aligned address lands: at the start of the user part, or at least 24 bytes behind it, and
  never more than 24 bytes and an alignment behind the base.
\<close>

lemma aligned_address:
  assumes a: "A = 2 ^ p" "16 \<le> A" and b: "8 dvd b" "b + 32 + A < 2 ^ 64"
  obtains v where "(let addr = MALLOC_ROUND_UP (ptr (b + 8)) (ptr A)
          in if addr \<noteq> ptr (b + 8)
             then if addr - ptr (b + 8) < HEAP_MIN_SIZE then MALLOC_ROUND_UP (ptr (b + 8) + HEAP_MIN_SIZE) (ptr A) else addr
             else addr) = ptr v"
    and "MALLOC_ROUND_UP (ptr (b + 8)) (ptr A) = ptr (b + 8) \<longleftrightarrow> v = b + 8"
    and "A dvd v" and "8 dvd v" and "v = b + 8 \<or> b + 32 \<le> v" and "v \<le> b + A + 24"
proof -
  have "3 \<le> p"
  proof (rule ccontr)
    assume "\<not> 3 \<le> p"
    then have "(2 :: nat) ^ p \<le> 2 ^ 2" by (intro power_increasing) auto
    with a show False by simp
  qed
  then have "(2 :: nat) ^ 3 dvd 2 ^ p" by (rule le_imp_power_dvd)
  then have A8: "8 dvd A" using a(1) by simp
  have bnd1: "b + 8 + A \<le> 2 ^ 64" and bnd2: "b + 32 + A \<le> 2 ^ 64" using b(2) by auto
  obtain u where u: "MALLOC_ROUND_UP (ptr (b + 8)) (ptr A) = ptr u" "A dvd u" "b + 8 \<le> u" "u < b + 8 + A"
    by (rule MALLOC_ROUND_UP_ptr [OF bnd1 a(1)])
  obtain w where w: "MALLOC_ROUND_UP (ptr (b + 32)) (ptr A) = ptr w" "A dvd w" "b + 32 \<le> w" "w < b + 32 + A"
    by (rule MALLOC_ROUND_UP_ptr [OF bnd2 a(1)])
  define v where "v = (if u \<noteq> b + 8 \<and> u - (b + 8) < 24 then w else u)"
  have eq: "ptr u = ptr (b + 8) \<longleftrightarrow> u = b + 8" using u(4) b(2) by (intro ptr_eq) auto
  have lt: "ptr (u - (b + 8)) < (24 :: addr) \<longleftrightarrow> u - (b + 8) < 24"
    using u(4) b(2) by (intro ptr_less_numeral) auto
  have d: "8 dvd u" "8 dvd w" using A8 u(2) w(2) by (auto intro: dvd_trans)
  have "w + 8 \<le> b + 32 + A"
    using w(4) d(2) b(1) A8 by (elim dvdE) presburger
  then have v: "A dvd v" "8 dvd v" "v = b + 8 \<or> b + 32 \<le> v" "v \<le> b + A + 24"
    using u w d a(2) by (auto simp: v_def)
  have "(if ptr u \<noteq> ptr (b + 8) then if ptr u - ptr (b + 8) < 24 then ptr w else ptr u else ptr u) = ptr v"
    using eq lt u(3) by (simp add: v_def)
  moreover have "ptr u = ptr (b + 8) \<longleftrightarrow> v = b + 8" using eq u(3) w(3) by (auto simp: v_def)
  ultimately show thesis using v u(1) w(1) by (intro that [of v]) (auto simp: Let_def add.assoc split: if_splits)
qed

text \<open>Cutting the front of a block off: the bytes before \<open>v - 8\<close> go back to the heap.\<close>

lemma memalign_front:
  assumes own: "heap_owns h m F" and blk: "area_ok (b, k)" "{b ..< b + k} \<inter> (F \<union> {h ..< h + 8}) = {}"
    and v: "8 dvd v" "v = b + 8 \<or> b + 32 \<le> v" "v \<le> b + k"
  shows "\<exists>m'. (if v \<noteq> b + 8 then do { (m, fa) \<leftarrow> heap_free (ptr h) (ptr b) (ptr (v - (b + 8))) m;
                                      Some (m, ptr (v - 8), ptr v) }
             else Some (m, ptr b, ptr v)) = Some (m', ptr (v - 8), ptr v) \<and>
           heap_owns h m' (F \<union> {b ..< v - 8}) \<and> unchanged_outside (F \<union> {b ..< v - 8} \<union> {h ..< h + 8}) m m'"
proof (cases "v = b + 8")
  case True
  then show ?thesis using own by simp
next
  case False
  have bnd: "8 dvd b" "b + k < 2 ^ 63" "0 < b" using blk(1) by (auto simp: area_ok_def)
  have v32: "b + 32 \<le> v" using v(2) False by blast
  have "area_ok (b, v - (b + 8))"
    using bnd v v32 by (auto simp: area_ok_def dvd_diff_nat dvd_add)
  moreover have e: "b + (v - (b + 8)) = v - 8" using v32 by simp
  moreover have "{b ..< v - 8} \<subseteq> {b ..< b + k}" using v(3) by auto
  then have "{b ..< b + (v - (b + 8))} \<inter> (F \<union> {h ..< h + 8}) = {}" using blk(2) unfolding e by blast
  ultimately show ?thesis using False hs.free_block [OF own, of b "v - (b + 8)"] by auto
qed

text \<open>Cutting the back off, when more than 40 bytes would remain unused.\<close>

lemma memalign_back:
  assumes own: "heap_owns h m F" and blk: "{e ..< t} \<inter> (F \<union> {h ..< h + 8}) = {}"
    and d: "8 dvd e" "8 dvd t" "0 < e" "t < 2 ^ 63" "e \<le> t"
  shows "\<exists>m' e'. (if ptr e + MALLOC_REALLOC_MIN_FREE_SIZE < ptr t then
               do { (m, fa) \<leftarrow> heap_free (ptr h) (ptr e) (ptr t - ptr e) m; Some (m, ptr e) }
             else Some (m, ptr t)) = Some (m', ptr e') \<and> e' = (if e + 40 < t then e else t) \<and>
           heap_owns h m' (F \<union> {e' ..< t}) \<and> unchanged_outside (F \<union> {e' ..< t} \<union> {h ..< h + 8}) m m'"
proof (cases "e + 40 < t")
  case True
  then have "area_ok (e, t - e)" using d by (simp add: area_ok_def dvd_diff_nat)
  moreover have "{e ..< e + (t - e)} \<inter> (F \<union> {h ..< h + 8}) = {}" using blk True by simp
  moreover have "ptr (e + 40) < ptr t" using True d(4) by (subst ptr_less) auto
  ultimately show ?thesis
    using True hs.free_block [OF own, of e "t - e"]
    by (auto simp: MALLOC_REALLOC_MIN_FREE_SIZE_def)
next
  case False
  then have "\<not> ptr (e + 40) < ptr t" using d(4,5) by (subst ptr_less) auto
  then show ?thesis using False own by (simp add: MALLOC_REALLOC_MIN_FREE_SIZE_def)
qed

text \<open>
  The whole of \<open>memalign\<close> for a power of two of at least 16, on the block the inner \<open>malloc\<close> gave: the
  result is aligned, the heap owns what was cut off, the header records the bytes that were kept.
\<close>

lemma memalign_run:
  assumes inv: "malloc_inv K mapped ps h F1 (L1(b \<mapsto> k)) s1"
    and m: "malloc K (ptr h) (ptr (adjust z) + 2 * ptr A) s = Some (s1, ptr (b + 8))"
    and a: "A = 2 ^ p" "16 \<le> A" and k: "adjust z + 2 * A + 8 \<le> k" and z: "z + 7 < 2 ^ 64"
  shows "\<exists>m v e. memalign K (ptr h) (ptr A) (ptr z) s =
             Some (s1\<lparr>smem := store64 m (ptr (v - 8)) (ptr (e - (v - 8)))\<rparr>, ptr v) \<and> A dvd v \<and> 8 dvd v \<and>
           b + 8 \<le> v \<and> v + adjust z \<le> e \<and> e \<le> b + k \<and> 8 dvd e \<and>
           e = (if v + adjust z + 40 < b + k then v + adjust z else b + k) \<and> v \<le> b + A + 24 \<and>
           heap_owns h m (F1 \<union> {b ..< v - 8} \<union> {e ..< b + k}) \<and>
           unchanged_outside (F1 \<union> {b ..< v - 8} \<union> {e ..< b + k} \<union> {h ..< h + 8}) (smem s1) m"
proof -
  note I = malloc_invD [OF inv]
  have bk: "(L1(b \<mapsto> k)) b = Some k" by simp
  note B = live_block [OF I(4) bk]
  have blk: "8 dvd b" "8 dvd k" "0 < b" "b + k < 2 ^ 63" using B(1) by (auto simp: area_ok_def)
  have apart: "{b ..< b + k} \<inter> (F1 \<union> {h ..< h + 8}) = {}" using live_bytesI [of "L1(b \<mapsto> k)", OF bk] I(5) by blast
  have bA: "b + 32 + A < 2 ^ 64" using blk(4) k a(2) by simp
  obtain v where v: "(let addr = MALLOC_ROUND_UP (ptr (b + 8)) (ptr A)
          in if addr \<noteq> ptr (b + 8)
             then if addr - ptr (b + 8) < HEAP_MIN_SIZE then MALLOC_ROUND_UP (ptr (b + 8) + HEAP_MIN_SIZE) (ptr A) else addr
             else addr) = ptr v"
      "MALLOC_ROUND_UP (ptr (b + 8)) (ptr A) = ptr (b + 8) \<longleftrightarrow> v = b + 8"
      "A dvd v" "8 dvd v" "v = b + 8 \<or> b + 32 \<le> v" "v \<le> b + A + 24"
    by (rule aligned_address [OF a blk(1) bA])
  have vz: "v + adjust z \<le> b + k" "v \<le> b + k" "8 \<le> v" "8 dvd v + adjust z" "0 < v + adjust z" "8 dvd b + k"
    using v(4-6) k a(2) adjust_bounds(3) [of z] blk by auto
  obtain m1 where m1: "(if v \<noteq> b + 8 then do { (m, fa) \<leftarrow> heap_free (ptr h) (ptr b) (ptr (v - (b + 8))) (smem s1);
                                      Some (m, ptr (v - 8), ptr v) }
             else Some (smem s1, ptr b, ptr v)) = Some (m1, ptr (v - 8), ptr v)"
      "heap_owns h m1 (F1 \<union> {b ..< v - 8})" "unchanged_outside (F1 \<union> {b ..< v - 8} \<union> {h ..< h + 8}) (smem s1) m1"
    using memalign_front [OF I(3) B(1) apart v(4,5) vz(2)] by blast
  have "{v + adjust z ..< b + k} \<subseteq> {b ..< b + k}" "{v + adjust z ..< b + k} \<inter> {b ..< v - 8} = {}"
    using v(5) by auto
  then have apart2: "{v + adjust z ..< b + k} \<inter> (F1 \<union> {b ..< v - 8} \<union> {h ..< h + 8}) = {}" using apart by blast
  obtain m2 e where m2: "(if ptr (v + adjust z) + MALLOC_REALLOC_MIN_FREE_SIZE < ptr (b + k) then
               do { (m, fa) \<leftarrow> heap_free (ptr h) (ptr (v + adjust z)) (ptr (b + k) - ptr (v + adjust z)) m1;
                    Some (m, ptr (v + adjust z)) }
             else Some (m1, ptr (b + k))) = Some (m2, ptr e)"
      "e = (if v + adjust z + 40 < b + k then v + adjust z else b + k)"
      "heap_owns h m2 (F1 \<union> {b ..< v - 8} \<union> {e ..< b + k})"
      "unchanged_outside (F1 \<union> {b ..< v - 8} \<union> {e ..< b + k} \<union> {h ..< h + 8}) m1 m2"
    using memalign_back [OF m1(2) apart2 vz(4,6,5) blk(4) vz(1)] by blast
  have e: "v + adjust z \<le> e" "e \<le> b + k" "8 dvd e" using m2(2) vz by auto
  have u: "unchanged_outside (F1 \<union> {b ..< v - 8} \<union> {e ..< b + k} \<union> {h ..< h + 8}) (smem s1) m2"
    by (rule unchanged_trans [OF unchanged_mono [OF m1(3)] m2(4)]) blast
  have hdr: "MALLOC_SIZE (smem s1) (ptr (b + 8)) = ptr k" "MALLOC_BASE (ptr (b + 8)) = ptr b"
    using B(2) by (simp_all add: MALLOC_SIZE_def MALLOC_BASE_def)
  have nz: "ptr (b + 8) \<noteq> NULL" using blk by (subst ptr_eq_0) auto
  have al: "\<not> ptr A < MALLOC_ALIGNMENT"
    using a(2) bA by (simp add: MALLOC_ALIGNMENT_def ptr_less_numeral del: of_nat_power)
  have base: "ptr b + (ptr v - ptr (b + 8)) = ptr (v - 8)" "ptr v - ptr (b + 8) = ptr (v - (b + 8))"
    "ptr e - ptr (v - 8) = ptr (e - (v - 8))"
    using v(5) e(1) by auto
  have base4: "ptr b + ptr (v - (b + 8)) = ptr (v - 8)" using v(5) by (subst ptr_add) (auto intro: arg_cong [of _ _ ptr])
  have cond: "ptr (v + adjust z) + MALLOC_REALLOC_MIN_FREE_SIZE < ptr (b + k) \<longleftrightarrow> v + adjust z + 40 < b + k"
    using vz(1) blk(4) by (simp add: MALLOC_REALLOC_MIN_FREE_SIZE_def ptr_less)
  have adj: "HEAP_ADJUST_SIZE (ptr z) = ptr (adjust z)" by (rule HEAP_ADJUST_SIZE_ptr [OF z])
  have "memalign K (ptr h) (ptr A) (ptr z) s =
      Some (s1\<lparr>smem := store64 m2 (ptr (v - 8)) (ptr (e - (v - 8)))\<rparr>, ptr v)"
  proof (cases "v = b + 8")
    case True
    then have "MALLOC_ROUND_UP (ptr (b + 8)) (ptr A) = ptr (b + 8)" using v(2) by blast
    moreover have "m1 = smem s1" using m1(1) True by simp
    ultimately show ?thesis
      using True m2(1,2) cond
      by (simp only: memalign_def adj m nz al hdr Let_def MALLOC_SETUP_def MALLOC_SET_SIZE_def bind.bind_lunit
          prod.case if_False if_True not_False_eq_True, cases "v + adjust z + 40 < b + k")
        (auto simp: MALLOC_SETUP_def Option.bind_eq_Some_conv simp del: of_nat_power)
  next
    case False
    then have "MALLOC_ROUND_UP (ptr (b + 8)) (ptr A) \<noteq> ptr (b + 8)" using v(2) by blast
    moreover from this have "(if MALLOC_ROUND_UP (ptr (b + 8)) (ptr A) - ptr (b + 8) < HEAP_MIN_SIZE
        then MALLOC_ROUND_UP (ptr (b + 8) + HEAP_MIN_SIZE) (ptr A) else MALLOC_ROUND_UP (ptr (b + 8)) (ptr A)) = ptr v"
      using v(1) unfolding Let_def by simp
    moreover obtain fa1 where f1: "heap_free (ptr h) (ptr b) (ptr (v - (b + 8))) (smem s1) = Some (m1, fa1)"
      using m1(1) False by (auto simp: Option.bind_eq_Some_conv)
    ultimately have front: "memalign K (ptr h) (ptr A) (ptr z) s =
        do {
          (m, end_addr) \<leftarrow> (if ptr v + ptr (adjust z) + MALLOC_REALLOC_MIN_FREE_SIZE < ptr b + ptr k
             then do { (m, fa) \<leftarrow> heap_free (ptr h) (ptr v + ptr (adjust z)) (ptr b + ptr k - (ptr v + ptr (adjust z))) m1;
                       Some (m, ptr v + ptr (adjust z)) }
             else Some (m1, ptr b + ptr k));
          Some (s1\<lparr>smem := store64 m (ptr (v - 8)) (end_addr - ptr (v - 8))\<rparr>, ptr (v - 8) + 8)
        }"
      by (simp only: memalign_def adj m nz al hdr Let_def MALLOC_SETUP_def MALLOC_SET_SIZE_def bind.bind_lunit
          prod.case if_False if_True not_False_eq_True f1 base base4 header_size split_def fst_conv snd_conv)
    have v8: "ptr (v - 8) + 8 = ptr v" using vz(3) by simp
    show ?thesis unfolding front
      using m2(1) by (simp only: ptr_add bind.bind_lunit prod.case base v8)
  qed
  moreover have "b + 8 \<le> v" using v(5) by auto
  ultimately show ?thesis
    using v(3,4,6) e m2(2,3) u by (intro exI [of _ m2] exI [of _ v] exI [of _ e] conjI)
qed

lemma memalign_correct:
  assumes inv: "malloc_inv K mapped ps h F L s" and a: "A = 2 ^ p" "16 \<le> A"
    and z: "9 \<le> z" "z + 2 * A + ps + 40 < 2 ^ 64"
  shows "\<exists>s' a. memalign K (ptr h) (ptr A) (ptr z) s = Some (s', a) \<and>
           unchanged_outside (- live_bytes L) (smem s) (smem s') \<and>
           (a = NULL \<and> alloc_inv K mapped ps h L s' \<or>
            (\<exists>v k. a = ptr v \<and> A dvd v \<and> 8 \<le> v \<and> L (v - 8) = None \<and> z + 8 \<le> k \<and>
               alloc_inv K mapped ps h (L(v - 8 \<mapsto> k)) s'))"
proof -
  note Z = adjust_bounds [of z]
  have req: "ptr (adjust z) + 2 * ptr A = ptr (adjust z + 2 * A)" by (simp flip: ptr_add)
  have z7: "z + 7 < 2 ^ 64" and adj: "HEAP_ADJUST_SIZE (ptr z) = ptr (adjust z)"
    using z(2) by (auto intro: HEAP_ADJUST_SIZE_ptr)
  have sz: "0 < adjust z + 2 * A" "adjust z + 2 * A + ps + 32 < 2 ^ 64" using Z z a(2) by auto
  obtain s1 q where r: "malloc K (ptr h) (ptr (adjust z + 2 * A)) s = Some (s1, q)"
      "malloc_good K mapped ps h (adjust z + 2 * A) F L s s1 q \<or>
       q = NULL \<and> malloc_inv K mapped ps h F L s1 \<and> smem s1 = smem s"
    using malloc_correct [OF inv sz] by blast
  from r(2) show ?thesis
  proof
    assume "q = NULL \<and> malloc_inv K mapped ps h F L s1 \<and> smem s1 = smem s"
    then show ?thesis
      using r(1) by (auto simp: memalign_def adj req alloc_inv_def simp del: ptr_add)
  next
    assume "malloc_good K mapped ps h (adjust z + 2 * A) F L s s1 q"
    then obtain b k F1 where b: "q = ptr (b + 8)" "L b = None" "area_ok (b, k)" "request (adjust z + 2 * A + 8) \<le> k"
        "malloc_inv K mapped ps h F1 (L(b \<mapsto> k)) s1" "unchanged_outside (spare mapped h F s) (smem s) (smem s1)"
      by (auto simp: malloc_good_def)
    note I1 = malloc_invD [OF b(5)]
    have k: "adjust z + 2 * A + 8 \<le> k" using b(4) request_bounds(1) [of "adjust z + 2 * A + 8"] by linarith
    have bk: "b + k < 2 ^ 63" "0 < b" "8 dvd b" using b(3) by (auto simp: area_ok_def)
    obtain m v e where x: "memalign K (ptr h) (ptr A) (ptr z) s =
          Some (s1\<lparr>smem := store64 m (ptr (v - 8)) (ptr (e - (v - 8)))\<rparr>, ptr v)" "A dvd v" "8 dvd v"
        "b + 8 \<le> v" "v + adjust z \<le> e" "e \<le> b + k" "8 dvd e"
        "heap_owns h m (F1 \<union> {b ..< v - 8} \<union> {e ..< b + k})"
        "unchanged_outside (F1 \<union> {b ..< v - 8} \<union> {e ..< b + k} \<union> {h ..< h + 8}) (smem s1) m"
      using memalign_run [OF b(5) r(1) [unfolded b(1), folded req] a k z7] by blast
    have LL: "(L(b \<mapsto> k))(b := None) = L" using b(2) by auto
    have bytes: "live_bytes L = live_bytes (L(b \<mapsto> k)) - {b ..< b + k}"
      using live_bytes_remove [OF I1(4), of b k] LL by simp
    note blk = live_bytesI [of "L(b \<mapsto> k)" b k, simplified]
    have a16: "16 \<le> adjust z" using z(1) Z by (auto elim!: dvdE)
    let ?b = "v - 8" let ?k = "e - (v - 8)"
    have ivl: "{b ..< ?b} \<subseteq> {b ..< b + k}" "{e ..< b + k} \<subseteq> {b ..< b + k}" "{?b ..< ?b + ?k} \<subseteq> {b ..< b + k}"
        "{?b ..< ?b + ?k} \<inter> ({b ..< ?b} \<union> {e ..< b + k}) = {}"
      using x(4-6) by auto
    let ?F = "F1 \<union> {b ..< ?b} \<union> {e ..< b + k}" and ?s = "s1\<lparr>smem := m\<rparr>"
    have live: "live_ok L (smem ?s)"
      using live_ok_frame [OF live_ok_remove [OF I1(4), of b] x(9)] LL I1(5) bytes ivl(1,2) by (simp, blast)
    have apart: "live_bytes L \<inter> (?F \<union> {?b ..< ?b + ?k} \<union> {h ..< h + 8}) = {}" using I1(5) bytes ivl by blast
    have ok: "area_ok (?b, ?k)"
      using x(3-7) bk a16 by (auto simp: area_ok_def dvd_diff_nat)
    have own: "heap_owns h (smem ?s) ?F" "pagesize ?s = ptr ps" using x(8) I1(2) by simp_all
    have disj: "{?b ..< ?b + ?k} \<inter> (?F \<union> {h ..< h + 8}) = {}" using I1(5) blk ivl(3,4) by blast
    have sub: "?F \<union> {?b ..< ?b + ?k} \<union> {h ..< h + 8} \<union> live_bytes L \<subseteq> mapped (world ?s)"
      using I1(6) blk ivl bytes by (simp, blast)
    note M = malloc_inv_setup [OF I1(1) own(2,1) live apart ok disj sub]
    have "unchanged_outside (- live_bytes L) (smem s) (smem s1)" by (rule malloc_good_frame [OF inv b(6)])
    moreover have "unchanged_outside (- live_bytes L) (smem s1) m"
      by (rule unchanged_mono [OF x(9)]) (use apart in blast)
    moreover have "unchanged_outside (- live_bytes L) m (store64 m (ptr ?b) (ptr ?k))"
      using unchanged_mono [OF M(3), of "- live_bytes L"] apart by (simp, blast)
    ultimately have "unchanged_outside (- live_bytes L) (smem s) (store64 m (ptr ?b) (ptr ?k))"
      by (blast intro: unchanged_trans)
    moreover have "z + 8 \<le> ?k" "8 \<le> v" using x(4,5) Z by auto
    ultimately show ?thesis
      using x(1,2) M(1,2) by (intro exI [of _ "s1\<lparr>smem := store64 m (ptr ?b) (ptr ?k)\<rparr>"] exI [of _ "ptr v"])
        (auto simp: alloc_inv_def)
  qed
qed

end
