(* ===== verification/Malloc_Props.thy ===== *)
theory Malloc_Props
  imports Malloc_Resize
begin

text \<open>
  The properties of the allocator, with the concrete kernel and state on which they are witnessed, and
  the state machine of a client that allocates, writes, resizes and frees in any order.
\<close>

section \<open>A kernel that hands out fresh pages\<close>

text \<open>
  The kernel's state is the list of blocks it mapped; below 16384 everything is mapped from the start.
  A new block is placed on the next page boundary above all others; unmapping is ignored.
\<close>

definition demo_top :: "area list \<Rightarrow> nat" where
  "demo_top ws = foldr (\<lambda>(c, n) t. max (c + n) t) ws 16384"

definition demo_kernel :: "area list kernel" where
  "demo_kernel sysno args = (\<lambda>(ws, m).
     if sysno = SYS_mmap then
       (let c = (demo_top ws div 4096 + 1) * 4096; n = unat (args ! 1)
        in if c + n < 2 ^ 63 then (ptr c, (c, n) # ws, m) else (- 1, ws, m))
     else (0, ws, m))"

definition demo_mapped :: "area list \<Rightarrow> nat set" where
  "demo_mapped ws = {0 ..< 16384} \<union> bytes ws"

lemma demo_top_above: "x \<in> demo_mapped ws \<Longrightarrow> x < demo_top ws"
  by (induction ws) (auto simp: demo_mapped_def demo_top_def)

lemma demo_kernel_pages: "page_source demo_kernel demo_mapped 4096"
proof -
  have mm: "a = - 1 \<and> m' = m \<and> demo_mapped w' = demo_mapped w \<or>
      (\<exists>c. a = ptr c \<and> 0 < c \<and> 4096 dvd c \<and> c + n < 2 ^ 63 \<and> {c ..< c + n} \<inter> demo_mapped w = {} \<and>
        demo_mapped w' = demo_mapped w \<union> {c ..< c + n} \<and> unchanged_outside {c ..< c + n} m m')"
    if k: "demo_kernel SYS_mmap [0, ptr n, 3, 34, 0, 0] (w, m) = (a, w', m')" and n: "n < 2 ^ 64"
    for n w m a w' m'
  proof -
    let ?c = "(demo_top w div 4096 + 1) * 4096"
    have "demo_top w < ?c" using dividend_less_div_times [of 4096 "demo_top w"] by simp
    then have "{?c ..< ?c + n} \<inter> demo_mapped w = {}" using demo_top_above by fastforce
    moreover have "demo_mapped ((?c, n) # w) = demo_mapped w \<union> {?c ..< ?c + n}"
      by (auto simp: demo_mapped_def)
    moreover have "(if ?c + n < 2 ^ 63 then (ptr ?c, (?c, n) # w, m) else (- 1, w, m)) = (a, w', m')"
      using k unfolding demo_kernel_def Let_def by (simp only: refl prod.case if_True nth_Cons_Suc nth_Cons_0 One_nat_def unat_ptr [OF n])
    moreover have "0 < ?c" "4096 dvd ?c" by simp_all
    ultimately show ?thesis by (cases "?c + n < 2 ^ 63") (auto simp del: of_nat_mult)
  qed
  have "SYS_munmap \<noteq> SYS_mmap" by (simp add: SYS_munmap_def SYS_mmap_def)
  then have mu: "demo_mapped w - {c ..< c + n} \<subseteq> demo_mapped w' \<and> unchanged_outside {c ..< c + n} m m'"
    if "demo_kernel SYS_munmap [ptr c, ptr n] (w, m) = (r, w', m')" for c n w m r w' m'
    using that by (auto simp: demo_kernel_def)
  have "\<exists>p. 12 \<le> p \<and> p \<le> 30 \<and> (4096 :: nat) = 2 ^ p" by (intro exI [of _ 12]) simp
  then show ?thesis unfolding page_source_def using mm mu by meson
qed

definition demo_state :: "area list lstate" where
  "demo_state = \<lparr>world = [], smem = demo_heap2, errno = 0, pagesize = 4096\<rparr>"

abbreviation demo_free :: "nat set" where
  "demo_free \<equiv> bytes [(8192, 256), (12288, 128)]"

lemma demo_state_inv: "malloc_inv demo_kernel demo_mapped 4096 4096 demo_free Map.empty demo_state"
  using demo_kernel_pages demo_heap2_inv
  by (auto simp: malloc_inv_def demo_state_def heap_owns_def live_ok_def live_bytes_def demo_mapped_def
      intro!: exI [of _ "[(8192, 256), (12288, 128)]"])

lemma demo_fits: "request z \<le> 256 \<Longrightarrow> fits demo_free z"
  unfolding fits_def by (intro exI [of _ 8192] exI [of _ 256]) (auto simp: area_ok_def)

text \<open>A first allocation of 100 bytes succeeds because an area fits.\<close>

lemma demo_block:
  obtains b k F s where "malloc demo_kernel (ptr 4096) (ptr 100) demo_state = Some (s, ptr (b + 8))"
    and "malloc_inv demo_kernel demo_mapped 4096 4096 F [b \<mapsto> k] s" and "108 \<le> k"
proof -
  have "fits demo_free (100 + 8)" by (rule demo_fits) (simp add: request_def adjust_def)
  then obtain s' a where "malloc demo_kernel (ptr 4096) (ptr 100) demo_state = Some (s', a)"
      "malloc_good demo_kernel demo_mapped 4096 4096 100 demo_free Map.empty demo_state s' a"
    using malloc_correct [OF demo_state_inv, of 100] by auto
  moreover have "108 \<le> request 108" by (rule request_bounds)
  ultimately show thesis using that by (fastforce simp: malloc_good_def)
qed

section \<open>Client runs\<close>

text \<open>The size a block's header records, for the user address \<open>a\<close>.\<close>

abbreviation recorded :: "'w lstate \<Rightarrow> addr \<Rightarrow> nat" where
  "recorded s a \<equiv> unat (load64 (smem s) (a - 8))"

text \<open>The bookkeeping of live blocks for a call that returned \<open>a\<close>.\<close>

definition add_block :: "blocks \<Rightarrow> 'w lstate \<Rightarrow> addr \<Rightarrow> blocks" where
  "add_block L s a = L(unat a - 8 \<mapsto> recorded s a)"

inductive client_step :: "'w kernel \<Rightarrow> nat \<Rightarrow> nat \<Rightarrow> blocks \<times> 'w lstate \<Rightarrow> blocks \<times> 'w lstate \<Rightarrow> bool"
  for K :: "'w kernel" and h slack :: nat where
  c_malloc: "malloc K (ptr h) (ptr z) s = Some (s', a) \<Longrightarrow> 0 < z \<Longrightarrow> z + slack < 2 ^ 64 \<Longrightarrow>
    client_step K h slack (L, s) (if a = NULL then L else add_block L s' a, s')"
| c_calloc: "calloc K (ptr h) (ptr n) (ptr z) s = Some (s', a) \<Longrightarrow> 0 < n * z \<Longrightarrow> n * z + slack < 2 ^ 64 \<Longrightarrow>
    client_step K h slack (L, s) (if a = NULL then L else add_block L s' a, s')"
| c_memalign: "memalign K (ptr h) (ptr A) (ptr z) s = Some (s', a) \<Longrightarrow> A = 2 ^ p \<Longrightarrow> 16 \<le> A \<Longrightarrow> 9 \<le> z \<Longrightarrow>
    z + 2 * A + slack < 2 ^ 64 \<Longrightarrow> client_step K h slack (L, s) (if a = NULL then L else add_block L s' a, s')"
| c_realloc: "realloc K (ptr h) (ptr (b + 8)) (ptr z) s = Some (s', a) \<Longrightarrow> L b = Some k \<Longrightarrow> 0 < z \<Longrightarrow>
    z + slack < 2 ^ 64 \<Longrightarrow>
    client_step K h slack (L, s) (if a = NULL then L else add_block (L(b := None)) s' a, s')"
| c_free: "free K (ptr h) (ptr (b + 8)) s = Some s' \<Longrightarrow> L b = Some k \<Longrightarrow>
    client_step K h slack (L, s) (L(b := None), s')"
| c_write: "L b = Some k \<Longrightarrow> unchanged_outside {b + 8 ..< b + k} (smem s) m \<Longrightarrow>
    client_step K h slack (L, s) (L, s\<lparr>smem := m\<rparr>)"

lemma add_block_eq:
  assumes "alloc_inv K mapped ps h (L(b \<mapsto> k)) s"
  shows "add_block L s (ptr (b + 8)) = L(b \<mapsto> k)" and "ptr (b + 8) \<noteq> NULL"
proof -
  note B = live_block [OF al.live [OF assms], of b k, simplified]
  have lt: "b + 8 < 2 ^ 64" "k < 2 ^ 64" using B(1) by (auto simp: area_ok_def)
  then show "ptr (b + 8) \<noteq> NULL" by (subst ptr_eq_0) auto
  show "add_block L s (ptr (b + 8)) = L(b \<mapsto> k)"
    using lt B(2) by (simp add: add_block_def unat_ptr)
qed

text \<open>What every allocating call gives, whether it succeeds or not.\<close>

lemma added_inv:
  assumes "a = NULL \<and> alloc_inv K mapped ps h L0 s' \<or> (\<exists>b k. a = ptr (b + 8) \<and> alloc_inv K mapped ps h (L(b \<mapsto> k)) s')"
  shows "alloc_inv K mapped ps h (if a = NULL then L0 else add_block L s' a) s'"
  using assms
proof (elim disjE exE conjE)
  fix b k
  assume "a = ptr (b + 8)" "alloc_inv K mapped ps h (L(b \<mapsto> k)) s'"
  then show ?thesis using add_block_eq [of K mapped ps h L b k s'] by simp
qed simp

lemma mult_bounds:
  assumes "0 < n * z" and "n * z + c < (2 :: nat) ^ 64"
  shows "n < 2 ^ 64" and "z < 2 ^ 64"
proof -
  have "n \<le> n * z" "z \<le> n * z" using assms(1) by auto
  with assms(2) show "n < 2 ^ 64" "z < 2 ^ 64" by linarith+
qed

lemma client_step_inv:
  assumes step: "client_step K h (ps + 64) ls ls'" and inv: "alloc_inv K mapped ps h (fst ls) (snd ls)"
  shows "alloc_inv K mapped ps h (fst ls') (snd ls')"
  using step
proof cases
  case (c_malloc z s s' a L)
  then have i: "alloc_inv K mapped ps h L s" and z: "z + (ps + 32) < 2 ^ 64" using inv by auto
  show ?thesis
    unfolding c_malloc(2) fst_conv snd_conv
    by (rule added_inv) (use al.alloc_block [OF i c_malloc(4) z] c_malloc(3) in auto)
next
  case (c_calloc n z s s' a L)
  then have i: "alloc_inv K mapped ps h L s" and z: "n * z + ps + 32 < 2 ^ 64" using inv by auto
  show ?thesis
    unfolding c_calloc(2) fst_conv snd_conv
    by (rule added_inv) (use calloc_correct [OF i c_calloc(4) z mult_bounds [OF c_calloc(4,5)]] c_calloc(3) in auto)
next
  case (c_memalign A z s s' a p L)
  then obtain F where i: "malloc_inv K mapped ps h F L s" using inv by (auto simp: alloc_inv_def)
  have z: "z + 2 * A + ps + 40 < 2 ^ 64" using c_memalign(7) by simp
  have "a = NULL \<and> alloc_inv K mapped ps h L s' \<or>
      (\<exists>v k. a = ptr (v - 8 + 8) \<and> alloc_inv K mapped ps h (L(v - 8 \<mapsto> k)) s')"
    using memalign_correct [OF i c_memalign(4-6) z] c_memalign(3) by fastforce
  then show ?thesis
    unfolding c_memalign(2) fst_conv snd_conv by (intro added_inv) blast
next
  case (c_realloc b z s s' a L k)
  then obtain F where i: "malloc_inv K mapped ps h F L s" using inv by (auto simp: alloc_inv_def)
  have z: "z + ps + 64 < 2 ^ 64" using c_realloc(6) by simp
  have "a = NULL \<and> alloc_inv K mapped ps h L s' \<or>
      (\<exists>b' k'. a = ptr (b' + 8) \<and> alloc_inv K mapped ps h (L(b := None, b' \<mapsto> k')) s')"
    using realloc_correct [OF i c_realloc(4,5) z] c_realloc(3) by (auto simp: realloc_good_def)
  then show ?thesis
    unfolding c_realloc(2) fst_conv snd_conv by (rule added_inv)
next
  case (c_free b s s' L k)
  then have i: "alloc_inv K mapped ps h L s" using inv by simp
  show ?thesis using al.release_block [OF i c_free(4)] c_free(1-3) by auto
next
  case (c_write L b k s m)
  then have i: "alloc_inv K mapped ps h L s" using inv by simp
  show ?thesis using al.write_block [OF i c_write(3,4)] c_write(2) by simp
qed

lemma client_run_inv:
  assumes "(client_step K h (ps + 64))\<^sup>*\<^sup>* ls ls'" and "alloc_inv K mapped ps h (fst ls) (snd ls)"
  shows "alloc_inv K mapped ps h (fst ls') (snd ls')"
  using assms by (induction rule: rtranclp_induct) (auto intro: client_step_inv)

section \<open>Properties\<close>









text \<open>
  \<open>calloc\<close> detects a product that does not fit in 64 bits: it returns \<open>NULL\<close> with \<open>errno\<close> set to
  \<open>ENOMEM\<close> and allocates nothing, although the multiplication itself wraps.
\<close>

theorem calloc_rejects_overflow:
  assumes "2 ^ 64 \<le> n * z" and "n < 2 ^ 64" and "z < 2 ^ 64"
  shows "calloc K heap (ptr n) (ptr z) s = Some (set_errno ENOMEM s, NULL)"
proof -
  have "n \<noteq> 0" using assms(1) by (cases n) auto
  then have n0: "ptr n \<noteq> 0" using assms(2) by (simp add: ptr_eq_0)
  have "ptr z \<noteq> (ptr z * ptr n) div ptr n"
  proof
    assume eq: "ptr z = (ptr z * ptr n) div ptr n"
    have "z = unat (ptr z * ptr n) div n"
      using arg_cong [OF eq, of unat] by (simp add: unat_div unat_ptr [OF assms(2)] unat_ptr [OF assms(3)])
    then have "z * n \<le> unat (ptr z * ptr n)" by (metis div_times_less_eq_dividend)
    also have "\<dots> < 2 ^ 64" using unsigned_less [of "ptr z * ptr n"] by simp
    finally show False using assms(1) by (simp add: mult.commute)
  qed
  then show ?thesis using n0 by (simp add: calloc_def Let_def)
qed

theorem calloc_rejects_overflow_witness:
  "calloc demo_kernel (ptr 4096) (ptr (2 ^ 33)) (ptr (2 ^ 32)) demo_state = Some (set_errno ENOMEM demo_state, NULL)"
  by (rule calloc_rejects_overflow) simp_all






text \<open>A state with the string \<open>AB\<close> at 5000 beside the heap of the other examples.\<close>

definition demo_string_state :: "area list lstate" where
  "demo_string_state = demo_state\<lparr>smem := write_bytes demo_heap2 (ptr 5000) [65, 66, 0]\<rparr>"

lemma unchanged_write_bytes:
  assumes "a + length bs \<le> 2 ^ 64"
  shows "unchanged_outside {a ..< a + length bs} m (write_bytes m (ptr a) bs)"
  unfolding unchanged_outside_def
proof (intro allI impI)
  fix x :: addr
  assume x: "unat x \<notin> {a ..< a + length bs}"
  have "unat x < 2 ^ 64" using unsigned_less [of x] by simp
  then have "\<not> in_range (ptr a) (length bs) x"
    using x in_range_ptr [OF assms, of "unat x"] by simp
  then show "write_bytes m (ptr a) bs x = m x" by (rule write_bytes_other)
qed

lemma demo_string_inv:
  "malloc_inv demo_kernel demo_mapped 4096 4096 demo_free Map.empty demo_string_state"
  "cstr (smem demo_string_state) 5000 [65, 66]"
proof -
  note I = malloc_invD [OF demo_state_inv]
  have "unchanged_outside {5000 ..< 5003} demo_heap2 (write_bytes demo_heap2 (ptr 5000) [65, 66, 0])"
    using unchanged_write_bytes [of 5000 "[65, 66, 0]" demo_heap2] by simp
  moreover have "heap_owns 4096 demo_heap2 demo_free" using I(3) by (simp add: demo_state_def)
  ultimately have "heap_owns 4096 (smem demo_string_state) demo_free"
    unfolding demo_string_state_def by (auto intro: hs.owns_frame)
  then show "malloc_inv demo_kernel demo_mapped 4096 4096 demo_free Map.empty demo_string_state"
    using demo_state_inv by (auto simp: malloc_inv_def demo_string_state_def live_ok_def)
  show "cstr (smem demo_string_state) 5000 [65, 66]"
    by (simp add: demo_string_state_def)
qed


end
