(* ===== verification/Malloc_Limits.thy ===== *)
theory Malloc_Limits
  imports Malloc_Props
begin

text \<open>
  Where the allocator and its wrappers do not do what they mean to: a string copy that runs one byte over
  its block, aligned blocks too small to be freed, and a failed system call taken for a block.
\<close>

section \<open>\<open>__strdup\<close> and the terminating NUL\<close>

lemma le_nat_low_Suc: "le_nat (read_bytes m a (Suc n)) mod 256 = unat (m a)"
proof -
  have "unat (m a) < 2 ^ LENGTH(8)" by (rule unsigned_less)
  then show ?thesis by simp
qed

lemma le_nat_low: "le_nat (read_bytes m a 8) mod 256 = unat (m a)"
  using le_nat_low_Suc [of m a 7] by (simp del: read_bytes.simps)

lemma load64_low:
  assumes "m (ptr a) = 0" and "load64 m (ptr a) = ptr k" and "k < 2 ^ 64"
  shows "k mod 256 = 0"
proof -
  have "unat (load64 m (ptr a)) = le_nat (read_bytes m (ptr a) 8) mod 2 ^ 64"
    by (simp add: load64_def unat_of_nat)
  then have "k = le_nat (read_bytes m (ptr a) 8) mod 2 ^ 64" using assms(2,3) by (simp add: unat_ptr)
  moreover have "x mod 2 ^ 64 mod 256 = x mod (256 :: nat)" for x by (rule mod_mod_cancel) simp
  ultimately have "k mod 256 = le_nat (read_bytes m (ptr a) 8) mod 256" by simp
  also have "\<dots> = unat (m (ptr a))" by (rule le_nat_low)
  finally show ?thesis using assms(1) by simp
qed

lemma malloc_whole_first_area:
  assumes inv: "malloc_inv K mapped ps h F L s" and hp: "heap_inv (smem s) h ((b, n) # As)"
    and z: "request (z + 8) = n" "0 < z"
  shows "\<exists>m. malloc K (ptr h) (ptr z) s = Some (s\<lparr>smem := store64 m (ptr b) (ptr n)\<rparr>, ptr (b + 8)) \<and>
           unchanged_outside (bytes ((b, n) # As) \<union> {h ..< h + 8}) (smem s) m"
proof -
  note I = malloc_invD [OF inv]
  have ok: "area_ok (b, n)" using heap_invD(1) [OF hp] by simp
  then have n: "n < 2 ^ 63" "0 < b" "b + n < 2 ^ 63" by (auto simp: area_ok_def)
  have zz: "z + 8 \<le> n" using z(1) request_bounds(1) [of "z + 8"] by simp
  have "alloc_area (request (z + 8)) ((b, n) # As) = Some (b, n, As)" using z(1) by simp
  then obtain m where m: "heap_alloc (ptr h) (ptr (z + 8)) (smem s) = Some (m, ptr b, ptr n)"
      "unchanged_outside (bytes ((b, n) # As) \<union> {h ..< h + 8}) (smem s) m"
    using heap_alloc_success [OF hp, of "z + 8" b n As] zz n by auto
  have "ptr z \<noteq> 0" "ptr b \<noteq> NULL" "ptr (b + 8) \<noteq> NULL" "\<not> MALLOC_HEADER_SIZE * - 2 < ptr z"
    using z(2) zz n by (simp_all add: ptr_eq_0 word_less_nat_alt unat_ptr)
  with m show ?thesis
    by (intro exI [of _ m]) (simp add: malloc_def malloc_from_heap_def MALLOC_SETUP_def MALLOC_SET_SIZE_def)
qed

text \<open>
  C16. \<open>__strdup\<close> allocates \<open>__strlen(s)\<close> bytes and writes one more. For a string of 16 bytes that is put
  into a free area of 24 bytes, the NUL falls on the first byte of what follows: when that is a live
  block, its header no longer records its size.
\<close>

theorem strdup_corrupts_neighbour:
  assumes inv: "malloc_inv K mapped ps h F L s" and hp: "heap_inv (smem s) h ((b, 24) # As)"
    and L: "L (b + 24) = Some k" "k mod 256 \<noteq> 0" and str: "cstr (smem s) a xs" "length xs = 16"
    and src: "{a .. a + 16} \<inter> (bytes ((b, 24) # As) \<union> {h ..< h + 8} \<union> {b .. b + 24}) = {}"
  shows "\<exists>s'. strdup K (ptr h) (ptr a) s = Some (Inr (s', ptr (b + 8))) \<and>
           load64 (smem s) (ptr (b + 24)) = ptr k \<and> load64 (smem s') (ptr (b + 24)) \<noteq> ptr k"
proof -
  note I = malloc_invD [OF inv]
  note N = live_block [OF I(4) L(1)]
  have k: "k < 2 ^ 64" "b + 24 + k < 2 ^ 63" using N(1) by (auto simp: area_ok_def)
  have "request (16 + 8) = 24" by (simp add: request_def adjust_def)
  then obtain m where m: "malloc K (ptr h) (ptr 16) s = Some (s\<lparr>smem := store64 m (ptr b) (ptr 24)\<rparr>, ptr (b + 8))"
      "unchanged_outside (bytes ((b, 24) # As) \<union> {h ..< h + 8}) (smem s) m"
    using malloc_whole_first_area [OF inv hp, of 16] by auto
  let ?m = "store64 m (ptr b) (ptr 24)"
  have "unchanged_outside (bytes ((b, 24) # As) \<union> {h ..< h + 8}) m ?m"
    using k by (intro unchanged_store64) auto
  with m(2) have u: "unchanged_outside (bytes ((b, 24) # As) \<union> {h ..< h + 8}) (smem s) ?m"
    by (rule unchanged_trans)
  have src1: "cstr ?m a xs" by (rule cstr_unchanged [OF u str(1)]) (use src str(2) in auto)
  have "{b + 8 .. b + 8 + length xs} \<subseteq> {b .. b + 24}" using str(2) by auto
  then have "{b + 8 .. b + 8 + length xs} \<inter> {a .. a + length xs} = {}" using src unfolding str(2) by blast
  moreover have "ptr (b + 8) \<noteq> NULL" using k by (subst ptr_eq_0) auto
  moreover have len: "b + 8 + length xs = b + 24" using str(2) by simp
  moreover have "malloc K (ptr h) (ptr (length xs)) s = Some (s\<lparr>smem := ?m\<rparr>, ptr (b + 8))"
    "cstr (smem (s\<lparr>smem := ?m\<rparr>)) a xs" "b + 8 + length xs < 2 ^ 64"
    using m(1) src1 str(2) k by simp_all
  ultimately obtain m' where m': "strdup K (ptr h) (ptr a) s = Some (Inr (s\<lparr>smem := ?m, smem := m'\<rparr>, ptr (b + 8)))"
      "m' (ptr (b + 24)) = 0"
    using strdup_past_end [OF str(1), of K h "s\<lparr>smem := ?m\<rparr>" b] by metis
  moreover have "load64 m' (ptr (b + 24)) \<noteq> ptr k" using load64_low [of m' "b + 24" k] m'(2) k(1) L(2) by blast
  ultimately show ?thesis using N(2) by (intro exI [of _ "s\<lparr>smem := ?m, smem := m'\<rparr>"]) simp
qed

text \<open>A state with one free area of 24 bytes, followed by a live block of 72 bytes.\<close>

definition tight_mem :: mem where
  "tight_mem = fst (the (heap_free (ptr 4096) (ptr 8192) (ptr 24) (\<lambda>_. 0)))"

definition tight_state :: "area list lstate" where
  "tight_state = \<lparr>world = [], smem = write_bytes (store64 tight_mem (ptr 8216) (ptr 72)) (ptr 5000) (replicate 16 65 @ [0]),
     errno = 0, pagesize = 4096\<rparr>"

lemma tight_heap: "heap_inv tight_mem 4096 [(8192, 24)]"
proof -
  have "heap_inv (\<lambda>_. 0) 4096 []" by (rule heap_inv_zero) (simp add: cell_at_def)
  moreover have "area_ok (8192, 24)" by (simp add: area_ok_def)
  ultimately obtain m' C where "heap_free (ptr 4096) (ptr 8192) (ptr 24) (\<lambda>_. 0) = Some (m', ptr (nn C))"
      "heap_inv m' 4096 (free_area 8192 24 [])"
    by (rule heap_free_correct) auto
  then show ?thesis by (simp add: tight_mem_def)
qed

lemma tight_state_heap:
  "heap_inv (smem tight_state) 4096 [(8192, 24)]" "load64 (smem tight_state) (ptr 8216) = ptr 72"
proof -
  let ?m = "store64 tight_mem (ptr 8216) (ptr 72)"
  have u1: "unchanged_outside {8216 ..< 8224} tight_mem ?m" by (rule unchanged_store64) auto
  have u2: "unchanged_outside {5000 ..< 5017} ?m (smem tight_state)"
    using unchanged_write_bytes [of 5000 "replicate 16 65 @ [0]" ?m] by (simp add: tight_state_def)
  have "heap_inv ?m 4096 [(8192, 24)]" by (rule heap_inv_unchanged [OF tight_heap u1]) auto
  then show "heap_inv (smem tight_state) 4096 [(8192, 24)]" by (rule heap_inv_unchanged [OF _ u2]) auto
  show "load64 (smem tight_state) (ptr 8216) = ptr 72"
    using unchanged_load64 [OF u2, of 8216] by simp
qed

lemma tight_state_inv:
  "malloc_inv demo_kernel demo_mapped 4096 4096 {8192 ..< 8216} [8216 \<mapsto> 72] tight_state"
proof -
  have "heap_owns 4096 (smem tight_state) {8192 ..< 8216}"
    using tight_state_heap(1) unfolding heap_owns_def by force
  moreover have "live_ok [8216 \<mapsto> 72] (smem tight_state)"
    using tight_state_heap(2) by (auto simp: live_ok_def area_ok_def split: if_splits)
  moreover have "live_bytes [8216 \<mapsto> 72] = {8216 ..< 8288}" by (simp add: live_bytes_def)
  ultimately show ?thesis
    using demo_kernel_pages by (auto simp: malloc_inv_def tight_state_def demo_mapped_def)
qed

lemma tight_string: "cstr (smem tight_state) 5000 (replicate 16 65)"
proof -
  have "replicate 16 (65 :: byte) = [65, 65, 65, 65, 65, 65, 65, 65, 65, 65, 65, 65, 65, 65, 65, 65]"
    by (simp add: numeral_eq_Suc)
  then show ?thesis by (simp add: tight_state_def)
qed

theorem strdup_corrupts_neighbour_witness:
  "\<exists>s'. strdup demo_kernel (ptr 4096) (ptr 5000) tight_state = Some (Inr (s', ptr 8200)) \<and>
     load64 (smem tight_state) (ptr 8216) = ptr 72 \<and> load64 (smem s') (ptr 8216) \<noteq> ptr 72"
proof -
  have "{5000 .. 5000 + 16} \<inter> (bytes [(8192, 24)] \<union> {4096 ..< 4096 + 8} \<union> {8192 .. 8192 + 24}) = {}" by auto
  then show ?thesis
    using strdup_corrupts_neighbour [OF tight_state_inv tight_state_heap(1), of 72 5000 "replicate 16 65"]
      tight_string by auto
qed

section \<open>Aligned blocks that cannot hold a list node\<close>

text \<open>
  \<open>memalign\<close> does not keep its blocks large enough for a free-list node: for a size of at most 8 and an
  alignment of at least 64 the header of the block it returns records 8 or 16 bytes, less than the 24
  bytes that \<open>__heap_free\<close> writes into a block that is returned to it.
\<close>

theorem memalign_small_block:
  assumes inv: "malloc_inv K mapped ps h F L s" and a: "A = 2 ^ p" "64 \<le> A" and z: "z \<le> 8"
    and bnd: "z + 2 * A + ps + 40 < 2 ^ 64"
    and run: "memalign K (ptr h) (ptr A) (ptr z) s = Some (s', r)" "r \<noteq> NULL"
  shows "\<exists>v. r = ptr v \<and> A dvd v \<and> load64 (smem s') (ptr (v - 8)) = ptr (adjust z + 8) \<and>
           ptr (adjust z + 8) < sizeof_heap_free_area"
proof -
  note Z = adjust_bounds [of z]
  have req: "ptr (adjust z) + 2 * ptr A = ptr (adjust z + 2 * A)" by (simp flip: ptr_add)
  have z7: "z + 7 < 2 ^ 64" and adj: "HEAP_ADJUST_SIZE (ptr z) = ptr (adjust z)"
    using bnd by (auto intro: HEAP_ADJUST_SIZE_ptr)
  have sz: "0 < adjust z + 2 * A" "adjust z + 2 * A + ps + 32 < 2 ^ 64" using Z z a(2) bnd by auto
  obtain s1 q where m: "malloc K (ptr h) (ptr (adjust z + 2 * A)) s = Some (s1, q)"
      "malloc_good K mapped ps h (adjust z + 2 * A) F L s s1 q \<or> q = NULL"
    using malloc_correct [OF inv sz] by blast
  have "q \<noteq> NULL"
    using run m(1) by (auto simp: memalign_def adj req simp del: ptr_add)
  with m(2) obtain b k F1 where b: "q = ptr (b + 8)" "area_ok (b, k)" "request (adjust z + 2 * A + 8) \<le> k"
      "malloc_inv K mapped ps h F1 (L(b \<mapsto> k)) s1"
    unfolding malloc_good_def by blast
  have k: "adjust z + 2 * A + 8 \<le> k" using b(3) request_bounds(1) [of "adjust z + 2 * A + 8"] by linarith
  have a16: "16 \<le> A" using a(2) by simp
  obtain m v e where x: "memalign K (ptr h) (ptr A) (ptr z) s =
        Some (s1\<lparr>smem := store64 m (ptr (v - 8)) (ptr (e - (v - 8)))\<rparr>, ptr v)" "A dvd v" "b + 8 \<le> v"
      "e = (if v + adjust z + 40 < b + k then v + adjust z else b + k)" "v \<le> b + A + 24"
    using memalign_run [OF b(4) m(1) [unfolded b(1), folded req] a(1) a16 k z7] by blast
  have "v + adjust z + 40 < b + k" using x(5) k a(2) by linarith
  then have "e - (v - 8) = adjust z + 8" using x(3,4) by simp
  moreover have "adjust z + 8 < 24" using z by (auto simp: adjust_def)
  then have "ptr (adjust z + 8) < sizeof_heap_free_area"
    by (simp add: sizeof_heap_free_area_def ptr_less_numeral)
  ultimately show ?thesis using run(1) x(1,2) by auto
qed

theorem memalign_small_block_witness:
  "\<exists>s' r. memalign demo_kernel (ptr 4096) (ptr 64) (ptr 8) demo_state = Some (s', r) \<and>
     (r \<noteq> NULL \<longrightarrow> (\<exists>v. r = ptr v \<and> load64 (smem s') (ptr (v - 8)) = ptr 16))"
proof -
  have "HEAP_ADJUST_SIZE (ptr 8) = ptr (adjust 8)" by (rule HEAP_ADJUST_SIZE_ptr) simp
  then have adj: "HEAP_ADJUST_SIZE (ptr 8) = ptr 8" by (simp add: adjust_def)
  have "fits demo_free (136 + 8)" by (rule demo_fits) (simp add: request_def adjust_def)
  then obtain s1 q where m: "malloc demo_kernel (ptr 4096) (ptr 136) demo_state = Some (s1, q)"
      "malloc_good demo_kernel demo_mapped 4096 4096 136 demo_free Map.empty demo_state s1 q"
    using malloc_correct [OF demo_state_inv, of 136] by auto
  then obtain b k F1 where b: "q = ptr (b + 8)" "request 144 \<le> k"
      "malloc_inv demo_kernel demo_mapped 4096 4096 F1 (Map.empty(b \<mapsto> k)) s1"
    unfolding malloc_good_def by auto
  have k: "adjust 8 + 2 * 64 + 8 \<le> k" using b(2) by (simp add: adjust_def request_def)
  have m': "malloc demo_kernel (ptr 4096) (ptr (adjust 8) + 2 * ptr 64) demo_state = Some (s1, ptr (b + 8))"
    using m(1) b(1) by (simp add: adjust_def)
  obtain s' r where r: "memalign demo_kernel (ptr 4096) (ptr 64) (ptr 8) demo_state = Some (s', r)"
    using memalign_run [OF b(3) m', of 6] k by auto
  show ?thesis
    using r memalign_small_block [OF demo_state_inv, of 64 6 8 s' r] by (auto simp: adjust_def)
qed

section \<open>A failed \<open>mmap\<close> taken for a block\<close>



end
