(* ===== verification/Printf.thy ===== *)
theory Printf
  imports System Strlib
begin

text \<open>
  The formatter of \<open>rtld/lib.c\<close>: \<open>reverse\<close>, \<open>dvsprintf\<close> and \<open>dsnprintf\<close>, on the byte memory. The state of
  the formatter is the memory and \<open>current_size\<close>; \<open>current_pos\<close> is always \<open>buffer + current_size\<close>. The
  variable arguments are a list of 64-bit words; taking one that is not there is outside the array.
  \<open>number\<close> and \<open>padding\<close> are integers: C leaves the overflow of \<open>padding\<close> undefined, and the negation of the
  smallest \<open>long long\<close> is written out.
\<close>

section \<open>Pieces\<close>

type_synonym fstate = "mem \<times> addr"

function reverse :: "addr \<Rightarrow> addr \<Rightarrow> mem \<Rightarrow> mem" where
  "reverse s t m = (if s < t then reverse (s + 1) (t - 1) (m(t := m s, s := m t)) else m)"
  by pat_completeness auto
termination
proof (relation "measure (\<lambda>(s, t, m). unat t - unat s)")
  fix s t :: addr and m :: mem
  assume "s < t"
  moreover have "unat t < 2 ^ 64" using unsigned_less [of t] by simp
  ultimately have "t \<noteq> 0" and "unat s + 1 < 2 ^ 64" by (auto simp: word_less_nat_alt)
  then have "unat (t - 1) = unat t - 1" and "unat (s + 1) = unat s + 1"
    using unat_minus_one [of t] by (simp_all add: unat_plus_if')
  with \<open>s < t\<close> show "((s + 1, t - 1, m(t := m s, s := m t)), s, t, m) \<in> measure (\<lambda>(s, t, m). unat t - unat s)"
    by (simp add: word_less_nat_alt)
qed simp

declare reverse.simps [simp del]

definition PUT :: "addr \<Rightarrow> addr \<Rightarrow> byte \<Rightarrow> fstate \<Rightarrow> fstate" where
  "PUT buffer buffer_size c = (\<lambda>(m, current_size).
     if current_size + 1 \<ge> buffer_size then (m, current_size)
     else (m(buffer + current_size := c), current_size + 1))"

definition rev_from :: "addr \<Rightarrow> addr \<Rightarrow> fstate \<Rightarrow> fstate" where
  "rev_from buffer n0 = (\<lambda>(m, n). (reverse (buffer + n0) (buffer + n - 1) m, n))"

definition isdigit :: "byte \<Rightarrow> bool" where
  "isdigit c \<longleftrightarrow> 48 \<le> c \<and> c \<le> 57"

text \<open>The conversion of an \<open>int\<close> to \<open>char\<close>.\<close>

definition to_char :: "int \<Rightarrow> byte" where
  "to_char k = word_of_int k"

text \<open>\<open>do { PUT('0' + number % 10); number /= 10; padding--; } while (number != 0)\<close>\<close>

lemma sdiv10_less: "(k :: int) sdiv 10 \<noteq> 0 \<Longrightarrow> nat \<bar>k sdiv 10\<bar> < nat \<bar>k\<bar>"
  by (auto simp: signed_divide_int_def abs_mult sgn_if split: if_splits)

function put_dec :: "addr \<Rightarrow> addr \<Rightarrow> int \<Rightarrow> int \<Rightarrow> fstate \<Rightarrow> int \<times> fstate" where
  "put_dec buffer buffer_size number padding st =
     (let st = PUT buffer buffer_size (to_char (48 + number smod 10)) st;
          number = number sdiv 10;
          padding = padding - 1
      in if number \<noteq> 0 then put_dec buffer buffer_size number padding st else (padding, st))"
  by pat_completeness auto
termination
  by (relation "measure (\<lambda>(b, z, number, padding, st). nat \<bar>number\<bar>)") (use sdiv10_less in auto)

declare put_dec.simps [simp del]

text \<open>\<open>while (padding-- > 0) PUT(c)\<close>\<close>

function put_pad :: "addr \<Rightarrow> addr \<Rightarrow> byte \<Rightarrow> int \<Rightarrow> fstate \<Rightarrow> fstate" where
  "put_pad buffer buffer_size c padding st =
     (if padding > 0 then put_pad buffer buffer_size c (padding - 1) (PUT buffer buffer_size c st) else st)"
  by pat_completeness auto
termination
  by (relation "measure (\<lambda>(b, z, c, padding, st). nat padding)") auto

declare put_pad.simps [simp del]

definition hex_char :: "addr \<Rightarrow> byte" where
  "hex_char n = (let dig = unat (n AND 15) in word_of_nat (if dig > 9 then 97 + dig - 10 else 48 + dig))"

text \<open>The digit loop of \<open>print_x\<close>: at most \<open>size * 2\<close> digits.\<close>

function put_hex :: "addr \<Rightarrow> addr \<Rightarrow> nat \<Rightarrow> nat \<Rightarrow> addr \<Rightarrow> int \<Rightarrow> fstate \<Rightarrow> int \<times> fstate" where
  "put_hex buffer buffer_size size2 i n padding st =
     (let st = PUT buffer buffer_size (hex_char n) st;
          n = drop_bit 4 n;
          padding = padding - 1;
          i = i + 1
      in if i < size2 \<and> n \<noteq> 0 then put_hex buffer buffer_size size2 i n padding st else (padding, st))"
  by pat_completeness auto
termination
  by (relation "measure (\<lambda>(b, z, size2, i, n, padding, st). size2 - i)") auto

declare put_hex.simps [simp del]

section \<open>The conversions\<close>

record fspec =
  fl :: bool
  fll :: bool
  fsharp :: bool
  fzero :: bool
  fsize :: nat
  padding :: int

definition print_u :: "addr \<Rightarrow> addr \<Rightarrow> int \<Rightarrow> fspec \<Rightarrow> fstate \<Rightarrow> fstate" where
  "print_u buffer buffer_size number f st =
     (let n0 = snd st;
          (pad, st) = put_dec buffer buffer_size number (padding f) st
      in rev_from buffer n0 (put_pad buffer buffer_size 32 pad st))"

definition print_x :: "addr \<Rightarrow> addr \<Rightarrow> int \<Rightarrow> fspec \<Rightarrow> fstate \<Rightarrow> fstate" where
  "print_x buffer buffer_size number f st =
     (let st = (if fsharp f then PUT buffer buffer_size 120 (PUT buffer buffer_size 48 st) else st);
          n0 = snd st;
          (pad, st) = put_hex buffer buffer_size (fsize f * 2) 0 (word_of_int number) (padding f) st
      in rev_from buffer n0 (put_pad buffer buffer_size (if fzero f then 48 else 32) pad st))"

definition print_d :: "addr \<Rightarrow> addr \<Rightarrow> int \<Rightarrow> fspec \<Rightarrow> fstate \<Rightarrow> fstate" where
  "print_d buffer buffer_size number f st =
     (let n0 = snd st;
          minus = number < 0;
          number = (if minus then signed_take_bit 63 (- number) else number);
          (pad, st) = put_dec buffer buffer_size number (padding f) st;
          st = (if minus then PUT buffer buffer_size 45 st else st)
      in rev_from buffer n0 (put_pad buffer buffer_size 32 pad st))"

text \<open>\<open>for (; *str; str++, padding--) PUT(*str)\<close>\<close>

partial_function (option) put_str :: "addr \<Rightarrow> addr \<Rightarrow> addr \<Rightarrow> int \<Rightarrow> fstate \<Rightarrow> (int \<times> fstate) option" where
  "put_str buffer buffer_size str pad st =
     (if fst st str = 0 then Some (pad, st)
      else put_str buffer buffer_size (str + 1) (pad - 1) (PUT buffer buffer_size (fst st str) st))"

definition null_text :: "byte list" where
  "null_text = [40, 78, 85, 76, 76, 41]"

definition print_s :: "addr \<Rightarrow> addr \<Rightarrow> addr \<Rightarrow> fspec \<Rightarrow> fstate \<Rightarrow> fstate option" where
  "print_s buffer buffer_size str f st =
     do {
       (pad, st) \<leftarrow>
         (if str = NULL then Some (padding f - 6, fold (PUT buffer buffer_size) null_text st)
          else put_str buffer buffer_size str (padding f) st);
       Some (put_pad buffer buffer_size 32 pad st)
     }"

text \<open>\<open>va_arg\<close> for \<open>int\<close> and for \<open>long\<close>.\<close>

definition va_int :: "addr \<Rightarrow> int" where
  "va_int a = sint (ucast a :: 32 word)"

definition va_long :: "addr \<Rightarrow> int" where
  "va_long a = sint a"

definition va_next :: "addr list \<Rightarrow> (addr \<times> addr list) outcome" where
  "va_next args = (case args of [] \<Rightarrow> ostop Out_of_bounds | a # as \<Rightarrow> oreturn (a, as))"

text \<open>The switch on the conversion character \<open>c\<close>, after the flags.\<close>

definition dv_conv :: "addr \<Rightarrow> addr \<Rightarrow> byte \<Rightarrow> fspec \<Rightarrow> addr list \<Rightarrow> fstate \<Rightarrow> (addr list \<times> fstate) outcome" where
  "dv_conv buffer buffer_size c f args st =
     (if c = 112 then
        obind (va_next args) (\<lambda>(a, args).
          oreturn (args, print_x buffer buffer_size (va_long a) (f\<lparr>fsize := 8, fsharp := True\<rparr>) st))
      else if c = 80 then
        obind (va_next args) (\<lambda>(a, args).
          oreturn (args, print_x buffer buffer_size (va_long a)
            (f\<lparr>fsize := 8, padding := 16, fsharp := True, fzero := True\<rparr>) st))
      else if c = 120 \<or> c = 100 \<or> c = 117 then
        obind (va_next args) (\<lambda>(a, args).
          let number = (if fll f \<or> fl f then va_long a else va_int a)
          in oreturn (args,
               if c = 100 then print_d buffer buffer_size number f st
               else if c = 120 then print_x buffer buffer_size number f st
               else print_u buffer buffer_size number f st))
      else if c = 99 then
        obind (va_next args) (\<lambda>(a, args). oreturn (args, PUT buffer buffer_size (to_char (va_int a)) st))
      else if c = 115 then
        obind (va_next args) (\<lambda>(a, args). obind (olift (print_s buffer buffer_size a f st)) (\<lambda>st. oreturn (args, st)))
      else oreturn (args, PUT buffer buffer_size c st))"

section \<open>The format\<close>

partial_function (option) dv_digits :: "mem \<Rightarrow> addr \<Rightarrow> int \<Rightarrow> (addr \<times> int) option" where
  "dv_digits m fmt pad =
     (if isdigit (m fmt) then dv_digits m (fmt + 1) (pad * 10 + uint (m fmt) - 48) else Some (fmt, pad))"

text \<open>The label \<open>cont\<close>: padding digits and flags up to the conversion character.\<close>

partial_function (option) dv_flags :: "mem \<Rightarrow> addr \<Rightarrow> addr list \<Rightarrow> fspec \<Rightarrow> (addr \<times> addr list \<times> fspec) outcome" where
  "dv_flags m fmt args f =
     obind (if m fmt \<noteq> 48 \<and> isdigit (m fmt) then olift (dv_digits m fmt (padding f)) else oreturn (fmt, padding f))
       (\<lambda>(fmt, pad).
         let f = f\<lparr>padding := pad\<rparr>
         in if m fmt = 42 then
              obind (va_next args) (\<lambda>(a, args). dv_flags m (fmt + 1) args (f\<lparr>padding := va_int a\<rparr>))
            else if m fmt = 35 then dv_flags m (fmt + 1) args (f\<lparr>fsharp := True\<rparr>)
            else if m fmt = 48 then dv_flags m (fmt + 1) args (f\<lparr>fzero := True\<rparr>)
            else if m fmt = 108 then
              dv_flags m (fmt + 1) args (if fl f then f\<lparr>fll := True, fsize := 8\<rparr> else f\<lparr>fl := True, fsize := 8\<rparr>)
            else oreturn (fmt, args, f))"

definition no_flags :: fspec where
  "no_flags = \<lparr>fl = False, fll = False, fsharp = False, fzero = False, fsize = 4, padding = 0\<rparr>"

partial_function (option) dv_loop :: "addr \<Rightarrow> addr \<Rightarrow> addr \<Rightarrow> addr list \<Rightarrow> fstate \<Rightarrow> fstate outcome" where
  "dv_loop buffer buffer_size fmt args st =
     (if fst st fmt = 0 then oreturn st
      else if fst st fmt \<noteq> 37 then
        dv_loop buffer buffer_size (fmt + 1) args (PUT buffer buffer_size (fst st fmt) st)
      else
        obind (dv_flags (fst st) (fmt + 1) args no_flags) (\<lambda>(fmt, args, f).
        obind (dv_conv buffer buffer_size (fst st fmt) f args st) (\<lambda>(args, st).
          dv_loop buffer buffer_size (fmt + 1) args st)))"

definition dvsprintf :: "addr \<Rightarrow> addr \<Rightarrow> addr \<Rightarrow> addr list \<Rightarrow> mem \<Rightarrow> (mem \<times> 32 word) outcome" where
  "dvsprintf buffer buffer_size format arg m =
     obind (dv_loop buffer buffer_size format arg (m, 0)) (\<lambda>(m, current_size).
       oreturn (m(buffer + current_size := 0), ucast current_size))"

definition dsnprintf :: "addr \<Rightarrow> addr \<Rightarrow> addr \<Rightarrow> addr list \<Rightarrow> mem \<Rightarrow> (mem \<times> 32 word) outcome" where
  "dsnprintf buf sz format arg m = dvsprintf buf sz format arg m"

section \<open>Where the formatter writes\<close>

text \<open>
  \<open>buf_ok b z\<close>: a buffer of \<open>z\<close> bytes at address number \<open>b\<close>. \<open>extends b z st st'\<close>: from \<open>st\<close> to \<open>st'\<close> the
  formatter only wrote between the old position and the end of the buffer, and left room for the NUL.
\<close>

definition buf_ok :: "nat \<Rightarrow> nat \<Rightarrow> bool" where
  "buf_ok b z \<longleftrightarrow> 0 < b \<and> 0 < z \<and> b + z \<le> 2 ^ 64"

definition extends :: "nat \<Rightarrow> nat \<Rightarrow> fstate \<Rightarrow> fstate \<Rightarrow> bool" where
  "extends b z st st' \<longleftrightarrow>
     unat (snd st) \<le> unat (snd st') \<and> unat (snd st') < z \<and>
     unchanged_outside {b + unat (snd st) ..< b + z} (fst st) (fst st')"

named_theorems extending \<open>the steps of the formatter stay in the buffer\<close>

lemma extends_refl [extending]: "unat (snd st) < z \<Longrightarrow> extends b z st st"
  by (simp add: extends_def)

lemma extends_bound: "extends b z st st' \<Longrightarrow> unat (snd st') < z"
  by (simp add: extends_def)

lemma extends_trans: "extends b z st st' \<Longrightarrow> extends b z st' st'' \<Longrightarrow> extends b z st st''"
  by (auto simp: extends_def unchanged_outside_def)

lemma unchanged_upd: "unat a \<in> S \<Longrightarrow> unchanged_outside S m (m(a := c))"
  by (auto simp: unchanged_outside_def)

lemma PUT_extends [extending]:
  assumes "buf_ok b z" and "unat (snd st) < z"
  shows "extends b z st (PUT (ptr b) (ptr z) c st)"
proof -
  obtain m n where st: "st = (m, n)" by (cases st)
  have z: "z < 2 ^ 64" and b: "b + z \<le> 2 ^ 64" using assms(1) by (auto simp: buf_ok_def)
  have n: "unat (n + 1) = unat n + 1" using assms(2) z st by (simp add: unat_plus_if')
  have le: "ptr z \<le> n + 1 \<longleftrightarrow> z \<le> unat n + 1" by (simp add: word_le_nat_alt unat_ptr [OF z] n)
  have "ptr b + n = ptr (b + unat n)" using ptr_add [of b "unat n"] by simp
  then have "unat (ptr b + n) = b + unat n" using assms(2) b st by (simp add: unat_ptr)
  then show ?thesis
    using assms(2) n by (auto simp: st PUT_def le extends_def intro!: unchanged_upd)
qed

lemma put_dec_extends [extending]:
  assumes "buf_ok b z"
  shows "unat (snd st) < z \<Longrightarrow> extends b z st (snd (put_dec (ptr b) (ptr z) k p st))"
proof (induction "ptr b" "ptr z" k p st rule: put_dec.induct)
  case (1 k p st)
  let ?st = "PUT (ptr b) (ptr z) (to_char (48 + k smod 10)) st"
  have e: "extends b z st ?st" using PUT_extends [OF assms 1(2)] .
  show ?case
    using 1(1) [OF refl refl refl] e extends_bound [OF e] extends_trans [OF e]
    by (subst put_dec.simps) (simp add: Let_def)
qed

lemma put_pad_extends [extending]:
  assumes "buf_ok b z"
  shows "unat (snd st) < z \<Longrightarrow> extends b z st (put_pad (ptr b) (ptr z) c p st)"
proof (induction "ptr b" "ptr z" c p st rule: put_pad.induct)
  case (1 c p st)
  have e: "extends b z st (PUT (ptr b) (ptr z) c st)" using PUT_extends [OF assms 1(2)] .
  show ?case
    using 1 e extends_bound [OF e] extends_trans [OF e]
    by (subst put_pad.simps) (simp add: extends_refl)
qed

lemma put_hex_extends [extending]:
  assumes "buf_ok b z"
  shows "unat (snd st) < z \<Longrightarrow> extends b z st (snd (put_hex (ptr b) (ptr z) w i n p st))"
proof (induction "ptr b" "ptr z" w i n p st rule: put_hex.induct)
  case (1 w i n p st)
  let ?st = "PUT (ptr b) (ptr z) (hex_char n) st"
  have e: "extends b z st ?st" using PUT_extends [OF assms 1(2)] .
  show ?case
    using 1(1) [OF refl refl refl refl] e extends_bound [OF e] extends_trans [OF e]
    by (subst put_hex.simps) (simp add: Let_def)
qed

text \<open>\<open>reverse\<close> writes between its two ends only and reverses what is there.\<close>

lemma reverse_range:
  "s + n \<le> 2 ^ 64 \<Longrightarrow> 0 < s \<Longrightarrow> s < 2 ^ 64 \<Longrightarrow>
     reverse (ptr s) (ptr (s + n) - 1) m =
       (\<lambda>x. if unat x \<in> {s ..< s + n} then m (ptr (2 * s + n - 1 - unat x)) else m x)"
proof (induction n arbitrary: s m rule: less_induct)
  case (less n)
  show ?case
  proof (cases "n < 2")
    case True
    have "\<not> ptr s < ptr (s + n) - 1"
    proof -
      have "ptr (s + n) - 1 = ptr (s + n - 1)" using less.prems by (intro ptr_diff_1) simp
      moreover have "s < 2 ^ 64" "s + n - 1 < 2 ^ 64" "\<not> s < s + n - 1" using True less.prems by auto
      ultimately show ?thesis by (simp add: ptr_less del: One_nat_def)
    qed
    moreover have "m (ptr (2 * s + n - 1 - unat x)) = m x" if "unat x \<in> {s ..< s + n}" for x
    proof -
      have "2 * s + n - 1 - unat x = unat x" using that True by auto
      then show ?thesis by simp
    qed
    ultimately show ?thesis by (subst reverse.simps) auto
  next
    case False
    let ?t = "s + n - 1"
    have t: "ptr (s + n) - 1 = ptr ?t" using less.prems by (intro ptr_diff_1) simp
    have "s < 2 ^ 64" "?t < 2 ^ 64" "s < ?t" using False less.prems by auto
    then have lt: "ptr s < ptr ?t" by (simp add: ptr_less del: One_nat_def)
    define m' where "m' = m(ptr ?t := m (ptr s), ptr s := m (ptr ?t))"
    have m's: "m' (ptr s) = m (ptr ?t)" and m't: "m' (ptr ?t) = m (ptr s)" using lt by (auto simp: m'_def)
    have m'o: "m' (ptr j) = m (ptr j)" if "j \<noteq> s" "j \<noteq> ?t" "j < 2 ^ 64" for j
      using that \<open>s < 2 ^ 64\<close> \<open>?t < 2 ^ 64\<close> by (simp add: m'_def ptr_eq del: One_nat_def)
    have t2: "Suc s + (n - 2) = ?t" using False by simp
    have "reverse (ptr s) (ptr ?t) m = reverse (ptr (Suc s)) (ptr (Suc s + (n - 2)) - 1) m'"
      unfolding t2 m'_def using lt by (subst reverse.simps) simp
    also have "\<dots> = (\<lambda>x. if unat x \<in> {Suc s ..< Suc s + (n - 2)} then m' (ptr (2 * Suc s + (n - 2) - 1 - unat x)) else m' x)"
      by (rule less.IH) (use False less.prems in auto)
    also have "\<dots> = (\<lambda>x. if unat x \<in> {s ..< s + n} then m (ptr (2 * s + n - 1 - unat x)) else m x)"
    proof
      fix x :: addr
      obtain i where x: "x = ptr i" "i < 2 ^ 64" by (rule ex_ptr)
      then have i: "unat x = i" by (simp add: unat_ptr)
      have eq: "2 * Suc s + (n - 2) - 1 - i = 2 * s + n - 1 - i" using False by simp
      consider "i = s" | "i = ?t" | "Suc s \<le> i \<and> i < ?t" | "i < s \<or> s + n \<le> i" using False by linarith
      then show "(if unat x \<in> {Suc s ..< Suc s + (n - 2)} then m' (ptr (2 * Suc s + (n - 2) - 1 - unat x)) else m' x) =
          (if unat x \<in> {s ..< s + n} then m (ptr (2 * s + n - 1 - unat x)) else m x)"
        unfolding i eq t2
      proof cases
        case 1
        then have "2 * s + n - 1 - i = ?t" by simp
        with 1 m's x show "(if i \<in> {Suc s ..< ?t} then m' (ptr (2 * s + n - 1 - i)) else m' x) =
          (if i \<in> {s ..< s + n} then m (ptr (2 * s + n - 1 - i)) else m x)" using False by simp
      next
        case 2
        then have "2 * s + n - 1 - i = s" "i \<in> {s ..< s + n}" using False by simp_all
        with 2 m't x show "(if i \<in> {Suc s ..< ?t} then m' (ptr (2 * s + n - 1 - i)) else m' x) =
          (if i \<in> {s ..< s + n} then m (ptr (2 * s + n - 1 - i)) else m x)" using False by simp
      next
        case 3
        then have "2 * s + n - 1 - i \<noteq> s" "2 * s + n - 1 - i \<noteq> ?t" "2 * s + n - 1 - i < 2 ^ 64" "i \<in> {s ..< s + n}"
          using less.prems by auto
        with 3 m'o show "(if i \<in> {Suc s ..< ?t} then m' (ptr (2 * s + n - 1 - i)) else m' x) =
          (if i \<in> {s ..< s + n} then m (ptr (2 * s + n - 1 - i)) else m x)" by simp
      next
        case 4
        then have "i \<noteq> s" "i \<noteq> ?t" "i \<notin> {s ..< s + n}" "i \<notin> {Suc s ..< ?t}" using False by auto
        then show "(if i \<in> {Suc s ..< ?t} then m' (ptr (2 * s + n - 1 - i)) else m' x) =
          (if i \<in> {s ..< s + n} then m (ptr (2 * s + n - 1 - i)) else m x)"
          using m'o [of i] x by (simp only: if_False not_False_eq_True simp_thms)
      qed
    qed
    finally show ?thesis by (simp add: t)
  qed
qed

lemma rev_from_eq:
  assumes "buf_ok b z" and "unat n0 \<le> unat n" and "unat n < z"
  shows "rev_from (ptr b) n0 (m, n) =
           (\<lambda>x. if unat x \<in> {b + unat n0 ..< b + unat n} then m (ptr (2 * b + unat n0 + unat n - 1 - unat x)) else m x, n)"
proof -
  have b: "0 < b" "b + unat n0 < 2 ^ 64" "b + unat n \<le> 2 ^ 64" using assms by (auto simp: buf_ok_def)
  have e: "ptr b + n0 = ptr (b + unat n0)" "ptr b + n - 1 = ptr (b + unat n0 + (unat n - unat n0)) - 1"
    using ptr_add [of b "unat n0"] ptr_add [of b "unat n"] assms(2) by simp_all
  have "2 * (b + unat n0) + (unat n - unat n0) = 2 * b + unat n0 + unat n"
    and len: "b + unat n0 + (unat n - unat n0) = b + unat n" using assms(2) by simp_all
  moreover have "reverse (ptr b + n0) (ptr b + n - 1) m =
      (\<lambda>x. if unat x \<in> {b + unat n0 ..< b + unat n0 + (unat n - unat n0)}
        then m (ptr (2 * (b + unat n0) + (unat n - unat n0) - 1 - unat x)) else m x)"
    unfolding e by (rule reverse_range) (use b len in simp_all)
  ultimately show ?thesis by (simp only: rev_from_def prod.case len)
qed

lemma rev_from_extends [extending]:
  assumes "buf_ok b z" and e: "extends b z st st'" and n: "n0 = snd st"
  shows "extends b z st (rev_from (ptr b) n0 st')"
proof -
  obtain m' k where st': "st' = (m', k)" by (cases st')
  have "unat n0 \<le> unat k" "unat k < z" using e n by (simp_all add: extends_def st')
  then have "extends b z st (rev_from (ptr b) n0 (m', k))"
    using e n by (auto simp: rev_from_eq [OF assms(1)] extends_def st' unchanged_outside_def)
  then show ?thesis by (simp add: st')
qed

lemma print_dec_extends:
  assumes ok: "buf_ok b z" and st: "unat (snd st) < z"
  shows "extends b z st (put_pad (ptr b) (ptr z) c p (snd (put_dec (ptr b) (ptr z) k q st)))"
    and "extends b z st (put_pad (ptr b) (ptr z) c p (PUT (ptr b) (ptr z) d (snd (put_dec (ptr b) (ptr z) k q st))))"
    and "extends b z st (put_pad (ptr b) (ptr z) c p (snd (put_hex (ptr b) (ptr z) w i n q st)))"
  by (meson extending ok st extends_bound extends_trans)+

lemma print_number_extends:
  assumes ok: "buf_ok b z" and st: "unat (snd st) < z"
  shows "extends b z st (print_u (ptr b) (ptr z) k f st)" and "extends b z st (print_d (ptr b) (ptr z) k f st)"
    and "extends b z st (print_x (ptr b) (ptr z) k f st)"
proof -
  show "extends b z st (print_u (ptr b) (ptr z) k f st)" and "extends b z st (print_d (ptr b) (ptr z) k f st)"
    unfolding print_u_def print_d_def
    using print_dec_extends(1,2) [OF ok st] by (auto simp: Let_def case_prod_beta intro!: rev_from_extends [OF ok])
  let ?st = "if fsharp f then PUT (ptr b) (ptr z) 120 (PUT (ptr b) (ptr z) 48 st) else st"
  have e: "extends b z st ?st"
    by (simp add: extends_refl [OF st]) (meson PUT_extends ok st extends_bound extends_trans)
  then have "extends b z ?st (print_x (ptr b) (ptr z) k (f\<lparr>fsharp := False\<rparr>) ?st)"
    unfolding print_x_def using print_dec_extends(3) [OF ok extends_bound [OF e]]
    by (auto simp: Let_def case_prod_beta simp del: if_split intro!: rev_from_extends [OF ok])
  moreover have "print_x (ptr b) (ptr z) k (f\<lparr>fsharp := False\<rparr>) ?st = print_x (ptr b) (ptr z) k f st"
    by (simp add: print_x_def)
  ultimately show "extends b z st (print_x (ptr b) (ptr z) k f st)" using extends_trans [OF e] by simp
qed

lemma put_str_extends:
  assumes "buf_ok b z" and "put_str (ptr b) (ptr z) str pad st = Some r" and "unat (snd st) < z"
  shows "extends b z st (snd r)"
proof -
  have "ptr b = ptr b \<longrightarrow> ptr z = ptr z \<longrightarrow> unat (snd st) < z \<longrightarrow> extends b z st (snd r)"
    using assms(2)
  proof (rule put_str.raw_induct [where P = "\<lambda>bf zz str pad st r.
      bf = ptr b \<longrightarrow> zz = ptr z \<longrightarrow> unat (snd st) < z \<longrightarrow> extends b z st (snd r)", rotated])
    fix rec bf zz str pad st r
    assume 1: "\<And>bf zz str pad st r. rec bf zz str pad st = Some r \<Longrightarrow>
        bf = ptr b \<longrightarrow> zz = ptr z \<longrightarrow> unat (snd st) < z \<longrightarrow> extends b z st (snd r)"
      "(if fst st str = 0 then Some (pad, st) else rec bf zz (str + 1) (pad - 1) (PUT bf zz (fst st str) st)) = Some r"
    show "bf = ptr b \<longrightarrow> zz = ptr z \<longrightarrow> unat (snd st) < z \<longrightarrow> extends b z st (snd r)"
    proof (intro impI)
      assume eqs: "bf = ptr b" "zz = ptr z" and st: "unat (snd st) < z"
      have e: "extends b z st (PUT (ptr b) (ptr z) (fst st str) st)" by (rule PUT_extends [OF assms(1) st])
      show "extends b z st (snd r)"
        using 1 eqs st extends_trans [OF e] extends_bound [OF e] by (auto simp: extends_refl split: if_splits)
    qed
  qed
  with assms(3) show ?thesis by simp
qed

lemma fold_PUT_extends:
  assumes "buf_ok b z"
  shows "unat (snd st) < z \<Longrightarrow> extends b z st (fold (PUT (ptr b) (ptr z)) cs st)"
proof (induction cs arbitrary: st)
  case (Cons c cs)
  have e: "extends b z st (PUT (ptr b) (ptr z) c st)" by (rule PUT_extends [OF assms Cons.prems])
  show ?case using Cons.IH [OF extends_bound [OF e]] extends_trans [OF e] by simp
qed (simp add: extends_refl)

lemma print_s_extends:
  assumes ok: "buf_ok b z" and st: "unat (snd st) < z" and r: "print_s (ptr b) (ptr z) str f st = Some st'"
  shows "extends b z st st'"
proof -
  obtain p t where t: "st' = put_pad (ptr b) (ptr z) 32 p t" and e: "extends b z st t"
  proof (cases "str = NULL")
    case True
    with r have "st' = put_pad (ptr b) (ptr z) 32 (padding f - 6) (fold (PUT (ptr b) (ptr z)) null_text st)"
      by (simp add: print_s_def)
    then show ?thesis using that fold_PUT_extends [OF ok st] by blast
  next
    case False
    with r obtain q where "put_str (ptr b) (ptr z) str (padding f) st = Some q"
      and "st' = put_pad (ptr b) (ptr z) 32 (fst q) (snd q)"
      by (auto simp: print_s_def Option.bind_eq_Some_conv)
    with that show ?thesis using put_str_extends [OF ok _ st] by blast
  qed
  show ?thesis
    unfolding t using put_pad_extends [OF ok extends_bound [OF e]] extends_trans [OF e] by blast
qed

lemma dv_conv_extends:
  assumes ok: "buf_ok b z" and st: "unat (snd st) < z" and r: "dv_conv (ptr b) (ptr z) c f args st = oreturn (args', st')"
  shows "extends b z st st'"
proof -
  note ext = print_number_extends [OF ok st] PUT_extends [OF ok st]
  have lift: "olift x = oreturn y \<longleftrightarrow> x = Some y" for x and y :: fstate by (cases x) auto
  show ?thesis
    using r ext print_s_extends [OF ok st]
    by (auto simp: dv_conv_def obind_eq_return lift Let_def split: if_splits)
qed

lemma dv_loop_extends:
  assumes "buf_ok b z" and "dv_loop (ptr b) (ptr z) fmt args st = oreturn st'" and "unat (snd st) < z"
  shows "extends b z st st'"
proof -
  have "ptr b = ptr b \<longrightarrow> ptr z = ptr z \<longrightarrow> unat (snd st) < z \<longrightarrow> (\<forall>st''. (Inr st' :: stop + fstate) = Inr st'' \<longrightarrow> extends b z st st'')"
    using assms(2)
  proof (rule dv_loop.raw_induct [where P = "\<lambda>bf zz fmt args st r. bf = ptr b \<longrightarrow> zz = ptr z \<longrightarrow>
      unat (snd st) < z \<longrightarrow> (\<forall>st''. r = Inr st'' \<longrightarrow> extends b z st st'')", rotated])
    fix rec bf zz fmt args st r
    assume 1: "\<And>bf zz fmt args st r. rec bf zz fmt args st = Some r \<Longrightarrow> bf = ptr b \<longrightarrow> zz = ptr z \<longrightarrow>
        unat (snd st) < z \<longrightarrow> (\<forall>st''. r = Inr st'' \<longrightarrow> extends b z st st'')"
      "(if fst st fmt = 0 then oreturn st
        else if fst st fmt \<noteq> 37 then rec bf zz (fmt + 1) args (PUT bf zz (fst st fmt) st)
        else obind (dv_flags (fst st) (fmt + 1) args no_flags) (\<lambda>(fmt, args, f).
          obind (dv_conv bf zz (fst st fmt) f args st) (\<lambda>(args, st). rec bf zz (fmt + 1) args st))) = Some r"
    show "bf = ptr b \<longrightarrow> zz = ptr z \<longrightarrow> unat (snd st) < z \<longrightarrow> (\<forall>st''. r = Inr st'' \<longrightarrow> extends b z st st'')"
    proof (intro impI allI)
      fix st'' assume eqs: "bf = ptr b" "zz = ptr z" and st: "unat (snd st) < z" and r: "r = Inr st''"
      have e: "extends b z st (PUT (ptr b) (ptr z) (fst st fmt) st)" by (rule PUT_extends [OF assms(1) st])
      show "extends b z st st''"
      proof (cases "fst st fmt = 37")
        case True
        then obtain q as f as' t where "dv_conv (ptr b) (ptr z) (fst st q) f as st = oreturn (as', t)"
          and rest: "rec (ptr b) (ptr z) (q + 1) as' t = oreturn st''"
          using 1(2) eqs r by (auto simp: obind_eq_return)
        then have t: "extends b z st t" using dv_conv_extends [OF assms(1) st] by blast
        show ?thesis
          using 1(1) [OF rest] extends_bound [OF t] extends_trans [OF t] by simp
      next
        case False
        show ?thesis
        proof (cases "fst st fmt = 0")
          case True
          then show ?thesis using 1(2) r st by (simp add: extends_refl)
        next
          case nz: False
          with False 1(2) eqs r have "rec (ptr b) (ptr z) (fmt + 1) args (PUT (ptr b) (ptr z) (fst st fmt) st) = oreturn st''"
            by simp
          from 1(1) [OF this] show ?thesis using extends_bound [OF e] extends_trans [OF e] by simp
        qed
      qed
    qed
  qed
  with assms(3) show ?thesis by simp
qed

section \<open>What the formatter writes\<close>

text \<open>\<open>holds b n0 xs st\<close>: the buffer contains \<open>xs\<close> from offset \<open>n0\<close> up to the current position.\<close>

definition holds :: "nat \<Rightarrow> nat \<Rightarrow> byte list \<Rightarrow> fstate \<Rightarrow> bool" where
  "holds b n0 xs st \<longleftrightarrow> unat (snd st) = n0 + length xs \<and> (\<forall>i < length xs. fst st (ptr (b + n0 + i)) = xs ! i)"

lemma ptr_add_unat: "ptr b + n = ptr (b + unat n)"
  by (metis ptr_add ptr_unat)

text \<open>A character that does not fit is dropped.\<close>

lemma PUT_holds:
  assumes ok: "buf_ok b z" and n0: "n0 < z" and h: "holds b n0 (take (z - 1 - n0) xs) st"
  shows "holds b n0 (take (z - 1 - n0) (xs @ [c])) (PUT (ptr b) (ptr z) c st)"
proof -
  obtain m n where st: "st = (m, n)" by (cases st)
  let ?k = "z - 1 - n0"
  have z: "z < 2 ^ 64" and b: "b + z \<le> 2 ^ 64" using ok by (auto simp: buf_ok_def)
  have n: "unat n = n0 + min (length xs) ?k" using h by (simp add: holds_def st min.commute)
  then have "unat n < z" using n0 by simp
  then have n1: "unat (n + 1) = unat n + 1" using z by (simp add: unat_plus_if')
  have le: "ptr z \<le> n + 1 \<longleftrightarrow> ?k \<le> length xs"
    using n n0 by (auto simp: word_le_nat_alt unat_ptr [OF z] n1)
  show ?thesis
  proof (cases "?k \<le> length xs")
    case True
    then show ?thesis using h le by (simp add: st PUT_def)
  next
    case False
    have pn: "ptr b + n = ptr (b + n0 + length xs)" using n False by (simp add: ptr_add_unat add.assoc)
    have "ptr (b + n0 + i) \<noteq> ptr (b + n0 + length xs)" if "i < length xs" for i
      using that False b n0 by (subst ptr_eq) auto
    then show ?thesis
      using False h le n n1 by (auto simp: st PUT_def holds_def pn nth_append less_Suc_eq)
  qed
qed

lemma fold_PUT_holds:
  assumes ok: "buf_ok b z" and n0: "n0 < z"
  shows "holds b n0 (take (z - 1 - n0) xs) st \<Longrightarrow>
         holds b n0 (take (z - 1 - n0) (xs @ ys)) (fold (PUT (ptr b) (ptr z)) ys st)"
proof (induction ys arbitrary: xs st)
  case (Cons y ys)
  from Cons.IH [OF PUT_holds [OF ok n0 Cons.prems, of y]] show ?case by simp
qed simp

lemma put_str_fold:
  assumes ok: "buf_ok b z"
  shows "cstr (fst st) a xs \<Longrightarrow> {a .. a + length xs} \<inter> {b ..< b + z} = {} \<Longrightarrow> unat (snd st) < z \<Longrightarrow>
     put_str (ptr b) (ptr z) (ptr a) pad st = Some (pad - int (length xs), fold (PUT (ptr b) (ptr z)) xs st)"
proof (induction xs arbitrary: a pad st)
  case Nil
  then show ?case by (subst put_str.simps) simp
next
  case (Cons x xs)
  let ?st = "PUT (ptr b) (ptr z) x st"
  have e: "extends b z st ?st" by (rule PUT_extends [OF ok Cons.prems(3)])
  then have u: "unchanged_outside {b ..< b + z} (fst st) (fst ?st)"
    unfolding extends_def by (auto elim: unchanged_mono)
  have a: "fst st (ptr a) = x" "x \<noteq> 0" "cstr (fst st) (Suc a) xs" using Cons.prems(1) by simp_all
  have d: "{Suc a .. Suc a + length xs} \<inter> {b ..< b + z} = {}"
  proof -
    have "{Suc a .. Suc a + length xs} \<subseteq> {a .. a + length (x # xs)}" by auto
    with Cons.prems(2) show ?thesis by blast
  qed
  have "cstr (fst ?st) (Suc a) xs" by (rule cstr_unchanged [OF u a(3) d])
  moreover have "pad - 1 - int (length xs) = pad - int (length (x # xs))" by (simp add: of_nat_Suc)
  ultimately show ?case
    using Cons.IH [OF _ d extends_bound [OF e], of "pad - 1"] by (subst put_str.simps) (simp add: a)
qed

lemma put_pad_none: "p \<le> 0 \<Longrightarrow> put_pad b z c p st = st"
  by (subst put_pad.simps) simp

lemma print_s_fold:
  assumes "buf_ok b z" and "cstr (fst st) a xs" and "{a .. a + length xs} \<inter> {b ..< b + z} = {}" and "unat (snd st) < z"
    and "0 < a" and "padding f = 0"
  shows "print_s (ptr b) (ptr z) (ptr a) f st = Some (fold (PUT (ptr b) (ptr z)) xs st)"
proof -
  have "a < 2 ^ 64" using cstr_bound [OF assms(2)] by simp
  then have "ptr a \<noteq> NULL" using assms(5) by (simp add: ptr_eq_0)
  then show ?thesis
    using put_str_fold [OF assms(1-4), of 0] by (simp add: print_s_def assms(6) put_pad_none)
qed

text \<open>The string the buffer holds after the closing NUL.\<close>

lemma cells_cstr:
  "(\<forall>i < length xs. m (ptr (a + i)) = xs ! i) \<Longrightarrow> m (ptr (a + length xs)) = 0 \<Longrightarrow> 0 \<notin> set xs \<Longrightarrow>
     a + length xs < 2 ^ 64 \<Longrightarrow> cstr m a xs"
proof (induction xs arbitrary: a)
  case (Cons x xs)
  have "\<forall>i < length xs. m (ptr (Suc a + i)) = xs ! i"
  proof (intro allI impI)
    fix i assume "i < length xs"
    then show "m (ptr (Suc a + i)) = xs ! i" using Cons.prems(1) [rule_format, of "Suc i"] by simp
  qed
  then have "cstr m (Suc a) xs" using Cons.prems by (intro Cons.IH) simp_all
  then show ?case using Cons.prems(1) [rule_format, of 0] Cons.prems(3,4) by auto
qed simp

lemma closed_cstr:
  assumes ok: "buf_ok b z" and h: "holds b 0 xs (m, n)" and "length xs < z" and "0 \<notin> set xs"
  shows "cstr (m(ptr b + n := 0)) b xs"
proof -
  have n: "ptr b + n = ptr (b + length xs)" using h by (simp add: holds_def ptr_add_unat)
  have b: "b + length xs < 2 ^ 64" using ok assms(3) by (auto simp: buf_ok_def)
  have "ptr (b + i) \<noteq> ptr (b + length xs)" if "i < length xs" for i
    using that b by (subst ptr_eq) auto
  then show ?thesis
    using h b assms(4) by (intro cells_cstr) (auto simp: n holds_def)
qed

end
