(* ===== verification/Printf_Props.thy ===== *)
theory Printf_Props
  imports Printf
begin

text \<open>
  Properties of the formatter: it never writes outside its buffer, \<open>%s/%s\<close> joins two strings, and
  \<open>%ld\<close> prints a number that reads back as the same number.
\<close>

section \<open>Joining two strings\<close>

definition path_format :: "byte list" where
  "path_format = [37, 115, 47, 37, 115]"

lemma length_path_format [simp]: "length path_format = 5"
  by (simp add: path_format_def)

lemma dv_flags_plain:
  "m fmt \<notin> {42, 35, 48, 108} \<Longrightarrow> \<not> isdigit (m fmt) \<Longrightarrow> dv_flags m fmt args f = oreturn (fmt, args, f)"
  by (subst dv_flags.simps) simp

lemma dv_loop_char:
  "fst st fmt \<noteq> 0 \<Longrightarrow> fst st fmt \<noteq> 37 \<Longrightarrow>
     dv_loop b z fmt args st = dv_loop b z (fmt + 1) args (PUT b z (fst st fmt) st)"
  by (subst dv_loop.simps) simp

lemma dv_loop_end: "fst st fmt = 0 \<Longrightarrow> dv_loop b z fmt args st = oreturn st"
  by (subst dv_loop.simps) simp

lemma no_flags_padding [simp]: "padding no_flags = 0"
  by (simp add: no_flags_def)

lemma dv_loop_s:
  assumes ok: "buf_ok b z" and m: "fst st (ptr f) = 37" "fst st (ptr (Suc f)) = 115"
    and str: "cstr (fst st) a xs" "{a .. a + length xs} \<inter> {b ..< b + z} = {}" "0 < a" and st: "unat (snd st) < z"
  shows "dv_loop (ptr b) (ptr z) (ptr f) (ptr a # args) st =
           dv_loop (ptr b) (ptr z) (ptr (f + 2)) args (fold (PUT (ptr b) (ptr z)) xs st)"
proof -
  have "dv_flags (fst st) (ptr (Suc f)) (ptr a # args) no_flags = oreturn (ptr (Suc f), ptr a # args, no_flags)"
    by (rule dv_flags_plain) (simp_all add: m isdigit_def)
  moreover have "dv_conv (ptr b) (ptr z) 115 no_flags (ptr a # args) st = oreturn (args, fold (PUT (ptr b) (ptr z)) xs st)"
    using print_s_fold [OF ok str(1,2) st str(3), of no_flags] by (simp add: dv_conv_def va_next_def)
  ultimately show ?thesis
    by (subst dv_loop.simps) (simp add: m)
qed

lemma cstr_nth:
  "cstr m s xs \<Longrightarrow> i < length xs \<Longrightarrow> m (ptr (s + i)) = xs ! i" "cstr m s xs \<Longrightarrow> m (ptr (s + length xs)) = 0"
proof (induction xs arbitrary: s i)
  case (Cons x xs)
  { case 1
    then show ?case using Cons.IH(1) [of "Suc s" "i - 1"] by (cases i) auto
  next
    case 2
    then show ?case using Cons.IH(2) [of "Suc s"] by simp }
qed simp_all

lemma dsnprintf_path:
  assumes ok: "buf_ok b z" and f: "cstr m f path_format" "{f .. f + 5} \<inter> {b ..< b + z} = {}"
    and d: "cstr m d ds" "{d .. d + length ds} \<inter> {b ..< b + z} = {}" "0 < d"
    and a: "cstr m a xs" "{a .. a + length xs} \<inter> {b ..< b + z} = {}" "0 < a"
  shows "\<exists>m'. dsnprintf (ptr b) (ptr z) (ptr f) [ptr d, ptr a] m = oreturn (m', ucast (ptr (length (take (z - 1) (ds @ 47 # xs))))) \<and>
           cstr m' b (take (z - 1) (ds @ 47 # xs)) \<and> unchanged_outside {b ..< b + z} m m'"
proof -
  let ?P = "PUT (ptr b) (ptr z)"
  let ?s1 = "fold ?P ds (m, 0)" let ?s2 = "?P 47 ?s1" let ?s3 = "fold ?P xs ?s2"
  have z: "0 < z" using ok by (simp add: buf_ok_def)
  have e1: "extends b z (m, 0) ?s1" by (rule fold_PUT_extends [OF ok]) (simp add: z)
  have e2: "extends b z (m, 0) ?s2" by (rule extends_trans [OF e1 PUT_extends [OF ok extends_bound [OF e1]]])
  have e3: "extends b z (m, 0) ?s3" by (rule extends_trans [OF e2 fold_PUT_extends [OF ok extends_bound [OF e2]]])
  have keep: "unchanged_outside {b ..< b + z} m (fst st)" if "extends b z (m, 0) st" for st
    using that by (simp add: extends_def)
  have fm: "fst st (ptr (f + i)) = (path_format @ [0]) ! i" if "extends b z (m, 0) st" "i \<le> 5" for st i
  proof -
    have "cstr (fst st) f path_format"
      by (rule cstr_unchanged [OF keep [OF that(1)] f(1)]) (use f(2) in simp)
    from cstr_nth(1) [OF this, of i] cstr_nth(2) [OF this] that(2) show ?thesis
      by (cases "i = 5") (simp_all add: nth_append)
  qed
  have "dv_loop (ptr b) (ptr z) (ptr f) [ptr d, ptr a] (m, 0) = dv_loop (ptr b) (ptr z) (ptr (f + 2)) [ptr a] ?s1"
    using fm [of "(m, 0)" 0] fm [of "(m, 0)" 1] d z
    by (intro dv_loop_s [OF ok]) (simp_all add: path_format_def extends_refl)
  also have "\<dots> = dv_loop (ptr b) (ptr z) (ptr (f + 3)) [ptr a] ?s2"
  proof -
    have "ptr (f + 2) + 1 = ptr (f + 3)" by (simp add: numeral_3_eq_3)
    then show ?thesis using fm [OF e1, of 2] by (subst dv_loop_char) (simp_all add: path_format_def)
  qed
  also have "\<dots> = dv_loop (ptr b) (ptr z) (ptr (f + 3 + 2)) [] ?s3"
  proof (rule dv_loop_s [OF ok])
    have eq: "Suc (f + 3) = f + 4" by simp
    show "fst ?s2 (ptr (Suc (f + 3))) = 115" unfolding eq using fm [OF e2, of 4] by (simp add: path_format_def)
    show "fst ?s2 (ptr (f + 3)) = 37" using fm [OF e2, of 3] by (simp add: path_format_def)
  qed (use cstr_unchanged [OF keep [OF e2] a(1,2)] a(2,3) extends_bound [OF e2] in simp_all)
  also have "\<dots> = oreturn ?s3"
  proof (rule dv_loop_end)
    have eq: "f + 3 + 2 = f + 5" by simp
    show "fst ?s3 (ptr (f + 3 + 2)) = 0" unfolding eq using fm [OF e3, of 5] by (simp add: path_format_def)
  qed
  finally have run: "dv_loop (ptr b) (ptr z) (ptr f) [ptr d, ptr a] (m, 0) = oreturn ?s3" .
  have "holds b 0 (take (z - 1 - 0) []) (m, 0)" by (simp add: holds_def)
  from fold_PUT_holds [OF ok z PUT_holds [OF ok z fold_PUT_holds [OF ok z this, of ds], of 47], of xs]
  have h: "holds b 0 (take (z - 1) (ds @ 47 # xs)) ?s3" by simp
  obtain m3 n3 where s3: "?s3 = (m3, n3)" by (cases ?s3)
  let ?r = "take (z - 1) (ds @ 47 # xs)"
  have n3: "n3 = ptr (length ?r)" using h s3 by (metis holds_def add_0 ptr_unat snd_conv)
  have "0 \<notin> set (ds @ 47 # xs)" using cstr_nonzero [OF d(1)] cstr_nonzero [OF a(1)] by simp
  then have "0 \<notin> set ?r" by (meson in_set_takeD)
  then have "cstr (m3(ptr b + n3 := 0)) b ?r"
    using closed_cstr [OF ok, of ?r m3 n3] h s3 z by simp
  moreover have "unchanged_outside {b ..< b + z} m (m3(ptr b + n3 := 0))"
  proof -
    have "unat (ptr b + n3) \<in> {b ..< b + z}"
      using extends_bound [OF e3] s3 ok by (auto simp: ptr_add_unat unat_ptr buf_ok_def)
    then show ?thesis using keep [OF e3] s3 unchanged_upd unchanged_trans by (metis fst_conv)
  qed
  ultimately show ?thesis
    using run s3 n3 by (auto simp: dsnprintf_def dvsprintf_def)
qed

section \<open>Decimal numbers\<close>

text \<open>The digits of a number, least significant first, and the number of a digit string.\<close>

fun ledigits :: "nat \<Rightarrow> byte list" where
  "ledigits k = word_of_nat (48 + k mod 10) # (if k div 10 = 0 then [] else ledigits (k div 10))"

declare ledigits.simps [simp del]

primrec le_value :: "byte list \<Rightarrow> nat" where
  "le_value [] = 0"
| "le_value (c # cs) = unat c - 48 + 10 * le_value cs"

definition dec_value :: "byte list \<Rightarrow> int" where
  "dec_value xs = (if xs \<noteq> [] \<and> hd xs = 45 then - int (le_value (rev (tl xs))) else int (le_value (rev xs)))"

lemma unat_digit: "unat (word_of_nat (48 + k mod 10) :: byte) = 48 + k mod 10"
proof -
  have "48 + k mod 10 < 2 ^ LENGTH(8)" using mod_less_divisor [of 10 k] by simp
  then show ?thesis by (simp only: unat_of_nat mod_less)
qed

lemma le_value_ledigits: "le_value (ledigits k) = k"
proof (induction k rule: less_induct)
  case (less k)
  show ?case
  proof (cases "k div 10 = 0")
    case True
    then have "k mod 10 = k" by (simp add: div_eq_0_iff)
    then show ?thesis using True unat_digit [of k] by (subst ledigits.simps) simp
  next
    case False
    then have "k div 10 < k" by (cases k) auto
    with less False show ?thesis using unat_digit [of k] by (subst ledigits.simps) simp
  qed
qed

lemma ledigits_range: "c \<in> set (ledigits k) \<Longrightarrow> 48 \<le> unat c"
proof (induction k rule: less_induct)
  case (less k)
  consider "c = word_of_nat (48 + k mod 10)" | "0 < k div 10" "c \<in> set (ledigits (k div 10))"
    using less.prems by (subst (asm) ledigits.simps) (auto split: if_splits)
  then show ?case
  proof cases
    case 1
    then show ?thesis using unat_digit [of k] by simp
  next
    case 2
    then have "k div 10 < k" by (cases k) auto
    then show ?thesis by (rule less.IH) (rule 2)
  qed
qed

lemma length_ledigits: "k < 10 ^ n \<Longrightarrow> 0 < n \<Longrightarrow> length (ledigits k) \<le> n"
proof (induction n arbitrary: k)
  case (Suc n)
  show ?case
  proof (cases "k div 10 = 0")
    case True
    then show ?thesis by (subst ledigits.simps) simp
  next
    case False
    have "k div 10 < 10 ^ n" using Suc.prems(1) by (simp add: less_mult_imp_div_less mult.commute)
    moreover from this False have "0 < n" by (cases n) auto
    ultimately show ?thesis using False Suc.IH [of "k div 10"] by (subst ledigits.simps) simp
  qed
qed simp

lemma put_dec_fold:
  "put_dec b z (int k) p st = (p - int (length (ledigits k)), fold (PUT b z) (ledigits k) st)"
proof (induction k arbitrary: p st rule: less_induct)
  case (less k)
  have c: "to_char (48 + int k smod 10) = word_of_nat (48 + k mod 10)"
  proof -
    have "48 + int k smod 10 = int (48 + k mod 10)" by (simp add: smod_int_alt_def sgn_if zmod_int of_nat_add)
    then show ?thesis by (simp only: to_char_def of_int_of_nat_eq)
  qed
  have d: "int k sdiv 10 = int (k div 10)" by (simp add: signed_divide_int_def sgn_if zdiv_int)
  show ?case
  proof (cases "k div 10 = 0")
    case True
    then show ?thesis
      by (subst put_dec.simps, subst (1 2) ledigits.simps) (simp add: Let_def c d)
  next
    case False
    then have lt: "k div 10 < k" by (cases k) auto
    have "put_dec b z (int k) p st = put_dec b z (int (k div 10)) (p - 1) (PUT b z (word_of_nat (48 + k mod 10)) st)"
      using False by (subst put_dec.simps) (simp add: Let_def c d)
    also have "\<dots> = (p - 1 - int (length (ledigits (k div 10))),
        fold (PUT b z) (ledigits (k div 10)) (PUT b z (word_of_nat (48 + k mod 10)) st))"
      by (rule less.IH [OF lt])
    also have "\<dots> = (p - int (length (ledigits k)), fold (PUT b z) (ledigits k) st)"
      using False by (subst (3 4) ledigits.simps) (simp add: of_nat_Suc)
    finally show ?thesis .
  qed
qed

lemma rev_from_holds:
  assumes ok: "buf_ok b z" and h: "holds b n0 xs st" and n: "n0 + length xs < z"
  shows "holds b n0 (rev xs) (rev_from (ptr b) (ptr n0) st)"
proof -
  obtain m k where st: "st = (m, k)" by (cases st)
  have b: "b + z \<le> 2 ^ 64" using ok by (simp add: buf_ok_def)
  have n0: "unat (ptr n0) = n0" using n b by (intro unat_ptr) simp
  have k: "unat k = n0 + length xs" using h by (simp add: holds_def st)
  have eq: "rev_from (ptr b) (ptr n0) (m, k) = (\<lambda>x. if unat x \<in> {b + n0 ..< b + (n0 + length xs)}
      then m (ptr (2 * b + n0 + (n0 + length xs) - 1 - unat x)) else m x, k)"
    by (rule rev_from_eq [OF ok, of "ptr n0" k m, unfolded n0 k]) (use n in simp_all)
  have "m (ptr (2 * b + n0 + (n0 + length xs) - 1 - (b + n0 + i))) = rev xs ! i" if "i < length xs" for i
  proof -
    have "2 * b + n0 + (n0 + length xs) - 1 - (b + n0 + i) = b + n0 + (length xs - 1 - i)" using that by simp
    moreover have "m (ptr (b + n0 + (length xs - 1 - i))) = xs ! (length xs - 1 - i)"
      using h that unfolding holds_def st by (metis fst_conv diff_diff_left diff_less length_pos_if_in_set nth_mem zero_less_Suc plus_1_eq_Suc)
    ultimately show ?thesis using that by (simp add: rev_nth)
  qed
  moreover have "unat (ptr (b + n0 + i)) = b + n0 + i" if "i < length xs" for i
    using that n b by (intro unat_ptr) simp
  ultimately show ?thesis using k by (simp add: st eq holds_def)
qed

lemma print_d_digits:
  assumes ok: "buf_ok b z" and st: "unat (snd st) = n0" "n0 + 21 < z" and pad: "padding f \<le> 0"
    and k: "- (2 ^ 63) < k" "k < 2 ^ 63"
  shows "\<exists>xs. holds b n0 xs (print_d (ptr b) (ptr z) k f st) \<and> dec_value xs = k \<and> length xs \<le> 20 \<and> 0 \<notin> set xs"
proof -
  define ds where "ds = ledigits (nat \<bar>k\<bar>)"
  define xs where "xs = ds @ (if k < 0 then [45] else [])"
  have abs: "(if k < 0 then signed_take_bit 63 (- k) else k) = int (nat \<bar>k\<bar>)"
    using k by (simp add: signed_take_bit_int_eq_self)
  have "nat \<bar>k\<bar> < 10 ^ 19" using k by auto
  then have len: "length ds \<le> 19" unfolding ds_def by (rule length_ledigits) simp
  then have lenx: "length xs \<le> 20" by (simp add: xs_def)
  have n0: "n0 < z" "snd st = ptr n0" using st by (auto simp flip: st(1))
  have "holds b n0 (take (z - 1 - n0) []) st" using st(1) by (simp add: holds_def)
  from fold_PUT_holds [OF ok n0(1) this, of xs]
  have "holds b n0 (take (z - 1 - n0) xs) (fold (PUT (ptr b) (ptr z)) xs st)" by simp
  moreover have "take (z - 1 - n0) xs = xs" using lenx st(2) by (intro take_all) simp
  ultimately have h: "holds b n0 xs (fold (PUT (ptr b) (ptr z)) xs st)" by (simp only:)
  have "print_d (ptr b) (ptr z) k f st = rev_from (ptr b) (ptr n0) (fold (PUT (ptr b) (ptr z)) xs st)"
    using pad n0(2) unfolding print_d_def Let_def abs put_dec_fold ds_def [symmetric]
    by (simp add: put_pad_none xs_def)
  then have "holds b n0 (rev xs) (print_d (ptr b) (ptr z) k f st)"
    using rev_from_holds [OF ok h] lenx st(2) by simp
  moreover have dsv: "le_value ds = nat \<bar>k\<bar>" by (simp add: ds_def le_value_ledigits)
  moreover have range: "48 \<le> unat c" if "c \<in> set ds" for c using that unfolding ds_def by (rule ledigits_range)
  moreover have "dec_value (rev xs) = k"
  proof (cases "k < 0")
    case True
    then show ?thesis using dsv by (simp add: dec_value_def xs_def)
  next
    case False
    have "ds \<noteq> []" unfolding ds_def by (subst ledigits.simps) simp
    then have "hd (rev ds) \<in> set ds" using hd_in_set [of "rev ds"] by simp
    then have "hd (rev ds) \<noteq> 45" using range by force
    then show ?thesis using False dsv by (simp add: dec_value_def xs_def)
  qed
  moreover have "0 \<notin> set (rev xs)" using range by (force simp: xs_def)
  ultimately show ?thesis using lenx by (intro exI [of _ "rev xs"]) simp
qed

lemma dvsprintf_run:
  assumes "buf_ok b z" and "dvsprintf (ptr b) (ptr z) format args m = oreturn (m', r)"
  shows "\<exists>n :: addr. unchanged_outside {b ..< b + z} m m' \<and> unat n < z \<and> r = ucast n \<and> m' (ptr (b + unat n)) = 0"
proof -
  obtain m1 n where run: "dv_loop (ptr b) (ptr z) format args (m, 0) = oreturn (m1, n)"
    and m': "m' = m1(ptr b + n := 0)" and r: "r = ucast n"
    using assms(2) by (auto simp: dvsprintf_def obind_eq_return)
  have e: "extends b z (m, 0) (m1, n)"
    by (rule dv_loop_extends [OF assms(1) run]) (use assms(1) in \<open>simp add: buf_ok_def\<close>)
  then have n: "unat n < z" and u: "unchanged_outside {b ..< b + z} m m1" by (simp_all add: extends_def)
  have "unat (ptr b + n) \<in> {b ..< b + z}"
    using n assms(1) by (auto simp: ptr_add_unat unat_ptr buf_ok_def)
  then have "unchanged_outside {b ..< b + z} m m'" unfolding m' by (rule unchanged_trans [OF u unchanged_upd])
  moreover have "m' (ptr (b + unat n)) = 0" by (simp add: m' ptr_add_unat)
  ultimately show ?thesis using n r by blast
qed

section \<open>Properties\<close>

text \<open>
  C29. Whatever the format and the arguments are, when \<open>dvsprintf\<close> returns it has written inside its
  buffer only, the number it returns is less than the size of the buffer, and the byte at that position
  is the closing NUL.
\<close>

theorem dvsprintf_stays_in_buffer:
  assumes "buf_ok b z" and "dvsprintf (ptr b) (ptr z) format args m = oreturn (m', r)"
  shows "unchanged_outside {b ..< b + z} m m' \<and> (\<exists>n < z. r = word_of_nat n \<and> m' (ptr (b + n)) = 0)"
proof -
  obtain n :: addr where "unchanged_outside {b ..< b + z} m m'" "unat n < z" "r = ucast n" "m' (ptr (b + unat n)) = 0"
    using dvsprintf_run [OF assms] by blast
  moreover have "ucast n = (word_of_nat (unat n) :: 32 word)" by simp
  ultimately show ?thesis by metis
qed

text \<open>
  C30. Round trip: \<open>%ld\<close> with room for 21 characters prints every \<open>long\<close> but the smallest as a string that
  reads back as the number.
\<close>

theorem dvsprintf_ld_roundtrip:
  assumes "buf_ok b z" and "21 < z" and "cstr m f [37, 108, 100]" and "{f .. f + 3} \<inter> {b ..< b + z} = {}"
    and "sint a \<noteq> - (2 ^ 63)"
  shows "\<exists>m' r xs. dvsprintf (ptr b) (ptr z) (ptr f) [a] m = oreturn (m', r) \<and> cstr m' b xs \<and> dec_value xs = sint a \<and>
           unchanged_outside {b ..< b + z} m m'"
proof -
  let ?f = "no_flags\<lparr>fl := True, fsize := 8\<rparr>"
  let ?st = "print_d (ptr b) (ptr z) (sint a) ?f (m, 0)"
  have m: "m (ptr f) = 37" "m (ptr (Suc f)) = 108" "m (ptr (Suc (Suc f))) = 100" "m (ptr (Suc (Suc (Suc f)))) = 0"
    using assms(3) by simp_all
  have "- (2 ^ 63) \<le> sint a" "sint a < 2 ^ 63"
    using sint_ge [of a] sint_lt [of a] by simp_all
  then have k: "- (2 ^ 63) < sint a" "sint a < 2 ^ 63" using assms(5) by linarith+
  obtain xs where h: "holds b 0 xs ?st" and xs: "dec_value xs = sint a" "length xs \<le> 20" "0 \<notin> set xs"
    using print_d_digits [OF assms(1) _ _ _ k, of "(m, 0)" 0 ?f] assms(2) by (auto simp: no_flags_def)
  have e: "extends b z (m, 0) ?st" by (rule print_number_extends [OF assms(1)]) (use assms(2) in simp)
  have flags: "dv_flags m (ptr (Suc f)) [a] no_flags = oreturn (ptr (Suc (Suc f)), [a], ?f)"
  proof -
    have "dv_flags m (ptr (Suc f)) [a] no_flags = dv_flags m (ptr (Suc (Suc f))) [a] ?f"
      by (subst dv_flags.simps) (simp add: m isdigit_def no_flags_def)
    also have "\<dots> = oreturn (ptr (Suc (Suc f)), [a], ?f)"
      by (rule dv_flags_plain) (simp_all add: m isdigit_def)
    finally show ?thesis .
  qed
  have conv: "dv_conv (ptr b) (ptr z) 100 ?f [a] (m, 0) = oreturn ([], ?st)"
    by (simp add: dv_conv_def va_next_def va_long_def)
  have nul: "fst ?st (ptr (Suc (Suc (Suc f)))) = 0"
  proof -
    have u: "unchanged_outside {b ..< b + z} m (fst ?st)" using e by (simp add: extends_def)
    have "f + 3 \<in> {f .. f + 3}" by simp
    then have "f + 3 \<notin> {b ..< b + z}" using assms(4) by blast
    moreover have "f + 3 < 2 ^ 64" using cstr_bound [OF assms(3)] by simp
    ultimately have "unat (ptr (f + 3)) \<notin> {b ..< b + z}" by (simp only: unat_ptr not_False_eq_True)
    with u have "fst ?st (ptr (f + 3)) = m (ptr (f + 3))" unfolding unchanged_outside_def by blast
    then show ?thesis using m(4) by (simp add: numeral_3_eq_3)
  qed
  have "dv_loop (ptr b) (ptr z) (ptr f) [a] (m, 0) = dv_loop (ptr b) (ptr z) (ptr (Suc (Suc (Suc f)))) [] ?st"
    by (subst dv_loop.simps) (simp add: m flags conv)
  also have "\<dots> = oreturn ?st" by (rule dv_loop_end [OF nul])
  finally have run: "dv_loop (ptr b) (ptr z) (ptr f) [a] (m, 0) = oreturn ?st" .
  obtain m1 n where st: "?st = (m1, n)" by (cases ?st)
  have "dvsprintf (ptr b) (ptr z) (ptr f) [a] m = oreturn (m1(ptr b + n := 0), ucast n)"
    by (simp add: dvsprintf_def run st)
  moreover from dvsprintf_run [OF assms(1) this]
  have "unchanged_outside {b ..< b + z} m (m1(ptr b + n := 0))" by blast
  moreover have "cstr (m1(ptr b + n := 0)) b xs"
    using closed_cstr [OF assms(1)] h st xs assms(2) by simp
  ultimately show ?thesis using xs(1) by blast
qed

section \<open>Examples\<close>

text \<open>The text \<open>AB\<close> in a buffer of two bytes, and \<open>%ld\<close> of -5.\<close>

definition demo_text :: mem where
  "demo_text = (\<lambda>_. 0)(64 := 65, 65 := 66)"

lemma demo_text_run:
  "dvsprintf (ptr 1024) (ptr 2) (ptr 64) [] demo_text = oreturn (demo_text(1024 := 65, 1025 := 0), 1)"
proof -
  have "\<not> (2 :: addr) \<le> 1" by (simp add: word_le_nat_alt)
  then have "dv_loop 1024 2 64 [] (demo_text, 0) = dv_loop 1024 2 65 [] (demo_text(1024 := 65), 1)"
    by (subst dv_loop_char) (simp_all add: demo_text_def PUT_def)
  also have "\<dots> = dv_loop 1024 2 66 [] (demo_text(1024 := 65), 1)"
    by (subst dv_loop_char) (simp_all add: demo_text_def PUT_def)
  also have "\<dots> = oreturn (demo_text(1024 := 65), 1)" by (rule dv_loop_end) (simp add: demo_text_def)
  finally show ?thesis by (simp add: dvsprintf_def)
qed

theorem dvsprintf_stays_in_buffer_witness:
  "unchanged_outside {1024 ..< 1026} demo_text (demo_text(1024 := 65, 1025 := 0))"
  using dvsprintf_stays_in_buffer [OF _ demo_text_run] by (simp add: buf_ok_def)

definition demo_format :: mem where
  "demo_format = (\<lambda>_. 0)(64 := 37, 65 := 108, 66 := 100)"

theorem dvsprintf_ld_roundtrip_witness:
  "\<exists>m' r xs. dvsprintf (ptr 1024) (ptr 32) (ptr 64) [- 5] demo_format = oreturn (m', r) \<and> cstr m' 1024 xs \<and>
     dec_value xs = - 5 \<and> unchanged_outside {1024 ..< 1024 + 32} demo_format m'"
proof -
  have "sint (- 5 :: addr) = - 5" by simp
  moreover have "cstr demo_format 64 [37, 108, 100]" by (simp add: demo_format_def)
  moreover have "{64 .. 67} \<inter> {1024 ..< 1056 :: nat} = {}" by auto
  ultimately show ?thesis
    using dvsprintf_ld_roundtrip [of 1024 32 demo_format 64 "- 5"] by (simp add: buf_ok_def)
qed

end
