(* ===== verification/Printf_Text.thy ===== *)
theory Printf_Text
  imports Printf_Props
begin

text \<open>
  What the formatter prints: a format is a sequence of pieces (ordinary characters and the conversions
  \<open>%s\<close>, \<open>%d\<close>, \<open>%ld\<close> and \<open>%lx\<close> the loader's messages use), and the buffer holds the texts of the pieces one
  after the other.
\<close>

section \<open>Numbers\<close>

definition dec_text :: "int \<Rightarrow> byte list" where
  "dec_text k = (if k < 0 then 45 # rev (ledigits (nat (- k))) else rev (ledigits (nat k)))"

text \<open>The hexadecimal digits of a number, least significant first.\<close>

definition hex_digit :: "nat \<Rightarrow> byte" where
  "hex_digit d = word_of_nat (if d > 9 then 97 + d - 10 else 48 + d)"

fun lehex :: "nat \<Rightarrow> byte list" where
  "lehex k = hex_digit (k mod 16) # (if k div 16 = 0 then [] else lehex (k div 16))"

declare lehex.simps [simp del]

definition hex_text :: "nat \<Rightarrow> byte list" where
  "hex_text k = rev (lehex k)"

lemma dec_text_value: "dec_value (dec_text k) = k"
proof (cases "k < 0")
  case True
  then show ?thesis by (simp add: dec_text_def dec_value_def le_value_ledigits)
next
  case False
  have "ledigits (nat k) \<noteq> []" by (subst ledigits.simps) simp
  then have "hd (rev (ledigits (nat k))) \<in> set (ledigits (nat k))" using hd_in_set [of "rev (ledigits (nat k))"] by simp
  then have "hd (rev (ledigits (nat k))) \<noteq> 45" using ledigits_range by force
  then show ?thesis using False by (simp add: dec_text_def dec_value_def le_value_ledigits)
qed

lemma dec_text_nonzero: "0 \<notin> set (dec_text k)"
proof -
  have "0 \<notin> set (ledigits n)" for n using ledigits_range [of 0 n] by auto
  then show ?thesis by (simp add: dec_text_def)
qed

lemma unat_hex_digit: "d < 16 \<Longrightarrow> unat (hex_digit d) = (if d > 9 then 87 + d else 48 + d)"
  by (simp add: hex_digit_def unat_of_nat)

lemma hex_text_nonzero: "0 \<notin> set (hex_text k)"
proof -
  have "0 \<notin> set (lehex k)"
  proof (induction k rule: less_induct)
    case (less k)
    have "hex_digit (k mod 16) \<noteq> 0" using unat_hex_digit [of "k mod 16"] by (auto split: if_splits)
    moreover have "0 \<notin> set (lehex (k div 16))" if "k div 16 \<noteq> 0"
    proof (rule less.IH)
      show "k div 16 < k" using that by (cases k) auto
    qed
    ultimately show ?case by (subst lehex.simps) auto
  qed
  then show ?thesis by (simp add: hex_text_def)
qed

section \<open>The conversions\<close>

lemma fold_PUT_text:
  assumes ok: "buf_ok b z" and st: "unat (snd st) = n0" "n0 + length xs < z"
  shows "holds b n0 xs (fold (PUT (ptr b) (ptr z)) xs st)"
proof -
  have "holds b n0 (take (z - 1 - n0) []) st" using st(1) by (simp add: holds_def)
  from fold_PUT_holds [OF ok _ this, of xs] st(2)
  have "holds b n0 (take (z - 1 - n0) xs) (fold (PUT (ptr b) (ptr z)) xs st)" by simp
  moreover have "take (z - 1 - n0) xs = xs" using st(2) by (intro take_all) simp
  ultimately show ?thesis by (simp only:)
qed

lemma rev_text:
  assumes ok: "buf_ok b z" and st: "unat (snd st) = n0" "n0 + length xs < z"
  shows "holds b n0 (rev xs) (rev_from (ptr b) (snd st) (fold (PUT (ptr b) (ptr z)) xs st))"
proof -
  have "snd st = ptr n0" by (simp flip: st(1))
  then show ?thesis using rev_from_holds [OF ok fold_PUT_text [OF ok st] st(2)] by simp
qed

lemma print_d_text:
  assumes ok: "buf_ok b z" and st: "unat (snd st) = n0" "n0 + length (dec_text k) < z" and pad: "padding f \<le> 0"
    and k: "- (2 ^ 63) < k" "k < 2 ^ 63"
  shows "holds b n0 (dec_text k) (print_d (ptr b) (ptr z) k f st)"
proof -
  define xs where "xs = ledigits (nat \<bar>k\<bar>) @ (if k < 0 then [45] else [])"
  have xs: "rev xs = dec_text k" by (auto simp: xs_def dec_text_def)
  then have len: "length xs = length (dec_text k)" by (metis length_rev)
  have abs: "(if k < 0 then signed_take_bit 63 (- k) else k) = int (nat \<bar>k\<bar>)"
    using k by (simp add: signed_take_bit_int_eq_self)
  have "print_d (ptr b) (ptr z) k f st = rev_from (ptr b) (snd st) (fold (PUT (ptr b) (ptr z)) xs st)"
    using pad unfolding print_d_def Let_def abs put_dec_fold by (simp add: put_pad_none xs_def)
  then show ?thesis using rev_text [OF ok st(1), of xs] st(2) by (simp add: xs len)
qed

lemma hex_char_digit: "hex_char (ptr k) = hex_digit (k mod 16)" if "k < 2 ^ 64"
proof -
  have "unat (ptr k AND 15) = k mod 16"
  proof -
    have "ptr k AND 15 = take_bit 4 (ptr k)" using take_bit_eq_mask [of 4 "ptr k"] by (simp add: mask_numeral)
    then show ?thesis using that by (simp add: take_bit_eq_mod unat_mod unat_ptr)
  qed
  then show ?thesis by (simp add: hex_char_def hex_digit_def Let_def)
qed

lemma put_hex_fold:
  "k < 16 ^ (16 - i) \<Longrightarrow> i < 16 \<Longrightarrow>
     put_hex b z 16 i (ptr k) p st = (p - int (length (lehex k)), fold (PUT b z) (lehex k) st)"
proof (induction k arbitrary: i p st rule: less_induct)
  case (less k)
  have "(16 :: nat) ^ (16 - i) \<le> 16 ^ 16" by (rule power_increasing) simp_all
  then have k64: "k < 2 ^ 64" using less.prems(1) by simp
  note c = hex_char_digit [OF k64]
  have d: "drop_bit 4 (ptr k) = ptr (k div 16)"
    using k64 by (simp add: drop_bit_eq_div word_arith_nat_defs(6) unat_ptr)
  have d64: "k div 16 < 2 ^ 64" using k64 by (rule le_less_trans [OF div_le_dividend])
  show ?case
  proof (cases "k div 16 = 0")
    case True
    then show ?thesis by (subst put_hex.simps, subst (1 2) lehex.simps) (simp add: Let_def c d)
  next
    case False
    then have lt: "k div 16 < k" by (cases k) auto
    have i: "Suc i < 16"
    proof (rule ccontr)
      assume "\<not> Suc i < 16"
      then have "i = 15" using less.prems(2) by simp
      then show False using less.prems(1) False by simp
    qed
    have "16 - i = Suc (16 - Suc i)" using less.prems(2) by simp
    then have "k < 16 * 16 ^ (16 - Suc i)" using less.prems(1) by (metis power_Suc)
    then have k': "k div 16 < 16 ^ (16 - Suc i)" by (simp add: less_mult_imp_div_less mult.commute)
    have nz: "ptr (k div 16) \<noteq> 0" using False d64 by (simp add: ptr_eq_0)
    have "put_hex b z 16 i (ptr k) p st = put_hex b z 16 (Suc i) (ptr (k div 16)) (p - 1) (PUT b z (hex_digit (k mod 16)) st)"
      using nz i by (subst put_hex.simps) (simp add: Let_def c d)
    also have "\<dots> = (p - 1 - int (length (lehex (k div 16))), fold (PUT b z) (lehex (k div 16)) (PUT b z (hex_digit (k mod 16)) st))"
      by (rule less.IH [OF lt k' i])
    also have "\<dots> = (p - int (length (lehex k)), fold (PUT b z) (lehex k) st)"
      using False by (subst (3 4) lehex.simps) (simp add: of_nat_Suc)
    finally show ?thesis .
  qed
qed

lemma print_x_text:
  fixes a :: addr
  assumes ok: "buf_ok b z" and st: "unat (snd st) = n0" "n0 + length (hex_text (unat a)) < z" and f: "padding f \<le> 0" "\<not> fsharp f" "fsize f = 8"
  shows "holds b n0 (hex_text (unat a)) (print_x (ptr b) (ptr z) (sint a) f st)"
proof -
  have "unat a < 2 ^ 64" using unsigned_less [of a] by simp
  then have "unat a < 16 ^ (16 - 0)" by simp
  note h = put_hex_fold [OF this, of "ptr b" "ptr z" "padding f" st]
  have "print_x (ptr b) (ptr z) (sint a) f st = rev_from (ptr b) (snd st) (fold (PUT (ptr b) (ptr z)) (lehex (unat a)) st)"
    using f h by (simp add: print_x_def Let_def put_pad_none)
  then show ?thesis using rev_text [OF ok st(1), of "lehex (unat a)"] st(2) by (simp add: hex_text_def)
qed

section \<open>Formats\<close>

text \<open>
  A piece of a format with the argument it takes; \<open>piece_ok m b z p\<close>: its argument is in range, and a string
  it names is outside the buffer of \<open>z\<close> bytes at \<open>b\<close>.
\<close>

datatype piece = PLit byte | PStr nat "byte list" | PInt int | PLong int | PHex addr

fun piece_fmt :: "piece \<Rightarrow> byte list" where
  "piece_fmt (PLit c) = [c]"
| "piece_fmt (PStr a xs) = [37, 115]"
| "piece_fmt (PInt k) = [37, 100]"
| "piece_fmt (PLong k) = [37, 108, 100]"
| "piece_fmt (PHex a) = [37, 108, 120]"

fun piece_args :: "piece \<Rightarrow> addr list" where
  "piece_args (PLit c) = []"
| "piece_args (PStr a xs) = [ptr a]"
| "piece_args (PInt k) = [word_of_int k]"
| "piece_args (PLong k) = [word_of_int k]"
| "piece_args (PHex a) = [a]"

fun piece_text :: "piece \<Rightarrow> byte list" where
  "piece_text (PLit c) = [c]"
| "piece_text (PStr a xs) = xs"
| "piece_text (PInt k) = dec_text k"
| "piece_text (PLong k) = dec_text k"
| "piece_text (PHex a) = hex_text (unat a)"

fun piece_ok :: "mem \<Rightarrow> nat \<Rightarrow> nat \<Rightarrow> piece \<Rightarrow> bool" where
  "piece_ok m b z (PLit c) \<longleftrightarrow> c \<noteq> 0 \<and> c \<noteq> 37"
| "piece_ok m b z (PStr a xs) \<longleftrightarrow> 0 < a \<and> cstr m a xs \<and> {a .. a + length xs} \<inter> {b ..< b + z} = {}"
| "piece_ok m b z (PInt k) \<longleftrightarrow> - (2 ^ 31) \<le> k \<and> k < 2 ^ 31"
| "piece_ok m b z (PLong k) \<longleftrightarrow> - (2 ^ 63) < k \<and> k < 2 ^ 63"
| "piece_ok m b z (PHex a) \<longleftrightarrow> True"

abbreviation text_of :: "piece list \<Rightarrow> byte list" where
  "text_of ps \<equiv> concat (map piece_text ps)"

abbreviation format_of :: "piece list \<Rightarrow> byte list" where
  "format_of ps \<equiv> concat (map piece_fmt ps)"

abbreviation args_of :: "piece list \<Rightarrow> addr list" where
  "args_of ps \<equiv> concat (map piece_args ps)"

lemma piece_text_nonzero: "piece_ok m b z p \<Longrightarrow> 0 \<notin> set (piece_text p)"
  by (cases p) (auto dest: cstr_nonzero simp: dec_text_nonzero hex_text_nonzero)

lemma piece_ok_unchanged:
  "piece_ok m b z p \<Longrightarrow> unchanged_outside {b ..< b + z} m m' \<Longrightarrow> piece_ok m' b z p"
  by (cases p) (auto intro: cstr_unchanged)

lemma dv_flags_l:
  "m fmt = 108 \<Longrightarrow> dv_flags m fmt args no_flags = dv_flags m (fmt + 1) args (no_flags\<lparr>fl := True, fsize := 8\<rparr>)"
  by (subst dv_flags.simps) (simp add: isdigit_def no_flags_def)

text \<open>One piece: the formatter goes on behind it with the text of the piece appended.\<close>

lemma holds_append:
  assumes "buf_ok b z" and "holds b 0 xs st" and "holds b (length xs) ys st'" and "extends b z st st'"
  shows "holds b 0 (xs @ ys) st'"
proof -
  have n: "unat (snd st) = length xs" and xs: "\<forall>i < length xs. fst st (ptr (b + i)) = xs ! i"
    using assms(2) by (simp_all add: holds_def)
  have u: "unchanged_outside {b + length xs ..< b + z} (fst st) (fst st')" and lt: "length xs + length ys < z"
    using assms(3,4) n by (simp_all add: extends_def holds_def)
  have "fst st' (ptr (b + i)) = (xs @ ys) ! i" if "i < length xs + length ys" for i
  proof (cases "i < length xs")
    case True
    then have "unat (ptr (b + i)) = b + i" using assms(1) lt by (intro unat_ptr) (auto simp: buf_ok_def)
    then have "fst st' (ptr (b + i)) = fst st (ptr (b + i))" using u True by (simp add: unchanged_outside_def)
    then show ?thesis using xs True by (simp add: nth_append)
  next
    case False
    then have "i - length xs < length ys" and i: "b + length xs + (i - length xs) = b + i" using that by auto
    then have "fst st' (ptr (b + length xs + (i - length xs))) = ys ! (i - length xs)"
      using assms(3) unfolding holds_def by blast
    then show ?thesis unfolding i using False by (simp add: nth_append)
  qed
  then show ?thesis using assms(3) by (simp add: holds_def)
qed

lemma dv_loop_conv:
  assumes "fst st (ptr f) = 37" and "dv_flags (fst st) (ptr (Suc f)) args no_flags = oreturn (ptr g, args, fs)"
    and "dv_conv b z (fst st (ptr g)) fs args st = oreturn (args', st')"
  shows "dv_loop b z (ptr f) args st = dv_loop b z (ptr (Suc g)) args' st'"
  using assms by (subst dv_loop.simps) simp

lemma va_int_of_int: "- (2 ^ 31) \<le> k \<Longrightarrow> k < 2 ^ 31 \<Longrightarrow> va_int (word_of_int k) = k"
proof -
  assume k: "- (2 ^ 31) \<le> k" "k < 2 ^ 31"
  have "(ucast (word_of_int k :: addr) :: 32 word) = word_of_int k" by (rule bit_word_eqI) (simp add: bit_simps)
  with k show ?thesis by (simp add: va_int_def sint_sbintrunc' signed_take_bit_int_eq_self)
qed

lemma va_long_of_int: "- (2 ^ 63) \<le> k \<Longrightarrow> k < 2 ^ 63 \<Longrightarrow> va_long (word_of_int k) = k"
  by (simp add: va_long_def sint_sbintrunc' signed_take_bit_int_eq_self)

lemma piece_step:
  assumes ok: "buf_ok b z" and p: "piece_ok (fst st) b z p" and st: "unat (snd st) = n0" "n0 + length (piece_text p) < z"
    and fmt: "\<forall>i < length (piece_fmt p). fst st (ptr (f + i)) = piece_fmt p ! i"
  shows "\<exists>st'. dv_loop (ptr b) (ptr z) (ptr f) (piece_args p @ args) st =
             dv_loop (ptr b) (ptr z) (ptr (f + length (piece_fmt p))) args st' \<and>
           holds b n0 (piece_text p) st' \<and> extends b z st st'"
proof -
  let ?B = "ptr b" and ?Z = "ptr z"
  have lt: "unat (snd st) < z" using st by simp
  have plain: "dv_flags (fst st) (ptr g) as fs = oreturn (ptr g, as, fs)" if "fst st (ptr g) \<in> {100, 115, 120}" for g as fs
    by (rule dv_flags_plain) (use that in \<open>auto simp: isdigit_def\<close>)
  have lflag: "dv_flags (fst st) (ptr (Suc f)) as no_flags = oreturn (ptr (Suc (Suc f)), as, no_flags\<lparr>fl := True, fsize := 8\<rparr>)"
    if "fst st (ptr (Suc f)) = 108" "fst st (ptr (Suc (Suc f))) \<in> {100, 120}" for as
    using dv_flags_l [of "fst st" "ptr (Suc f)" as] plain [of "Suc (Suc f)"] that by auto
  have f2: "f + 2 = Suc (Suc f)" and f3: "f + 3 = Suc (Suc (Suc f))" by simp_all
  note m0 = fmt [rule_format, of 0] and m1 = fmt [rule_format, of 1] and m2 = fmt [rule_format, of 2]
  show ?thesis
  proof (cases p)
    case (PLit c)
    have "dv_loop ?B ?Z (ptr f) args st = dv_loop ?B ?Z (ptr f + 1) args (PUT ?B ?Z c st)"
      using p m0 PLit by (subst dv_loop_char) simp_all
    moreover have "holds b n0 [c] (PUT ?B ?Z c st)" using fold_PUT_text [OF ok st(1), of "[c]"] st(2) PLit by simp
    ultimately show ?thesis using PUT_extends [OF ok lt] PLit by (intro exI [of _ "PUT ?B ?Z c st"]) simp
  next
    case (PStr a xs)
    then have "dv_loop ?B ?Z (ptr f) (ptr a # args) st = dv_loop ?B ?Z (ptr (f + 2)) args (fold (PUT ?B ?Z) xs st)"
      using p m0 m1 lt by (intro dv_loop_s [OF ok]) simp_all
    moreover have "holds b n0 xs (fold (PUT ?B ?Z) xs st)" using fold_PUT_text [OF ok st(1), of xs] st(2) PStr by simp
    ultimately show ?thesis using fold_PUT_extends [OF ok lt] PStr by (intro exI [of _ "fold (PUT ?B ?Z) xs st"]) (simp add: f2)
  next
    case (PInt k)
    let ?st = "print_d ?B ?Z k no_flags st"
    have m: "fst st (ptr f) = 37" "fst st (ptr (Suc f)) = 100" using m0 m1 PInt by simp_all
    have k: "- (2 ^ 31) \<le> k" "k < 2 ^ 31" using p PInt by simp_all
    then have "va_int (word_of_int k) = k" by (rule va_int_of_int)
    then have "dv_loop ?B ?Z (ptr f) (word_of_int k # args) st = dv_loop ?B ?Z (ptr (f + 2)) args ?st"
      unfolding f2 by (intro dv_loop_conv [OF m(1) plain]) (simp_all add: m dv_conv_def va_next_def no_flags_def)
    moreover have "holds b n0 (dec_text k) ?st" using k st PInt by (intro print_d_text [OF ok]) simp_all
    ultimately show ?thesis using print_number_extends(2) [OF ok lt] PInt by (intro exI [of _ "?st"]) (simp add: f2)
  next
    case (PLong k)
    let ?fs = "no_flags\<lparr>fl := True, fsize := 8\<rparr>"
    let ?st = "print_d ?B ?Z k ?fs st"
    have m: "fst st (ptr f) = 37" "fst st (ptr (Suc f)) = 108" "fst st (ptr (Suc (Suc f))) = 100"
      using m0 m1 m2 PLong by simp_all
    have k: "- (2 ^ 63) < k" "k < 2 ^ 63" using p PLong by simp_all
    then have "va_long (word_of_int k) = k" by (intro va_long_of_int) simp_all
    then have "dv_loop ?B ?Z (ptr f) (word_of_int k # args) st = dv_loop ?B ?Z (ptr (f + 3)) args ?st"
      unfolding f3 by (intro dv_loop_conv [OF m(1) lflag]) (simp_all add: m dv_conv_def va_next_def)
    moreover have "holds b n0 (dec_text k) ?st" using k st PLong by (intro print_d_text [OF ok]) simp_all
    ultimately show ?thesis using print_number_extends(2) [OF ok lt] PLong by (intro exI [of _ "?st"]) (simp add: f3)
  next
    case (PHex a)
    let ?fs = "no_flags\<lparr>fl := True, fsize := 8\<rparr>"
    let ?st = "print_x ?B ?Z (sint a) ?fs st"
    have m: "fst st (ptr f) = 37" "fst st (ptr (Suc f)) = 108" "fst st (ptr (Suc (Suc f))) = 120"
      using m0 m1 m2 PHex by simp_all
    have "dv_loop ?B ?Z (ptr f) (a # args) st = dv_loop ?B ?Z (ptr (f + 3)) args ?st"
      unfolding f3 by (intro dv_loop_conv [OF m(1) lflag]) (simp_all add: m dv_conv_def va_next_def va_long_def)
    moreover have "holds b n0 (hex_text (unat a)) ?st"
      using st PHex by (intro print_x_text [OF ok]) (simp_all add: no_flags_def)
    ultimately show ?thesis using print_number_extends(3) [OF ok lt] PHex by (intro exI [of _ "?st"]) (simp add: f3)
  qed
qed

text \<open>A whole format whose text fits.\<close>

lemma cstr_append: "cstr m f (xs @ ys) \<longleftrightarrow> 0 \<notin> set xs \<and> f + length xs < 2 ^ 64 \<and>
    (\<forall>i < length xs. m (ptr (f + i)) = xs ! i) \<and> cstr m (f + length xs) ys"
proof (induction xs arbitrary: f)
  case Nil
  then show ?case using cstr_bound [of m f ys] by auto
next
  case (Cons x xs)
  have "(\<forall>i < length (x # xs). m (ptr (f + i)) = (x # xs) ! i) \<longleftrightarrow>
      m (ptr f) = x \<and> (\<forall>i < length xs. m (ptr (Suc f + i)) = xs ! i)"
    by (simp add: All_less_Suc2)
  then show ?case using Cons.IH [of "Suc f"] cstr_bound [of m "Suc f + length xs" ys] by auto
qed

lemma dv_loop_pieces:
  assumes ok: "buf_ok b z"
  shows "cstr (fst st) f (format_of ps) \<Longrightarrow> {f .. f + length (format_of ps)} \<inter> {b ..< b + z} = {} \<Longrightarrow>
     \<forall>p \<in> set ps. piece_ok (fst st) b z p \<Longrightarrow> holds b 0 xs st \<Longrightarrow> length xs + length (text_of ps) < z \<Longrightarrow>
     \<exists>st'. dv_loop (ptr b) (ptr z) (ptr f) (args_of ps) st = oreturn st' \<and> holds b 0 (xs @ text_of ps) st'"
proof (induction ps arbitrary: f xs st)
  case Nil
  then show ?case by (auto simp: dv_loop_end)
next
  case (Cons p ps)
  let ?n = "length (piece_fmt p)"
  have cs: "\<forall>i < ?n. fst st (ptr (f + i)) = piece_fmt p ! i" "cstr (fst st) (f + ?n) (format_of ps)"
    using Cons.prems(1) by (simp_all add: cstr_append)
  have n: "unat (snd st) = length xs" using Cons.prems(4) by (simp add: holds_def)
  obtain st' where run: "dv_loop (ptr b) (ptr z) (ptr f) (piece_args p @ args_of ps) st =
        dv_loop (ptr b) (ptr z) (ptr (f + ?n)) (args_of ps) st'"
      and h: "holds b (length xs) (piece_text p) st'" and e: "extends b z st st'"
    using piece_step [OF ok _ n _ cs(1), of "args_of ps"] Cons.prems(3,5) by auto
  have u: "unchanged_outside {b ..< b + z} (fst st) (fst st')"
    using e unfolding extends_def by (auto elim: unchanged_mono)
  have d: "{f + ?n .. f + ?n + length (format_of ps)} \<inter> {b ..< b + z} = {}"
  proof -
    have "{f + ?n .. f + ?n + length (format_of ps)} \<subseteq> {f .. f + length (format_of (p # ps))}" by auto
    with Cons.prems(2) show ?thesis by blast
  qed
  have "\<exists>st''. dv_loop (ptr b) (ptr z) (ptr (f + ?n)) (args_of ps) st' = oreturn st'' \<and>
      holds b 0 ((xs @ piece_text p) @ text_of ps) st''"
  proof (rule Cons.IH)
    show "cstr (fst st') (f + ?n) (format_of ps)" by (rule cstr_unchanged [OF u cs(2) d])
    show "\<forall>q \<in> set ps. piece_ok (fst st') b z q" using Cons.prems(3) piece_ok_unchanged [OF _ u] by auto
    show "holds b 0 (xs @ piece_text p) st'" by (rule holds_append [OF ok Cons.prems(4) h e])
    show "length (xs @ piece_text p) + length (text_of ps) < z" using Cons.prems(5) by simp
  qed (rule d)
  then show ?case using run by simp
qed

lemma dvsprintf_text:
  assumes "buf_ok b z" and "cstr m f (format_of ps)" and "{f .. f + length (format_of ps)} \<inter> {b ..< b + z} = {}"
    and "\<forall>p \<in> set ps. piece_ok m b z p" and "length (text_of ps) < z"
  shows "\<exists>m'. dvsprintf (ptr b) (ptr z) (ptr f) (args_of ps) m = oreturn (m', word_of_nat (length (text_of ps))) \<and>
           cstr m' b (text_of ps) \<and> unchanged_outside {b ..< b + z} m m'"
proof -
  have "holds b 0 [] (m, 0)" by (simp add: holds_def)
  with dv_loop_pieces [OF assms(1), of "(m, 0)" f ps "[]"] assms(2-5) obtain st where
    run: "dv_loop (ptr b) (ptr z) (ptr f) (args_of ps) (m, 0) = oreturn st" and h: "holds b 0 (text_of ps) st"
    by auto
  obtain m1 n where st: "st = (m1, n)" by (cases st)
  have r: "dvsprintf (ptr b) (ptr z) (ptr f) (args_of ps) m = oreturn (m1(ptr b + n := 0), ucast n)"
    by (simp add: dvsprintf_def run st)
  have "0 \<notin> set (text_of ps)" using assms(4) piece_text_nonzero by fastforce
  then have "cstr (m1(ptr b + n := 0)) b (text_of ps)" using closed_cstr [OF assms(1)] h st assms(5) by simp
  moreover have "unchanged_outside {b ..< b + z} m (m1(ptr b + n := 0))" using dvsprintf_run [OF assms(1) r] by blast
  moreover have "ucast n = (word_of_nat (length (text_of ps)) :: 32 word)"
  proof -
    have "unat n = length (text_of ps)" using h st by (simp add: holds_def)
    moreover have "ucast n = (word_of_nat (unat n) :: 32 word)" by simp
    ultimately show ?thesis by (simp only:)
  qed
  ultimately show ?thesis using r by metis
qed

end
