(* ===== verification/Host.thy ===== *)
theory Host
  imports Printf_Text
begin

text \<open>
  What the programs that run on the C library (\<open>elf-clack\<close>, \<open>elf-info\<close>) use of it: the conversions of \<open>printf\<close>
  they print with, and the calls that open and map files. The text a program prints is a list of bytes.
  The system behind the calls is a parameter, a record of functions on its state and the memory.
\<close>

section \<open>Text\<close>

definition lit :: "string \<Rightarrow> byte list" where
  "lit s = map of_char s"

definition newline :: "byte list" where
  "newline = [10]"

text \<open>\<open>%<n>s\<close>, \<open>%<n>d\<close>, \<open>%<n>lx\<close> pad on the left with blanks, \<open>%0<n>lx\<close> with zeros, \<open>%-<n>s\<close> on the right with blanks.\<close>

definition pad_left :: "nat \<Rightarrow> byte \<Rightarrow> byte list \<Rightarrow> byte list" where
  "pad_left n c xs = replicate (n - length xs) c @ xs"

definition pad_right :: "nat \<Rightarrow> byte list \<Rightarrow> byte list" where
  "pad_right n xs = xs @ replicate (n - length xs) 32"

text \<open>\<open>%#lx\<close>: the prefix is left out for 0.\<close>

definition alt_hex :: "nat \<Rightarrow> byte list" where
  "alt_hex k = (if k = 0 then [48] else [48, 120] @ hex_text k)"

text \<open>\<open>%s\<close>: the bytes up to the NUL; the walk does not end when there is none.\<close>

partial_function (option) cstring :: "mem \<Rightarrow> addr \<Rightarrow> byte list option" where
  "cstring m p = (if m p = 0 then Some [] else do { xs \<leftarrow> cstring m (p + 1); Some (m p # xs) })"

text \<open>\<open>strcmp(xs, p) == 0\<close> for a string \<open>xs\<close> of the program.\<close>

fun str_eq_at :: "mem \<Rightarrow> byte list \<Rightarrow> addr \<Rightarrow> bool" where
  "str_eq_at m [] p \<longleftrightarrow> m p = 0"
| "str_eq_at m (x # xs) p \<longleftrightarrow> m p = x \<and> str_eq_at m xs (p + 1)"

lemma cstring_cstr: "cstr m a xs \<Longrightarrow> cstring m (ptr a) = Some xs"
  by (induction xs arbitrary: a) (subst cstring.simps; simp)+

lemma str_eq_at_cstr: "cstr m a ys \<Longrightarrow> 0 \<notin> set xs \<Longrightarrow> str_eq_at m xs (ptr a) \<longleftrightarrow> xs = ys"
proof (induction xs arbitrary: a ys)
  case Nil
  then show ?case by (cases ys) auto
next
  case (Cons x xs)
  then show ?case by (cases ys) auto
qed

lemma length_pad_left: "length (pad_left n c xs) = max n (length xs)"
  by (simp add: pad_left_def)

section \<open>Files\<close>

text \<open>
  The calls: \<open>open\<close> (path, flags, mode), \<open>fstat\<close> (which also gives \<open>st_size\<close>), \<open>ftruncate\<close>, \<open>mmap\<close>, \<open>munmap\<close>,
  \<open>close\<close>. The numbers they return are C \<open>int\<close>s, \<open>mmap\<close> returns an address.
\<close>

record 'w host =
  h_open :: "byte list \<Rightarrow> 32 word \<Rightarrow> 32 word \<Rightarrow> 'w \<times> mem \<Rightarrow> int \<times> 'w \<times> mem"
  h_fstat :: "int \<Rightarrow> 'w \<times> mem \<Rightarrow> int \<times> addr \<times> 'w \<times> mem"
  h_ftruncate :: "int \<Rightarrow> addr \<Rightarrow> 'w \<times> mem \<Rightarrow> int \<times> 'w \<times> mem"
  h_mmap :: "addr \<Rightarrow> 32 word \<Rightarrow> 32 word \<Rightarrow> int \<Rightarrow> 'w \<times> mem \<Rightarrow> addr \<times> 'w \<times> mem"
  h_munmap :: "addr \<Rightarrow> addr \<Rightarrow> 'w \<times> mem \<Rightarrow> int \<times> 'w \<times> mem"
  h_close :: "int \<Rightarrow> 'w \<times> mem \<Rightarrow> int \<times> 'w \<times> mem"

definition HOST_MAP_FAILED :: addr where "HOST_MAP_FAILED = - 1"
definition PROT_RW :: "32 word" where "PROT_RW = 3"
definition HOST_PRIVATE :: "32 word" where "HOST_PRIVATE = 2"
definition HOST_SHARED :: "32 word" where "HOST_SHARED = 1"

text \<open>
  Opening a file for reading and mapping all of it, as \<open>map_file\<close> and \<open>startup\<close> do: the address and the
  length. Every failure ends the program, after the file is closed if it was open.
\<close>

definition map_file :: "'w host \<Rightarrow> byte list \<Rightarrow> 'w \<times> mem \<Rightarrow> ('w \<times> mem) \<times> (stop + addr \<times> addr)" where
  "map_file H filename s =
     (case h_open H filename 0 0 s of (fd, s) \<Rightarrow>
        if fd < 0 then (s, Inl (Exited 1))
        else case h_fstat H fd s of (r, len, s) \<Rightarrow>
          if r < 0 then (snd (h_close H fd s), Inl (Exited 1))
          else case h_mmap H len PROT_RW HOST_PRIVATE fd s of (a, s) \<Rightarrow>
            if a = HOST_MAP_FAILED then (snd (h_close H fd s), Inl (Exited 1))
            else (snd (h_close H fd s), Inr (a, len)))"

end
