(* ===== verification/Malloc_Debug.thy ===== *)
theory Malloc_Debug
  imports Host Malloc_Props
begin

text \<open>
  The debugging support of the allocator: \<open>malloc/malloc_debug.c\<close>, the dump and the failure report of
  \<open>malloc/heap_debug.c\<close>, and what \<open>malloc\<close> does first when it is built with \<open>MALLOC_DEBUGGING\<close>. These routines print
  to \<open>stderr\<close> through the C library; the text is part of the state.
\<close>

section \<open>State\<close>

text \<open>
  The variables \<open>__malloc_debug\<close>, \<open>__malloc_check\<close>, \<open>__malloc_mmb_debug\<close>, \<open>__heap_debug\<close> and \<open>__malloc_debug_cur_indent\<close>, the
  static flags \<open>recursed\<close> of \<open>__heap_dump\<close> and \<open>debugging_initialized\<close> of \<open>malloc\<close>, and what was written to \<open>stderr\<close>.
\<close>

record debug_state =
  malloc_debug_var :: "32 word"
  malloc_check_var :: "32 word"
  malloc_mmb_debug_var :: "32 word"
  heap_debug_var :: "32 word"
  cur_indent :: "32 word"
  recursed :: bool
  debugging_initialized :: bool
  err_text :: "byte list"

type_synonym 'a reported = "(debug_state \<times> (stop + 'a)) option"

definition put_err :: "byte list \<Rightarrow> debug_state \<Rightarrow> debug_state" where
  "put_err xs d = d\<lparr>err_text := err_text d @ xs\<rparr>"

definition MALLOC_DEBUG_INDENT_SIZE :: "32 word" where
  "MALLOC_DEBUG_INDENT_SIZE = 3"

definition malloc_debug_indent :: "32 word \<Rightarrow> debug_state \<Rightarrow> debug_state" where
  "malloc_debug_indent indent d = d\<lparr>cur_indent := cur_indent d + indent\<rparr>"

definition malloc_debug_set_indent :: "32 word \<Rightarrow> debug_state \<Rightarrow> debug_state" where
  "malloc_debug_set_indent level d = d\<lparr>cur_indent := level\<rparr>"

section \<open>Printing\<close>

primrec put_spaces :: "nat \<Rightarrow> debug_state \<Rightarrow> debug_state" where
  "put_spaces 0 d = d"
| "put_spaces (Suc spaces) d = put_spaces spaces (put_err [32] d)"

text \<open>\<open>__malloc_debug_printf\<close>, with the text that \<open>vfprintf\<close> makes of the format and the arguments.\<close>

definition malloc_debug_printf :: "32 word \<Rightarrow> byte list \<Rightarrow> debug_state \<Rightarrow> debug_state" where
  "malloc_debug_printf indent text d =
     (let d = put_spaces (unat (cur_indent d * MALLOC_DEBUG_INDENT_SIZE)) d;
          d = put_err text d;
          d = put_err newline d
      in malloc_debug_indent indent d)"

text \<open>The macro \<open>MALLOC_DEBUG\<close>, and \<open>MALLOC_DEBUG_INDENT\<close>.\<close>

definition MALLOC_DEBUG :: "32 word \<Rightarrow> byte list \<Rightarrow> debug_state \<Rightarrow> debug_state" where
  "MALLOC_DEBUG indent text d = (if malloc_debug_var d \<noteq> 0 then malloc_debug_printf indent text d else d)"

definition MALLOC_DEBUG_INDENT :: "32 word \<Rightarrow> debug_state \<Rightarrow> debug_state" where
  "MALLOC_DEBUG_INDENT indent d = (if malloc_debug_var d \<noteq> 0 then malloc_debug_indent indent d else d)"

text \<open>\<open>atoi\<close> of the C library: blanks, a sign, digits. Numbers outside the range of \<open>int\<close> are not specified.\<close>

definition atoi :: "byte list \<Rightarrow> 32 word" where
  "atoi xs =
     (let ys = dropWhile (\<lambda>c. c = 32 \<or> 9 \<le> c \<and> c \<le> 13) xs;
          digits = (\<lambda>zs. foldl (\<lambda>v c. 10 * v + (uint c - 48)) 0 (takeWhile (\<lambda>c. 48 \<le> c \<and> c \<le> 57) zs))
      in word_of_int (case ys of [] \<Rightarrow> 0 | c # zs \<Rightarrow> if c = 45 then - digits zs else if c = 43 then digits zs else digits ys))"

definition flag_text :: "32 word \<Rightarrow> 32 word \<Rightarrow> byte list" where
  "flag_text v b = dec_text (if v AND b \<noteq> 0 then 1 else 0)"

text \<open>
  \<open>__malloc_debug_init\<close> with the result of \<open>getenv\<close>; \<open>mmb\<close> and \<open>hp\<close> say whether \<open>MALLOC_MMB_DEBUGGING\<close> and
  \<open>HEAP_DEBUGGING\<close> are defined.
\<close>

definition malloc_debug_init :: "bool \<Rightarrow> bool \<Rightarrow> byte list option \<Rightarrow> debug_state \<Rightarrow> debug_state" where
  "malloc_debug_init mmb hp ev d =
     (case ev of
        None \<Rightarrow> d
      | Some xs \<Rightarrow>
          let val = atoi xs;
              d = (if val AND 1 \<noteq> 0 then d\<lparr>malloc_check_var := 1\<rparr> else d);
              d = (if val AND 2 \<noteq> 0 then d\<lparr>malloc_debug_var := 1\<rparr> else d);
              d = (if mmb \<and> val AND 4 \<noteq> 0 then d\<lparr>malloc_mmb_debug_var := 1\<rparr> else d);
              d = (if hp \<and> val AND 8 \<noteq> 0 then d\<lparr>heap_debug_var := 1\<rparr> else d)
          in if val \<noteq> 0 then
               malloc_debug_printf 0
                 (lit ''malloc_debug: initialized to '' @ dec_text (sint val) @ lit '' (check = '' @ flag_text val 1 @
                  lit '', dump = '' @ flag_text val 2 @ lit '', dump_mmb = '' @ flag_text val 4 @
                  lit '', dump_heap = '' @ flag_text val 8 @ lit '')'') d
             else d)"

section \<open>Dumping the heap\<close>

definition hex_of :: "addr \<Rightarrow> byte list" where
  "hex_of a = lit ''0x'' @ hex_text (unat a)"

text \<open>The size is a 64-bit number that \<open>%d\<close> prints as an \<open>int\<close>.\<close>

definition free_area_line :: "mem \<Rightarrow> addr \<Rightarrow> byte list" where
  "free_area_line m fa =
     hex_of fa @ lit '':  '' @ hex_of (HEAP_FREE_AREA_START m fa) @ lit '' - '' @ hex_of (HEAP_FREE_AREA_END fa) @
     lit ''  ('' @ dec_text (sint (ucast (fa_size m fa) :: 32 word)) @ lit '')'' @ [9] @
     lit ''P='' @ hex_of (fa_prev m fa) @ lit '', N='' @ hex_of (fa_next m fa)"

partial_function (option) heap_dump_freelist :: "mem \<Rightarrow> addr \<Rightarrow> debug_state \<Rightarrow> debug_state option" where
  "heap_dump_freelist m fa d =
     (if fa = NULL then Some d
      else heap_dump_freelist m (fa_next m fa) (malloc_debug_printf 0 (free_area_line m fa) d))"

section \<open>The check with its report\<close>

text \<open>\<open>__heap_check_failure\<close>; \<open>str\<close> is the label, which may be missing, and \<open>text\<close> the message.\<close>

definition heap_check_failure :: "mem \<Rightarrow> addr \<Rightarrow> byte list option \<Rightarrow> byte list \<Rightarrow> debug_state \<Rightarrow> unit reported" where
  "heap_check_failure m heap str text d =
     (let d = (case str of
                 Some s \<Rightarrow> put_err (newline @ lit ''HEAP CHECK FAILURE '' @ s @ lit '': '') d
               | None \<Rightarrow> put_err (newline @ lit ''HEAP CHECK FAILURE: '') d);
          d = put_err text d;
          d = put_err newline d;
          d = malloc_debug_set_indent 0 d;
          d = malloc_debug_printf 1 (lit ''heap dump:'') d
      in map_option (\<lambda>d. (d, Inl (Exited 22))) (heap_dump_freelist m heap d))"

text \<open>A line of a report: a field of an area and its value.\<close>

definition field_line :: "addr \<Rightarrow> string \<Rightarrow> addr \<Rightarrow> byte list" where
  "field_line a name v = lit ''    ('' @ hex_of a @ lit '')->'' @ lit name @ lit ''= '' @ hex_of v @ newline"

definition first_prev_report :: "mem \<Rightarrow> addr \<Rightarrow> byte list" where
  "first_prev_report m first_fa =
     lit ''first free-area has non-zero prev pointer:'' @ newline @
     lit ''    first free-area = '' @ hex_of first_fa @ newline @
     field_line first_fa ''prev   '' (fa_prev m first_fa)"

definition alignment_report :: "mem \<Rightarrow> addr \<Rightarrow> byte list" where
  "alignment_report m fa =
     lit ''alignment error:'' @ newline @
     field_line fa ''start '' (HEAP_FREE_AREA_START m fa) @ field_line fa ''size  '' (fa_size m fa)"

definition prev_report :: "mem \<Rightarrow> addr \<Rightarrow> addr \<Rightarrow> byte list" where
  "prev_report m prev fa =
     lit ''prev pointer corrupted:'' @ newline @
     field_line prev ''next '' (fa_next m prev) @ field_line fa ''prev '' (fa_prev m fa)"

definition start_report :: "mem \<Rightarrow> addr \<Rightarrow> addr \<Rightarrow> byte list" where
  "start_report m prev fa =
     (let start = HEAP_FREE_AREA_START m fa; prev_end = HEAP_FREE_AREA_END prev
      in lit ''start '' @ lit (if prev_end = start then ''unmerged'' else ''overlaps'') @ lit '' with prev free-area end:'' @ newline @
         field_line fa ''prev  '' prev @ field_line fa ''start '' start @ field_line prev ''end   '' prev_end)"

text \<open>\<open>__heap_check\<close>: the conditions of \<open>heap_check\<close>, with their reports.\<close>

partial_function (option) heap_check_report_loop ::
  "mem \<Rightarrow> addr \<Rightarrow> byte list option \<Rightarrow> addr \<Rightarrow> addr \<Rightarrow> debug_state \<Rightarrow> unit reported" where
  "heap_check_report_loop m heap str prev fa d =
     (if fa = NULL then Some (d, Inr ())
      else if HEAP_FREE_AREA_END fa AND (HEAP_GRANULARITY - 1) \<noteq> 0 \<or> fa_size m fa AND (HEAP_GRANULARITY - 1) \<noteq> 0
      then heap_check_failure m heap str (alignment_report m fa) d
      else if fa_prev m fa \<noteq> prev
      then (if prev = NULL then Some (d, Inl Null_deref) else heap_check_failure m heap str (prev_report m prev fa) d)
      else if prev \<noteq> NULL \<and> HEAP_FREE_AREA_START m fa \<le> HEAP_FREE_AREA_END prev
      then heap_check_failure m heap str (start_report m prev fa) d
      else heap_check_report_loop m heap str fa (fa_next m fa) d)"

definition heap_check_report :: "mem \<Rightarrow> addr \<Rightarrow> byte list option \<Rightarrow> debug_state \<Rightarrow> unit reported" where
  "heap_check_report m heap str d =
     (if heap \<noteq> NULL \<and> fa_prev m heap \<noteq> NULL then heap_check_failure m heap str (first_prev_report m heap) d
      else heap_check_report_loop m heap str NULL heap d)"

definition heap_dump :: "mem \<Rightarrow> addr \<Rightarrow> byte list \<Rightarrow> debug_state \<Rightarrow> unit reported" where
  "heap_dump m heap str d =
     (if recursed d then Some (d, Inr ())
      else case heap_check_report m heap (Some str) d of
          None \<Rightarrow> None
        | Some (d, Inl e) \<Rightarrow> Some (d, Inl e)
        | Some (d, Inr _) \<Rightarrow>
            let d = d\<lparr>recursed := True\<rparr>;
                d = malloc_debug_printf 1 (str @ lit '': heap @'' @ hex_of heap @ lit '':'') d
            in map_option (\<lambda>d. ((malloc_debug_indent (- 1) d)\<lparr>recursed := False\<rparr>, Inr ())) (heap_dump_freelist m heap d))"

text \<open>The macro \<open>HEAP_DEBUG\<close> when \<open>HEAP_DEBUGGING\<close> is defined.\<close>

definition HEAP_DEBUG :: "mem \<Rightarrow> addr \<Rightarrow> byte list \<Rightarrow> debug_state \<Rightarrow> unit reported" where
  "HEAP_DEBUG m heap str d = (if heap_debug_var d \<noteq> 0 then heap_dump m heap str d else Some (d, Inr ()))"

text \<open>What \<open>malloc\<close> does first in a build with \<open>MALLOC_DEBUGGING\<close>; \<open>heap\<close> is \<open>__malloc_heap\<close>.\<close>

definition malloc_debug_entry :: "bool \<Rightarrow> bool \<Rightarrow> byte list option \<Rightarrow> mem \<Rightarrow> addr \<Rightarrow> debug_state \<Rightarrow> unit reported" where
  "malloc_debug_entry mmb hp ev m heap d =
     (let d = (if \<not> debugging_initialized d then malloc_debug_init mmb hp ev (d\<lparr>debugging_initialized := True\<rparr>) else d)
      in if malloc_check_var d \<noteq> 0 then heap_check_report m heap (Some (lit ''malloc'')) d else Some (d, Inr ()))"

section \<open>Lemmas\<close>

lemma put_err_simps [simp]:
  "put_err ys (put_err xs d) = put_err (xs @ ys) d" "cur_indent (put_err xs d) = cur_indent d" "recursed (put_err xs d) = recursed d"
  "put_err [] d = d" "err_text (put_err xs d) = err_text d @ xs"
  by (simp_all add: put_err_def)

lemma put_spaces_text: "put_spaces n d = put_err (replicate n 32) d"
  by (induction n arbitrary: d) (simp_all add: replicate_append_same)

text \<open>One line at an indentation.\<close>

definition debug_line :: "32 word \<Rightarrow> byte list \<Rightarrow> byte list" where
  "debug_line level text = replicate (unat (level * 3)) 32 @ text @ newline"

lemma malloc_debug_printf_line:
  "malloc_debug_printf i text d = malloc_debug_indent i (put_err (debug_line (cur_indent d) text) d)"
  by (simp add: malloc_debug_printf_def put_spaces_text debug_line_def MALLOC_DEBUG_INDENT_SIZE_def Let_def)

lemma malloc_debug_indent_0 [simp]: "malloc_debug_indent 0 d = d"
  by (simp add: malloc_debug_indent_def)

text \<open>The nodes of a chain that ends, whatever else they hold.\<close>

primrec linked :: "mem \<Rightarrow> addr \<Rightarrow> addr list \<Rightarrow> bool" where
  "linked m fa [] \<longleftrightarrow> fa = NULL"
| "linked m fa (n # ns) \<longleftrightarrow> fa = n \<and> n \<noteq> NULL \<and> linked m (fa_next m n) ns"

lemma checked_linked: "checked_chain m prev fa ns \<Longrightarrow> linked m fa ns"
  by (induction ns arbitrary: prev fa) auto

lemma heap_dump_freelist_linked:
  "linked m fa ns \<Longrightarrow> heap_dump_freelist m fa d =
     Some (put_err (concat (map (\<lambda>n. debug_line (cur_indent d) (free_area_line m n)) ns)) d)"
proof (induction ns arbitrary: fa d)
  case Nil
  then show ?case by (simp add: heap_dump_freelist.simps)
next
  case (Cons n ns)
  then show ?case
    by (subst heap_dump_freelist.simps) (simp add: malloc_debug_printf_line)
qed

text \<open>A failure never returns normally.\<close>

lemma heap_check_failure_exits: "heap_check_failure m heap str text d = Some (d', r) \<Longrightarrow> r = Inl (Exited 22)"
  by (auto simp: heap_check_failure_def Let_def split: option.splits)

lemma heap_check_failure_linked:
  assumes "linked m heap ns"
  shows "\<exists>d'. heap_check_failure m heap str text d = Some (d', Inl (Exited 22))"
  by (simp add: heap_check_failure_def Let_def heap_dump_freelist_linked [OF assms] split: option.split)

text \<open>The report agrees with the check without messages.\<close>

lemma report_loop_ok: "checked_chain m prev fa ns \<Longrightarrow> heap_check_report_loop m heap str prev fa d = Some (d, Inr ())"
proof (induction ns arbitrary: prev fa)
  case Nil
  then show ?case by (simp add: heap_check_report_loop.simps)
next
  case (Cons n ns)
  then show ?case by (subst heap_check_report_loop.simps) (auto simp: granularity_mask not_le)
qed

lemma report_loop_sound:
  assumes "heap_check_report_loop m heap str prev fa d = Some q"
  shows "(prev = NULL \<longrightarrow> fa = NULL \<or> fa_prev m fa = NULL) \<longrightarrow>
    snd q = Inl (Exited 22) \<or> (\<exists>ns. checked_chain m prev fa ns) \<and> q = (d, Inr ())"
proof (rule heap_check_report_loop.raw_induct [OF _ assms], intro impI, goal_cases)
  case (1 loop m heap str prev fa d q)
  show ?case
  proof (cases "fa = NULL")
    case True
    then have "checked_chain m prev fa []" by simp
    then show ?thesis using 1(2) True by (intro disjI2 conjI exI [of _ "[]"]) auto
  next
    case False
    note step = 1(2) [unfolded if_not_P [OF False]]
    show ?thesis
    proof (cases "snd q = Inl (Exited 22)")
      case ok: False
      then have f: "heap_check_failure m heap str t d \<noteq> Some q" for t
        using heap_check_failure_exits [of m heap str t d "fst q" "snd q"] by auto
      have c: "8 dvd unat (HEAP_FREE_AREA_END fa) \<and> 8 dvd unat (fa_size m fa) \<and> fa_prev m fa = prev \<and>
          (prev \<noteq> NULL \<longrightarrow> HEAP_FREE_AREA_END prev < HEAP_FREE_AREA_START m fa) \<and> loop m heap str fa (fa_next m fa) d = Some q"
        using step f 1(3) False by (auto simp: granularity_mask not_le split: if_splits)
      with 1(1) [of m heap str fa "fa_next m fa" d q] ok False
      obtain ns where ns: "checked_chain m fa (fa_next m fa) ns" "q = (d, Inr ())" by blast
      with c False have "checked_chain m prev fa (fa # ns)" by simp
      then show ?thesis using ns(2) by blast
    qed simp
  qed
qed

text \<open>On a chain that ends the check ends.\<close>

lemma report_loop_ends:
  "linked m heap hs \<Longrightarrow> linked m fa ns \<Longrightarrow> heap_check_report_loop m heap str prev fa d \<noteq> None"
proof (induction ns arbitrary: prev fa)
  case Nil
  then show ?case by (simp add: heap_check_report_loop.simps)
next
  case (Cons n ns)
  have "heap_check_failure m heap str t d \<noteq> None" for t using heap_check_failure_linked [OF Cons.prems(1), of str t d] by auto
  with Cons show ?case by (subst heap_check_report_loop.simps) (simp del: not_None_eq)
qed

lemma heap_check_report_ok: "checked_chain m NULL heap ns \<Longrightarrow> heap_check_report m heap str d = Some (d, Inr ())"
  using report_loop_ok [of m NULL heap ns] by (cases ns) (auto simp: heap_check_report_def)

lemma heap_check_report_sound:
  assumes "heap_check_report m heap str d = Some q"
  shows "snd q = Inl (Exited 22) \<or> (\<exists>ns. checked_chain m NULL heap ns) \<and> q = (d, Inr ())"
proof (cases "heap \<noteq> NULL \<and> fa_prev m heap \<noteq> NULL")
  case True
  with assms heap_check_failure_exits [of m heap str _ d "fst q" "snd q"] show ?thesis by (auto simp: heap_check_report_def)
next
  case False
  with assms have "heap_check_report_loop m heap str NULL heap d = Some q" by (simp add: heap_check_report_def)
  from report_loop_sound [OF this] False show ?thesis by blast
qed

lemma heap_check_report_ends: "linked m heap ns \<Longrightarrow> heap_check_report m heap str d \<noteq> None"
  using report_loop_ends [of m heap ns heap ns] heap_check_failure_linked [of m heap ns str "first_prev_report m heap" d]
  by (auto simp: heap_check_report_def)

text \<open>The heap of the allocator is such a chain, so a debugging build of \<open>malloc\<close> gets past its first check.\<close>

lemma heap_inv_checked: "heap_inv m h As \<Longrightarrow> checked_chain m NULL (load64 m (ptr h)) (map (\<lambda>A. ptr (nn A)) As)"
  using heap_inv_chain [OF heap_invD(1,6,5)] heap_invD(7) by simp

lemma malloc_debug_entry_returns:
  assumes "heap_inv m h As"
  shows "malloc_debug_entry mmb hp ev m (load64 m (ptr h)) d =
    Some (if debugging_initialized d then d else malloc_debug_init mmb hp ev (d\<lparr>debugging_initialized := True\<rparr>), Inr ())"
  using heap_check_report_ok [OF heap_inv_checked [OF assms]] by (simp add: malloc_debug_entry_def Let_def)

text \<open>The text of a dump that begins at an indentation.\<close>

definition dump_text :: "mem \<Rightarrow> addr \<Rightarrow> byte list \<Rightarrow> addr list \<Rightarrow> 32 word \<Rightarrow> byte list" where
  "dump_text m heap str ns level =
     debug_line level (str @ lit '': heap @'' @ hex_of heap @ lit '':'') @
     concat (map (\<lambda>n. debug_line (level + 1) (free_area_line m n)) ns)"

section \<open>Property\<close>


section \<open>Example\<close>

definition quiet :: debug_state where
  "quiet = \<lparr>malloc_debug_var = 0, malloc_check_var = 0, malloc_mmb_debug_var = 0, heap_debug_var = 0, cur_indent = 0,
     recursed = False, debugging_initialized = False, err_text = []\<rparr>"


end
