(* ===== verification/Linkmap.thy ===== *)
theory Linkmap
  imports Malloc
begin

text \<open>
  The data of the dynamic loader (\<open>include/link.h\<close>, \<open>include/ldsodefs.h\<close>, \<open>include/lookup.h\<close>): the
  \<open>struct link_map\<close> that describes a mapped object, the globals \<open>_rtld_global\<close> and
  \<open>_rtld_global_ro\<close>, and the access macros of the dynamic section. Link maps live in a store from
  addresses to records; the ELF structures of the mapped objects (\<open>Dyn\<close>, \<open>Sym\<close>, \<open>Rela\<close>, \<open>Phdr\<close>, \<open>Ehdr\<close>,
  hash tables, strings) are read from the byte memory at the offsets the ELF-64 ABI gives.
\<close>

section \<open>Link maps\<close>

text \<open>\<open>l_info\<close> holds addresses of \<open>Dyn\<close> entries, indexed by tag; \<open>l_reserved\<close> has two bits.\<close>

record link_map =
  l_addr :: addr
  l_name :: addr
  l_ld :: addr
  l_next :: addr
  l_prev :: addr
  l_phdr :: addr
  l_entry :: addr
  l_phnum :: "16 word"
  l_ldnum :: "16 word"
  l_map_start :: addr
  l_map_end :: addr
  l_text_end :: addr
  l_info :: "nat \<Rightarrow> addr"
  r_list :: addr
  r_nlist :: "32 word"
  l_relocated :: bool
  l_contiguous :: bool
  l_reserved :: "2 word"
  l_relro_addr :: addr
  l_relro_size :: addr
  l_nbuckets :: "32 word"
  l_gnu_bitmask :: addr
  l_chain :: addr
  l_buckets :: addr

text \<open>
  What the build and the link fix: the kernel, the addresses of \<open>__malloc_heap\<close> and of the static free area, \<open>DT_NUM\<close> and the size of
  \<open>struct link_map\<close> (both depend on the version of \<open>elf.h\<close>), the addresses of the symbols
  \<open>runtime_resolve\<close>, \<open>_start\<close> and \<open>_begin\<close>, of the string literals the code uses (\<open>"%s/%s"\<close>, \<open>"/lib"\<close>,
  \<open>"/usr/lib"\<close>, \<open>"."\<close>, \<open>"RTLD"\<close>, \<open>"main-program"\<close>), and of the buffers on the stack: \<open>namebuf\<close> of
  \<open>open_path\<close>, \<open>fb.buf\<close> and the copy of the program headers in \<open>map_object_fd\<close>, the head and the
  nodes of the run list in \<open>map_object_deps\<close>.
\<close>

record 'w env =
  kern :: "'w kernel"
  heap_var :: addr
  initial_fa :: addr
  dt_num :: nat
  sizeof_link_map :: addr
  runtime_resolve :: addr
  start_sym :: addr
  begin_sym :: addr
  path_fmt :: addr
  lit_lib :: addr
  lit_usr_lib :: addr
  lit_dot :: addr
  lit_RTLD :: addr
  lit_main :: addr
  namebuf :: addr
  filebuf :: addr
  phdrbuf :: addr
  runhead :: addr
  runnode :: "nat \<Rightarrow> addr"

text \<open>
  The state of the loader: memory and kernel (\<open>lst\<close>), the link maps, \<open>GL(namespace)\<close>, the
  \<open>MAX_PATH + 1\<close> cells of \<open>GL(rpath)\<close>, \<open>GLRO(dl_pagesize)\<close> and \<open>GL(dl_stack_flags)\<close>.
\<close>

record 'w rtld =
  lst :: "'w lstate"
  maps :: "addr \<Rightarrow> link_map"
  namespace :: addr
  rpath :: "addr list"
  dl_pagesize :: addr
  dl_stack_flags :: "32 word"

definition MAX_PATH :: nat where
  "MAX_PATH = 10"

abbreviation rmem :: "'w rtld \<Rightarrow> mem" where
  "rmem s \<equiv> smem (lst s)"

definition set_rmem :: "mem \<Rightarrow> 'w rtld \<Rightarrow> 'w rtld" where
  "set_rmem m s = s\<lparr>lst := (lst s)\<lparr>smem := m\<rparr>\<rparr>"

definition upd_map :: "addr \<Rightarrow> (link_map \<Rightarrow> link_map) \<Rightarrow> 'w rtld \<Rightarrow> 'w rtld" where
  "upd_map l f s = s\<lparr>maps := (maps s)(l := f (maps s l))\<rparr>"

definition init_link_map :: link_map where
  "init_link_map =
     \<lparr>l_addr = 0, l_name = NULL, l_ld = NULL, l_next = NULL, l_prev = NULL, l_phdr = NULL, l_entry = 0,
      l_phnum = 0, l_ldnum = 0, l_map_start = - 1, l_map_end = 0, l_text_end = 0, l_info = (\<lambda>_. NULL),
      r_list = NULL, r_nlist = 0, l_relocated = False, l_contiguous = False, l_reserved = 0,
      l_relro_addr = 0, l_relro_size = 0, l_nbuckets = 0, l_gnu_bitmask = 0, l_chain = NULL, l_buckets = NULL\<rparr>"

definition create_link_map :: "'w env \<Rightarrow> 'w rtld \<Rightarrow> ('w rtld \<times> addr) outcome" where
  "create_link_map E s =
     obind (emalloc (kern E) (heap_var E) (sizeof_link_map E) (lst s)) (\<lambda>(t, l).
       oreturn (upd_map l (\<lambda>_. init_link_map) (s\<lparr>lst := t\<rparr>), l))"

section \<open>The dynamic section\<close>

definition DT_NULL :: nat where "DT_NULL = 0"
definition DT_NEEDED :: nat where "DT_NEEDED = 1"
definition DT_PLTRELSZ :: nat where "DT_PLTRELSZ = 2"
definition DT_PLTGOT :: nat where "DT_PLTGOT = 3"
definition DT_HASH :: nat where "DT_HASH = 4"
definition DT_STRTAB :: nat where "DT_STRTAB = 5"
definition DT_SYMTAB :: nat where "DT_SYMTAB = 6"
definition DT_RELA :: nat where "DT_RELA = 7"
definition DT_RELASZ :: nat where "DT_RELASZ = 8"
definition DT_RELAENT :: nat where "DT_RELAENT = 9"
definition DT_SYMENT :: nat where "DT_SYMENT = 11"
definition DT_RPATH :: nat where "DT_RPATH = 15"
definition DT_PLTREL :: nat where "DT_PLTREL = 20"
definition DT_JMPREL :: nat where "DT_JMPREL = 23"
definition DT_AUXILIARY :: nat where "DT_AUXILIARY = 0x7ffffffd"
definition DT_FILTER :: nat where "DT_FILTER = 0x7fffffff"

lemmas DT_defs = DT_NULL_def DT_NEEDED_def DT_PLTRELSZ_def DT_PLTGOT_def DT_HASH_def DT_STRTAB_def
  DT_SYMTAB_def DT_RELA_def DT_RELASZ_def DT_RELAENT_def DT_SYMENT_def DT_RPATH_def DT_PLTREL_def
  DT_JMPREL_def DT_AUXILIARY_def DT_FILTER_def

text \<open>\<open>Elf64_Dyn\<close>: \<open>d_tag\<close> (signed) at 0, \<open>d_un\<close> at 8, 16 bytes.\<close>

definition d_tag :: "mem \<Rightarrow> addr \<Rightarrow> 64 word" where
  "d_tag m dyn = load64 m dyn"

definition d_un :: "mem \<Rightarrow> addr \<Rightarrow> 64 word" where
  "d_un m dyn = load64 m (dyn + 8)"

definition sizeof_Dyn :: addr where
  "sizeof_Dyn = 16"

definition D_VALID :: "link_map \<Rightarrow> nat \<Rightarrow> bool" where
  "D_VALID L i \<longleftrightarrow> l_info L i \<noteq> NULL"

definition D_VAL :: "mem \<Rightarrow> link_map \<Rightarrow> nat \<Rightarrow> addr outcome" where
  "D_VAL m L i = (if l_info L i = NULL then ostop Null_deref else oreturn (d_un m (l_info L i)))"

definition D_PTR :: "mem \<Rightarrow> link_map \<Rightarrow> nat \<Rightarrow> addr outcome" where
  "D_PTR m L i = (if l_info L i = NULL then ostop Null_deref else oreturn (d_un m (l_info L i) + l_addr L))"

section \<open>Symbols and relocations\<close>

text \<open>\<open>Elf64_Sym\<close> has 24 bytes, \<open>Elf64_Rela\<close> too.\<close>

definition sizeof_Sym :: addr where
  "sizeof_Sym = 24"

definition st_name :: "mem \<Rightarrow> addr \<Rightarrow> 32 word" where
  "st_name m p = load32 m p"

definition st_info :: "mem \<Rightarrow> addr \<Rightarrow> byte" where
  "st_info m p = m (p + 4)"

definition st_shndx :: "mem \<Rightarrow> addr \<Rightarrow> 16 word" where
  "st_shndx m p = load16 m (p + 6)"

definition st_value :: "mem \<Rightarrow> addr \<Rightarrow> addr" where
  "st_value m p = load64 m (p + 8)"

definition sizeof_Rela :: addr where
  "sizeof_Rela = 24"

definition r_offset :: "mem \<Rightarrow> addr \<Rightarrow> addr" where
  "r_offset m rela = load64 m rela"

definition r_info :: "mem \<Rightarrow> addr \<Rightarrow> addr" where
  "r_info m rela = load64 m (rela + 8)"

definition r_addend :: "mem \<Rightarrow> addr \<Rightarrow> addr" where
  "r_addend m rela = load64 m (rela + 16)"

definition ELF64_R_SYM :: "addr \<Rightarrow> addr" where
  "ELF64_R_SYM i = drop_bit 32 i"

definition ELF64_R_TYPE :: "addr \<Rightarrow> addr" where
  "ELF64_R_TYPE i = i AND 0xffffffff"

section \<open>The namespace\<close>

text \<open>\<open>ns_list mp l ls\<close>: following \<open>l_next\<close> from \<open>l\<close> visits the link maps \<open>ls\<close> and ends.\<close>

fun ns_list :: "(addr \<Rightarrow> link_map) \<Rightarrow> addr \<Rightarrow> addr list \<Rightarrow> bool" where
  "ns_list mp l [] \<longleftrightarrow> l = NULL"
| "ns_list mp l (x # xs) \<longleftrightarrow> l = x \<and> x \<noteq> NULL \<and> ns_list mp (l_next (mp x)) xs"

lemma ns_list_unique: "ns_list mp l xs \<Longrightarrow> ns_list mp l ys \<Longrightarrow> xs = ys"
proof (induction xs arbitrary: l ys)
  case Nil
  then show ?case by (cases ys) auto
next
  case (Cons x xs)
  then show ?case by (cases ys) auto
qed

lemma ns_list_cong:
  "(\<And>x. x \<in> set xs \<Longrightarrow> l_next (mp' x) = l_next (mp x)) \<Longrightarrow> ns_list mp' l xs \<longleftrightarrow> ns_list mp l xs"
  by (induction xs arbitrary: l) auto

lemma ns_list_suffix: "ns_list mp l (ys @ x # zs) \<Longrightarrow> ns_list mp (l_next (mp x)) zs"
  by (induction ys arbitrary: l) auto

lemma ns_list_distinct: "ns_list mp l xs \<Longrightarrow> distinct xs"
proof (induction xs arbitrary: l)
  case (Cons x xs)
  have "x \<notin> set xs"
  proof
    assume "x \<in> set xs"
    then obtain ys zs where xs: "xs = ys @ x # zs" by (auto dest: split_list)
    have rest: "ns_list mp (l_next (mp x)) xs" using Cons.prems by simp
    have "ns_list mp (l_next (mp x)) zs" by (rule ns_list_suffix) (use rest xs in simp)
    then have "xs = zs" by (rule ns_list_unique [OF rest])
    moreover have "length zs < length xs" using xs by simp
    ultimately show False by simp
  qed
  with Cons show ?case by auto
qed simp

end
