(* ===== verification/Lookup.thy ===== *)
theory Lookup
  imports Linkmap
begin

text \<open>
  Symbol lookup (\<open>rtld/lookup.c\<close>): the ELF hash and the search of \<open>lookup_symbol\<close> through the objects of
  the namespace. The hash is proved equal to the algorithm of the ELF ABI that the code's comment
  quotes; the search is proved to return the definition in the first object, in namespace order, that
  provides the name, given hash tables that list every defined symbol. The locale \<open>symbol_scope\<close> is
  what relocation relies on: the result depends on the lookup data only.
\<close>

section \<open>The hash\<close>

definition elf_hash_step :: "addr \<Rightarrow> byte \<Rightarrow> addr" where
  "elf_hash_step hash c =
     (let hash = push_bit 4 hash + ucast c;
          hi = hash AND 0xf0000000;
          hash = hash XOR hi
      in hash XOR drop_bit 24 hi)"

partial_function (option) elf_hash_loop :: "mem \<Rightarrow> addr \<Rightarrow> addr \<Rightarrow> addr option" where
  "elf_hash_loop m name hash =
     (if m name = 0 then Some hash else elf_hash_loop m (name + 1) (elf_hash_step hash (m name)))"

definition elf_hash :: "mem \<Rightarrow> addr \<Rightarrow> 32 word option" where
  "elf_hash m name_arg = map_option ucast (elf_hash_loop m name_arg 0)"

section \<open>The search\<close>

definition STN_UNDEF :: "32 word" where "STN_UNDEF = 0"
definition SHN_UNDEF :: "16 word" where "SHN_UNDEF = 0"

text \<open>\<open>STT_NOTYPE\<close>, \<open>STT_OBJECT\<close>, \<open>STT_FUNC\<close>, \<open>STT_COMMON\<close>\<close>

definition definition_type :: "byte \<Rightarrow> bool" where
  "definition_type info \<longleftrightarrow> info AND 15 = 0 \<or> info AND 15 = 1 \<or> info AND 15 = 2 \<or> info AND 15 = 5"

definition check_match :: "mem \<Rightarrow> addr \<Rightarrow> addr \<Rightarrow> addr \<Rightarrow> bool option" where
  "check_match m strtab name sy =
     (if st_value m sy = 0 \<or> st_shndx m sy = SHN_UNDEF then Some False
      else if \<not> definition_type (st_info m sy) then Some False
      else do {
        r \<leftarrow> strcmp m (strtab + ucast (st_name m sy)) name;
        Some (r = 0)
      })"

partial_function (option) lookup_chain ::
  "mem \<Rightarrow> addr \<Rightarrow> addr \<Rightarrow> addr \<Rightarrow> addr \<Rightarrow> 32 word \<Rightarrow> addr option option" where
  "lookup_chain m symtab strtab chn name symidx =
     (if symidx = STN_UNDEF then Some None
      else do {
        b \<leftarrow> check_match m strtab name (symtab + sizeof_Sym * ucast symidx);
        if b then Some (Some (symtab + sizeof_Sym * ucast symidx))
        else lookup_chain m symtab strtab chn name (load32 m (chn + 4 * ucast symidx))
      })"

text \<open>
  The loop over the namespace. \<open>D_PTR\<close> reads through \<open>l_info\<close> before anything is tested; the
  division \<open>hash % l_nbuckets\<close> stops the process when there is no hash table. The result is the symbol
  and its object, or nothing when the function returns 1.
\<close>

partial_function (option) lookup_from ::
  "mem \<Rightarrow> (addr \<Rightarrow> link_map) \<Rightarrow> addr \<Rightarrow> addr \<Rightarrow> 32 word \<Rightarrow> addr \<Rightarrow> (addr \<times> addr) option outcome" where
  "lookup_from m mp skip name hash l =
     (if l = NULL then oreturn None
      else obind (D_PTR m (mp l) DT_SYMTAB) (\<lambda>symtab. obind (D_PTR m (mp l) DT_STRTAB) (\<lambda>strtab.
        if l = skip \<or> symtab = NULL \<or> strtab = NULL
        then lookup_from m mp skip name hash (l_next (mp l))
        else if l_nbuckets (mp l) = 0 then ostop Div_by_zero
        else obind (olift (lookup_chain m symtab strtab (l_chain (mp l)) name
                     (load32 m (l_buckets (mp l) + 4 * ucast (hash mod l_nbuckets (mp l)))))) (\<lambda>r.
          case r of Some sy \<Rightarrow> oreturn (Some (sy, l))
          | None \<Rightarrow> lookup_from m mp skip name hash (l_next (mp l))))))"

definition lookup_symbol ::
  "mem \<Rightarrow> (addr \<Rightarrow> link_map) \<Rightarrow> addr \<Rightarrow> addr \<Rightarrow> addr \<Rightarrow> (addr \<times> addr) option outcome" where
  "lookup_symbol m mp ns skip name =
     obind (olift (elf_hash m name)) (\<lambda>hash. lookup_from m mp skip name hash ns)"

section \<open>The hash of the ABI\<close>

text \<open>The algorithm the comment quotes, on 32-bit words.\<close>

definition abi_hash_step :: "32 word \<Rightarrow> byte \<Rightarrow> 32 word" where
  "abi_hash_step h c =
     (let h = push_bit 4 h + ucast c;
          hi = h AND 0xf0000000;
          h = (if hi \<noteq> 0 then h XOR drop_bit 24 hi else h)
      in h AND NOT hi)"

definition abi_hash :: "byte list \<Rightarrow> 32 word" where
  "abi_hash cs = foldl abi_hash_step 0 cs"

lemma ucast_down_plus: "(ucast (a + b :: 64 word) :: 32 word) = ucast a + ucast b"
proof (transfer, simp)
  fix a b :: int
  have "take_bit 32 (take_bit 64 a + take_bit 64 b) =
          take_bit 32 (take_bit 32 (take_bit 64 a) + take_bit 32 (take_bit 64 b))"
    by (simp only: take_bit_add)
  also have "\<dots> = take_bit 32 (a + b)" by (simp add: take_bit_add)
  finally show "take_bit 32 (a + b) = take_bit 32 (take_bit 64 a + take_bit 64 b)" by simp
qed

lemma hi_mask: "(0xf0000000 :: 64 word) = push_bit 28 (mask 4)" "(0xf0000000 :: 32 word) = push_bit 28 (mask 4)"
  by (simp_all add: mask_eq_exp_minus_1 push_bit_eq_mult)

lemma ucast_down_push: "(ucast (push_bit n (a :: 64 word)) :: 32 word) = push_bit n (ucast a)"
  by (rule bit_word_eqI) (auto simp: bit_simps)

lemma ucast_byte: "(ucast (ucast (c :: byte) :: 64 word) :: 32 word) = ucast c"
  by (rule bit_word_eqI) (auto simp: bit_simps)

lemma hash_fold_ucast:
  "(ucast ((x XOR (x AND 0xf0000000)) XOR drop_bit 24 (x AND 0xf0000000) :: 64 word) :: 32 word) =
     (ucast x XOR (ucast x AND 0xf0000000)) XOR drop_bit 24 (ucast x AND 0xf0000000)"
  unfolding hi_mask by (rule bit_word_eqI) (auto simp: bit_simps)

lemma hash_fold_abi:
  "(y XOR (y AND 0xf0000000)) XOR drop_bit 24 (y AND 0xf0000000) =
     (y XOR drop_bit 24 (y AND 0xf0000000)) AND NOT (y AND 0xf0000000 :: 32 word)"
  unfolding hi_mask by (rule bit_word_eqI) (auto simp: bit_simps)

lemma elf_hash_step_abi: "(ucast (elf_hash_step h c) :: 32 word) = abi_hash_step (ucast h) c"
proof -
  define x where "x = push_bit 4 h + (ucast c :: 64 word)"
  define y where "y = push_bit 4 (ucast h) + (ucast c :: 32 word)"
  define hi where "hi = y AND 0xf0000000"
  have xy: "ucast x = y" by (simp add: x_def y_def ucast_down_plus ucast_down_push ucast_byte)
  have "(ucast (elf_hash_step h c) :: 32 word) = (y XOR hi) XOR drop_bit 24 hi"
    unfolding elf_hash_step_def Let_def x_def [symmetric] hash_fold_ucast xy hi_def ..
  also have "\<dots> = (y XOR drop_bit 24 hi) AND NOT hi"
    unfolding hi_def by (rule hash_fold_abi)
  also have "\<dots> = (if hi \<noteq> 0 then y XOR drop_bit 24 hi else y) AND NOT hi"
    by simp
  also have "\<dots> = abi_hash_step (ucast h) c"
    unfolding abi_hash_step_def Let_def y_def [symmetric] hi_def [symmetric] ..
  finally show ?thesis .
qed

lemma elf_hash_loop_abi:
  "cstr m s xs \<Longrightarrow> \<exists>r. elf_hash_loop m (ptr s) h = Some r \<and> ucast r = foldl abi_hash_step (ucast h) xs"
proof (induction xs arbitrary: s h)
  case Nil
  then show ?case by (subst elf_hash_loop.simps) simp
next
  case (Cons x xs)
  from Cons.IH [of "Suc s" "elf_hash_step h x"] Cons.prems
  show ?case by (subst elf_hash_loop.simps) (simp add: elf_hash_step_abi)
qed

lemma elf_hash_abi: "cstr m s xs \<Longrightarrow> elf_hash m (ptr s) = Some (abi_hash xs)"
  using elf_hash_loop_abi [of m s xs 0] by (auto simp: elf_hash_def abi_hash_def)

lemma abi_hash_step_small: "abi_hash_step h c < 2 ^ 28"
proof -
  have "abi_hash_step h c = take_bit 28 (abi_hash_step h c)"
    unfolding abi_hash_step_def Let_def hi_mask
    by (rule bit_word_eqI) (auto simp: bit_simps)
  then have "unat (abi_hash_step h c) = unat (take_bit 28 (abi_hash_step h c))" by (rule arg_cong)
  also have "\<dots> = take_bit 28 (unat (abi_hash_step h c))" by (simp add: unsigned_take_bit_eq)
  also have "\<dots> < 2 ^ 28" by (rule take_bit_nat_less_exp)
  finally show ?thesis by (simp add: word_less_nat_alt)
qed

lemma abi_hash_small: "abi_hash cs < 2 ^ 28"
  using abi_hash_step_small by (cases cs rule: rev_cases) (simp_all add: abi_hash_def)

section \<open>Frames for reads\<close>

text \<open>
  \<open>clear W a n\<close>: none of the \<open>n\<close> bytes from \<open>a\<close> is in the set \<open>W\<close> of addresses that may be written.
\<close>

definition clear :: "nat set \<Rightarrow> addr \<Rightarrow> nat \<Rightarrow> bool" where
  "clear W a n \<longleftrightarrow> (\<forall>x. in_range a n x \<longrightarrow> unat x \<notin> W)"

lemma in_range_sub: "in_range (a + ptr k) n x \<Longrightarrow> k + n \<le> N \<Longrightarrow> N \<le> 2 ^ 64 \<Longrightarrow> in_range a N x"
proof -
  assume *: "in_range (a + ptr k) n x" and N: "k + n \<le> N" "N \<le> 2 ^ 64"
  have n: "unat (x - a - ptr k) < n" using * by (simp add: in_range_def algebra_simps)
  then have k: "k < 2 ^ 64" using N by simp
  have "unat (b + c) \<le> unat b + unat c" for b c :: addr
    unfolding unat_word_ariths by (rule mod_less_eq_dividend)
  from this [of "ptr k" "x - a - ptr k"] have "unat (x - a) \<le> unat (ptr k) + unat (x - a - ptr k)" by simp
  then show ?thesis using n k N by (simp add: in_range_def unat_ptr)
qed

lemma clear_sub: "clear W a N \<Longrightarrow> k + n \<le> N \<Longrightarrow> N \<le> 2 ^ 64 \<Longrightarrow> clear W (a + ptr k) n"
  unfolding clear_def using in_range_sub by blast

lemma clear_byte: "clear W a n \<Longrightarrow> 0 < n \<Longrightarrow> unat a \<notin> W"
  by (simp add: clear_def in_range_def)

lemma load_frame:
  assumes "unchanged_outside W m m'"
  shows "clear W a 8 \<Longrightarrow> load64 m' a = load64 m a" and "clear W a 4 \<Longrightarrow> load32 m' a = load32 m a"
    and "clear W a 2 \<Longrightarrow> load16 m' a = load16 m a" and "clear W a 1 \<Longrightarrow> m' a = m a"
proof -
  have eq: "m' x = m x" if "clear W a n" and "in_range a n x" for n x
    using assms that by (simp add: unchanged_outside_def clear_def)
  show "clear W a 8 \<Longrightarrow> load64 m' a = load64 m a" by (rule m64.load_cong) (rule eq)
  show "clear W a 4 \<Longrightarrow> load32 m' a = load32 m a" by (rule m32.load_cong) (rule eq)
  show "clear W a 2 \<Longrightarrow> load16 m' a = load16 m a" by (rule m16.load_cong) (rule eq)
  show "clear W a 1 \<Longrightarrow> m' a = m a" by (rule eq [of 1]) (simp_all add: in_range_def)
qed

lemma sym_frame:
  assumes u: "unchanged_outside W m m'" and c: "clear W p 24"
  shows "st_name m' p = st_name m p" and "st_info m' p = st_info m p"
    and "st_shndx m' p = st_shndx m p" and "st_value m' p = st_value m p"
  using clear_sub [OF c, of 0 4] clear_sub [OF c, of 4 1] clear_sub [OF c, of 6 2] clear_sub [OF c, of 8 8]
  by (simp_all add: st_name_def st_info_def st_shndx_def st_value_def load_frame [OF u])

text \<open>A string, at a word address, that a write to \<open>W\<close> does not reach.\<close>

definition str_at :: "mem \<Rightarrow> nat set \<Rightarrow> addr \<Rightarrow> byte list \<Rightarrow> bool" where
  "str_at m W a xs \<longleftrightarrow> cstr m (unat a) xs \<and> {unat a .. unat a + length xs} \<inter> W = {}"

lemma str_at_frame: "unchanged_outside W m m' \<Longrightarrow> str_at m W a xs \<Longrightarrow> str_at m' W a xs"
  by (auto simp: str_at_def intro: cstr_unchanged)

lemma strcmp_eq:
  assumes "cstr m (unat a) xs" and "cstr m (unat b) ys"
  shows "\<exists>r. strcmp m a b = Some r \<and> (r = 0 \<longleftrightarrow> xs = ys)"
  using strcmp_cstr [OF assms] cmp_bytes_0 [OF cstr_nonzero cstr_nonzero, OF assms] by simp

section \<open>Objects and what they define\<close>

definition symtab_of :: "mem \<Rightarrow> link_map \<Rightarrow> addr" where
  "symtab_of m L = d_un m (l_info L DT_SYMTAB) + l_addr L"

definition strtab_of :: "mem \<Rightarrow> link_map \<Rightarrow> addr" where
  "strtab_of m L = d_un m (l_info L DT_STRTAB) + l_addr L"

definition sym_at :: "mem \<Rightarrow> link_map \<Rightarrow> 32 word \<Rightarrow> addr" where
  "sym_at m L i = symtab_of m L + sizeof_Sym * ucast i"

definition sym_name :: "mem \<Rightarrow> link_map \<Rightarrow> 32 word \<Rightarrow> addr" where
  "sym_name m L i = strtab_of m L + ucast (st_name m (sym_at m L i))"

text \<open>The second word of a hash table, just before the buckets, is the number of symbols.\<close>

definition nsyms :: "mem \<Rightarrow> link_map \<Rightarrow> 32 word" where
  "nsyms m L = load32 m (l_buckets L - 4)"

definition bucket :: "mem \<Rightarrow> link_map \<Rightarrow> 32 word \<Rightarrow> 32 word" where
  "bucket m L b = load32 m (l_buckets L + 4 * ucast b)"

fun hchain :: "mem \<Rightarrow> addr \<Rightarrow> 32 word \<Rightarrow> 32 word list \<Rightarrow> bool" where
  "hchain m chn i [] \<longleftrightarrow> i = STN_UNDEF"
| "hchain m chn i (j # js) \<longleftrightarrow> i = j \<and> j \<noteq> STN_UNDEF \<and> hchain m chn (load32 m (chn + 4 * ucast j)) js"

text \<open>Symbol \<open>i\<close> of the object is a definition of the name \<open>nm\<close> that the lookup accepts.\<close>

definition provides :: "mem \<Rightarrow> link_map \<Rightarrow> byte list \<Rightarrow> 32 word \<Rightarrow> bool" where
  "provides m L nm i \<longleftrightarrow>
     st_value m (sym_at m L i) \<noteq> 0 \<and> st_shndx m (sym_at m L i) \<noteq> SHN_UNDEF \<and>
     definition_type (st_info m (sym_at m L i)) \<and> cstr m (unat (sym_name m L i)) nm"

definition exports :: "mem \<Rightarrow> link_map \<Rightarrow> byte list \<Rightarrow> bool" where
  "exports m L nm \<longleftrightarrow> (\<exists>i. 0 < i \<and> i < nsyms m L \<and> provides m L nm i)"

text \<open>
  A well-formed object whose lookup data lies outside \<open>W\<close>: it has a symbol and a string table, every
  symbol of the table has a name, and every chain of its hash table ends and stays in the table.
\<close>

definition tables_ok :: "mem \<Rightarrow> nat set \<Rightarrow> link_map \<Rightarrow> bool" where
  "tables_ok m W L \<longleftrightarrow>
     l_info L DT_SYMTAB \<noteq> NULL \<and> l_info L DT_STRTAB \<noteq> NULL \<and>
     clear W (l_info L DT_SYMTAB + 8) 8 \<and> clear W (l_info L DT_STRTAB + 8) 8"

definition obj_ok :: "mem \<Rightarrow> nat set \<Rightarrow> link_map \<Rightarrow> bool" where
  "obj_ok m W L \<longleftrightarrow>
     symtab_of m L \<noteq> NULL \<and> strtab_of m L \<noteq> NULL \<and> l_nbuckets L \<noteq> 0 \<and> clear W (l_buckets L - 4) 4 \<and>
     (\<forall>i. 0 < i \<and> i < nsyms m L \<longrightarrow>
        clear W (sym_at m L i) 24 \<and> clear W (l_chain L + 4 * ucast i) 4 \<and> (\<exists>xs. str_at m W (sym_name m L i) xs)) \<and>
     (\<forall>b < l_nbuckets L. clear W (l_buckets L + 4 * ucast b) 4 \<and>
        (\<exists>js. hchain m (l_chain L) (bucket m L b) js \<and> (\<forall>j \<in> set js. j < nsyms m L)))"

text \<open>Every definition is on the chain its name hashes to.\<close>

definition hash_complete :: "mem \<Rightarrow> link_map \<Rightarrow> bool" where
  "hash_complete m L \<longleftrightarrow>
     (\<forall>i nm. 0 < i \<and> i < nsyms m L \<and> provides m L nm i \<longrightarrow>
        (\<exists>js. hchain m (l_chain L) (bucket m L (abi_hash nm mod l_nbuckets L)) js \<and> i \<in> set js))"

lemma hchain_unique: "hchain m chn i js \<Longrightarrow> hchain m chn i ks \<Longrightarrow> js = ks"
proof (induction js arbitrary: i ks)
  case Nil
  then show ?case by (cases ks) auto
next
  case (Cons j js)
  then show ?case by (cases ks) auto
qed

lemma hchain_nonzero: "hchain m chn i js \<Longrightarrow> j \<in> set js \<Longrightarrow> 0 < j"
  by (induction js arbitrary: i) (auto simp: STN_UNDEF_def word_gt_0)

section \<open>The search finds the first definition\<close>

lemma check_match_provides:
  assumes "cstr m (unat (sym_name m L i)) xs" and "cstr m (unat name) nm"
  shows "check_match m (strtab_of m L) name (sym_at m L i) = Some (provides m L nm i)"
  using strcmp_eq [OF assms] assms(1) cstr_unique
  by (auto simp: check_match_def provides_def sym_name_def dest: cstr_unique)

lemma lookup_chain_spec:
  assumes "hchain m chn i js" and "\<forall>j \<in> set js. \<exists>xs. cstr m (unat (sym_name m L j)) xs"
    and "cstr m (unat name) nm"
  shows "lookup_chain m (symtab_of m L) (strtab_of m L) chn name i =
           Some (map_option (sym_at m L) (find (provides m L nm) js))"
  using assms(1,2)
proof (induction js arbitrary: i)
  case Nil
  then show ?case by (subst lookup_chain.simps) simp
next
  case (Cons j js)
  then obtain xs where xs: "cstr m (unat (sym_name m L j)) xs" by auto
  have "lookup_chain m (symtab_of m L) (strtab_of m L) chn name (load32 m (chn + 4 * ucast j)) =
          Some (map_option (sym_at m L) (find (provides m L nm) js))"
    using Cons by simp
  with Cons.prems(1) check_match_provides [OF xs assms(3)] show ?case
    by (subst lookup_chain.simps) (auto simp: sym_at_def)
qed

text \<open>What one object contributes.\<close>

definition obj_find :: "mem \<Rightarrow> link_map \<Rightarrow> 32 word \<Rightarrow> byte list \<Rightarrow> addr option \<Rightarrow> bool" where
  "obj_find m L hash nm r \<longleftrightarrow>
     (\<exists>js. hchain m (l_chain L) (bucket m L (hash mod l_nbuckets L)) js \<and>
           r = map_option (sym_at m L) (find (provides m L nm) js))"

lemma obj_find_ex: "obj_ok m W L \<Longrightarrow> \<exists>r. obj_find m L hash nm r"
proof -
  assume ok: "obj_ok m W L"
  then have "hash mod l_nbuckets L < l_nbuckets L"
    by (auto simp: obj_ok_def word_gt_0 intro: word_mod_less_divisor)
  with ok show ?thesis unfolding obj_ok_def obj_find_def by blast
qed

lemma lookup_from_step:
  assumes "l \<noteq> NULL" and t: "tables_ok m W (mp l)" and "l \<noteq> skip" and ok: "obj_ok m W (mp l)"
    and name: "cstr m (unat name) nm" and r: "obj_find m (mp l) hash nm r"
  shows "lookup_from m mp skip name hash l =
           (case r of Some sy \<Rightarrow> oreturn (Some (sy, l)) | None \<Rightarrow> lookup_from m mp skip name hash (l_next (mp l)))"
proof -
  let ?L = "mp l"
  have b: "hash mod l_nbuckets ?L < l_nbuckets ?L"
    using ok by (auto simp: obj_ok_def word_gt_0 intro: word_mod_less_divisor)
  obtain js where js: "hchain m (l_chain ?L) (bucket m ?L (hash mod l_nbuckets ?L)) js"
    and r': "r = map_option (sym_at m ?L) (find (provides m ?L nm) js)"
    using r by (auto simp: obj_find_def)
  obtain ks where "hchain m (l_chain ?L) (bucket m ?L (hash mod l_nbuckets ?L)) ks"
    and "\<forall>j \<in> set ks. j < nsyms m ?L" using ok b unfolding obj_ok_def by blast
  then have js_less: "\<forall>j \<in> set js. j < nsyms m ?L" using hchain_unique [OF js] by blast
  have "\<exists>xs. cstr m (unat (sym_name m ?L j)) xs" if "j \<in> set js" for j
    using ok js_less hchain_nonzero [OF js that] that unfolding obj_ok_def str_at_def by blast
  then have "lookup_chain m (symtab_of m ?L) (strtab_of m ?L) (l_chain ?L) name
      (load32 m (l_buckets ?L + 4 * ucast (hash mod l_nbuckets ?L))) = Some r"
    using lookup_chain_spec [OF js _ name] r' by (simp add: bucket_def)
  then show ?thesis
    using assms(1-3) ok
    by (subst lookup_from.simps)
      (auto simp: D_PTR_def tables_ok_def obj_ok_def symtab_of_def [symmetric] strtab_of_def [symmetric]
            split: option.splits)
qed

lemma lookup_from_skip:
  assumes "l \<noteq> NULL" and "tables_ok m W (mp l)" and "l = skip"
  shows "lookup_from m mp skip name hash l = lookup_from m mp skip name hash (l_next (mp l))"
  using assms by (subst lookup_from.simps) (auto simp: D_PTR_def tables_ok_def)

text \<open>The specification: the first object, other than \<open>skip\<close>, that has a definition.\<close>

fun first_object :: "(addr \<Rightarrow> addr option) \<Rightarrow> addr \<Rightarrow> addr list \<Rightarrow> (addr \<times> addr) option" where
  "first_object f skip [] = None"
| "first_object f skip (l # ls) =
     (if l = skip then first_object f skip ls
      else case f l of Some sy \<Rightarrow> Some (sy, l) | None \<Rightarrow> first_object f skip ls)"

definition scope_ok :: "mem \<Rightarrow> nat set \<Rightarrow> (addr \<Rightarrow> link_map) \<Rightarrow> addr \<Rightarrow> addr list \<Rightarrow> bool" where
  "scope_ok m W mp ns ls \<longleftrightarrow>
     ns_list mp ns ls \<and> (\<forall>l \<in> set ls. tables_ok m W (mp l) \<and> obj_ok m W (mp l))"

lemma lookup_from_spec:
  assumes "ns_list mp l ls" and "\<forall>k \<in> set ls. tables_ok m W (mp k) \<and> obj_ok m W (mp k)"
    and "cstr m (unat name) nm" and "\<forall>k \<in> set ls. obj_find m (mp k) hash nm (f k)"
  shows "lookup_from m mp skip name hash l = oreturn (first_object f skip ls)"
  using assms(1,2,4)
proof (induction ls arbitrary: l)
  case Nil
  then show ?case by (subst lookup_from.simps) simp
next
  case (Cons x xs)
  then have IH: "lookup_from m mp skip name hash (l_next (mp x)) = oreturn (first_object f skip xs)" by simp
  show ?case
  proof (cases "x = skip")
    case True
    with Cons.prems IH show ?thesis using lookup_from_skip [of x m W mp skip name hash] by simp
  next
    case False
    with Cons.prems IH show ?thesis
      using lookup_from_step [of x m W mp skip name nm hash "f x"] assms(3) by (auto split: option.splits)
  qed
qed

lemma scope_find_ex:
  assumes "scope_ok m W mp ns ls"
  shows "\<exists>f. \<forall>k \<in> set ls. obj_find m (mp k) hash nm (f k)"
proof -
  have "\<forall>k \<in> set ls. \<exists>r. obj_find m (mp k) hash nm r"
    using assms obj_find_ex unfolding scope_ok_def by blast
  then show ?thesis by (rule bchoice)
qed

lemma lookup_symbol_spec:
  assumes "scope_ok m W mp ns ls" and "cstr m (unat name) nm"
    and "\<forall>k \<in> set ls. obj_find m (mp k) (abi_hash nm) nm (f k)"
  shows "lookup_symbol m mp ns skip name = oreturn (first_object f skip ls)"
  using assms lookup_from_spec [of mp ns ls m W name nm] elf_hash_abi [OF assms(2)]
  by (simp add: lookup_symbol_def scope_ok_def)

lemma obj_find_Some:
  assumes "obj_ok m W L" and "obj_find m L hash nm (Some sy)"
  shows "\<exists>i. 0 < i \<and> i < nsyms m L \<and> provides m L nm i \<and> sy = sym_at m L i"
proof -
  have b: "hash mod l_nbuckets L < l_nbuckets L"
    using assms(1) by (auto simp: obj_ok_def word_gt_0 intro: word_mod_less_divisor)
  obtain js where js: "hchain m (l_chain L) (bucket m L (hash mod l_nbuckets L)) js"
    and sy: "Some sy = map_option (sym_at m L) (find (provides m L nm) js)"
    using assms(2) by (auto simp: obj_find_def)
  obtain ks where "hchain m (l_chain L) (bucket m L (hash mod l_nbuckets L)) ks"
    and "\<forall>j \<in> set ks. j < nsyms m L" using assms(1) b unfolding obj_ok_def by blast
  then have less: "\<forall>j \<in> set js. j < nsyms m L" using hchain_unique [OF js] by blast
  obtain i where "find (provides m L nm) js = Some i" and "sy = sym_at m L i"
    using sy by (cases "find (provides m L nm) js") auto
  then show ?thesis using less hchain_nonzero [OF js] by (auto simp: find_Some_iff intro!: exI [of _ i])
qed

lemma obj_find_None:
  assumes "hash_complete m L" and "obj_find m L (abi_hash nm) nm None"
  shows "\<not> exports m L nm"
proof
  assume "exports m L nm"
  then obtain i where i: "0 < i" "i < nsyms m L" "provides m L nm i" by (auto simp: exports_def)
  then obtain js where js: "hchain m (l_chain L) (bucket m L (abi_hash nm mod l_nbuckets L)) js" "i \<in> set js"
    using assms(1) unfolding hash_complete_def by blast
  moreover obtain ks where "hchain m (l_chain L) (bucket m L (abi_hash nm mod l_nbuckets L)) ks"
    and "find (provides m L nm) ks = None" using assms(2) by (auto simp: obj_find_def)
  ultimately show False using hchain_unique [of m "l_chain L"] i(3) by (auto simp: find_None_iff)
qed

lemma first_object_Some:
  "first_object f skip ls = Some (sy, l) \<Longrightarrow>
     \<exists>xs ys. ls = xs @ l # ys \<and> l \<noteq> skip \<and> f l = Some sy \<and> (\<forall>k \<in> set xs. k \<noteq> skip \<longrightarrow> f k = None)"
proof (induction ls)
  case (Cons x xs)
  show ?case
  proof (cases "x = skip \<or> f x = None")
    case True
    with Cons obtain us vs where "xs = us @ l # vs" "l \<noteq> skip" "f l = Some sy"
      "\<forall>k \<in> set us. k \<noteq> skip \<longrightarrow> f k = None"
      by (auto split: if_splits)
    with True show ?thesis by (intro exI [of _ "x # us"] exI [of _ vs]) auto
  next
    case False
    with Cons.prems show ?thesis by (intro exI [of _ "[]"] exI [of _ xs]) auto
  qed
qed simp

lemma first_object_None:
  "first_object f skip ls = None \<longleftrightarrow> (\<forall>k \<in> set ls. k \<noteq> skip \<longrightarrow> f k = None)"
  by (induction ls) (auto split: option.splits)

section \<open>The result depends on the lookup data only\<close>

lemma obj_frame:
  assumes u: "unchanged_outside W m m'" and t: "tables_ok m W L"
  shows "tables_ok m' W L" and "symtab_of m' L = symtab_of m L" and "strtab_of m' L = strtab_of m L"
    and "sym_at m' L i = sym_at m L i"
proof -
  show st: "symtab_of m' L = symtab_of m L" and "strtab_of m' L = strtab_of m L"
    using t by (simp_all add: tables_ok_def symtab_of_def strtab_of_def d_un_def load_frame [OF u])
  show "tables_ok m' W L" using t by (simp add: tables_ok_def)
  show "sym_at m' L i = sym_at m L i" by (simp add: sym_at_def st)
qed

lemma nsyms_frame: "unchanged_outside W m m' \<Longrightarrow> obj_ok m W L \<Longrightarrow> nsyms m' L = nsyms m L"
  by (simp add: nsyms_def obj_ok_def load_frame)

lemma bucket_frame: "unchanged_outside W m m' \<Longrightarrow> obj_ok m W L \<Longrightarrow> b < l_nbuckets L \<Longrightarrow> bucket m' L b = bucket m L b"
  by (simp add: bucket_def obj_ok_def load_frame)

lemma name_frame:
  assumes "unchanged_outside W m m'" and "tables_ok m W L" and "obj_ok m W L" and "0 < i" and "i < nsyms m L"
  shows "sym_name m' L i = sym_name m L i"
  using assms obj_frame [OF assms(1,2)] sym_frame [OF assms(1), of "sym_at m L i"]
  by (simp add: sym_name_def obj_ok_def)

lemma provides_frame:
  assumes u: "unchanged_outside W m m'" and t: "tables_ok m W L" and ok: "obj_ok m W L"
    and i: "0 < i" "i < nsyms m L"
  shows "provides m' L nm i \<longleftrightarrow> provides m L nm i"
proof -
  have c: "clear W (sym_at m L i) 24" using ok i by (simp add: obj_ok_def)
  obtain xs where xs: "str_at m W (sym_name m L i) xs" using ok i by (auto simp: obj_ok_def)
  have "cstr m' (unat (sym_name m L i)) xs" and "cstr m (unat (sym_name m L i)) xs"
    using str_at_frame [OF u xs] xs by (simp_all add: str_at_def)
  then have "cstr m' (unat (sym_name m L i)) nm \<longleftrightarrow> cstr m (unat (sym_name m L i)) nm"
    using cstr_unique by metis
  then show ?thesis
    by (simp add: provides_def obj_frame [OF u t] sym_frame [OF u c] name_frame [OF u t ok i])
qed

lemma hchain_frame:
  assumes u: "unchanged_outside W m m'" and ok: "obj_ok m W L"
  shows "hchain m (l_chain L) i js \<Longrightarrow> \<forall>j \<in> set js. j < nsyms m L \<Longrightarrow> hchain m' (l_chain L) i js"
proof (induction js arbitrary: i)
  case (Cons j js)
  then have "0 < j" and "j < nsyms m L" by (auto simp: STN_UNDEF_def word_gt_0)
  then have "clear W (l_chain L + 4 * ucast j) 4" using ok unfolding obj_ok_def by blast
  then have "load32 m' (l_chain L + 4 * ucast j) = load32 m (l_chain L + 4 * ucast j)" by (rule load_frame [OF u])
  with Cons show ?case by simp
qed simp

lemma obj_ok_frame:
  assumes u: "unchanged_outside W m m'" and t: "tables_ok m W L" and ok: "obj_ok m W L"
  shows "obj_ok m' W L"
proof -
  note simps = obj_frame [OF u t] nsyms_frame [OF u ok]
  have "\<exists>js. hchain m' (l_chain L) (bucket m' L b) js \<and> (\<forall>j \<in> set js. j < nsyms m L)" if b: "b < l_nbuckets L" for b
  proof -
    obtain js where "hchain m (l_chain L) (bucket m L b) js" "\<forall>j \<in> set js. j < nsyms m L"
      using ok b unfolding obj_ok_def by blast
    then show ?thesis using hchain_frame [OF u ok] bucket_frame [OF u ok b] by metis
  qed
  moreover have "\<exists>xs. str_at m' W (sym_name m' L i) xs" if i: "0 < i" "i < nsyms m L" for i
  proof -
    obtain xs where "str_at m W (sym_name m L i) xs" using ok i by (auto simp: obj_ok_def)
    then show ?thesis using str_at_frame [OF u] name_frame [OF u t ok i] by metis
  qed
  ultimately show ?thesis using ok unfolding obj_ok_def simps by blast
qed

lemma obj_find_frame:
  assumes u: "unchanged_outside W m m'" and t: "tables_ok m W L" and ok: "obj_ok m W L"
    and r: "obj_find m L hash nm r"
  shows "obj_find m' L hash nm r"
proof -
  have b: "hash mod l_nbuckets L < l_nbuckets L"
    using ok by (auto simp: obj_ok_def word_gt_0 intro: word_mod_less_divisor)
  obtain js where js: "hchain m (l_chain L) (bucket m L (hash mod l_nbuckets L)) js"
    and r': "r = map_option (sym_at m L) (find (provides m L nm) js)"
    using r by (auto simp: obj_find_def)
  obtain ks where "hchain m (l_chain L) (bucket m L (hash mod l_nbuckets L)) ks"
    and "\<forall>j \<in> set ks. j < nsyms m L" using ok b unfolding obj_ok_def by blast
  then have less: "\<forall>j \<in> set js. j < nsyms m L" using hchain_unique [OF js] by blast
  have "find (provides m' L nm) js = find (provides m L nm) js"
    using less hchain_nonzero [OF js] by (intro find_cong provides_frame [OF u t ok]) auto
  moreover have "sym_at m' L = sym_at m L" using obj_frame(4) [OF u t] by (rule ext)
  moreover have "hchain m' (l_chain L) (bucket m' L (hash mod l_nbuckets L)) js"
    using hchain_frame [OF u ok js less] bucket_frame [OF u ok b] by simp
  ultimately show ?thesis unfolding obj_find_def r' by (intro exI [of _ js]) simp
qed

text \<open>
  The interface of relocation: while only addresses in \<open>W\<close> are written, a lookup keeps returning what it
  returned at the beginning, and so does reading the symbol it found.
\<close>

locale symbol_scope =
  fixes find_sym :: "mem \<Rightarrow> addr \<Rightarrow> addr \<Rightarrow> (addr \<times> addr) option outcome"
    and ok :: "mem \<Rightarrow> nat set \<Rightarrow> bool"
  assumes ok_frame: "ok m W \<Longrightarrow> unchanged_outside W m m' \<Longrightarrow> ok m' W"
    and find_total: "ok m W \<Longrightarrow> str_at m W name nm \<Longrightarrow> \<exists>r. find_sym m skip name = oreturn r"
    and find_frame: "ok m W \<Longrightarrow> unchanged_outside W m m' \<Longrightarrow> str_at m W name nm \<Longrightarrow>
                       find_sym m' skip name = find_sym m skip name"
    and find_clear: "ok m W \<Longrightarrow> str_at m W name nm \<Longrightarrow> find_sym m skip name = oreturn (Some (sy, l)) \<Longrightarrow> clear W sy 24"
begin

lemma value_frame:
  assumes "ok m W" and "unchanged_outside W m m'" and "str_at m W name nm"
    and "find_sym m skip name = oreturn (Some (sy, l))"
  shows "find_sym m' skip name = oreturn (Some (sy, l))" and "st_value m' sy = st_value m sy"
  using find_frame [OF assms(1-3)] sym_frame(4) [OF assms(2) find_clear [OF assms(1,3,4)]] assms(4) by simp_all

end

interpretation sc: symbol_scope "\<lambda>m. lookup_symbol m mp ns" "\<lambda>m W. scope_ok m W mp ns ls" for mp ns ls
proof
  fix m m' W name nm skip sy l
  show frame: "scope_ok m' W mp ns ls" if "scope_ok m W mp ns ls" and "unchanged_outside W m m'"
    using that obj_ok_frame obj_frame(1) unfolding scope_ok_def by blast
  assume ok: "scope_ok m W mp ns ls" and str: "str_at m W name nm"
  then have name: "cstr m (unat name) nm" by (simp add: str_at_def)
  obtain f where f: "\<forall>k \<in> set ls. obj_find m (mp k) (abi_hash nm) nm (f k)"
    using scope_find_ex [OF ok] by blast
  note spec = lookup_symbol_spec [OF ok name f]
  show "\<exists>r. lookup_symbol m mp ns skip name = oreturn r" using spec by blast
  show "lookup_symbol m' mp ns skip name = lookup_symbol m mp ns skip name" if u: "unchanged_outside W m m'"
  proof -
    have "\<forall>k \<in> set ls. obj_find m' (mp k) (abi_hash nm) nm (f k)"
      using f ok obj_find_frame [OF u] unfolding scope_ok_def by blast
    moreover have "cstr m' (unat name) nm" using str_at_frame [OF u str] by (simp add: str_at_def)
    ultimately show ?thesis using lookup_symbol_spec [OF frame [OF ok u]] spec by simp
  qed
  show "clear W sy 24" if "lookup_symbol m mp ns skip name = oreturn (Some (sy, l))"
  proof -
    have "first_object f skip ls = Some (sy, l)" using that spec by simp
    then obtain xs ys where ls: "ls = xs @ l # ys" and fl: "f l = Some sy" using first_object_Some by blast
    then have ok_l: "obj_ok m W (mp l)" using ok by (simp add: scope_ok_def)
    obtain i where "0 < i" "i < nsyms m (mp l)" "sy = sym_at m (mp l) i"
      using obj_find_Some [OF ok_l] f ls fl by (metis in_set_conv_decomp)
    then show ?thesis using ok_l by (simp add: obj_ok_def)
  qed
qed

section \<open>Properties\<close>

text \<open>
  C22. On every string the hash of the code, which runs on 64-bit words, is the 32-bit hash of the ELF ABI
  that its comment quotes, although its intermediate values may exceed 32 bits; it is below \<open>2 ^ 28\<close>.
\<close>

theorem elf_hash_is_abi_hash:
  assumes "cstr m s xs"
  shows "elf_hash m (ptr s) = Some (abi_hash xs) \<and> abi_hash xs < 2 ^ 28"
  using elf_hash_abi [OF assms] abi_hash_small by blast

text \<open>
  C23. In a namespace of well-formed objects whose hash tables list every definition, \<open>lookup_symbol\<close>
  returns. If it finds nothing, no object other than \<open>skip\<close> defines the name; otherwise the result is a
  definition of the name in an object other than \<open>skip\<close>, and no object before it, other than \<open>skip\<close>,
  defines the name.
\<close>

theorem lookup_symbol_first_definition:
  assumes "scope_ok m W mp ns ls" and "\<forall>l \<in> set ls. hash_complete m (mp l)" and "cstr m (unat name) nm"
  shows "\<exists>r. lookup_symbol m mp ns skip name = oreturn r \<and>
           (case r of
              None \<Rightarrow> \<forall>l \<in> set ls. l \<noteq> skip \<longrightarrow> \<not> exports m (mp l) nm
            | Some (sy, l) \<Rightarrow>
                \<exists>xs ys i. ls = xs @ l # ys \<and> l \<noteq> skip \<and> sy = sym_at m (mp l) i \<and> 0 < i \<and>
                  i < nsyms m (mp l) \<and> provides m (mp l) nm i \<and>
                  (\<forall>k \<in> set xs. k \<noteq> skip \<longrightarrow> \<not> exports m (mp k) nm))"
proof -
  obtain f where f: "\<forall>k \<in> set ls. obj_find m (mp k) (abi_hash nm) nm (f k)"
    using scope_find_ex [OF assms(1)] by blast
  have none: "\<not> exports m (mp k) nm" if "k \<in> set ls" and "f k = None" for k
    using obj_find_None [of m "mp k" nm] f assms(2) that by metis
  have "lookup_symbol m mp ns skip name = oreturn (first_object f skip ls)"
    by (rule lookup_symbol_spec [OF assms(1,3) f])
  moreover have "case first_object f skip ls of
              None \<Rightarrow> \<forall>l \<in> set ls. l \<noteq> skip \<longrightarrow> \<not> exports m (mp l) nm
            | Some (sy, l) \<Rightarrow>
                \<exists>xs ys i. ls = xs @ l # ys \<and> l \<noteq> skip \<and> sy = sym_at m (mp l) i \<and> 0 < i \<and>
                  i < nsyms m (mp l) \<and> provides m (mp l) nm i \<and>
                  (\<forall>k \<in> set xs. k \<noteq> skip \<longrightarrow> \<not> exports m (mp k) nm)"
  proof (cases "first_object f skip ls")
    case None
    then have "\<forall>k \<in> set ls. k \<noteq> skip \<longrightarrow> f k = None" by (simp only: first_object_None)
    with None none show ?thesis by simp
  next
    case (Some p)
    obtain sy l where p: "p = (sy, l)" by (cases p)
    then obtain xs ys where ls: "ls = xs @ l # ys" and l: "l \<noteq> skip" "f l = Some sy"
      and xs: "\<forall>k \<in> set xs. k \<noteq> skip \<longrightarrow> f k = None"
      using first_object_Some [of f skip ls] Some by blast
    have "obj_ok m W (mp l)" and "obj_find m (mp l) (abi_hash nm) nm (Some sy)"
      using assms(1) f ls l by (auto simp: scope_ok_def)
    then obtain i where "0 < i" "i < nsyms m (mp l)" "provides m (mp l) nm i" "sy = sym_at m (mp l) i"
      using obj_find_Some by blast
    moreover have "\<forall>k \<in> set xs. k \<noteq> skip \<longrightarrow> \<not> exports m (mp k) nm" using none xs ls by auto
    ultimately show ?thesis using Some p ls l by auto
  qed
  ultimately show ?thesis by blast
qed


section \<open>Examples\<close>

text \<open>
  One image with the dynamic entries at 256, the symbol table at 512, the string table at 640 and a hash
  table with one bucket at 768; symbol 1 is the function \<open>f\<close> with value 64. More dynamic entries from 1024
  on describe a relocation table at 1280 with one \<open>GLOB_DAT\<close> entry for \<open>f\<close>, a PLT relocation table at 1344
  with one \<open>JUMP_SLOT\<close> entry, and a GOT at 2048. Two link maps use the image.
\<close>

definition demo_image :: mem where
  "demo_image = (\<lambda>_. 0)(256 := 6, 265 := 2, 272 := 5, 280 := 128, 281 := 2,
     536 := 1, 540 := 18, 542 := 1, 544 := 64, 641 := 102, 768 := 1, 772 := 2, 776 := 1,
     1033 := 5, 1048 := 24, 1065 := 8, 1080 := 64, 1081 := 5, 1096 := 7, 1112 := 24,
     1281 := 9, 1288 := 6, 1292 := 1, 1344 := 24, 1345 := 8, 1352 := 7, 1356 := 1, 2072 := 48)"

definition demo_object :: "addr \<Rightarrow> link_map" where
  "demo_object nxt = init_link_map\<lparr>l_next := nxt, l_info := (\<lambda>_. NULL)(DT_SYMTAB := 256, DT_STRTAB := 272,
       DT_RELA := 1024, DT_RELASZ := 1040, DT_PLTGOT := 1056, DT_JMPREL := 1072, DT_PLTREL := 1088,
       DT_PLTRELSZ := 1104),
     l_nbuckets := 1, l_buckets := 776, l_chain := 780\<rparr>"

definition demo_maps :: "addr \<Rightarrow> link_map" where
  "demo_maps = (\<lambda>_. init_link_map)(16 := demo_object 32, 32 := demo_object 0)"

lemmas demo_lookup_defs = demo_image_def demo_object_def demo_maps_def init_link_map_def DT_defs

lemma read_bytes_numeral: "read_bytes m a (numeral k) = m a # read_bytes m (a + 1) (pred_numeral k)"
  by (simp add: numeral_eq_Suc)

lemmas word_loads = load64_def load32_def load16_def read_bytes_numeral of_nat_Suc

lemma demo_name: "cstr demo_image 641 [102]"
  by (simp add: demo_image_def)

lemma demo_fields:
  "l_info (demo_object n) DT_SYMTAB = 256" "l_info (demo_object n) DT_STRTAB = 272" "l_addr (demo_object n) = 0"
  "l_next (demo_object n) = n" "l_nbuckets (demo_object n) = 1" "l_buckets (demo_object n) = 776"
  "l_chain (demo_object n) = 780"
  by (simp_all add: demo_object_def init_link_map_def DT_defs)

lemma demo_tables:
  "symtab_of demo_image (demo_object n) = 512" "strtab_of demo_image (demo_object n) = 640"
  "nsyms demo_image (demo_object n) = 2" "bucket demo_image (demo_object n) 0 = 1"
  "load32 demo_image 784 = 0"
  by (simp_all add: symtab_of_def strtab_of_def nsyms_def bucket_def d_un_def demo_fields demo_image_def word_loads)

lemma demo_sym: "sym_at demo_image (demo_object n) 1 = 536" "sym_name demo_image (demo_object n) 1 = 641"
proof -
  show "sym_at demo_image (demo_object n) 1 = 536" by (simp add: sym_at_def demo_tables sizeof_Sym_def)
  moreover have "st_name demo_image 536 = 1" by (simp add: st_name_def demo_image_def word_loads)
  ultimately show "sym_name demo_image (demo_object n) 1 = 641" by (simp add: sym_name_def demo_tables)
qed

lemma demo_provides: "provides demo_image (demo_object n) nm 1 \<longleftrightarrow> nm = [102]"
proof -
  have "st_value demo_image 536 = 64" "st_shndx demo_image 536 = 1" "st_info demo_image 536 = 18"
    by (simp_all add: st_value_def st_shndx_def st_info_def demo_image_def word_loads)
  then have "provides demo_image (demo_object n) nm 1 \<longleftrightarrow> cstr demo_image (unat (641 :: addr)) nm"
    unfolding provides_def demo_sym by (simp add: SHN_UNDEF_def definition_type_def)
  also have "\<dots> \<longleftrightarrow> cstr demo_image 641 nm" by simp
  also have "\<dots> \<longleftrightarrow> nm = [102]" using demo_name cstr_unique by metis
  finally show ?thesis .
qed

lemma demo_chain: "hchain demo_image (l_chain (demo_object n)) (bucket demo_image (demo_object n) 0) [1]"
  by (simp add: demo_tables STN_UNDEF_def demo_fields)

lemma less_2_word: "0 < i \<and> i < 2 \<longleftrightarrow> i = (1 :: 32 word)"
proof
  assume "0 < i \<and> i < 2"
  then have "unat i = 1" by (simp add: word_less_nat_alt word_gt_0 unat_eq_zero [symmetric])
  then show "i = 1" by (metis unat_1 word_unat_eq_iff)
qed simp

lemma less_1_word: "i < 1 \<longleftrightarrow> i = (0 :: 32 word)"
  by (simp add: word_less_nat_alt unat_eq_zero)

lemma demo_ok:
  assumes "W \<inter> {256 ..< 1024} = {}"
  shows "tables_ok demo_image W (demo_object n) \<and> obj_ok demo_image W (demo_object n)"
proof -
  have c: "clear W (ptr a) k" if "256 \<le> a" "a + k \<le> 1024" for a k
    unfolding clear_def
  proof (intro allI impI)
    fix x :: addr assume "in_range (ptr a) k x"
    then have "in_range (ptr a) k (ptr (unat x))" by simp
    then have "a \<le> unat x \<and> unat x < a + k"
      using that unsigned_less [of x] by (subst (asm) in_range_ptr) auto
    with that assms show "unat x \<notin> W" by auto
  qed
  have str: "str_at demo_image W 641 [102]" using demo_name assms by (auto simp: str_at_def)
  have "tables_ok demo_image W (demo_object n)"
    using c [of 264 8] c [of 280 8] by (simp add: tables_ok_def demo_fields)
  moreover have "obj_ok demo_image W (demo_object n)"
    unfolding obj_ok_def demo_tables less_2_word demo_fields less_1_word
  proof (intro conjI allI impI; (elim ssubst)?)
    show "\<exists>xs. str_at demo_image W (sym_name demo_image (demo_object n) 1) xs"
      using str by (auto simp: demo_sym)
    show "\<exists>js. hchain demo_image 780 (bucket demo_image (demo_object n) 0) js \<and> (\<forall>j \<in> set js. j < 2)"
      using demo_chain [of n] by (intro exI [of _ "[1]"]) (simp add: demo_fields)
  qed (use c [of 772 4] c [of 536 24] c [of 784 4] c [of 776 4] in \<open>simp_all add: demo_sym\<close>)
  ultimately show ?thesis ..
qed

lemma demo_complete: "hash_complete demo_image (demo_object n)"
  unfolding hash_complete_def demo_tables demo_fields
proof (intro allI impI)
  fix i nm
  assume "0 < i \<and> i < 2 \<and> provides demo_image (demo_object n) nm i"
  then have "i = 1" using less_2_word by blast
  then show "\<exists>js. hchain demo_image 780 (bucket demo_image (demo_object n) (abi_hash nm mod 1)) js \<and> i \<in> set js"
    using demo_chain [of n] by (intro exI [of _ "[1]"]) (simp add: demo_fields)
qed

lemma demo_scope: "W \<inter> {256 ..< 1024} = {} \<Longrightarrow> scope_ok demo_image W demo_maps 16 [16, 32]"
  using demo_ok [of W 32] demo_ok [of W 0] by (simp add: scope_ok_def demo_maps_def demo_fields)

theorem elf_hash_is_abi_hash_witness: "elf_hash demo_image (ptr 641) = Some (abi_hash [102])"
  using elf_hash_is_abi_hash [OF demo_name] by blast

theorem lookup_symbol_first_definition_witness:
  "\<exists>sy. lookup_symbol demo_image demo_maps 16 16 641 = oreturn (Some (sy, 32))"
proof -
  have name: "cstr demo_image (unat (641 :: addr)) [102]" using demo_name by simp
  have "\<forall>l \<in> set [16, 32]. hash_complete demo_image (demo_maps l)"
    by (simp add: demo_maps_def demo_complete)
  from lookup_symbol_first_definition [OF demo_scope [of "{}"] this name, of 16]
  obtain r where r: "lookup_symbol demo_image demo_maps 16 16 641 = oreturn r"
    and spec: "case r of None \<Rightarrow> \<forall>l \<in> set [16, 32]. l \<noteq> 16 \<longrightarrow> \<not> exports demo_image (demo_maps l) [102]
        | Some (sy, l) \<Rightarrow> \<exists>xs ys i. [16, 32] = xs @ l # ys \<and> l \<noteq> 16 \<and> sy = sym_at demo_image (demo_maps l) i \<and>
            0 < i \<and> i < nsyms demo_image (demo_maps l) \<and> provides demo_image (demo_maps l) [102] i \<and>
            (\<forall>k \<in> set xs. k \<noteq> 16 \<longrightarrow> \<not> exports demo_image (demo_maps k) [102])"
    by auto
  have "exports demo_image (demo_maps 32) [102]"
    by (simp add: exports_def demo_maps_def demo_tables demo_provides less_2_word flip: conj_assoc)
  then obtain sy l where "r = Some (sy, l)" using spec by (cases r) auto
  moreover then have "l = 32" using spec by (auto simp: Cons_eq_append_conv)
  ultimately show ?thesis using r by simp
qed


end
