(* ===== verification/Reloc.thy ===== *)
theory Reloc
  imports Lookup
begin

text \<open>
  Relocation (\<open>rtld/reloc.c\<close>): the relocation entries of an object, the objects of the namespace in
  reverse order, and the lazy binding of a PLT slot by \<open>got_fixup\<close>. The effect of a whole table is
  proved for targets that do not overlap and do not meet the tables the code reads; what each
  relocation type stores is compared with the psABI.
\<close>

section \<open>Relocation entries\<close>

definition R_X86_64_64 :: addr where "R_X86_64_64 = 1"
definition R_X86_64_COPY :: addr where "R_X86_64_COPY = 5"
definition R_X86_64_GLOB_DAT :: addr where "R_X86_64_GLOB_DAT = 6"
definition R_X86_64_JUMP_SLOT :: addr where "R_X86_64_JUMP_SLOT = 7"
definition R_X86_64_RELATIVE :: addr where "R_X86_64_RELATIVE = 8"

lemmas R_defs = R_X86_64_64_def R_X86_64_COPY_def R_X86_64_GLOB_DAT_def R_X86_64_JUMP_SLOT_def
  R_X86_64_RELATIVE_def

text \<open>The nested function \<open>find_symbol\<close>: an unresolved symbol ends the process.\<close>

definition find_symbol ::
  "mem \<Rightarrow> (addr \<Rightarrow> link_map) \<Rightarrow> addr \<Rightarrow> addr \<Rightarrow> addr \<Rightarrow> (addr \<times> addr) outcome" where
  "find_symbol m mp ns skip name =
     obind (lookup_symbol m mp ns skip name) (\<lambda>r.
       case r of None \<Rightarrow> ostop (Exited 1) | Some v \<Rightarrow> oreturn v)"

definition sym_addr :: "mem \<Rightarrow> (addr \<Rightarrow> link_map) \<Rightarrow> addr \<times> addr \<Rightarrow> addr" where
  "sym_addr m mp v = l_addr (mp (snd v)) + st_value m (fst v)"

text \<open>The body of the loop of \<open>reloc_rela\<close>.\<close>

definition reloc_one ::
  "(addr \<Rightarrow> link_map) \<Rightarrow> addr \<Rightarrow> addr \<Rightarrow> addr \<Rightarrow> addr \<Rightarrow> addr \<Rightarrow> mem \<Rightarrow> mem outcome" where
  "reloc_one mp ns l symtab strtab rela m =
     (let reloc = l_addr (mp l) + r_offset m rela;
          sy = symtab + sizeof_Sym * ELF64_R_SYM (r_info m rela);
          name = strtab + ucast (st_name m sy);
          ty = ELF64_R_TYPE (r_info m rela)
      in if ty = R_X86_64_RELATIVE then
           oreturn (store64 m reloc (load64 m reloc + (l_addr (mp l) + r_addend m rela)))
         else if ty = R_X86_64_64 then
           obind (find_symbol m mp ns NULL name) (\<lambda>v. oreturn (store64 m reloc (load64 m reloc + sym_addr m mp v)))
         else if ty = R_X86_64_JUMP_SLOT then
           oreturn (store64 m reloc (load64 m reloc + l_addr (mp l)))
         else if ty = R_X86_64_GLOB_DAT then
           obind (find_symbol m mp ns NULL name) (\<lambda>v. oreturn (store64 m reloc (load64 m reloc + sym_addr m mp v)))
         else if ty = R_X86_64_COPY then
           obind (find_symbol m mp ns l name) (\<lambda>v. oreturn (store64 m reloc (load64 m (sym_addr m mp v))))
         else ostop (Exited 1))"

primrec reloc_rela_loop ::
  "(addr \<Rightarrow> link_map) \<Rightarrow> addr \<Rightarrow> addr \<Rightarrow> addr \<Rightarrow> addr \<Rightarrow> nat \<Rightarrow> addr \<Rightarrow> mem \<Rightarrow> mem outcome" where
  "reloc_rela_loop mp ns l symtab strtab 0 rela m = oreturn m"
| "reloc_rela_loop mp ns l symtab strtab (Suc count) rela m =
     obind (reloc_one mp ns l symtab strtab rela m) (reloc_rela_loop mp ns l symtab strtab count (rela + sizeof_Rela))"

text \<open>The local \<open>got\<close> of the code is computed and not used.\<close>

definition reloc_rela ::
  "(addr \<Rightarrow> link_map) \<Rightarrow> addr \<Rightarrow> addr \<Rightarrow> addr \<Rightarrow> addr \<Rightarrow> mem \<Rightarrow> mem outcome" where
  "reloc_rela mp ns l rela count m =
     obind (D_PTR m (mp l) DT_SYMTAB) (\<lambda>symtab. obind (D_PTR m (mp l) DT_STRTAB) (\<lambda>strtab.
       reloc_rela_loop mp ns l symtab strtab (unat count) rela m))"

section \<open>Objects\<close>

definition relocate_object :: "'w env \<Rightarrow> addr \<Rightarrow> 'w rtld \<Rightarrow> 'w rtld outcome" where
  "relocate_object E l s =
     (let L = maps s l
      in if l_relocated L then oreturn s
         else
           obind
             (if D_VALID L DT_RELA then
                obind (D_PTR (rmem s) L DT_RELA) (\<lambda>rela. obind (D_VAL (rmem s) L DT_RELASZ) (\<lambda>relasz.
                  reloc_rela (maps s) (namespace s) l rela (relasz div sizeof_Rela) (rmem s)))
              else oreturn (rmem s)) (\<lambda>m.
           obind
             (if D_VALID L DT_PLTGOT then
                obind (D_PTR m L DT_PLTGOT) (\<lambda>got. obind (D_PTR m L DT_JMPREL) (\<lambda>jmprel.
                obind (D_VAL m L DT_PLTREL) (\<lambda>pltrel. obind (D_VAL m L DT_PLTRELSZ) (\<lambda>pltrelsz.
                  if pltrel \<noteq> of_nat DT_RELA then ostop (Exited 1)
                  else obind (reloc_rela (maps s) (namespace s) l jmprel (pltrelsz div sizeof_Rela) m) (\<lambda>m.
                    oreturn (store64 (store64 m (got + 8) l) (got + 16) (runtime_resolve E)))))))
              else oreturn m) (\<lambda>m.
           oreturn (upd_map l (\<lambda>L. L\<lparr>l_relocated := True\<rparr>) (set_rmem m s)))))"

text \<open>\<open>reloc_all\<close> goes to the end of the namespace by \<open>l_next\<close> and back by \<open>l_prev\<close>.\<close>

partial_function (option) ns_last :: "(addr \<Rightarrow> link_map) \<Rightarrow> addr \<Rightarrow> addr option" where
  "ns_last mp l = (if l_next (mp l) \<noteq> NULL then ns_last mp (l_next (mp l)) else Some l)"

partial_function (option) reloc_back :: "'w env \<Rightarrow> addr \<Rightarrow> 'w rtld \<Rightarrow> 'w rtld outcome" where
  "reloc_back E l s =
     (if l = NULL then oreturn s
      else obind (relocate_object E l s) (\<lambda>s. reloc_back E (l_prev (maps s l)) s))"

definition reloc_all :: "'w env \<Rightarrow> 'w rtld \<Rightarrow> 'w rtld outcome" where
  "reloc_all E s =
     obind (oassert (namespace s \<noteq> NULL)) (\<lambda>_.
     obind (olift (ns_last (maps s) (namespace s))) (\<lambda>l. reloc_back E l s))"

section \<open>Lazy binding\<close>

text \<open>The slot is computed and its relocation entry read before the index is checked.\<close>

definition got_fixup :: "addr \<Rightarrow> 32 word \<Rightarrow> 'w rtld \<Rightarrow> ('w rtld \<times> addr) outcome" where
  "got_fixup l reloc_offset s =
     (let m = rmem s; L = maps s l
      in obind (D_PTR m L DT_JMPREL) (\<lambda>jmprel. obind (D_VAL m L DT_PLTRELSZ) (\<lambda>pltrelsz.
         let rela = jmprel + sizeof_Rela * ucast reloc_offset;
             got_ent = l_addr L + r_offset m rela
         in obind (D_PTR m L DT_PLTGOT) (\<lambda>got_head.
            obind (oassert (ucast reloc_offset < pltrelsz div sizeof_Rela)) (\<lambda>_.
            let symidx = (ucast (ELF64_R_SYM (r_info m rela)) :: 32 word)
            in obind (D_PTR m L DT_SYMTAB) (\<lambda>symtab. obind (D_PTR m L DT_STRTAB) (\<lambda>strtab.
               let sy = symtab + sizeof_Sym * ucast symidx;
                   name = strtab + ucast (st_name m sy)
               in obind (find_symbol m (maps s) (namespace s) NULL name) (\<lambda>v.
                  let jmp = sym_addr m (maps s) v
                  in oreturn (set_rmem (store64 m got_ent jmp) s, jmp)))))))))"

section \<open>What an entry stores\<close>

definition reloc_target :: "mem \<Rightarrow> link_map \<Rightarrow> addr \<Rightarrow> addr" where
  "reloc_target m L rela = l_addr L + r_offset m rela"

definition rela_sym :: "mem \<Rightarrow> addr \<Rightarrow> addr \<Rightarrow> addr" where
  "rela_sym m symtab rela = symtab + sizeof_Sym * ELF64_R_SYM (r_info m rela)"

definition rela_type :: "mem \<Rightarrow> addr \<Rightarrow> addr" where
  "rela_type m rela = ELF64_R_TYPE (r_info m rela)"

definition rela_name :: "mem \<Rightarrow> addr \<Rightarrow> addr \<Rightarrow> addr \<Rightarrow> addr" where
  "rela_name m symtab strtab rela = strtab + ucast (st_name m (rela_sym m symtab rela))"

definition reloc_value ::
  "(addr \<Rightarrow> link_map) \<Rightarrow> addr \<Rightarrow> addr \<Rightarrow> addr \<Rightarrow> addr \<Rightarrow> addr \<Rightarrow> mem \<Rightarrow> addr outcome" where
  "reloc_value mp ns l symtab strtab rela m =
     (let old = load64 m (reloc_target m (mp l) rela);
          name = rela_name m symtab strtab rela;
          ty = rela_type m rela
      in if ty = R_X86_64_RELATIVE then oreturn (old + (l_addr (mp l) + r_addend m rela))
         else if ty = R_X86_64_JUMP_SLOT then oreturn (old + l_addr (mp l))
         else if ty = R_X86_64_64 \<or> ty = R_X86_64_GLOB_DAT then
           obind (find_symbol m mp ns NULL name) (\<lambda>v. oreturn (old + sym_addr m mp v))
         else if ty = R_X86_64_COPY then
           obind (find_symbol m mp ns l name) (\<lambda>v. oreturn (load64 m (sym_addr m mp v)))
         else ostop (Exited 1))"

lemma reloc_one_value:
  "reloc_one mp ns l symtab strtab rela m =
     obind (reloc_value mp ns l symtab strtab rela m) (\<lambda>v. oreturn (store64 m (reloc_target m (mp l) rela) v))"
  by (simp add: reloc_one_def reloc_value_def reloc_target_def rela_sym_def rela_type_def rela_name_def Let_def
      obind_assoc R_defs)

section \<open>Tables of entries\<close>

abbreviation cell :: "addr \<Rightarrow> nat set" where
  "cell t \<equiv> {unat t ..< unat t + 8}"

text \<open>
  The data an entry depends on is outside the addresses \<open>W\<close> that relocation writes: the entry itself, and,
  for the types that name a symbol, the symbol, its name and the variable a \<open>COPY\<close> reads.
\<close>

definition names_symbol :: "addr \<Rightarrow> bool" where
  "names_symbol ty \<longleftrightarrow> ty = R_X86_64_64 \<or> ty = R_X86_64_GLOB_DAT \<or> ty = R_X86_64_COPY"

definition entry_ok ::
  "(addr \<Rightarrow> link_map) \<Rightarrow> addr \<Rightarrow> addr \<Rightarrow> addr \<Rightarrow> addr \<Rightarrow> nat set \<Rightarrow> mem \<Rightarrow> addr \<Rightarrow> bool" where
  "entry_ok mp ns l symtab strtab W m rela \<longleftrightarrow>
     clear W rela 24 \<and>
     unat (reloc_target m (mp l) rela) + 8 \<le> 2 ^ 64 \<and> cell (reloc_target m (mp l) rela) \<subseteq> W \<and>
     (names_symbol (rela_type m rela) \<longrightarrow>
        clear W (rela_sym m symtab rela) 24 \<and> (\<exists>nm. str_at m W (rela_name m symtab strtab rela) nm)) \<and>
     (rela_type m rela = R_X86_64_COPY \<longrightarrow>
        (\<forall>v. find_symbol m mp ns l (rela_name m symtab strtab rela) = oreturn v \<longrightarrow> clear W (sym_addr m mp v) 8))"

fun cells_apart :: "addr list \<Rightarrow> bool" where
  "cells_apart [] \<longleftrightarrow> True"
| "cells_apart (t # ts) \<longleftrightarrow> (\<forall>u \<in> set ts. cell t \<inter> cell u = {}) \<and> cells_apart ts"

primrec relas :: "addr \<Rightarrow> nat \<Rightarrow> addr list" where
  "relas rela 0 = []"
| "relas rela (Suc n) = rela # relas (rela + sizeof_Rela) n"

lemma rela_frame:
  assumes u: "unchanged_outside W m m'" and c: "clear W rela 24"
  shows "r_offset m' rela = r_offset m rela" and "r_info m' rela = r_info m rela"
    and "r_addend m' rela = r_addend m rela" and "rela_type m' rela = rela_type m rela"
    and "reloc_target m' L rela = reloc_target m L rela" and "rela_sym m' symtab rela = rela_sym m symtab rela"
proof -
  show off: "r_offset m' rela = r_offset m rela" and inf: "r_info m' rela = r_info m rela"
    and "r_addend m' rela = r_addend m rela"
    using clear_sub [OF c, of 0 8] clear_sub [OF c, of 8 8] clear_sub [OF c, of 16 8]
    by (simp_all add: r_offset_def r_info_def r_addend_def load_frame [OF u])
  show "rela_type m' rela = rela_type m rela" and "reloc_target m' L rela = reloc_target m L rela"
    and "rela_sym m' symtab rela = rela_sym m symtab rela"
    by (simp_all add: rela_type_def reloc_target_def rela_sym_def off inf)
qed

lemma find_symbol_frame:
  assumes "scope_ok m W mp ns ls" and "unchanged_outside W m m'" and "str_at m W name nm"
  shows "find_symbol m' mp ns skip name = find_symbol m mp ns skip name"
  by (simp add: find_symbol_def sc.find_frame [OF assms])

lemma find_symbol_found:
  "find_symbol m mp ns skip name = oreturn v \<longleftrightarrow> lookup_symbol m mp ns skip name = oreturn (Some v)"
proof (cases "lookup_symbol m mp ns skip name")
  case (Some r)
  show ?thesis
  proof (cases r)
    case (Inr x)
    with Some show ?thesis by (cases x) (simp_all add: find_symbol_def)
  qed (simp add: find_symbol_def Some)
qed (simp add: find_symbol_def)

lemma sym_addr_frame:
  assumes ok: "scope_ok m W mp ns ls" and u: "unchanged_outside W m m'" and str: "str_at m W name nm"
    and v: "find_symbol m mp ns skip name = oreturn v"
  shows "sym_addr m' mp v = sym_addr m mp v"
proof -
  have "lookup_symbol m mp ns skip name = oreturn (Some (fst v, snd v))"
    using v by (simp add: find_symbol_found)
  then have "st_value m' (fst v) = st_value m (fst v)" by (rule sc.value_frame(2) [OF ok u str])
  then show ?thesis by (simp add: sym_addr_def)
qed

lemma obind_cong_return:
  "(\<And>v. x = oreturn v \<Longrightarrow> f v = g v) \<Longrightarrow> obind x f = obind x g"
  by (cases x) (auto simp: obind_def split: sum.splits)

lemma entry_frame:
  assumes ok: "scope_ok m W mp ns ls" and u: "unchanged_outside W m m'"
    and e: "entry_ok mp ns l symtab strtab W m rela"
  shows "entry_ok mp ns l symtab strtab W m' rela"
    and "load64 m' (reloc_target m (mp l) rela) = load64 m (reloc_target m (mp l) rela) \<Longrightarrow>
         reloc_value mp ns l symtab strtab rela m' = reloc_value mp ns l symtab strtab rela m"
proof -
  have c: "clear W rela 24" using e by (simp add: entry_ok_def)
  note rf = rela_frame [OF u c]
  have names: "\<exists>nm. str_at m W (rela_name m symtab strtab rela) nm \<and> str_at m' W (rela_name m symtab strtab rela) nm \<and>
      rela_name m' symtab strtab rela = rela_name m symtab strtab rela \<and>
      clear W (rela_sym m symtab rela) 24" if nsym: "names_symbol (rela_type m rela)"
  proof -
    have cs: "clear W (rela_sym m symtab rela) 24" using e nsym by (simp add: entry_ok_def)
    obtain nm where nm: "str_at m W (rela_name m symtab strtab rela) nm"
      using e nsym unfolding entry_ok_def by blast
    show ?thesis
      using nm str_at_frame [OF u nm] cs by (auto simp: rela_name_def rf sym_frame [OF u cs])
  qed
  have copy: "find_symbol m' mp ns skip (rela_name m' symtab strtab rela) =
      find_symbol m mp ns skip (rela_name m symtab strtab rela) \<and>
      (\<forall>v. find_symbol m mp ns skip (rela_name m symtab strtab rela) = oreturn v \<longrightarrow> sym_addr m' mp v = sym_addr m mp v)"
    if "names_symbol (rela_type m rela)" for skip
    using names [OF that] find_symbol_frame [OF ok u] sym_addr_frame [OF ok u] by metis
  show "entry_ok mp ns l symtab strtab W m' rela"
    unfolding entry_ok_def rf
    using e names copy [of l] unfolding entry_ok_def names_symbol_def by (metis (no_types, lifting))
  assume old: "load64 m' (reloc_target m (mp l) rela) = load64 m (reloc_target m (mp l) rela)"
  show "reloc_value mp ns l symtab strtab rela m' = reloc_value mp ns l symtab strtab rela m"
  proof (cases "names_symbol (rela_type m rela)")
    case False
    then show ?thesis by (simp add: reloc_value_def rf old names_symbol_def Let_def)
  next
    case True
    have "load64 m' (sym_addr m' mp v) = load64 m (sym_addr m mp v)"
      if "rela_type m rela = R_X86_64_COPY" and "find_symbol m mp ns l (rela_name m symtab strtab rela) = oreturn v" for v
    proof -
      have "clear W (sym_addr m mp v) 8" using e that by (auto simp: entry_ok_def)
      then show ?thesis using copy [OF True, of l] that load_frame(1) [OF u] by simp
    qed
    then have cp: "obind (find_symbol m' mp ns l (rela_name m' symtab strtab rela)) (\<lambda>v. oreturn (load64 m' (sym_addr m' mp v))) =
        obind (find_symbol m mp ns l (rela_name m symtab strtab rela)) (\<lambda>v. oreturn (load64 m (sym_addr m mp v)))"
      if "rela_type m rela = R_X86_64_COPY"
      using copy [OF True, of l] that by (simp only:) (rule obind_cong_return, simp)
    have add: "obind (find_symbol m' mp ns NULL (rela_name m' symtab strtab rela)) (\<lambda>v. oreturn (x + sym_addr m' mp v)) =
        obind (find_symbol m mp ns NULL (rela_name m symtab strtab rela)) (\<lambda>v. oreturn (x + sym_addr m mp v))" for x
      using copy [OF True, of NULL] by (simp only:) (rule obind_cong_return, simp)
    show ?thesis
      unfolding reloc_value_def Let_def rf old add using cp by simp
  qed
qed

lemma cell_store:
  assumes "unat t + 8 \<le> 2 ^ 64"
  shows "unchanged_outside (cell t) m (store64 m t v)"
  using unchanged_store64 [of "unat t" "cell t" m v] assms by simp

lemma cell_load:
  assumes "unchanged_outside S m m'" and "cell t \<inter> S = {}" and "unat t + 8 \<le> 2 ^ 64"
  shows "load64 m' t = load64 m t"
  using unchanged_load64 [of S m m' "unat t"] assms by simp

lemma reloc_table:
  assumes "scope_ok m W mp ns ls"
    and "\<forall>r \<in> set (relas rela n). entry_ok mp ns l symtab strtab W m r"
    and "cells_apart (map (reloc_target m (mp l)) (relas rela n))"
    and "\<forall>r \<in> set (relas rela n). reloc_value mp ns l symtab strtab r m = oreturn (v r)"
  shows "\<exists>m'. reloc_rela_loop mp ns l symtab strtab n rela m = oreturn m' \<and>
           (\<forall>r \<in> set (relas rela n). load64 m' (reloc_target m (mp l) r) = v r) \<and>
           unchanged_outside (\<Union>r \<in> set (relas rela n). cell (reloc_target m (mp l) r)) m m'"
  using assms
proof (induction n arbitrary: rela m)
  case 0
  then show ?case by simp
next
  case (Suc n)
  let ?rs = "relas (rela + sizeof_Rela) n" and ?T = "reloc_target m (mp l)"
  let ?m = "store64 m (?T rela) (v rela)"
  have e0: "unat (?T rela) + 8 \<le> 2 ^ 64" "cell (?T rela) \<subseteq> W"
    using Suc.prems(2) by (simp_all add: entry_ok_def)
  have u0: "unchanged_outside (cell (?T rela)) m ?m" by (rule cell_store [OF e0(1)])
  then have u: "unchanged_outside W m ?m" using e0(2) by (rule unchanged_mono)
  have T: "reloc_target ?m (mp l) r = ?T r" if "r \<in> set ?rs" for r
    using Suc.prems(2) that by (intro rela_frame [OF u]) (simp add: entry_ok_def)
  have val: "reloc_value mp ns l symtab strtab r ?m = oreturn (v r)" if r: "r \<in> set ?rs" for r
  proof -
    have er: "entry_ok mp ns l symtab strtab W m r" using Suc.prems(2) r by simp
    have "cell (?T r) \<inter> cell (?T rela) = {}" using Suc.prems(3) r by auto
    then have "load64 ?m (?T r) = load64 m (?T r)"
      using er by (intro cell_load [OF u0]) (simp_all add: entry_ok_def)
    then show ?thesis
      using entry_frame(2) [OF Suc.prems(1) u er] Suc.prems(4) r by simp
  qed
  have TT: "map (reloc_target ?m (mp l)) ?rs = map ?T ?rs" using T by simp
  obtain m' where m': "reloc_rela_loop mp ns l symtab strtab n (rela + sizeof_Rela) ?m = oreturn m'"
    and vals: "\<forall>r \<in> set ?rs. load64 m' (?T r) = v r"
    and u': "unchanged_outside (\<Union>r \<in> set ?rs. cell (?T r)) ?m m'"
    using Suc.IH [of ?m "rela + sizeof_Rela"] sc.ok_frame [OF Suc.prems(1) u] entry_frame(1) [OF Suc.prems(1) u]
      Suc.prems(2,3) val T by (auto simp: TT)
  have "reloc_one mp ns l symtab strtab rela m = oreturn ?m"
    using Suc.prems(4) by (simp add: reloc_one_value)
  then have "reloc_rela_loop mp ns l symtab strtab (Suc n) rela m = oreturn m'" by (simp add: m')
  moreover have "\<forall>t \<in> set (map ?T ?rs). cell (?T rela) \<inter> cell t = {}"
    using Suc.prems(3) unfolding relas.simps list.map cells_apart.simps by blast
  then have "cell (?T rela) \<inter> (\<Union>r \<in> set ?rs. cell (?T r)) = {}" by auto
  then have "load64 m' (?T rela) = v rela" using cell_load [OF u' _ e0(1)] by simp
  moreover have "unchanged_outside (\<Union>r \<in> set (relas rela (Suc n)). cell (?T r)) m m'"
    by (rule unchanged_trans [of _ _ ?m]; rule unchanged_mono [OF u0] unchanged_mono [OF u']) auto
  ultimately show ?case using vals by auto
qed

section \<open>Objects and the namespace\<close>

text \<open>Relocating an object changes its own \<open>l_relocated\<close> and no other field of any link map.\<close>

lemma relocate_object_frame:
  assumes "relocate_object E l s = oreturn s'"
  shows "maps s' = (maps s)(l := (maps s l)\<lparr>l_relocated := True\<rparr>)" and "namespace s' = namespace s"
    and "rpath s' = rpath s"
proof -
  have "l_relocated (maps s l) \<Longrightarrow> (maps s)(l := (maps s l)\<lparr>l_relocated := True\<rparr>) = maps s"
    by (cases "maps s l") (simp add: fun_upd_idem)
  then show "maps s' = (maps s)(l := (maps s l)\<lparr>l_relocated := True\<rparr>)" and "namespace s' = namespace s"
    and "rpath s' = rpath s"
    using assms
    by (auto simp: relocate_object_def Let_def obind_eq_return upd_map_def set_rmem_def split: if_splits)
qed

lemma relocate_object_again:
  "relocate_object E l s = oreturn s' \<Longrightarrow> relocate_object E l s' = oreturn s'"
  using relocate_object_frame(1) [of E l s s'] by (simp add: relocate_object_def)

primrec relocate_list :: "'w env \<Rightarrow> addr list \<Rightarrow> 'w rtld \<Rightarrow> 'w rtld outcome" where
  "relocate_list E [] s = oreturn s"
| "relocate_list E (l # ls) s = obind (relocate_object E l s) (relocate_list E ls)"

text \<open>\<open>l_prev\<close> of the namespace: each object points at its predecessor, the first at NULL.\<close>

fun prev_ok :: "(addr \<Rightarrow> link_map) \<Rightarrow> addr \<Rightarrow> addr list \<Rightarrow> bool" where
  "prev_ok mp p [] \<longleftrightarrow> True"
| "prev_ok mp p (x # xs) \<longleftrightarrow> l_prev (mp x) = p \<and> prev_ok mp x xs"

lemma prev_ok_snoc: "prev_ok mp p (xs @ [x]) \<longleftrightarrow> prev_ok mp p xs \<and> l_prev (mp x) = last (p # xs)"
  by (induction xs arbitrary: p) auto

lemma prev_ok_cong:
  "(\<And>x. x \<in> set xs \<Longrightarrow> l_prev (mp' x) = l_prev (mp x)) \<Longrightarrow> prev_ok mp' p xs \<longleftrightarrow> prev_ok mp p xs"
  by (induction xs arbitrary: p) auto

lemma ns_last_list: "ns_list mp l ls \<Longrightarrow> ls \<noteq> [] \<Longrightarrow> ns_last mp l = Some (last ls)"
proof (induction ls arbitrary: l)
  case (Cons x xs)
  show ?case
  proof (cases xs)
    case Nil
    with Cons.prems show ?thesis by (subst ns_last.simps) simp
  next
    case (Cons y ys)
    then have "l_next (mp x) = y" and "y \<noteq> NULL" using Cons.prems by auto
    with Cons.IH [of "l_next (mp x)"] Cons.prems Cons show ?thesis by (subst ns_last.simps) simp
  qed
qed simp

lemma reloc_back_list:
  assumes "prev_ok (maps s) NULL ls" and "NULL \<notin> set ls"
  shows "reloc_back E (last (NULL # ls)) s = relocate_list E (rev ls) s"
  using assms
proof (induction ls arbitrary: s rule: rev_induct)
  case Nil
  show ?case by (subst reloc_back.simps) simp
next
  case (snoc x xs)
  have "reloc_back E (l_prev (maps s' x)) s' = relocate_list E (rev xs) s'"
    if s': "relocate_object E x s = oreturn s'" for s'
  proof -
    have p: "l_prev (maps s' y) = l_prev (maps s y)" for y
      by (simp add: relocate_object_frame(1) [OF s'])
    then have "prev_ok (maps s') NULL xs" and "l_prev (maps s' x) = last (NULL # xs)"
      using snoc.prems(1) by (simp_all add: prev_ok_snoc prev_ok_cong [OF p])
    with snoc.IH [of s'] snoc.prems(2) show ?thesis by (simp only: set_append) simp
  qed
  then show ?case
    using snoc.prems(2) by (subst reloc_back.simps) (auto intro: obind_cong_return)
qed

section \<open>Properties\<close>

text \<open>The dynamic entry with tag \<open>t\<close> is there and is not written.\<close>

definition dyn_ok :: "nat set \<Rightarrow> link_map \<Rightarrow> nat \<Rightarrow> bool" where
  "dyn_ok W L t \<longleftrightarrow> l_info L t \<noteq> NULL \<and> clear W (l_info L t + 8) 8"

lemma dyn_frame:
  assumes "unchanged_outside W m m'" and "dyn_ok W L t"
  shows "D_PTR m' L t = oreturn (d_un m (l_info L t) + l_addr L)" and "D_VAL m' L t = oreturn (d_un m (l_info L t))"
  using assms by (simp_all add: dyn_ok_def D_PTR_def D_VAL_def d_un_def load_frame)

lemma reloc_rela_table:
  assumes "tables_ok m W (mp l)" and "scope_ok m W mp ns ls"
    and "rs = relas rela (unat count)"
    and "\<forall>r \<in> set rs. entry_ok mp ns l (symtab_of m (mp l)) (strtab_of m (mp l)) W m r"
    and "cells_apart (map (reloc_target m (mp l)) rs)"
    and "\<forall>r \<in> set rs. reloc_value mp ns l (symtab_of m (mp l)) (strtab_of m (mp l)) r m = oreturn (v r)"
  shows "\<exists>m'. reloc_rela mp ns l rela count m = oreturn m' \<and>
           (\<forall>r \<in> set rs. load64 m' (reloc_target m (mp l) r) = v r) \<and>
           unchanged_outside (\<Union>r \<in> set rs. cell (reloc_target m (mp l) r)) m m'"
proof -
  have "reloc_rela mp ns l rela count m =
      reloc_rela_loop mp ns l (symtab_of m (mp l)) (strtab_of m (mp l)) (unat count) rela m"
    using assms(1) by (simp add: reloc_rela_def tables_ok_def D_PTR_def symtab_of_def strtab_of_def)
  then show ?thesis using reloc_table [OF assms(2)] assms(3-) by simp
qed

lemma cells_apart_append:
  "cells_apart (xs @ ys) \<longleftrightarrow> cells_apart xs \<and> cells_apart ys \<and> (\<forall>x \<in> set xs. \<forall>y \<in> set ys. cell x \<inter> cell y = {})"
  by (induction xs) (auto simp del: Int_atLeastLessThan)

text \<open>The second table, on the memory the first one left.\<close>

lemma second_table:
  assumes u: "unchanged_outside (\<Union>r \<in> set qs. cell (reloc_target m (mp l) r)) m m'"
    and qs: "\<forall>r \<in> set qs. entry_ok mp ns l symtab strtab W m r"
    and ok: "scope_ok m W mp ns ls"
    and apart: "cells_apart (map (reloc_target m (mp l)) (qs @ rs))"
    and rs: "r \<in> set rs" "entry_ok mp ns l symtab strtab W m r"
  shows "entry_ok mp ns l symtab strtab W m' r" and "reloc_target m' (mp l) r = reloc_target m (mp l) r"
    and "reloc_value mp ns l symtab strtab r m' = reloc_value mp ns l symtab strtab r m"
proof -
  have "(\<Union>r \<in> set qs. cell (reloc_target m (mp l) r)) \<subseteq> W" using qs by (auto simp: entry_ok_def)
  then have uW: "unchanged_outside W m m'" using u by (intro unchanged_mono [OF u])
  show "entry_ok mp ns l symtab strtab W m' r" by (rule entry_frame(1) [OF ok uW rs(2)])
  show "reloc_target m' (mp l) r = reloc_target m (mp l) r"
    using rs(2) by (intro rela_frame [OF uW]) (simp add: entry_ok_def)
  have "cell (reloc_target m (mp l) r) \<inter> (\<Union>q \<in> set qs. cell (reloc_target m (mp l) q)) = {}"
    using apart rs(1) unfolding map_append cells_apart_append by (simp del: Int_atLeastLessThan) blast
  then have "load64 m' (reloc_target m (mp l) r) = load64 m (reloc_target m (mp l) r)"
    using rs(2) by (intro cell_load [OF u]) (simp_all add: entry_ok_def)
  then show "reloc_value mp ns l symtab strtab r m' = reloc_value mp ns l symtab strtab r m"
    by (rule entry_frame(2) [OF ok uW rs(2)])
qed

text \<open>The two tables of an object and its GOT.\<close>

definition rela_entries :: "mem \<Rightarrow> link_map \<Rightarrow> addr list" where
  "rela_entries m L = relas (d_un m (l_info L DT_RELA) + l_addr L) (unat (d_un m (l_info L DT_RELASZ) div sizeof_Rela))"

definition plt_entries :: "mem \<Rightarrow> link_map \<Rightarrow> addr list" where
  "plt_entries m L = relas (d_un m (l_info L DT_JMPREL) + l_addr L) (unat (d_un m (l_info L DT_PLTRELSZ) div sizeof_Rela))"

definition got_of :: "mem \<Rightarrow> link_map \<Rightarrow> addr" where
  "got_of m L = d_un m (l_info L DT_PLTGOT) + l_addr L"

definition object_ok :: "(addr \<Rightarrow> link_map) \<Rightarrow> addr \<Rightarrow> addr \<Rightarrow> nat set \<Rightarrow> mem \<Rightarrow> bool" where
  "object_ok mp ns l W m \<longleftrightarrow>
     (let L = mp l; rs = rela_entries m L @ plt_entries m L
      in tables_ok m W L \<and>
         (\<forall>t \<in> {DT_RELA, DT_RELASZ, DT_PLTGOT, DT_JMPREL, DT_PLTREL, DT_PLTRELSZ}. dyn_ok W L t) \<and>
         d_un m (l_info L DT_PLTREL) = of_nat DT_RELA \<and>
         (\<forall>r \<in> set rs. entry_ok mp ns l (symtab_of m L) (strtab_of m L) W m r) \<and>
         unat (got_of m L) + 24 \<le> 2 ^ 64 \<and>
         cells_apart (map (reloc_target m L) rs @ [got_of m L + 8, got_of m L + 16]))"

lemma cell_off:
  fixes t :: addr
  assumes "unat t + 24 \<le> 2 ^ 64"
  shows "unat (t + 8) = unat t + 8" and "unat (t + 16) = unat t + 16"
  using assms by (simp_all add: unat_plus_if')

text \<open>Storing the two reserved words of the GOT.\<close>

lemma got_header:
  assumes "unat got + 24 \<le> 2 ^ 64" and "m' = store64 (store64 m (got + 8) a) (got + 16) b"
  shows "load64 m' (got + 8) = a" and "load64 m' (got + 16) = b"
    and "unchanged_outside (cell (got + 8) \<union> cell (got + 16)) m m'"
proof -
  have b: "unat (got + 8) + 8 \<le> 2 ^ 64" "unat (got + 16) + 8 \<le> 2 ^ 64" using assms(1) by (simp_all add: cell_off [OF assms(1)])
  have u1: "unchanged_outside (cell (got + 8)) m (store64 m (got + 8) a)" by (rule cell_store [OF b(1)])
  have u2: "unchanged_outside (cell (got + 16)) (store64 m (got + 8) a) m'"
    unfolding assms(2) by (rule cell_store [OF b(2)])
  show "load64 m' (got + 16) = b" by (simp add: assms(2))
  have "load64 m' (got + 8) = load64 (store64 m (got + 8) a) (got + 8)"
    by (rule cell_load [OF u2 _ b(1)]) (simp add: cell_off [OF assms(1)])
  then show "load64 m' (got + 8) = a" by simp
  show "unchanged_outside (cell (got + 8) \<union> cell (got + 16)) m m'"
    by (rule unchanged_trans [OF unchanged_mono [OF u1] unchanged_mono [OF u2]]) auto
qed

text \<open>The two tables one after the other, the second on the memory the first one leaves.\<close>

lemma both_tables:
  assumes t: "tables_ok m W L" and ok: "scope_ok m W mp ns ls" and L: "L = mp l"
    and qs: "qs = relas a (unat n)" and ps: "ps = relas b (unat k)"
    and e: "\<forall>r \<in> set (qs @ ps). entry_ok mp ns l (symtab_of m L) (strtab_of m L) W m r"
    and ap: "cells_apart (map (reloc_target m L) (qs @ ps))"
    and v: "\<forall>r \<in> set (qs @ ps). reloc_value mp ns l (symtab_of m L) (strtab_of m L) r m = oreturn (v r)"
  shows "\<exists>m1 m2. reloc_rela mp ns l a n m = oreturn m1 \<and> reloc_rela mp ns l b k m1 = oreturn m2 \<and>
           unchanged_outside W m m1 \<and> (\<forall>r \<in> set (qs @ ps). load64 m2 (reloc_target m L r) = v r) \<and>
           unchanged_outside (\<Union>r \<in> set (qs @ ps). cell (reloc_target m L r)) m m2"
proof -
  let ?T = "reloc_target m L" and ?st = "symtab_of m L" and ?sr = "strtab_of m L"
  have apq: "cells_apart (map ?T qs)" and app: "cells_apart (map ?T ps)"
    and qp: "\<And>q p. q \<in> set qs \<Longrightarrow> p \<in> set ps \<Longrightarrow> cell (?T q) \<inter> cell (?T p) = {}"
    using ap by (simp_all only: cells_apart_append map_append) simp
  have eq: "\<forall>r \<in> set qs. entry_ok mp ns l ?st ?sr W m r" and ep: "\<And>r. r \<in> set ps \<Longrightarrow> entry_ok mp ns l ?st ?sr W m r"
    using e by simp_all
  obtain m1 where m1: "reloc_rela mp ns l a n m = oreturn m1" and v1: "\<forall>r \<in> set qs. load64 m1 (?T r) = v r"
    and u1: "unchanged_outside (\<Union>r \<in> set qs. cell (?T r)) m m1"
    using reloc_rela_table [of m W mp l ns ls qs a n v] t ok qs eq apq v L by auto
  have "(\<Union>r \<in> set qs. cell (?T r)) \<subseteq> W" using eq by (auto simp: entry_ok_def L)
  then have uW: "unchanged_outside W m m1" by (rule unchanged_mono [OF u1])
  note st = second_table [OF u1 [unfolded L] eq [unfolded L] ok ap [unfolded L], folded L]
  have "tables_ok m1 W (mp l)" and "scope_ok m1 W mp ns ls"
    using obj_frame(1) [OF uW t] sc.ok_frame [OF ok uW] L by simp_all
  moreover have "\<forall>r \<in> set ps. entry_ok mp ns l (symtab_of m1 (mp l)) (strtab_of m1 (mp l)) W m1 r"
    using st(1) ep by (simp add: obj_frame [OF uW t] flip: L)
  moreover have "cells_apart (map (reloc_target m1 (mp l)) ps)"
    using app st(2) ep by (simp flip: L cong: map_cong)
  moreover have "\<forall>r \<in> set ps. reloc_value mp ns l (symtab_of m1 (mp l)) (strtab_of m1 (mp l)) r m1 = oreturn (v r)"
    using st(3) ep v by (simp add: obj_frame [OF uW t] flip: L)
  ultimately obtain m2 where m2: "reloc_rela mp ns l b k m1 = oreturn m2" and v2: "\<forall>r \<in> set ps. load64 m2 (?T r) = v r"
    and u2: "unchanged_outside (\<Union>r \<in> set ps. cell (?T r)) m1 m2"
    using reloc_rela_table [of m1 W mp l ns ls ps b k v] ps st(2) ep by (auto simp flip: L)
  have "load64 m2 (?T r) = v r" if "r \<in> set qs" for r
  proof -
    have "cell (?T r) \<inter> (\<Union>p \<in> set ps. cell (?T p)) = {}" using qp [OF that] by blast
    then have "load64 m2 (?T r) = load64 m1 (?T r)"
      using e that by (intro cell_load [OF u2]) (simp_all add: entry_ok_def L)
    with v1 that show ?thesis by simp
  qed
  moreover have "unchanged_outside (\<Union>r \<in> set (qs @ ps). cell (?T r)) m m2"
    by (rule unchanged_trans [OF unchanged_mono [OF u1] unchanged_mono [OF u2]]) auto
  ultimately show ?thesis using m1 m2 uW v2 by auto
qed

text \<open>
  C25. Relocating an object that has both tables, whose targets do not overlap each other, the GOT header
  or the data the relocation reads, returns: every entry of both tables has stored its value at its target, computed
  as on the memory before, the reserved words of the GOT hold the link map and the resolver, the object
  is marked as relocated, and nothing else in memory is written.
\<close>

theorem relocate_object_applies:
  assumes "object_ok (maps s) (namespace s) l W (rmem s)" and "scope_ok (rmem s) W (maps s) (namespace s) ls"
    and "\<not> l_relocated (maps s l)" and "L = maps s l" and "rs = rela_entries (rmem s) L @ plt_entries (rmem s) L"
    and "\<forall>r \<in> set rs. reloc_value (maps s) (namespace s) l (symtab_of (rmem s) L) (strtab_of (rmem s) L) r (rmem s) = oreturn (v r)"
  shows "\<exists>s'. relocate_object E l s = oreturn s' \<and> l_relocated (maps s' l) \<and>
           (\<forall>r \<in> set rs. load64 (rmem s') (reloc_target (rmem s) L r) = v r) \<and>
           load64 (rmem s') (got_of (rmem s) L + 8) = l \<and> load64 (rmem s') (got_of (rmem s) L + 16) = runtime_resolve E \<and>
           unchanged_outside ((\<Union>r \<in> set rs. cell (reloc_target (rmem s) L r)) \<union> cell (got_of (rmem s) L + 8) \<union>
             cell (got_of (rmem s) L + 16)) (rmem s) (rmem s')"
proof -
  let ?m = "rmem s" and ?T = "reloc_target (rmem s) L" and ?g = "got_of (rmem s) L"
  have t: "tables_ok ?m W L" and dyn: "\<forall>t \<in> {DT_RELA, DT_RELASZ, DT_PLTGOT, DT_JMPREL, DT_PLTREL, DT_PLTRELSZ}. dyn_ok W L t"
    and pltrel: "d_un ?m (l_info L DT_PLTREL) = of_nat DT_RELA" and g: "unat ?g + 24 \<le> 2 ^ 64"
    and e: "\<forall>r \<in> set rs. entry_ok (maps s) (namespace s) l (symtab_of ?m L) (strtab_of ?m L) W ?m r"
    and ap: "cells_apart (map ?T rs @ [?g + 8, ?g + 16])"
    using assms(1) unfolding object_ok_def Let_def assms(5) unfolding assms(4) by blast+
  then have aprs: "cells_apart (map ?T rs)" and far: "\<And>r. r \<in> set rs \<Longrightarrow> cell (?T r) \<inter> (cell (?g + 8) \<union> cell (?g + 16)) = {}"
    unfolding cells_apart_append by (simp_all del: Int_atLeastLessThan) blast
  obtain m1 m2 where m1: "reloc_rela (maps s) (namespace s) l (d_un ?m (l_info L DT_RELA) + l_addr L)
        (d_un ?m (l_info L DT_RELASZ) div sizeof_Rela) ?m = oreturn m1"
    and m2: "reloc_rela (maps s) (namespace s) l (d_un ?m (l_info L DT_JMPREL) + l_addr L)
        (d_un ?m (l_info L DT_PLTRELSZ) div sizeof_Rela) m1 = oreturn m2"
    and uW: "unchanged_outside W ?m m1" and v2: "\<forall>r \<in> set rs. load64 m2 (?T r) = v r"
    and u2: "unchanged_outside (\<Union>r \<in> set rs. cell (?T r)) ?m m2"
    using both_tables [OF t assms(2,4) rela_entries_def plt_entries_def e [unfolded assms(5)] aprs [unfolded assms(5)]
        assms(6) [unfolded assms(5)]] unfolding assms(5) by blast
  define m3 where "m3 = store64 (store64 m2 (?g + 8) l) (?g + 16) (runtime_resolve E)"
  note hdr = got_header [OF g m3_def]
  have d: "dyn_ok W L t \<Longrightarrow> l_info L t \<noteq> NULL" for t by (simp add: dyn_ok_def)
  have run: "relocate_object E l s = oreturn (upd_map l (\<lambda>L. L\<lparr>l_relocated := True\<rparr>) (set_rmem m3 s))"
    using dyn assms(3) pltrel
    by (simp add: relocate_object_def D_VALID_def d dyn_frame [OF uW] dyn_frame [OF unchanged_refl [of W ?m]] m1 m2
        m3_def got_of_def Let_def flip: assms(4))
  have "load64 m3 (?T r) = v r" if "r \<in> set rs" for r
    using cell_load [OF hdr(3) far [OF that]] e v2 that by (simp add: entry_ok_def assms(4))
  moreover have "unchanged_outside ((\<Union>r \<in> set rs. cell (?T r)) \<union> cell (?g + 8) \<union> cell (?g + 16)) ?m m3"
    by (rule unchanged_trans [OF unchanged_mono [OF u2] unchanged_mono [OF hdr(3)]]) auto
  ultimately show ?thesis
    using run hdr(1,2) by (auto simp: upd_map_def set_rmem_def)
qed


text \<open>
  C27. With a namespace whose \<open>l_next\<close> and \<open>l_prev\<close> fields agree, \<open>reloc_all\<close> is the relocation of its
  objects one by one in reverse order; when it returns, every object of the namespace is marked as
  relocated, the links are as before and a second \<open>reloc_all\<close> changes nothing.
\<close>

lemma relocate_list_marks:
  "relocate_list E ls s = oreturn s' \<Longrightarrow>
     maps s' = (\<lambda>l. if l \<in> set ls then (maps s l)\<lparr>l_relocated := True\<rparr> else maps s l) \<and> namespace s' = namespace s"
proof (induction ls arbitrary: s)
  case (Cons l ls)
  then obtain t where t: "relocate_object E l s = oreturn t" "relocate_list E ls t = oreturn s'"
    by (auto simp: obind_eq_return)
  show ?case using Cons.IH [OF t(2)] relocate_object_frame [OF t(1)] by auto
qed simp

lemma relocate_list_done: "\<forall>l \<in> set ls. l_relocated (maps s l) \<Longrightarrow> relocate_list E ls s = oreturn s"
  by (induction ls) (simp_all add: relocate_object_def)

lemma ns_list_nonnull: "ns_list mp l ls \<Longrightarrow> NULL \<notin> set ls"
  by (induction ls arbitrary: l) auto

lemma reloc_all_list:
  assumes "ns_list (maps s) (namespace s) ls" and "ls \<noteq> []" and "prev_ok (maps s) NULL ls"
  shows "reloc_all E s = relocate_list E (rev ls) s"
proof -
  have n: "NULL \<notin> set ls" "namespace s \<noteq> NULL"
    using assms(1,2) ns_list_nonnull by (auto simp: neq_Nil_conv)
  then show ?thesis
    using ns_last_list [OF assms(1,2)] reloc_back_list [OF assms(3) n(1), of E] assms(2) by (simp add: reloc_all_def)
qed

theorem reloc_all_in_reverse:
  assumes "ns_list (maps s) (namespace s) ls" and "ls \<noteq> []" and "prev_ok (maps s) NULL ls"
  shows "reloc_all E s = relocate_list E (rev ls) s \<and>
         (\<forall>s'. reloc_all E s = oreturn s' \<longrightarrow>
            (\<forall>l \<in> set ls. l_relocated (maps s' l)) \<and> ns_list (maps s') (namespace s') ls \<and>
            prev_ok (maps s') NULL ls \<and> reloc_all E s' = oreturn s')"
proof (intro conjI allI impI)
  show eq: "reloc_all E s = relocate_list E (rev ls) s" by (rule reloc_all_list [OF assms])
  fix s'
  assume "reloc_all E s = oreturn s'"
  then have m: "maps s' = (\<lambda>l. if l \<in> set ls then (maps s l)\<lparr>l_relocated := True\<rparr> else maps s l)"
    and n: "namespace s' = namespace s"
    using relocate_list_marks [of E "rev ls" s s'] eq by simp_all
  show marked: "\<forall>l \<in> set ls. l_relocated (maps s' l)" by (simp add: m)
  have "ns_list (maps s') (namespace s) ls \<longleftrightarrow> ns_list (maps s) (namespace s) ls"
    by (rule ns_list_cong) (simp add: m)
  then show ns: "ns_list (maps s') (namespace s') ls" using assms(1) by (simp add: n)
  have "prev_ok (maps s') NULL ls \<longleftrightarrow> prev_ok (maps s) NULL ls" by (rule prev_ok_cong) (simp add: m)
  then show prv: "prev_ok (maps s') NULL ls" using assms(3) by simp
  show "reloc_all E s' = oreturn s'"
    using reloc_all_list [OF ns assms(2) prv, of E] relocate_list_done [of "rev ls" s' E] marked by simp
qed

text \<open>
  C28. Lazy binding: for an index inside the PLT table whose symbol is found, \<open>got_fixup\<close> returns the
  address of the definition, which is then the contents of the GOT slot of the entry, and writes nothing
  else; an index outside the table ends the process, and so does an unresolved symbol.
\<close>

theorem got_fixup_binds:
  assumes "tables_ok (rmem s) W L" and "\<forall>t \<in> {DT_JMPREL, DT_PLTRELSZ, DT_PLTGOT}. dyn_ok W L t" and "L = maps s l"
    and "rela = d_un (rmem s) (l_info L DT_JMPREL) + l_addr L + sizeof_Rela * ucast i"
    and "sy = sym_at (rmem s) L (ucast (ELF64_R_SYM (r_info (rmem s) rela)))"
    and "name = strtab_of (rmem s) L + ucast (st_name (rmem s) sy)"
    and "inside \<longleftrightarrow> ucast i < d_un (rmem s) (l_info L DT_PLTRELSZ) div sizeof_Rela"
  shows "(\<not> inside \<longrightarrow> got_fixup l i s = ostop (Exited 1)) \<and>
         (inside \<and> lookup_symbol (rmem s) (maps s) (namespace s) NULL name = oreturn None \<longrightarrow>
            got_fixup l i s = ostop (Exited 1)) \<and>
         (\<forall>d. inside \<and> lookup_symbol (rmem s) (maps s) (namespace s) NULL name = oreturn (Some d) \<and>
              unat (reloc_target (rmem s) L rela) + 8 \<le> 2 ^ 64 \<longrightarrow>
            (\<exists>s'. got_fixup l i s = oreturn (s', sym_addr (rmem s) (maps s) d) \<and>
               load64 (rmem s') (reloc_target (rmem s) L rela) = sym_addr (rmem s) (maps s) d \<and>
               unchanged_outside (cell (reloc_target (rmem s) L rela)) (rmem s) (rmem s') \<and>
               maps s' = maps s \<and> namespace s' = namespace s))"
proof -
  let ?m = "rmem s"
  have run: "got_fixup l i s =
      obind (oassert inside) (\<lambda>_. obind (find_symbol ?m (maps s) (namespace s) NULL name) (\<lambda>v.
        oreturn (set_rmem (store64 ?m (reloc_target ?m L rela) (sym_addr ?m (maps s) v)) s, sym_addr ?m (maps s) v)))"
    using assms(1,2)
    by (simp add: got_fixup_def Let_def dyn_frame [OF unchanged_refl [of W]] tables_ok_def D_PTR_def [of ?m L DT_SYMTAB]
        D_PTR_def [of ?m L DT_STRTAB] assms(4-) sym_at_def symtab_of_def strtab_of_def reloc_target_def flip: assms(3))
  show ?thesis
    unfolding run by (auto simp: find_symbol_def set_rmem_def cell_store)
qed

section \<open>Examples\<close>

definition demo_rtld :: "unit rtld" where
  "demo_rtld = \<lparr>lst = \<lparr>world = (), smem = demo_image, errno = 0, pagesize = 4096\<rparr>, maps = demo_maps, namespace = 16,
     rpath = replicate 11 NULL, dl_pagesize = 4096, dl_stack_flags = 0\<rparr>"

definition demo_env :: "unit env" where
  "demo_env = \<lparr>kern = (\<lambda>_ _ (w, m). (0, w, m)), heap_var = 0, initial_fa = 0, dt_num = 38, sizeof_link_map = 808, runtime_resolve = 4096,
     start_sym = 0, begin_sym = 0, path_fmt = 8192, lit_lib = 8208, lit_usr_lib = 8224, lit_dot = 8240, lit_RTLD = 8256,
     lit_main = 8272, namebuf = 16384, filebuf = 20480, phdrbuf = 24576, runhead = 28672,
     runnode = (\<lambda>k. ptr (28704 + 32 * k))\<rparr>"

lemma demo_state [simp]: "smem (lst demo_rtld) = demo_image" "maps demo_rtld = demo_maps" "namespace demo_rtld = 16"
  by (simp_all add: demo_rtld_def)

lemma demo_map_16 [simp]: "demo_maps 16 = demo_object 32"
  by (simp add: demo_maps_def)

lemma demo_find: "lookup_symbol demo_image demo_maps 16 NULL 641 = oreturn (Some (536, 16))"
proof -
  have "obj_find demo_image (demo_object n) h [102] (Some 536)" for n h
    using demo_chain [of n] by (auto simp: obj_find_def demo_fields demo_provides demo_sym intro!: exI [of _ "[1]"])
  then have "\<forall>k \<in> set [16, 32]. obj_find demo_image (demo_maps k) (abi_hash [102]) [102] (Some 536)"
    by (simp add: demo_maps_def)
  from lookup_symbol_spec [OF demo_scope [of "{}"] _ this, of 641 NULL] demo_name show ?thesis by simp
qed

lemma demo_dyn:
  "d_un demo_image 1024 = 1280" "d_un demo_image 1040 = 24" "d_un demo_image 1056 = 2048"
  "d_un demo_image 1072 = 1344" "d_un demo_image 1088 = 7" "d_un demo_image 1104 = 24"
  by (simp_all add: d_un_def demo_image_def word_loads)

lemma demo_info:
  "l_info (demo_object n) DT_RELA = 1024" "l_info (demo_object n) DT_RELASZ = 1040"
  "l_info (demo_object n) DT_PLTGOT = 1056" "l_info (demo_object n) DT_JMPREL = 1072"
  "l_info (demo_object n) DT_PLTREL = 1088" "l_info (demo_object n) DT_PLTRELSZ = 1104"
  by (simp_all add: demo_object_def init_link_map_def DT_defs)

lemma demo_entries:
  "rela_entries demo_image (demo_object n) = [1280]" "plt_entries demo_image (demo_object n) = [1344]"
  "got_of demo_image (demo_object n) = 2048"
  by (simp_all add: rela_entries_def plt_entries_def got_of_def demo_dyn demo_info demo_fields sizeof_Rela_def)

lemma demo_rela:
  "r_offset demo_image 1280 = 2304" "rela_type demo_image 1280 = 6" "ELF64_R_SYM (r_info demo_image 1280) = 1"
  "r_offset demo_image 1344 = 2072" "rela_type demo_image 1344 = 7" "ELF64_R_SYM (r_info demo_image 1344) = 1"
  "load64 demo_image 2304 = 0" "load64 demo_image 2072 = 48"
  by (simp_all add: r_offset_def rela_type_def r_info_def ELF64_R_TYPE_def ELF64_R_SYM_def demo_image_def word_loads)

lemma clear_ptr:
  assumes "a + k \<le> 2 ^ 64" and "{a ..< a + k} \<inter> W = {}"
  shows "clear W (ptr a) k"
  unfolding clear_def
proof (intro allI impI)
  fix x :: addr assume "in_range (ptr a) k x"
  then have "in_range (ptr a) k (ptr (unat x))" by simp
  then have "a \<le> unat x \<and> unat x < a + k"
    using assms(1) unsigned_less [of x] by (subst (asm) in_range_ptr) auto
  with assms(2) show "unat x \<notin> W" by auto
qed

abbreviation demo_W :: "nat set" where
  "demo_W \<equiv> {2048 ..< 2560}"

lemma demo_target:
  "reloc_target demo_image (demo_object n) 1280 = 2304" "reloc_target demo_image (demo_object n) 1344 = 2072"
  by (simp_all add: reloc_target_def demo_rela demo_fields)

lemma demo_sym_name:
  "rela_sym demo_image 512 1280 = 536" "rela_name demo_image 512 640 1280 = 641"
proof -
  have "st_name demo_image 536 = 1" by (simp add: st_name_def demo_image_def word_loads)
  then show "rela_sym demo_image 512 1280 = 536" "rela_name demo_image 512 640 1280 = 641"
    by (simp_all add: rela_sym_def rela_name_def demo_rela sizeof_Sym_def)
qed

lemma demo_entry_ok:
  "entry_ok demo_maps 16 16 512 640 demo_W demo_image 1280" "entry_ok demo_maps 16 16 512 640 demo_W demo_image 1344"
proof -
  have "str_at demo_image demo_W 641 [102]" using demo_name by (auto simp: str_at_def)
  then show "entry_ok demo_maps 16 16 512 640 demo_W demo_image 1280"
    using clear_ptr [of 1280 24 demo_W] clear_ptr [of 536 24 demo_W]
    by (auto simp: entry_ok_def demo_target demo_sym_name demo_rela R_defs)
  show "entry_ok demo_maps 16 16 512 640 demo_W demo_image 1344"
    using clear_ptr [of 1344 24 demo_W]
    by (simp add: entry_ok_def demo_target demo_rela R_defs names_symbol_def)
qed

lemma demo_object_ok: "object_ok demo_maps 16 16 demo_W demo_image"
proof -
  have "tables_ok demo_image demo_W (demo_object 32)" using demo_ok [of demo_W 32] by simp
  moreover have "\<forall>t \<in> {DT_RELA, DT_RELASZ, DT_PLTGOT, DT_JMPREL, DT_PLTREL, DT_PLTRELSZ}. dyn_ok demo_W (demo_object 32) t"
    using clear_ptr [of 1032 8 demo_W] clear_ptr [of 1048 8 demo_W] clear_ptr [of 1064 8 demo_W]
      clear_ptr [of 1080 8 demo_W] clear_ptr [of 1096 8 demo_W] clear_ptr [of 1112 8 demo_W]
    by (simp add: dyn_ok_def demo_info)
  ultimately show ?thesis
    using demo_entry_ok by (simp add: object_ok_def Let_def demo_entries demo_tables demo_target demo_dyn demo_info DT_RELA_def)
qed

lemma demo_values:
  "reloc_value demo_maps 16 16 512 640 1280 demo_image = oreturn 64"
  "reloc_value demo_maps 16 16 512 640 1344 demo_image = oreturn 48"
proof -
  have "st_value demo_image 536 = 64" by (simp add: st_value_def demo_image_def word_loads)
  then show "reloc_value demo_maps 16 16 512 640 1280 demo_image = oreturn 64"
    by (simp add: reloc_value_def Let_def demo_target demo_rela demo_sym_name R_defs find_symbol_def demo_find sym_addr_def demo_fields)
  show "reloc_value demo_maps 16 16 512 640 1344 demo_image = oreturn 48"
    by (simp add: reloc_value_def Let_def demo_target demo_rela R_defs demo_fields)
qed

theorem relocate_object_applies_witness:
  "\<exists>s'. relocate_object demo_env 16 demo_rtld = oreturn s' \<and> load64 (rmem s') 2304 = 64 \<and> load64 (rmem s') 2072 = 48 \<and>
     load64 (rmem s') 2056 = 16 \<and> load64 (rmem s') 2064 = 4096"
proof -
  have "object_ok (maps demo_rtld) (namespace demo_rtld) 16 demo_W (rmem demo_rtld)" using demo_object_ok by simp
  moreover have "scope_ok (rmem demo_rtld) demo_W (maps demo_rtld) (namespace demo_rtld) [16, 32]"
    using demo_scope [of demo_W] by simp
  moreover have "\<not> l_relocated (maps demo_rtld 16)" by (simp add: demo_object_def init_link_map_def)
  ultimately show ?thesis
    using relocate_object_applies [of demo_rtld 16 demo_W "[16, 32]" _ _ "\<lambda>r. if r = 1280 then 64 else 48" demo_env, OF _ _ _ refl refl]
    by (simp add: demo_entries demo_tables demo_values demo_target) (auto simp: demo_env_def)
qed


theorem reloc_all_in_reverse_witness:
  "reloc_all demo_env (demo_rtld\<lparr>maps := demo_maps(32 := (demo_object 0)\<lparr>l_prev := 16\<rparr>)\<rparr>) =
     relocate_list demo_env [32, 16] (demo_rtld\<lparr>maps := demo_maps(32 := (demo_object 0)\<lparr>l_prev := 16\<rparr>)\<rparr>)"
  using reloc_all_in_reverse [of "demo_rtld\<lparr>maps := demo_maps(32 := (demo_object 0)\<lparr>l_prev := 16\<rparr>)\<rparr>" "[16, 32]" demo_env]
  by (simp add: demo_fields) (simp add: demo_object_def init_link_map_def)

theorem got_fixup_binds_witness:
  "got_fixup 16 1 demo_rtld = ostop (Exited 1) \<and>
   (\<exists>s'. got_fixup 16 0 demo_rtld = oreturn (s', 64) \<and> load64 (rmem s') 2072 = 64)"
proof -
  have t: "tables_ok (rmem demo_rtld) demo_W (demo_object 32)" using demo_ok [of demo_W 32] by simp
  have d: "\<forall>t \<in> {DT_JMPREL, DT_PLTRELSZ, DT_PLTGOT}. dyn_ok demo_W (demo_object 32) t"
    using demo_object_ok by (simp add: object_ok_def Let_def)
  have v: "st_value demo_image 536 = 64" "st_name demo_image 536 = 1"
    by (simp_all add: st_value_def st_name_def demo_image_def word_loads)
  note bound = got_fixup_binds [OF t d _ refl refl refl refl, of 16]
  show ?thesis
    using bound [of 1] bound [of 0]
    by (simp add: demo_info demo_dyn demo_fields sizeof_Rela_def demo_rela demo_sym v demo_tables demo_find
        sym_addr_def demo_target) blast
qed

end
