(* ===== verification/Klist.thy ===== *)
theory Klist
  imports Prelude
begin

text \<open>
  The circular doubly linked list of \<open>include/list.h\<close> (a copy is in \<open>elf-clack\<close>) on the byte memory: a
  \<open>struct list_head\<close> has \<open>next\<close> at offset 0 and \<open>prev\<close> at 8. \<open>dlist m h ns\<close> says that the ring that starts
  at the head \<open>h\<close> runs through the nodes \<open>ns\<close> and back; every operation is proved to be the
  corresponding operation on the list \<open>ns\<close>. The locale \<open>node_deque\<close> is what the users of the list rely on.
\<close>

section \<open>The operations\<close>

definition list_next :: "mem \<Rightarrow> addr \<Rightarrow> addr" where
  "list_next m p = load64 m p"

definition list_prev :: "mem \<Rightarrow> addr \<Rightarrow> addr" where
  "list_prev m p = load64 m (p + 8)"

definition set_next :: "addr \<Rightarrow> addr \<Rightarrow> mem \<Rightarrow> mem" where
  "set_next p v m = store64 m p v"

definition set_prev :: "addr \<Rightarrow> addr \<Rightarrow> mem \<Rightarrow> mem" where
  "set_prev p v m = store64 m (p + 8) v"

definition INIT_LIST_HEAD :: "addr \<Rightarrow> mem \<Rightarrow> mem" where
  "INIT_LIST_HEAD lst m = set_prev lst lst (set_next lst lst m)"

text \<open>\<open>__list_add\<close>\<close>

definition list_add_between :: "addr \<Rightarrow> addr \<Rightarrow> addr \<Rightarrow> mem \<Rightarrow> mem" where
  "list_add_between new prv nxt m =
     (let m = set_prev nxt new m;
          m = set_next new nxt m;
          m = set_prev new prv m
      in set_next prv new m)"

definition list_add :: "addr \<Rightarrow> addr \<Rightarrow> mem \<Rightarrow> mem" where
  "list_add new head m = list_add_between new head (list_next m head) m"

definition list_add_tail :: "addr \<Rightarrow> addr \<Rightarrow> mem \<Rightarrow> mem" where
  "list_add_tail new head m = list_add_between new (list_prev m head) head m"

text \<open>\<open>__list_del\<close>\<close>

definition list_del_between :: "addr \<Rightarrow> addr \<Rightarrow> mem \<Rightarrow> mem" where
  "list_del_between prv nxt m = set_next prv nxt (set_prev nxt prv m)"

definition list_del :: "addr \<Rightarrow> mem \<Rightarrow> mem" where
  "list_del entry m =
     (let m = list_del_between (list_prev m entry) (list_next m entry) m;
          m = set_next entry NULL m
      in set_prev entry NULL m)"

definition list_replace :: "addr \<Rightarrow> addr \<Rightarrow> mem \<Rightarrow> mem" where
  "list_replace old new m =
     (let m = set_next new (list_next m old) m;
          m = set_prev (list_next m new) new m;
          m = set_prev new (list_prev m old) m
      in set_next (list_prev m new) new m)"

definition list_replace_init :: "addr \<Rightarrow> addr \<Rightarrow> mem \<Rightarrow> mem" where
  "list_replace_init old new m = INIT_LIST_HEAD old (list_replace old new m)"

definition list_del_init :: "addr \<Rightarrow> mem \<Rightarrow> mem" where
  "list_del_init entry m =
     INIT_LIST_HEAD entry (list_del_between (list_prev m entry) (list_next m entry) m)"

definition list_move :: "addr \<Rightarrow> addr \<Rightarrow> mem \<Rightarrow> mem" where
  "list_move lst head m =
     list_add lst head (list_del_between (list_prev m lst) (list_next m lst) m)"

definition list_move_tail :: "addr \<Rightarrow> addr \<Rightarrow> mem \<Rightarrow> mem" where
  "list_move_tail lst head m =
     list_add_tail lst head (list_del_between (list_prev m lst) (list_next m lst) m)"

definition list_is_last :: "mem \<Rightarrow> addr \<Rightarrow> addr \<Rightarrow> bool" where
  "list_is_last m lst head = (list_next m lst = head)"

definition list_empty :: "mem \<Rightarrow> addr \<Rightarrow> bool" where
  "list_empty m head = (list_next m head = head)"

definition list_is_singular :: "mem \<Rightarrow> addr \<Rightarrow> bool" where
  "list_is_singular m head = (\<not> list_empty m head \<and> list_next m head = list_prev m head)"

partial_function (option) list_count_loop :: "mem \<Rightarrow> addr \<Rightarrow> addr \<Rightarrow> addr \<Rightarrow> addr option" where
  "list_count_loop m head pos nr =
     (if pos = head then Some nr else list_count_loop m head (list_next m pos) (nr + 1))"

definition list_count :: "mem \<Rightarrow> addr \<Rightarrow> addr option" where
  "list_count m head = list_count_loop m head (list_next m head) 0"

text \<open>\<open>container_of\<close>: the structure that has the list head at offset \<open>off\<close>.\<close>

definition list_entry :: "addr \<Rightarrow> addr \<Rightarrow> addr" where
  "list_entry p off = p - off"

definition list_first_entry :: "mem \<Rightarrow> addr \<Rightarrow> addr \<Rightarrow> addr" where
  "list_first_entry m p off = list_entry (list_next m p) off"

text \<open>The cursor values of \<open>list_for_each\<close> and \<open>list_for_each_entry\<close> over a list the body does not change.\<close>

partial_function (option) list_for_each_from :: "mem \<Rightarrow> addr \<Rightarrow> addr \<Rightarrow> addr list option" where
  "list_for_each_from m head pos =
     (if pos = head then Some []
      else do {
        ps \<leftarrow> list_for_each_from m head (list_next m pos);
        Some (pos # ps)
      })"

definition list_for_each :: "mem \<Rightarrow> addr \<Rightarrow> addr list option" where
  "list_for_each m head = list_for_each_from m head (list_next m head)"

definition list_for_each_entry :: "mem \<Rightarrow> addr \<Rightarrow> addr \<Rightarrow> addr list option" where
  "list_for_each_entry m head off = map_option (map (\<lambda>p. list_entry p off)) (list_for_each m head)"

section \<open>Rings\<close>

definition head_at :: "nat \<Rightarrow> bool" where
  "head_at a \<longleftrightarrow> 0 < a \<and> a + 16 \<le> 2 ^ 63"

definition apart :: "nat \<Rightarrow> nat \<Rightarrow> bool" where
  "apart a b \<longleftrightarrow> a + 16 \<le> b \<or> b + 16 \<le> a"

lemma apart_sym: "apart a b \<longleftrightarrow> apart b a"
  by (auto simp: apart_def)

lemma apart_neq [simp]: "\<not> apart a a"
  by (simp add: apart_def)

fun wf_ring :: "nat list \<Rightarrow> bool" where
  "wf_ring [] \<longleftrightarrow> True"
| "wf_ring (x # xs) \<longleftrightarrow> head_at x \<and> list_all (apart x) xs \<and> wf_ring xs"

lemma wf_ring_append:
  "wf_ring (xs @ ys) \<longleftrightarrow> wf_ring xs \<and> wf_ring ys \<and> (\<forall>x \<in> set xs. \<forall>y \<in> set ys. apart x y)"
  by (induction xs) (auto simp: list_all_iff)

lemma wf_ring_head: "wf_ring xs \<Longrightarrow> x \<in> set xs \<Longrightarrow> head_at x"
  by (induction xs) auto

lemma wf_ring_apart: "wf_ring xs \<Longrightarrow> x \<in> set xs \<Longrightarrow> y \<in> set xs \<Longrightarrow> x = y \<or> apart x y"
  by (induction xs) (auto simp: list_all_iff apart_sym)

lemma wf_ring_distinct: "wf_ring xs \<Longrightarrow> distinct xs"
  by (induction xs) (auto simp: list_all_iff)

lemma wf_ring_iff:
  "wf_ring xs \<longleftrightarrow> distinct xs \<and> (\<forall>x \<in> set xs. head_at x) \<and> (\<forall>x \<in> set xs. \<forall>y \<in> set xs. x = y \<or> apart x y)"
  by (induction xs) (auto simp: list_all_iff apart_sym)

lemma wf_ring_mset: "wf_ring xs \<Longrightarrow> distinct ys \<Longrightarrow> set ys \<subseteq> set xs \<Longrightarrow> wf_ring ys"
  unfolding wf_ring_iff by blast

text \<open>Two nodes of a well-formed ring are the same or do not overlap, so the four fields of two nodes
  are read and written independently.\<close>

lemma list_rw_same:
  assumes "head_at a"
  shows "list_next (set_next (ptr a) v m) (ptr a) = v" and "list_prev (set_prev (ptr a) v m) (ptr a) = v"
    and "list_next (set_prev (ptr a) v m) (ptr a) = list_next m (ptr a)"
    and "list_prev (set_next (ptr a) v m) (ptr a) = list_prev m (ptr a)"
  using assms m64.load_store_ptr [of "a + 8" a m v] m64.load_store_ptr [of a "a + 8" m v]
  by (simp_all add: list_next_def list_prev_def set_next_def set_prev_def head_at_def)

lemma list_rw_apart:
  assumes "head_at a" and "head_at b" and "apart a b"
  shows "list_next (set_next (ptr a) v m) (ptr b) = list_next m (ptr b)"
    and "list_prev (set_next (ptr a) v m) (ptr b) = list_prev m (ptr b)"
    and "list_next (set_prev (ptr a) v m) (ptr b) = list_next m (ptr b)"
    and "list_prev (set_prev (ptr a) v m) (ptr b) = list_prev m (ptr b)"
proof -
  have other: "load64 (store64 m (ptr (a + i)) v) (ptr (b + j)) = load64 m (ptr (b + j))"
    if "i = 0 \<or> i = 8" and "j = 0 \<or> j = 8" for i j
    using assms that by (intro m64.load_store_ptr) (auto simp: head_at_def apart_def)
  from other [of 0 0] other [of 0 8] other [of 8 0] other [of 8 8]
  show "list_next (set_next (ptr a) v m) (ptr b) = list_next m (ptr b)"
    and "list_prev (set_next (ptr a) v m) (ptr b) = list_prev m (ptr b)"
    and "list_next (set_prev (ptr a) v m) (ptr b) = list_next m (ptr b)"
    and "list_prev (set_prev (ptr a) v m) (ptr b) = list_prev m (ptr b)"
    by (simp_all add: list_next_def list_prev_def set_next_def set_prev_def)
qed

lemma ring_rw:
  assumes "wf_ring R" and "a \<in> set R" and "b \<in> set R"
  shows "list_next (set_next (ptr a) v m) (ptr b) = (if b = a then v else list_next m (ptr b))"
    and "list_prev (set_prev (ptr a) v m) (ptr b) = (if b = a then v else list_prev m (ptr b))"
    and "list_next (set_prev (ptr a) v m) (ptr b) = list_next m (ptr b)"
    and "list_prev (set_next (ptr a) v m) (ptr b) = list_prev m (ptr b)"
  using wf_ring_head [OF assms(1,2)] wf_ring_head [OF assms(1,3)] wf_ring_apart [OF assms]
  by (auto simp: list_rw_same list_rw_apart)

lemma ptr_node_eq:
  assumes "head_at a" and "head_at b"
  shows "ptr a = ptr b \<longleftrightarrow> a = b"
  using assms by (intro ptr_eq) (auto simp: head_at_def)

text \<open>A stretch of the ring: each node and its successor point at each other.\<close>

definition linked :: "mem \<Rightarrow> nat \<Rightarrow> nat \<Rightarrow> bool" where
  "linked m a b \<longleftrightarrow> list_next m (ptr a) = ptr b \<and> list_prev m (ptr b) = ptr a"

fun chain :: "mem \<Rightarrow> nat list \<Rightarrow> bool" where
  "chain m [] \<longleftrightarrow> True"
| "chain m [x] \<longleftrightarrow> True"
| "chain m (x # y # zs) \<longleftrightarrow> linked m x y \<and> chain m (y # zs)"

definition dlist :: "mem \<Rightarrow> nat \<Rightarrow> nat list \<Rightarrow> bool" where
  "dlist m h ns \<longleftrightarrow> wf_ring (h # ns) \<and> chain m (h # ns @ [h])"

lemma chain_append:
  "xs \<noteq> [] \<Longrightarrow> ys \<noteq> [] \<Longrightarrow> chain m (xs @ ys) \<longleftrightarrow> chain m xs \<and> linked m (last xs) (hd ys) \<and> chain m ys"
proof (induction m xs rule: chain.induct)
  case (2 m x)
  then show ?case by (cases ys) auto
qed simp_all

lemma chain_cong:
  assumes "\<And>x. x \<in> set (butlast ps) \<Longrightarrow> list_next m' (ptr x) = list_next m (ptr x)"
    and "\<And>x. x \<in> set (tl ps) \<Longrightarrow> list_prev m' (ptr x) = list_prev m (ptr x)"
  shows "chain m' ps \<longleftrightarrow> chain m ps"
  using assms by (induction m ps rule: chain.induct) (auto simp: linked_def)

lemma dlist_first: "dlist m h ns \<Longrightarrow> list_next m (ptr h) = ptr (hd (ns @ [h]))"
  by (cases ns) (auto simp: dlist_def linked_def)

lemma dlist_last: "dlist m h ns \<Longrightarrow> list_prev m (ptr h) = ptr (last (h # ns))"
  using chain_append [of "h # ns" "[h]" m] by (simp add: dlist_def linked_def)

lemma dlist_nodes: "dlist m h ns \<Longrightarrow> wf_ring (h # ns)"
  by (simp add: dlist_def)

text \<open>A list whose nodes are apart from everything an operation writes keeps its contents.\<close>

lemma dlist_cong:
  assumes "\<And>x. x \<in> set (h # ns) \<Longrightarrow> list_next m' (ptr x) = list_next m (ptr x)"
    and "\<And>x. x \<in> set (h # ns) \<Longrightarrow> list_prev m' (ptr x) = list_prev m (ptr x)"
  shows "dlist m' h ns \<longleftrightarrow> dlist m h ns"
proof -
  have "chain m' (h # ns @ [h]) \<longleftrightarrow> chain m (h # ns @ [h])"
    by (rule chain_cong) (use assms in \<open>auto simp: butlast_append split: if_splits\<close>)
  then show ?thesis by (simp add: dlist_def)
qed

section \<open>What the operations do to the list\<close>

lemma dlist_split:
  "dlist m h (xs @ ys) \<longleftrightarrow> wf_ring (h # xs @ ys) \<and> chain m (h # xs) \<and>
     linked m (last (h # xs)) (hd (ys @ [h])) \<and> chain m (ys @ [h])"
  using chain_append [of "h # xs" "ys @ [h]" m] by (simp add: dlist_def)

lemma dlist_at:
  assumes "dlist m h (xs @ y # ys)"
  shows "list_prev m (ptr y) = ptr (last (h # xs))" and "list_next m (ptr y) = ptr (hd (ys @ [h]))"
  using assms dlist_split [of m h xs "y # ys"] dlist_split [of m h "xs @ [y]" ys]
  by (auto simp: linked_def)

lemma dlist_init:
  assumes "head_at h"
  shows "dlist (INIT_LIST_HEAD (ptr h) m) h []"
  using assms by (simp add: dlist_def INIT_LIST_HEAD_def linked_def list_rw_same)

lemma last_hd_apart:
  assumes "distinct (h # xs @ ys)"
  shows "last (h # xs) \<in> set (h # xs)" and "hd (ys @ [h]) \<in> set (h # ys)"
    and "x \<in> set (butlast (h # xs)) \<Longrightarrow> x \<noteq> last (h # xs)" and "x \<in> set ys \<Longrightarrow> x \<noteq> last (h # xs)"
    and "x \<in> set xs \<Longrightarrow> x \<noteq> hd (ys @ [h])" and "x \<in> set (tl (ys @ [h])) \<Longrightarrow> x \<noteq> hd (ys @ [h])"
proof -
  have "distinct (butlast (h # xs) @ [last (h # xs)])"
    using assms by (subst append_butlast_last_id) auto
  then show "x \<in> set (butlast (h # xs)) \<Longrightarrow> x \<noteq> last (h # xs)"
    unfolding distinct_append by (auto simp del: butlast.simps last.simps)
  show l: "last (h # xs) \<in> set (h # xs)" by (rule last_in_set) simp
  show "hd (ys @ [h]) \<in> set (h # ys)" by (cases ys) auto
  show "x \<in> set ys \<Longrightarrow> x \<noteq> last (h # xs)"
    using l assms by auto
  show "x \<in> set xs \<Longrightarrow> x \<noteq> hd (ys @ [h])" and "x \<in> set (tl (ys @ [h])) \<Longrightarrow> x \<noteq> hd (ys @ [h])"
    using assms by (cases ys; auto)+
qed

text \<open>\<open>R\<close> is any collection of nodes that do not overlap and that includes those involved: the lists an
  operation does not touch are covered by it too.\<close>

lemma add_between_rw:
  assumes "wf_ring R" and "n \<in> set R" and "p \<in> set R" and "x \<in> set R" and "b \<in> set R"
  shows "list_next (list_add_between (ptr n) (ptr p) (ptr x) m) (ptr b) =
           (if b = p then ptr n else if b = n then ptr x else list_next m (ptr b))"
    and "list_prev (list_add_between (ptr n) (ptr p) (ptr x) m) (ptr b) =
           (if b = n then ptr p else if b = x then ptr n else list_prev m (ptr b))"
  by (simp_all add: list_add_between_def ring_rw [OF assms(1)] assms(2-))

lemma del_between_rw:
  assumes "wf_ring R" and "p \<in> set R" and "x \<in> set R" and "b \<in> set R"
  shows "list_next (list_del_between (ptr p) (ptr x) m) (ptr b) = (if b = p then ptr x else list_next m (ptr b))"
    and "list_prev (list_del_between (ptr p) (ptr x) m) (ptr b) = (if b = x then ptr p else list_prev m (ptr b))"
  by (simp_all add: list_del_between_def ring_rw [OF assms(1)] assms(2-))

lemma tl_sub: "b \<in> set (tl (ys @ [h])) \<Longrightarrow> b \<in> set (h # ys)"
  by (cases ys) auto

lemma insert_ring:
  assumes d: "dlist m h (xs @ ys)" and R: "wf_ring (n # h # xs @ ys)"
  shows "dlist (list_add_between (ptr n) (ptr (last (h # xs))) (ptr (hd (ys @ [h]))) m) h (xs @ n # ys)"
    (is "dlist ?m h _")
proof -
  let ?p = "last (h # xs)" and ?x = "hd (ys @ [h])"
  have dist: "distinct (h # xs @ ys)" and n: "n \<notin> set (h # xs @ ys)"
    using wf_ring_distinct [OF R] by auto
  note lh = last_hd_apart [OF dist]
  have mem: "?p \<in> set (n # h # xs @ ys)" "?x \<in> set (n # h # xs @ ys)" using lh(1,2) by auto
  note rw = add_between_rw [OF R _ mem]
  have "chain ?m (h # xs) \<longleftrightarrow> chain m (h # xs)"
  proof (rule chain_cong)
    fix b assume b: "b \<in> set (butlast (h # xs))"
    then have "b \<in> set (h # xs)" by (rule in_set_butlastD)
    with b show "list_next ?m (ptr b) = list_next m (ptr b)"
      using lh(3) [OF b] n by (subst rw(1)) auto
  next
    fix b assume b: "b \<in> set (tl (h # xs))"
    then show "list_prev ?m (ptr b) = list_prev m (ptr b)"
      using lh(5) [of b] n by (subst rw(2)) auto
  qed
  moreover have "chain ?m (ys @ [h]) \<longleftrightarrow> chain m (ys @ [h])"
  proof (rule chain_cong)
    fix b assume b: "b \<in> set (butlast (ys @ [h]))"
    then show "list_next ?m (ptr b) = list_next m (ptr b)"
      using lh(4) [of b] n by (subst rw(1)) auto
  next
    fix b assume b: "b \<in> set (tl (ys @ [h]))"
    then have "b \<in> set (h # ys)" by (rule tl_sub)
    with b show "list_prev ?m (ptr b) = list_prev m (ptr b)"
      using lh(6) [OF b] n by (subst rw(2)) auto
  qed
  moreover have "linked ?m ?p n" and "linked ?m n ?x"
    using n lh(1,2) mem unfolding linked_def by (auto simp: rw simp del: last.simps)
  moreover have "wf_ring (h # xs @ n # ys)"
    by (rule wf_ring_mset [OF R]) (use wf_ring_distinct [OF R] in auto)
  moreover have "chain m (h # xs)" and "chain m (ys @ [h])"
    using d by (simp_all add: dlist_split)
  ultimately show ?thesis
    unfolding dlist_split using chain_append [of "[n]" "ys @ [h]" ?m] by simp
qed

lemma delete_ring:
  assumes d: "dlist m h (xs @ y # ys)"
  shows "dlist (list_del_between (list_prev m (ptr y)) (list_next m (ptr y)) m) h (xs @ ys)"
    (is "dlist ?m h _")
proof -
  let ?p = "last (h # xs)" and ?x = "hd (ys @ [h])"
  have R: "wf_ring (h # xs @ y # ys)" by (rule dlist_nodes [OF d])
  have dist: "distinct (h # xs @ ys)" using wf_ring_distinct [OF R] by auto
  note lh = last_hd_apart [OF dist]
  have mem: "?p \<in> set (h # xs @ y # ys)" "?x \<in> set (h # xs @ y # ys)" using lh(1,2) by auto
  note rw = del_between_rw [OF R mem]
  have m: "?m = list_del_between (ptr ?p) (ptr ?x) m"
    by (simp only: dlist_at [OF d])
  have "chain ?m (h # xs) \<longleftrightarrow> chain m (h # xs)"
  proof (rule chain_cong)
    fix b assume b: "b \<in> set (butlast (h # xs))"
    then have "b \<in> set (h # xs)" by (rule in_set_butlastD)
    with b show "list_next ?m (ptr b) = list_next m (ptr b)"
      using lh(3) [OF b] unfolding m by (subst rw(1)) auto
  next
    fix b assume b: "b \<in> set (tl (h # xs))"
    then show "list_prev ?m (ptr b) = list_prev m (ptr b)"
      using lh(5) [of b] unfolding m by (subst rw(2)) auto
  qed
  moreover have "chain ?m (ys @ [h]) \<longleftrightarrow> chain m (ys @ [h])"
  proof (rule chain_cong)
    fix b assume b: "b \<in> set (butlast (ys @ [h]))"
    then show "list_next ?m (ptr b) = list_next m (ptr b)"
      using lh(4) [of b] unfolding m by (subst rw(1)) auto
  next
    fix b assume b: "b \<in> set (tl (ys @ [h]))"
    then have "b \<in> set (h # ys)" by (rule tl_sub)
    with b show "list_prev ?m (ptr b) = list_prev m (ptr b)"
      using lh(6) [OF b] unfolding m by (subst rw(2)) auto
  qed
  moreover have "linked ?m ?p ?x"
    using mem unfolding m linked_def by (auto simp: rw simp del: last.simps)
  moreover have "wf_ring (h # xs @ ys)"
    by (rule wf_ring_mset [OF R]) (use wf_ring_distinct [OF R] in auto)
  moreover have "chain m (h # xs)" and "chain m (ys @ [h])"
    using d dlist_split [of m h "xs @ [y]" ys] by (simp_all add: dlist_split)
  ultimately show ?thesis
    unfolding dlist_split by simp
qed

text \<open>Nodes that are neither the head nor on the list keep both fields.\<close>

definition same_links :: "nat set \<Rightarrow> mem \<Rightarrow> mem \<Rightarrow> bool" where
  "same_links S m m' \<longleftrightarrow>
     (\<forall>x \<in> S. list_next m' (ptr x) = list_next m (ptr x) \<and> list_prev m' (ptr x) = list_prev m (ptr x))"

lemma same_links_trans: "same_links S m m' \<Longrightarrow> same_links S m' m'' \<Longrightarrow> same_links S m m''"
  by (simp add: same_links_def)

lemma same_links_dlist: "same_links (set (h # ns)) m m' \<Longrightarrow> dlist m' h ns \<longleftrightarrow> dlist m h ns"
  by (rule dlist_cong) (auto simp: same_links_def)

lemma same_links_mono: "same_links S m m' \<Longrightarrow> T \<subseteq> S \<Longrightarrow> same_links T m m'"
  by (auto simp: same_links_def)

lemma insert_ring_frame:
  assumes "wf_ring R" and "set (n # h # xs @ ys) \<subseteq> set R"
  shows "same_links (set R - set (n # h # xs @ ys)) m
           (list_add_between (ptr n) (ptr (last (h # xs))) (ptr (hd (ys @ [h]))) m)"
proof -
  have "last (h # xs) \<in> set (h # xs)" and "hd (ys @ [h]) \<in> set (h # ys)"
    by (rule last_in_set, simp) (cases ys; simp)
  moreover from this have "last (h # xs) \<in> set R" and "hd (ys @ [h]) \<in> set R"
    using assms(2) by auto
  ultimately show ?thesis
    using assms(2) by (auto simp: same_links_def add_between_rw [OF assms(1)] simp del: last.simps)
qed

lemma delete_ring_frame:
  assumes "dlist m h (xs @ y # ys)" and "wf_ring R" and "set (h # xs @ y # ys) \<subseteq> set R"
  shows "same_links (set R - set (h # xs @ ys)) m
           (list_del_between (list_prev m (ptr y)) (list_next m (ptr y)) m)"
proof -
  have "last (h # xs) \<in> set (h # xs)" and "hd (ys @ [h]) \<in> set (h # ys)"
    by (rule last_in_set, simp) (cases ys; simp)
  moreover from this have "last (h # xs) \<in> set R" and "hd (ys @ [h]) \<in> set R"
    using assms(3) by auto
  ultimately show ?thesis
    unfolding dlist_at [OF assms(1)]
    by (auto simp: same_links_def del_between_rw [OF assms(2)] simp del: last.simps)
qed

lemma init_frame:
  assumes "wf_ring R" and "n \<in> set R"
  shows "same_links (set R - {n}) m (INIT_LIST_HEAD (ptr n) m)"
  using assms by (auto simp: same_links_def INIT_LIST_HEAD_def ring_rw [OF assms(1)])

lemma list_add_dlist:
  assumes "dlist m h ns" and "wf_ring (n # h # ns)"
  shows "dlist (list_add (ptr n) (ptr h) m) h (n # ns)"
  using insert_ring [of m h "[]" ns n] assms by (simp add: list_add_def dlist_first)

lemma list_add_tail_dlist:
  assumes "dlist m h ns" and "wf_ring (n # h # ns)"
  shows "dlist (list_add_tail (ptr n) (ptr h) m) h (ns @ [n])"
  using insert_ring [of m h ns "[]" n] assms by (simp add: list_add_tail_def dlist_last del: last.simps)

lemma list_add_frame:
  assumes "dlist m h ns" and "wf_ring R" and "set (n # h # ns) \<subseteq> set R"
  shows "same_links (set R - set (n # h # ns)) m (list_add (ptr n) (ptr h) m)"
    and "same_links (set R - set (n # h # ns)) m (list_add_tail (ptr n) (ptr h) m)"
  using insert_ring_frame [of R n h "[]" ns m] insert_ring_frame [of R n h ns "[]" m] assms
  by (simp_all add: list_add_def list_add_tail_def dlist_first dlist_last)

lemma list_del_dlist:
  assumes "dlist m h (xs @ y # ys)"
  shows "dlist (list_del (ptr y) m) h (xs @ ys)"
    and "list_next (list_del (ptr y) m) (ptr y) = NULL" and "list_prev (list_del (ptr y) m) (ptr y) = NULL"
proof -
  let ?m = "list_del_between (list_prev m (ptr y)) (list_next m (ptr y)) m"
  have R: "wf_ring (h # xs @ y # ys)" by (rule dlist_nodes [OF assms])
  then have y: "y \<notin> set (h # xs @ ys)" and hy: "head_at y"
    using wf_ring_distinct [OF R] wf_ring_head [OF R, of y] by auto
  have eq: "list_del (ptr y) m = set_prev (ptr y) NULL (set_next (ptr y) NULL ?m)"
    by (simp add: list_del_def)
  have "same_links (set (h # xs @ ys)) ?m (list_del (ptr y) m)"
    unfolding eq same_links_def using y by (auto simp: ring_rw [OF R])
  with delete_ring [OF assms] show "dlist (list_del (ptr y) m) h (xs @ ys)"
    using same_links_dlist by blast
  show "list_next (list_del (ptr y) m) (ptr y) = NULL" and "list_prev (list_del (ptr y) m) (ptr y) = NULL"
    unfolding eq using hy by (simp_all add: list_rw_same)
qed

lemma list_del_init_dlist:
  assumes "dlist m h (xs @ y # ys)"
  shows "dlist (list_del_init (ptr y) m) h (xs @ ys) \<and> dlist (list_del_init (ptr y) m) y []"
proof
  have R: "wf_ring (h # xs @ y # ys)" by (rule dlist_nodes [OF assms])
  then have y: "y \<notin> set (h # xs @ ys)" and hy: "head_at y"
    using wf_ring_distinct [OF R] wf_ring_head [OF R, of y] by auto
  show "dlist (list_del_init (ptr y) m) y []"
    unfolding list_del_init_def by (rule dlist_init [OF hy])
  have "same_links (set (h # xs @ ys)) (list_del_between (list_prev m (ptr y)) (list_next m (ptr y)) m)
          (list_del_init (ptr y) m)"
    unfolding list_del_init_def by (rule same_links_mono [OF init_frame [OF R]]) (use y in auto)
  with delete_ring [OF assms] show "dlist (list_del_init (ptr y) m) h (xs @ ys)"
    using same_links_dlist by blast
qed

lemma replace_rw:
  assumes R: "wf_ring R" and R_mem: "y \<in> set R" "n \<in> set R" "p \<in> set R" "x \<in> set R" "b \<in> set R"
    and at: "list_prev m (ptr y) = ptr p" "list_next m (ptr y) = ptr x"
    and ne: "p \<noteq> n" "x \<noteq> n" "x \<noteq> y" "y \<noteq> n"
  shows "list_next (list_replace (ptr y) (ptr n) m) (ptr b) =
           (if b = p then ptr n else if b = n then ptr x else list_next m (ptr b))"
    and "list_prev (list_replace (ptr y) (ptr n) m) (ptr b) =
           (if b = n then ptr p else if b = x then ptr n else list_prev m (ptr b))"
  by (simp_all add: list_replace_def Let_def ring_rw [OF R] R_mem at ne ne [symmetric])

lemma list_replace_dlist:
  assumes d: "dlist m h (xs @ y # ys)" and R: "wf_ring (n # h # xs @ y # ys)"
  shows "dlist (list_replace (ptr y) (ptr n) m) h (xs @ n # ys)"
proof -
  define p where "p = last (h # xs)"
  define x where "x = hd (ys @ [h])"
  let ?m = "list_add_between (ptr n) (ptr p) (ptr x) (list_del_between (ptr p) (ptr x) m)"
  have dist: "distinct (n # h # xs @ y # ys)" by (rule wf_ring_distinct [OF R])
  then have dist': "distinct (h # xs @ ys)" by auto
  have px: "p \<in> set (h # xs)" "x \<in> set (h # ys)"
    using last_hd_apart(1,2) [OF dist'] by (simp_all only: p_def x_def)
  then have mem: "p \<in> set (n # h # xs @ y # ys)" "x \<in> set (n # h # xs @ y # ys)" by auto
  have ne: "p \<noteq> n" "x \<noteq> n" "x \<noteq> y" "y \<noteq> n" using dist px by auto
  have at: "list_prev m (ptr y) = ptr p" "list_next m (ptr y) = ptr x"
    by (simp_all only: dlist_at [OF d] p_def x_def)
  have "wf_ring (n # h # xs @ ys)"
    by (rule wf_ring_mset [OF R]) (use dist in auto)
  then have "dlist ?m h (xs @ n # ys)"
    using delete_ring [OF d] unfolding at p_def x_def by (intro insert_ring)
  moreover have "same_links (set (h # xs @ n # ys)) ?m (list_replace (ptr y) (ptr n) m)"
    unfolding same_links_def
  proof
    fix b assume b: "b \<in> set (h # xs @ n # ys)"
    have n: "n \<in> set (n # h # xs @ y # ys)" and y: "y \<in> set (n # h # xs @ y # ys)"
      and b': "b \<in> set (n # h # xs @ y # ys)" using b by auto
    show "list_next (list_replace (ptr y) (ptr n) m) (ptr b) = list_next ?m (ptr b) \<and>
        list_prev (list_replace (ptr y) (ptr n) m) (ptr b) = list_prev ?m (ptr b)"
      unfolding replace_rw [OF R y n mem b' at ne] add_between_rw [OF R n mem b'] del_between_rw [OF R mem b']
      by simp
  qed
  ultimately show ?thesis using same_links_dlist by blast
qed

text \<open>Moving a node to another list.\<close>

lemma move_ring:
  assumes d: "dlist m h (xs @ y # ys)" and k: "dlist m k zs" and R: "wf_ring (h # xs @ y # ys @ k # zs)"
  shows "dlist (list_move (ptr y) (ptr k) m) h (xs @ ys)" and "dlist (list_move (ptr y) (ptr k) m) k (y # zs)"
    and "dlist (list_move_tail (ptr y) (ptr k) m) h (xs @ ys)"
    and "dlist (list_move_tail (ptr y) (ptr k) m) k (zs @ [y])"
proof -
  let ?R = "h # xs @ y # ys @ k # zs"
  let ?m = "list_del_between (list_prev m (ptr y)) (list_next m (ptr y)) m"
  have dist: "distinct ?R" by (rule wf_ring_distinct [OF R])
  have h': "dlist ?m h (xs @ ys)" by (rule delete_ring [OF d])
  have "same_links (set ?R - set (h # xs @ ys)) m ?m"
    by (rule delete_ring_frame [OF d R]) auto
  then have "same_links (set (k # zs)) m ?m"
    by (rule same_links_mono) (use dist in auto)
  with k have k': "dlist ?m k zs" by (simp only: same_links_dlist)
  have wf: "wf_ring (y # k # zs)" by (rule wf_ring_mset [OF R]) (use dist in auto)
  show "dlist (list_move (ptr y) (ptr k) m) k (y # zs)" and "dlist (list_move_tail (ptr y) (ptr k) m) k (zs @ [y])"
    unfolding list_move_def list_move_tail_def
    by (rule list_add_dlist [OF k' wf], rule list_add_tail_dlist [OF k' wf])
  have sub: "set (y # k # zs) \<subseteq> set ?R" and rest: "set (h # xs @ ys) \<subseteq> set ?R - set (y # k # zs)"
    using dist by auto
  show "dlist (list_move (ptr y) (ptr k) m) h (xs @ ys)" and "dlist (list_move_tail (ptr y) (ptr k) m) h (xs @ ys)"
    unfolding list_move_def list_move_tail_def
    using h' list_add_frame [OF k' R sub] same_links_mono [OF _ rest] same_links_dlist by blast+
qed

text \<open>Moving a node within its own list.\<close>

lemma move_within:
  assumes d: "dlist m h (xs @ y # ys)"
  shows "dlist (list_move (ptr y) (ptr h) m) h (y # xs @ ys)"
    and "dlist (list_move_tail (ptr y) (ptr h) m) h (xs @ ys @ [y])"
proof -
  have R: "wf_ring (h # xs @ y # ys)" by (rule dlist_nodes [OF d])
  have wf: "wf_ring (y # h # xs @ ys)"
    by (rule wf_ring_mset [OF R]) (use wf_ring_distinct [OF R] in auto)
  show "dlist (list_move (ptr y) (ptr h) m) h (y # xs @ ys)"
    unfolding list_move_def by (rule list_add_dlist [OF delete_ring [OF d] wf])
  show "dlist (list_move_tail (ptr y) (ptr h) m) h (xs @ ys @ [y])"
    unfolding list_move_tail_def using list_add_tail_dlist [OF delete_ring [OF d] wf] by simp
qed

section \<open>The queries and the walks\<close>

lemma list_empty_iff: "dlist m h ns \<Longrightarrow> list_empty m (ptr h) \<longleftrightarrow> ns = []"
  by (cases ns) (auto simp: list_empty_def dlist_def linked_def ptr_node_eq)

lemma list_is_singular_iff: "dlist m h ns \<Longrightarrow> list_is_singular m (ptr h) \<longleftrightarrow> length ns = 1"
proof -
  assume d: "dlist m h ns"
  note R = dlist_nodes [OF d]
  show ?thesis
  proof (cases ns rule: rev_cases)
    case Nil
    with d show ?thesis by (simp add: list_is_singular_def list_empty_iff)
  next
    case (snoc xs z)
    then have "list_is_singular m (ptr h) \<longleftrightarrow> ptr (hd ns) = ptr z"
      using d by (cases xs) (auto simp: list_is_singular_def list_empty_iff dlist_first dlist_last)
    also have "\<dots> \<longleftrightarrow> hd ns = z"
      using snoc by (intro ptr_node_eq wf_ring_head [OF R]) (cases xs; auto)+
    also have "\<dots> \<longleftrightarrow> xs = []"
      using snoc wf_ring_distinct [OF R] by (cases xs) auto
    finally show ?thesis using snoc by simp
  qed
qed

lemma list_is_last_iff:
  assumes d: "dlist m h ns" and y: "y \<in> set ns"
  shows "list_is_last m (ptr y) (ptr h) \<longleftrightarrow> y = last ns"
proof -
  obtain xs ys where ns: "ns = xs @ y # ys" using y by (auto dest: split_list)
  note R = dlist_nodes [OF d [unfolded ns]]
  have "list_is_last m (ptr y) (ptr h) \<longleftrightarrow> ptr (hd (ys @ [h])) = ptr h"
    using dlist_at(2) [OF d [unfolded ns]] by (simp add: list_is_last_def)
  also have "\<dots> \<longleftrightarrow> hd (ys @ [h]) = h"
    by (intro ptr_node_eq wf_ring_head [OF R]) (cases ys; auto)+
  also have "\<dots> \<longleftrightarrow> y = last ns"
    using wf_ring_distinct [OF R] by (cases ys) (auto simp: ns)
  finally show ?thesis .
qed

text \<open>From any node of the list both walks visit the rest and stop at the head.\<close>

lemma list_walk:
  assumes "dlist m h (xs @ ys)"
  shows "list_count_loop m (ptr h) (ptr (hd (ys @ [h]))) c = Some (c + ptr (length ys)) \<and>
         list_for_each_from m (ptr h) (ptr (hd (ys @ [h]))) = Some (map ptr ys)"
  using assms
proof (induction ys arbitrary: xs c)
  case Nil
  show ?case by (subst list_count_loop.simps, subst list_for_each_from.simps) simp
next
  case (Cons y ys)
  then have d: "dlist m h ((xs @ [y]) @ ys)" by simp
  have nxt: "list_next m (ptr y) = ptr (hd (ys @ [h]))" using dlist_at(2) [OF Cons.prems] .
  have "y \<noteq> h" and "head_at y" and "head_at h"
    using dlist_nodes [OF Cons.prems] by (auto simp: wf_ring_append)
  then have "ptr y \<noteq> ptr h" by (simp add: ptr_node_eq)
  with nxt Cons.IH [OF d, of "c + 1"] Cons.IH [OF d, of c] show ?case
    by (subst list_count_loop.simps, subst list_for_each_from.simps)
      (simp add: add.assoc add.commute [of 1] flip: ptr_Suc del: ptr_Suc)
qed

lemma list_count_length: "dlist m h ns \<Longrightarrow> list_count m (ptr h) = Some (ptr (length ns))"
  using list_walk [of m h "[]" ns 0] by (simp add: list_count_def dlist_first)

lemma list_for_each_nodes: "dlist m h ns \<Longrightarrow> list_for_each m (ptr h) = Some (map ptr ns)"
  using list_walk [of m h "[]" ns 0] by (simp add: list_for_each_def dlist_first)

text \<open>Nodes that do not overlap are too few for the counter to wrap.\<close>

lemma wf_ring_bounded:
  assumes R: "wf_ring ns"
  shows "16 * length ns \<le> 2 ^ 63"
proof -
  have "{x ..< x + 16} \<inter> {y ..< y + 16} = {}" if "x \<in> set ns" "y \<in> set ns" "x \<noteq> y" for x y
    using wf_ring_apart [OF R that(1,2)] that(3) by (auto simp: apart_def)
  then have "card (\<Union>x \<in> set ns. {x ..< x + 16}) = (\<Sum>x \<in> set ns. card {x ..< x + 16})"
    by (intro card_UN_disjoint) auto
  also have "\<dots> = 16 * length ns"
    using wf_ring_distinct [OF R] by (simp add: distinct_card)
  finally have "16 * length ns = card (\<Union>x \<in> set ns. {x ..< x + 16})" by simp
  also have "\<dots> \<le> card {..< 2 ^ 63 :: nat}"
  proof (rule card_mono)
    have "{x ..< x + 16} \<subseteq> {..< 2 ^ 63}" if "x \<in> set ns" for x
      using wf_ring_head [OF R that] by (auto simp: head_at_def)
    then show "(\<Union>x \<in> set ns. {x ..< x + 16}) \<subseteq> {..< 2 ^ 63}" by blast
  qed simp
  finally show ?thesis by simp
qed

section \<open>The interface of the users\<close>

text \<open>
  \<open>map_object_deps\<close> (the run list) and \<open>elf-clack\<close> (the list of cracked functions) build a list by
  initialising a head and appending nodes, and walk it from the front, appending while they walk. They
  rely on these laws only.
\<close>

locale node_queue =
  fixes rep :: "mem \<Rightarrow> nat \<Rightarrow> nat list \<Rightarrow> bool"
    and init :: "nat \<Rightarrow> mem \<Rightarrow> mem"
    and push :: "nat \<Rightarrow> nat \<Rightarrow> mem \<Rightarrow> mem"
    and drop :: "nat \<Rightarrow> mem \<Rightarrow> mem"
    and walk :: "mem \<Rightarrow> nat \<Rightarrow> addr list option"
  assumes rep_init: "head_at h \<Longrightarrow> rep (init h m) h []"
    and rep_push: "rep m h ns \<Longrightarrow> wf_ring (n # h # ns) \<Longrightarrow> rep (push n h m) h (ns @ [n])"
    and rep_drop: "rep m h (n # ns) \<Longrightarrow> rep (drop n m) h ns"
    and rep_walk: "rep m h ns \<Longrightarrow> walk m h = Some (map ptr ns)"
    and rep_nodes: "rep m h ns \<Longrightarrow> wf_ring (h # ns)"
begin

lemma rep_push_all:
  "rep m h ns \<Longrightarrow> wf_ring (h # ns @ xs) \<Longrightarrow> rep (fold (\<lambda>n. push n h) xs m) h (ns @ xs)"
proof (induction xs arbitrary: m ns)
  case Nil
  then show ?case by simp
next
  case (Cons x xs)
  have "wf_ring (x # h # ns)"
    by (rule wf_ring_mset [OF Cons.prems(2)]) (use wf_ring_distinct [OF Cons.prems(2)] in auto)
  then have "rep (push x h m) h (ns @ [x])" by (rule rep_push [OF Cons.prems(1)])
  then show ?case using Cons.IH [of "push x h m" "ns @ [x]"] Cons.prems(2) by simp
qed

lemma built_walk:
  assumes "wf_ring (h # ns)"
  shows "walk (fold (\<lambda>n. push n h) ns (init h m)) h = Some (map ptr ns)"
  using assms rep_push_all [of "init h m" h "[]" ns] by (simp add: rep_init rep_walk)

lemma drained_walk:
  "rep m h (xs @ ys) \<Longrightarrow> walk (fold drop xs m) h = Some (map ptr ys)"
proof (induction xs arbitrary: m)
  case (Cons x xs)
  then have "rep (drop x m) h (xs @ ys)" by (simp add: rep_drop)
  then show ?case using Cons.IH by simp
qed (simp add: rep_walk)

end

interpretation nq: node_queue dlist "\<lambda>h. INIT_LIST_HEAD (ptr h)" "\<lambda>n h. list_add_tail (ptr n) (ptr h)"
  "\<lambda>n. list_del (ptr n)" "\<lambda>m h. list_for_each m (ptr h)"
proof
  show "dlist (list_del (ptr n) m) h ns" if "dlist m h (n # ns)" for m h n ns
    using list_del_dlist(1) [of m h "[]" n ns] that by simp
qed (simp_all only: dlist_init list_add_tail_dlist list_for_each_nodes dlist_nodes)

section \<open>Properties\<close>

text \<open>
  C19. For two lists whose nodes do not overlap and a node \<open>y\<close> anywhere on the first,
  \<open>list_move_tail\<close> takes \<open>y\<close> out of the first list and makes it the last node of the second and
  \<open>list_move\<close> makes it the first; \<open>list_del\<close> only takes it out, leaves NULL in its two fields and
  does not change the second list.
\<close>

theorem list_moves_between_lists:
  assumes "dlist m h (xs @ y # ys)" and "dlist m k zs" and "wf_ring (h # xs @ y # ys @ k # zs)"
  shows "dlist (list_move_tail (ptr y) (ptr k) m) h (xs @ ys) \<and>
         dlist (list_move_tail (ptr y) (ptr k) m) k (zs @ [y]) \<and>
         dlist (list_move (ptr y) (ptr k) m) h (xs @ ys) \<and>
         dlist (list_move (ptr y) (ptr k) m) k (y # zs) \<and>
         dlist (list_del (ptr y) m) h (xs @ ys) \<and> dlist (list_del (ptr y) m) k zs \<and>
         list_next (list_del (ptr y) m) (ptr y) = NULL \<and> list_prev (list_del (ptr y) m) (ptr y) = NULL"
proof -
  let ?R = "h # xs @ y # ys @ k # zs"
  let ?m = "list_del_between (list_prev m (ptr y)) (list_next m (ptr y)) m"
  have dist: "distinct ?R" by (rule wf_ring_distinct [OF assms(3)])
  have "same_links (set ?R - set (h # xs @ ys)) m ?m"
    by (rule delete_ring_frame [OF assms(1,3)]) auto
  then have 1: "same_links (set (k # zs)) m ?m"
    by (rule same_links_mono) (use dist in auto)
  have "y \<in> set ?R" and "set (k # zs) \<subseteq> set ?R" and "y \<notin> set (k # zs)" using dist by auto
  then have 2: "same_links (set (k # zs)) ?m (list_del (ptr y) m)"
    unfolding same_links_def list_del_def Let_def by (auto simp: ring_rw [OF assms(3)])
  have "dlist (list_del (ptr y) m) k zs"
    using same_links_dlist [OF same_links_trans [OF 1 2]] assms(2) by blast
  with move_ring [OF assms] list_del_dlist [OF assms(1)] show ?thesis by blast
qed

text \<open>
  C20. A list that is initialised and then filled with \<open>list_add_tail\<close> holds the nodes in the order they
  were added: the walks end and visit exactly them in this order, \<open>list_count\<close> is their number (the
  counter cannot wrap), and \<open>list_empty\<close> and \<open>list_is_singular\<close> are right.
\<close>

theorem list_built_in_order:
  assumes "wf_ring (h # ns)" and "m' = fold (\<lambda>n. list_add_tail (ptr n) (ptr h)) ns (INIT_LIST_HEAD (ptr h) m)"
  shows "list_for_each m' (ptr h) = Some (map ptr ns) \<and>
         map_option unat (list_count m' (ptr h)) = Some (length ns) \<and>
         (list_empty m' (ptr h) \<longleftrightarrow> ns = []) \<and> (list_is_singular m' (ptr h) \<longleftrightarrow> length ns = 1)"
proof -
  have h: "head_at h" using assms(1) by simp
  have d: "dlist m' h ns"
    using nq.rep_push_all [OF dlist_init [OF h], of ns m] assms by simp
  have "length ns < 2 ^ 64" using wf_ring_bounded [OF assms(1)] by simp
  then have "unat (ptr (length ns)) = length ns" by (rule unat_ptr)
  moreover have "list_for_each m' (ptr h) = Some (map ptr ns)"
    using nq.built_walk [OF assms(1)] by (simp add: assms(2))
  ultimately show ?thesis
    using d by (simp add: list_count_length list_empty_iff list_is_singular_iff)
qed

text \<open>
  \<open>list_replace\<close> puts the new node in the place of the old one, wherever that is, and
  \<open>list_replace_init\<close> leaves the old node an empty list of its own.
\<close>

theorem list_replace_in_place:
  assumes "dlist m h (xs @ y # ys)" and "wf_ring (n # h # xs @ y # ys)"
  shows "dlist (list_replace (ptr y) (ptr n) m) h (xs @ n # ys) \<and>
         dlist (list_replace_init (ptr y) (ptr n) m) h (xs @ n # ys) \<and>
         dlist (list_replace_init (ptr y) (ptr n) m) y []"
proof -
  have dist: "distinct (n # h # xs @ y # ys)" by (rule wf_ring_distinct [OF assms(2)])
  have y: "head_at y" by (rule wf_ring_head [OF assms(2)]) simp
  have "same_links (set (n # h # xs @ y # ys) - {y}) (list_replace (ptr y) (ptr n) m)
          (list_replace_init (ptr y) (ptr n) m)"
    unfolding list_replace_init_def by (rule init_frame [OF assms(2)]) simp
  then have "same_links (set (h # xs @ n # ys)) (list_replace (ptr y) (ptr n) m) (list_replace_init (ptr y) (ptr n) m)"
    by (rule same_links_mono) (use dist in auto)
  with list_replace_dlist [OF assms] dlist_init [OF y] show ?thesis
    using same_links_dlist unfolding list_replace_init_def by blast
qed

section \<open>Examples\<close>

lemma built_frame:
  assumes "wf_ring R" and "dlist m h ns" and "distinct (h # ns @ xs)" and "set (h # ns @ xs) \<subseteq> set R"
  shows "same_links (set R - set (h # ns @ xs)) m (fold (\<lambda>n. list_add_tail (ptr n) (ptr h)) xs m)"
  using assms(2-)
proof (induction xs arbitrary: m ns)
  case Nil
  then show ?case by (simp add: same_links_def)
next
  case (Cons x xs)
  let ?m = "list_add_tail (ptr x) (ptr h) m"
  have wf: "wf_ring (x # h # ns)"
    by (rule wf_ring_mset [OF assms(1)]) (use Cons.prems in auto)
  have "same_links (set R - set (x # h # ns)) m ?m"
    using Cons.prems by (intro list_add_frame(2) [OF _ assms(1)]) auto
  then have "same_links (set R - set (h # ns @ x # xs)) m ?m"
    by (rule same_links_mono) auto
  moreover have "same_links (set R - set (h # ns @ x # xs)) ?m (fold (\<lambda>n. list_add_tail (ptr n) (ptr h)) xs ?m)"
    using Cons.IH [OF list_add_tail_dlist [OF Cons.prems(1) wf]] Cons.prems(2,3) by simp
  ultimately show ?case using same_links_trans by simp
qed

definition demo_ring1 :: mem where
  "demo_ring1 = fold (\<lambda>n. list_add_tail (ptr n) (ptr 256)) [288] (INIT_LIST_HEAD (ptr 256) (\<lambda>_. 0))"

definition demo_ring :: mem where
  "demo_ring = fold (\<lambda>n. list_add_tail (ptr n) (ptr 64)) [96, 128, 160] (INIT_LIST_HEAD (ptr 64) demo_ring1)"

lemma demo_ring_nodes: "wf_ring [64, 96, 128, 160, 256, 288]"
  by (simp add: head_at_def apart_def)

lemma demo_ring_lists: "dlist demo_ring 64 ([96] @ 128 # [160]) \<and> dlist demo_ring 256 [288]"
proof
  have h: "head_at 64" "head_at 256" by (simp_all add: head_at_def)
  show "dlist demo_ring 64 ([96] @ 128 # [160])"
    using nq.rep_push_all [OF dlist_init [OF h(1)], of "[96, 128, 160]" demo_ring1] demo_ring_nodes
    by (simp add: demo_ring_def)
  have "dlist demo_ring1 256 [288]"
    using nq.rep_push_all [OF dlist_init [OF h(2)], of "[288]" "\<lambda>_. 0"] demo_ring_nodes
    by (simp add: demo_ring1_def)
  moreover have "same_links {256, 288} demo_ring1 (INIT_LIST_HEAD (ptr 64) demo_ring1)"
    using init_frame [OF demo_ring_nodes, of 64 demo_ring1] by (rule same_links_mono) auto
  moreover have "same_links {256, 288} (INIT_LIST_HEAD (ptr 64) demo_ring1) demo_ring"
    using built_frame [OF demo_ring_nodes dlist_init [OF h(1)], of "[96, 128, 160]" demo_ring1]
    unfolding demo_ring_def by (rule same_links_mono) auto
  ultimately show "dlist demo_ring 256 [288]"
    using same_links_dlist [of 256 "[288]" demo_ring1 demo_ring]
    by (simp add: same_links_trans [of _ demo_ring1 "INIT_LIST_HEAD (ptr 64) demo_ring1"])
qed

theorem list_moves_between_lists_witness:
  "dlist (list_move_tail (ptr 128) (ptr 256) demo_ring) 64 [96, 160] \<and>
   dlist (list_move_tail (ptr 128) (ptr 256) demo_ring) 256 [288, 128]"
  using list_moves_between_lists [of demo_ring 64 "[96]" 128 "[160]" 256 "[288]"]
    demo_ring_lists demo_ring_nodes by simp

theorem list_built_in_order_witness:
  "list_for_each (fold (\<lambda>n. list_add_tail (ptr n) (ptr 64)) [96, 128] (INIT_LIST_HEAD (ptr 64) (\<lambda>_. 0))) (ptr 64)
     = Some [ptr 96, ptr 128]"
  using list_built_in_order [OF _ refl, of 64 "[96, 128]" "\<lambda>_. 0"] demo_ring_nodes by simp

theorem list_replace_in_place_witness:
  "dlist (list_replace_init (ptr 128) (ptr 512) demo_ring) 64 [96, 512, 160] \<and>
   dlist (list_replace_init (ptr 128) (ptr 512) demo_ring) 128 []"
proof -
  have "wf_ring (512 # 64 # [96] @ 128 # [160])" by (simp add: head_at_def apart_def)
  then show ?thesis
    using list_replace_in_place [of demo_ring 64 "[96]" 128 "[160]" 512] demo_ring_lists by simp
qed

end
