(* ===== verification/Load.thy ===== *)
theory Load
  imports Reloc Klist Printf_Props
begin

text \<open>
  Loading objects (\<open>rtld/load.c\<close>): the dynamic section and the program headers of an object, mapping its
  segments, finding it along the search paths, the namespace, and the breadth-first loading of
  dependencies. Output is left out; the assertions in \<open>print_namespace\<close> are kept.
\<close>

section \<open>The dynamic section\<close>

definition check_dynamic_assert :: "mem \<Rightarrow> link_map \<Rightarrow> unit outcome" where
  "check_dynamic_assert m L =
     obind (if D_VALID L DT_NEEDED then oassert (l_info L DT_SYMTAB \<noteq> NULL) else oreturn ()) (\<lambda>_.
     obind
       (if D_VALID L DT_RELA then
          obind (D_PTR m L DT_RELAENT) (\<lambda>p.
          obind (if p \<noteq> 0 then obind (D_VAL m L DT_RELAENT) (\<lambda>v. oassert (v = sizeof_Rela)) else oreturn ()) (\<lambda>_.
          obind (oassert (D_VALID L DT_RELASZ)) (\<lambda>_.
          obind (oassert (D_VALID L DT_SYMTAB)) (\<lambda>_. oassert (D_VALID L DT_STRTAB)))))
        else oreturn ()) (\<lambda>_.
     obind
       (if D_VALID L DT_PLTGOT then
          obind (oassert (D_VALID L DT_PLTREL)) (\<lambda>_.
          obind (oassert (D_VALID L DT_PLTRELSZ)) (\<lambda>_.
          obind (oassert (D_VALID L DT_PLTREL)) (\<lambda>_.
          obind (D_VAL m L DT_PLTREL) (\<lambda>v. oassert (v = of_nat DT_RELA)))))
        else oreturn ()) (\<lambda>_.
     obind (if D_VALID L DT_SYMENT then obind (D_VAL m L DT_SYMENT) (\<lambda>v. oassert (v = sizeof_Sym)) else oreturn ()) (\<lambda>_.
     if D_VALID L DT_HASH then obind (oassert (l_buckets L \<noteq> NULL)) (\<lambda>_. oassert (l_chain L \<noteq> NULL)) else oreturn ()))))"

text \<open>The first loop of \<open>parse_dynamic\<close>; \<open>d_tag\<close> is signed.\<close>

partial_function (option) dyn_scan :: "'w env \<Rightarrow> mem \<Rightarrow> addr \<Rightarrow> (nat \<Rightarrow> addr) \<Rightarrow> (nat \<Rightarrow> addr) outcome" where
  "dyn_scan E m dyn info =
     (if d_tag m dyn = 0 then oreturn info
      else let t = sint (d_tag m dyn)
        in obind
          (if t < int (dt_num E) then
             (if t < 0 then ostop Out_of_bounds else oreturn (info(nat t := dyn)))
           else oreturn info) (\<lambda>info.
          if t = int DT_AUXILIARY \<or> t = int DT_FILTER then ostop (Exited 1)
          else dyn_scan E m (dyn + sizeof_Dyn) info))"

text \<open>The search of \<open>GL(rpath)\<close> for a path: the index of the path or of the closing NULL.\<close>

primrec rpath_find :: "mem \<Rightarrow> addr \<Rightarrow> addr list \<Rightarrow> nat outcome" where
  "rpath_find m newpath [] = ostop Out_of_bounds"
| "rpath_find m newpath (p # ps) =
     (if p = NULL then oreturn 0
      else obind (olift (strcmp m p newpath)) (\<lambda>r.
        if r = 0 then oreturn 0 else obind (rpath_find m newpath ps) (\<lambda>i. oreturn (Suc i))))"

text \<open>\<open>*rpath++ = __strdup(newpath); *rpath = NULL\<close>, without a check against \<open>MAX_PATH\<close>.\<close>

definition rpath_add :: "'w env \<Rightarrow> addr \<Rightarrow> 'w rtld \<Rightarrow> 'w rtld outcome" where
  "rpath_add E newpath s =
     obind (rpath_find (rmem s) newpath (rpath s)) (\<lambda>i.
       if rpath s ! i = NULL then
         obind (strdup (kern E) (heap_var E) newpath (lst s)) (\<lambda>(t, p).
           if Suc i < length (rpath s) then oreturn (s\<lparr>lst := t, rpath := (rpath s)[i := p, Suc i := NULL]\<rparr>)
           else ostop Out_of_bounds)
       else oreturn s)"

partial_function (option) rpath_scan :: "'w env \<Rightarrow> addr \<Rightarrow> addr \<Rightarrow> 'w rtld \<Rightarrow> 'w rtld outcome" where
  "rpath_scan E strtab dyn s =
     (if d_tag (rmem s) dyn = 0 then oreturn s
      else if d_tag (rmem s) dyn \<noteq> of_nat DT_RPATH then rpath_scan E strtab (dyn + sizeof_Dyn) s
      else
        obind (oassert (strtab \<noteq> NULL)) (\<lambda>_.
        obind (rpath_add E (strtab + d_un (rmem s) dyn) s) (\<lambda>s. rpath_scan E strtab (dyn + sizeof_Dyn) s)))"

definition setup_hash :: "mem \<Rightarrow> link_map \<Rightarrow> link_map outcome" where
  "setup_hash m L =
     (if D_VALID L DT_HASH then
        obind (D_PTR m L DT_HASH) (\<lambda>hash.
          let nbuckets = load32 m hash;
              hash = hash + 8
          in oreturn (L\<lparr>l_nbuckets := nbuckets, l_buckets := hash, l_chain := hash + 4 * ucast nbuckets\<rparr>))
      else oreturn L)"

definition parse_dynamic :: "'w env \<Rightarrow> addr \<Rightarrow> 'w rtld \<Rightarrow> 'w rtld outcome" where
  "parse_dynamic E l s =
     obind (oassert (l_ld (maps s l) \<noteq> NULL)) (\<lambda>_.
     obind (dyn_scan E (rmem s) (l_ld (maps s l)) (l_info (maps s l))) (\<lambda>info.
     let s = upd_map l (\<lambda>L. L\<lparr>l_info := info\<rparr>) s
     in obind (D_PTR (rmem s) (maps s l) DT_STRTAB) (\<lambda>strtab.
        obind (rpath_scan E strtab (l_ld (maps s l)) s) (\<lambda>s.
        obind (setup_hash (rmem s) (maps s l)) (\<lambda>L.
        obind (check_dynamic_assert (rmem s) L) (\<lambda>_. oreturn (upd_map l (\<lambda>_. L) s)))))))"

section \<open>Program headers\<close>

text \<open>\<open>Elf64_Phdr\<close> has 56 bytes.\<close>

definition sizeof_Phdr :: addr where "sizeof_Phdr = 56"
definition p_type :: "mem \<Rightarrow> addr \<Rightarrow> 32 word" where "p_type m ph = load32 m ph"
definition p_flags :: "mem \<Rightarrow> addr \<Rightarrow> 32 word" where "p_flags m ph = load32 m (ph + 4)"
definition p_offset :: "mem \<Rightarrow> addr \<Rightarrow> addr" where "p_offset m ph = load64 m (ph + 8)"
definition p_vaddr :: "mem \<Rightarrow> addr \<Rightarrow> addr" where "p_vaddr m ph = load64 m (ph + 16)"
definition p_filesz :: "mem \<Rightarrow> addr \<Rightarrow> addr" where "p_filesz m ph = load64 m (ph + 32)"
definition p_memsz :: "mem \<Rightarrow> addr \<Rightarrow> addr" where "p_memsz m ph = load64 m (ph + 40)"
definition p_align :: "mem \<Rightarrow> addr \<Rightarrow> addr" where "p_align m ph = load64 m (ph + 48)"

definition PT_LOAD :: "32 word" where "PT_LOAD = 1"
definition PT_DYNAMIC :: "32 word" where "PT_DYNAMIC = 2"
definition PT_PHDR :: "32 word" where "PT_PHDR = 6"
definition PT_TLS :: "32 word" where "PT_TLS = 7"
definition PT_GNU_STACK :: "32 word" where "PT_GNU_STACK = 0x6474e551"
definition PT_GNU_RELRO :: "32 word" where "PT_GNU_RELRO = 0x6474e552"

record loadcmd =
  mapstart :: addr
  mapend :: addr
  dataend :: addr
  allocend :: addr
  mapoff :: addr
  prot :: "32 word"

text \<open>The protection of a segment: \<open>PF_R\<close>, \<open>PF_W\<close>, \<open>PF_X\<close> are 4, 2, 1 and \<open>PROT_READ\<close>, \<open>PROT_WRITE\<close>,
  \<open>PROT_EXEC\<close> are 1, 2, 4.\<close>

definition seg_prot :: "32 word \<Rightarrow> 32 word" where
  "seg_prot flags =
     (if flags AND 4 \<noteq> 0 then 1 else 0) OR (if flags AND 2 \<noteq> 0 then 2 else 0) OR (if flags AND 1 \<noteq> 0 then 4 else 0)"

definition seg_cmd :: "addr \<Rightarrow> mem \<Rightarrow> addr \<Rightarrow> loadcmd" where
  "seg_cmd pagesz m ph =
     \<lparr>mapstart = p_vaddr m ph AND NOT (pagesz - 1),
      mapend = (p_vaddr m ph + p_filesz m ph + pagesz - 1) AND NOT (pagesz - 1),
      dataend = p_vaddr m ph + p_filesz m ph,
      allocend = p_vaddr m ph + p_memsz m ph,
      mapoff = p_offset m ph AND NOT (pagesz - 1),
      prot = seg_prot (p_flags m ph)\<rparr>"

text \<open>The body of the loop of \<open>parse_phdr\<close>: the link map, the load commands so far and \<open>has_holes\<close>.\<close>

definition parse_phdr_one ::
  "addr \<Rightarrow> mem \<Rightarrow> addr \<Rightarrow> link_map \<times> loadcmd list \<times> bool \<Rightarrow> (link_map \<times> loadcmd list \<times> bool) outcome" where
  "parse_phdr_one pagesz m ph = (\<lambda>(L, cs, holes).
     if p_type m ph = PT_LOAD then
       obind (oassert (p_align m ph AND (pagesz - 1) = 0)) (\<lambda>_.
       obind (oassert ((p_vaddr m ph - p_offset m ph) AND (p_align m ph - 1) = 0)) (\<lambda>_.
         let c = seg_cmd pagesz m ph
         in oreturn (L, cs @ [c], holes \<or> (cs \<noteq> [] \<and> mapend (last cs) \<noteq> mapstart c))))
     else if p_type m ph = PT_DYNAMIC then
       oreturn (L\<lparr>l_ld := p_vaddr m ph, l_ldnum := ucast (p_memsz m ph div sizeof_Dyn)\<rparr>, cs, holes)
     else if p_type m ph = PT_PHDR then oreturn (L\<lparr>l_phdr := p_vaddr m ph\<rparr>, cs, holes)
     else oreturn (L, cs, holes))"

primrec parse_phdr_loop ::
  "addr \<Rightarrow> mem \<Rightarrow> nat \<Rightarrow> addr \<Rightarrow> link_map \<times> loadcmd list \<times> bool \<Rightarrow> (link_map \<times> loadcmd list \<times> bool) outcome" where
  "parse_phdr_loop pagesz m 0 ph r = oreturn r"
| "parse_phdr_loop pagesz m (Suc n) ph r =
     obind (parse_phdr_one pagesz m ph r) (parse_phdr_loop pagesz m n (ph + sizeof_Phdr))"

definition parse_phdr :: "addr \<Rightarrow> mem \<Rightarrow> link_map \<Rightarrow> addr \<Rightarrow> (link_map \<times> loadcmd list \<times> bool) outcome" where
  "parse_phdr pagesz m L phdr = parse_phdr_loop pagesz m (unat (l_phnum L)) phdr (L, [], False)"

section \<open>Mapping the segments\<close>

text \<open>\<open>Elf64_Ehdr\<close>, at the start of the file buffer.\<close>

definition e_type :: "mem \<Rightarrow> addr \<Rightarrow> 16 word" where "e_type m h = load16 m (h + 16)"
definition e_entry :: "mem \<Rightarrow> addr \<Rightarrow> addr" where "e_entry m h = load64 m (h + 24)"
definition e_phoff :: "mem \<Rightarrow> addr \<Rightarrow> addr" where "e_phoff m h = load64 m (h + 32)"
definition e_phnum :: "mem \<Rightarrow> addr \<Rightarrow> 16 word" where "e_phnum m h = load16 m (h + 56)"

definition ET_EXEC :: "16 word" where "ET_EXEC = 2"
definition ET_DYN :: "16 word" where "ET_DYN = 3"

definition PROT_WRITE :: "32 word" where "PROT_WRITE = 2"
definition PROT_EXEC :: "32 word" where "PROT_EXEC = 4"
definition MAP_PRIVATE :: addr where "MAP_PRIVATE = 0x02"
definition MAP_FIXED :: addr where "MAP_FIXED = 0x10"
definition MAP_ANON :: addr where "MAP_ANON = 0x20"
definition MAP_FAILED :: addr where "MAP_FAILED = - 1"
definition FILEBUF_SIZE :: addr where "FILEBUF_SIZE = 832"

text \<open>The file mapping of one load command.\<close>

definition map_segment :: "'w env \<Rightarrow> addr \<Rightarrow> 32 word \<Rightarrow> loadcmd \<Rightarrow> 'w rtld \<Rightarrow> 'w rtld outcome" where
  "map_segment E l fd c s =
     (if mapstart c < mapend c then
        (case mmap (kern E) (l_addr (maps s l) + mapstart c) (mapend c - mapstart c) (scast (prot c))
                (MAP_FIXED OR MAP_PRIVATE) (scast fd) (mapoff c) (lst s) of (t, r) \<Rightarrow>
          if r = MAP_FAILED then ostop (Exited 1) else oreturn (s\<lparr>lst := t\<rparr>))
      else oreturn s)"

text \<open>The fields of the link map a load command sets.\<close>

definition note_segment :: "'w env \<Rightarrow> addr \<Rightarrow> loadcmd \<Rightarrow> 'w rtld \<Rightarrow> 'w rtld" where
  "note_segment E l c s =
     (let s = (if prot c AND PROT_EXEC \<noteq> 0 then upd_map l (\<lambda>L. L\<lparr>l_text_end := l_addr L + mapend c\<rparr>) s else s);
          phoff = e_phoff (rmem s) (filebuf E);
          phnum = e_phnum (rmem s) (filebuf E)
      in if l_phdr (maps s l) = NULL \<and> mapoff c \<le> phoff \<and>
            phoff + ucast phnum * sizeof_Phdr \<le> mapend c - mapstart c + mapoff c
         then upd_map l (\<lambda>L. L\<lparr>l_phdr := mapstart c + phoff - mapoff c\<rparr>) s
         else s)"

text \<open>The zero bytes after the data from the file: the rest of the last page by \<open>memset\<close> (the page made
  writable for it when the segment is not), the following pages by an anonymous mapping.\<close>

definition protect_page :: "'w env \<Rightarrow> addr \<Rightarrow> 32 word \<Rightarrow> 'w rtld \<Rightarrow> 'w rtld outcome" where
  "protect_page E a p s =
     (case mprotect (kern E) (a AND NOT (dl_pagesize s - 1)) (dl_pagesize s) (scast p) (lst s) of (t, r) \<Rightarrow>
        if sint r < 0 then ostop (Exited 1) else oreturn (s\<lparr>lst := t\<rparr>))"

definition zero_tail :: "'w env \<Rightarrow> loadcmd \<Rightarrow> addr \<Rightarrow> addr \<Rightarrow> 'w rtld \<Rightarrow> 'w rtld outcome" where
  "zero_tail E c zero zeropage s =
     (if zero < zeropage then
        obind (if prot c AND PROT_WRITE = 0 then protect_page E zero (prot c OR PROT_WRITE) s else oreturn s) (\<lambda>s.
        let s = set_rmem (fst (memset zero 0 (zeropage - zero) (rmem s))) s
        in if prot c AND PROT_WRITE = 0 then protect_page E zero (prot c) s else oreturn s)
      else oreturn s)"

definition zero_pages :: "'w env \<Rightarrow> loadcmd \<Rightarrow> addr \<Rightarrow> addr \<Rightarrow> 'w rtld \<Rightarrow> 'w rtld outcome" where
  "zero_pages E c zeropage zeroend s =
     (if zeropage < zeroend then
        (case mmap (kern E) zeropage (zeroend - zeropage) (scast (prot c))
                (MAP_ANON OR MAP_PRIVATE OR MAP_FIXED) (- 1) 0 (lst s) of (t, r) \<Rightarrow>
          if r = MAP_FAILED then ostop (Exited 1) else oreturn (s\<lparr>lst := t\<rparr>))
      else oreturn s)"

definition zero_fill :: "'w env \<Rightarrow> addr \<Rightarrow> loadcmd \<Rightarrow> 'w rtld \<Rightarrow> 'w rtld outcome" where
  "zero_fill E l c s =
     (if dataend c < allocend c then
        let zero = l_addr (maps s l) + dataend c;
            zeroend = l_addr (maps s l) + allocend c;
            zeropage = (zero + dl_pagesize s - 1) AND NOT (dl_pagesize s - 1);
            zeropage = (if zeroend < zeropage then zeroend else zeropage)
        in obind (zero_tail E c zero zeropage s) (zero_pages E c zeropage zeroend)
      else oreturn s)"

primrec loadcmd_loop :: "'w env \<Rightarrow> addr \<Rightarrow> 32 word \<Rightarrow> loadcmd list \<Rightarrow> 'w rtld \<Rightarrow> 'w rtld outcome" where
  "loadcmd_loop E l fd [] s = oreturn s"
| "loadcmd_loop E l fd (c # cs) s =
     obind (map_segment E l fd c s) (\<lambda>s.
     obind (zero_fill E l c (note_segment E l c s)) (loadcmd_loop E l fd cs))"

text \<open>With \<open>postmap\<close> the loop is entered after the mapping of the first load command.\<close>

definition map_object_loadcmd ::
  "'w env \<Rightarrow> addr \<Rightarrow> 32 word \<Rightarrow> loadcmd list \<Rightarrow> addr \<Rightarrow> bool \<Rightarrow> bool \<Rightarrow> 'w rtld \<Rightarrow> 'w rtld outcome" where
  "map_object_loadcmd E l fd loadcmds maplength has_holes postmap s =
     (case loadcmds of
        [] \<Rightarrow> ostop Out_of_bounds
      | c # cs \<Rightarrow>
          if postmap then obind (zero_fill E l c (note_segment E l c s)) (loadcmd_loop E l fd cs)
          else
            loadcmd_loop E l fd loadcmds
              (upd_map l (\<lambda>L. L\<lparr>l_map_start := mapstart c + l_addr L, l_map_end := mapstart c + l_addr L + maplength,
                 l_contiguous := \<not> has_holes\<rparr>) s))"

text \<open>\<open>map_object_fd\<close>: reading the headers, choosing the address, mapping, and the dynamic section.\<close>

definition read_headers :: "'w env \<Rightarrow> addr \<Rightarrow> 32 word \<Rightarrow> 'w rtld \<Rightarrow> ('w rtld \<times> addr) outcome" where
  "read_headers E l fd s =
     (case sys_read (kern E) fd (filebuf E) FILEBUF_SIZE (lst s) of (t, len) \<Rightarrow>
        if sint len < 0 then ostop (Exited 1)
        else
          let s = s\<lparr>lst := t\<rparr>; h = filebuf E; ty = e_type (rmem s) h
          in if ty \<noteq> ET_DYN \<and> ty \<noteq> ET_EXEC then ostop (Exited 1)
             else
               let s = upd_map l (\<lambda>L. L\<lparr>l_entry := e_entry (rmem s) h, l_phnum := e_phnum (rmem s) h\<rparr>) s;
                   maplength = ucast (e_phnum (rmem s) h) * sizeof_Phdr
               in if e_phoff (rmem s) h + maplength \<le> scast len then oreturn (s, h + e_phoff (rmem s) h)
                  else
                    case sys_lseek (kern E) fd (e_phoff (rmem s) h) 0 (lst s) of (t, off) \<Rightarrow>
                    case sys_read (kern E) fd (phdrbuf E) maplength t of (t, n) \<Rightarrow>
                      if sint n < 0 then ostop (Exited 1) else oreturn (s\<lparr>lst := t\<rparr>, phdrbuf E))"

text \<open>The first mapping of an \<open>ET_DYN\<close> object; its result is used without a check.\<close>

definition reserve_dyn :: "'w env \<Rightarrow> addr \<Rightarrow> 32 word \<Rightarrow> loadcmd list \<Rightarrow> addr \<Rightarrow> bool \<Rightarrow> 'w rtld \<Rightarrow> 'w rtld" where
  "reserve_dyn E l fd cs maplength has_holes s =
     (let c = hd cs
      in case mmap (kern E) NULL maplength (scast (prot c)) MAP_PRIVATE (scast fd) 0 (lst s) of (t, r) \<Rightarrow>
         let s = upd_map l (\<lambda>L. L\<lparr>l_map_start := r, l_map_end := r + maplength, l_addr := r - mapstart c\<rparr>) (s\<lparr>lst := t\<rparr>);
             s = (if has_holes then
                    s\<lparr>lst := fst (mprotect (kern E) (l_addr (maps s l) + mapend c) (mapstart (last cs) - mapend c) 0 (lst s))\<rparr>
                  else s)
         in upd_map l (\<lambda>L. L\<lparr>l_contiguous := True\<rparr>) s)"

definition map_object_fd :: "'w env \<Rightarrow> 32 word \<Rightarrow> addr \<Rightarrow> 'w rtld \<Rightarrow> ('w rtld \<times> addr) outcome" where
  "map_object_fd E fd realname s =
     obind (create_link_map E s) (\<lambda>(s, l).
     obind (read_headers E l fd s) (\<lambda>(s, phdr).
     obind (parse_phdr (dl_pagesize s) (rmem s) (maps s l) phdr) (\<lambda>(L, cs, has_holes).
       let s = upd_map l (\<lambda>_. L) s
       in if cs = [] then ostop Out_of_bounds
          else
            let maplength = allocend (last cs) - mapstart (hd cs);
                dyn = (e_type (rmem s) (filebuf E) = ET_DYN);
                s = (if dyn then reserve_dyn E l fd cs maplength has_holes s else s)
            in obind (map_object_loadcmd E l fd cs maplength has_holes dyn s) (\<lambda>s.
                 let s = upd_map l (\<lambda>L. L\<lparr>l_name := realname,
                           l_ld := (if l_ld L \<noteq> NULL then l_ld L + l_addr L else l_ld L),
                           l_phdr := (if l_phdr L \<noteq> NULL then l_phdr L + l_addr L else l_phdr L)\<rparr>) s
                 in obind (parse_dynamic E l s) (\<lambda>s. oreturn (s, l))))))"

section \<open>Finding objects\<close>

text \<open>\<open>open_path\<close> over the cells of \<open>GL(rpath)\<close> from \<open>i\<close>: the state, the descriptor and \<open>*realname\<close>.\<close>

primrec open_path_loop ::
  "'w env \<Rightarrow> addr \<Rightarrow> addr list \<Rightarrow> 'w rtld \<Rightarrow> ('w rtld \<times> 32 word \<times> addr) outcome" where
  "open_path_loop E soname [] s = ostop Out_of_bounds"
| "open_path_loop E soname (p # ps) s =
     (if p = NULL then oreturn (s, - 1, NULL)
      else
        obind (dsnprintf (namebuf E) 1024 (path_fmt E) [p, soname] (rmem s)) (\<lambda>(m, n).
        case sys_open (kern E) (namebuf E) 0 0 (lst (set_rmem m s)) of (t, fd) \<Rightarrow>
          if 0 \<le> sint fd then
            obind (strdup (kern E) (heap_var E) (namebuf E) t) (\<lambda>(t, realname). oreturn (s\<lparr>lst := t\<rparr>, fd, realname))
          else open_path_loop E soname ps (s\<lparr>lst := t\<rparr>)))"

definition open_path :: "'w env \<Rightarrow> addr \<Rightarrow> 'w rtld \<Rightarrow> ('w rtld \<times> 32 word \<times> addr) outcome" where
  "open_path E soname s = open_path_loop E soname (rpath s) s"

text \<open>The search of the namespace for an object with the name.\<close>

partial_function (option) ns_find :: "mem \<Rightarrow> (addr \<Rightarrow> link_map) \<Rightarrow> addr \<Rightarrow> addr \<Rightarrow> addr option outcome" where
  "ns_find m mp realname l =
     (if l = NULL then oreturn None
      else if l_name (mp l) = NULL then ostop Null_deref
      else obind (olift (strcmp m (l_name (mp l)) realname)) (\<lambda>r.
        if r = 0 then oreturn (Some l) else ns_find m mp realname (l_next (mp l))))"

definition close_fd :: "'w env \<Rightarrow> 32 word \<Rightarrow> 'w rtld \<Rightarrow> 'w rtld" where
  "close_fd E fd s = s\<lparr>lst := fst (sys_close (kern E) fd (lst s))\<rparr>"

definition map_object :: "'w env \<Rightarrow> addr \<Rightarrow> 'w rtld \<Rightarrow> ('w rtld \<times> addr) outcome" where
  "map_object E soname s =
     obind (open_path E soname s) (\<lambda>(s, fd, realname).
       if sint fd < 0 then ostop (Exited 1)
       else
         obind (ns_find (rmem s) (maps s) realname (namespace s)) (\<lambda>found.
           case found of
             Some l \<Rightarrow> oreturn (close_fd E fd s, l)
           | None \<Rightarrow> obind (map_object_fd E fd realname s) (\<lambda>(s, l). oreturn (close_fd E fd s, l))))"

section \<open>The namespace\<close>

text \<open>\<open>append_to_namespace\<close>: \<open>cur\<close> is \<open>*next\<close>, the cell \<open>next\<close> is \<open>GL(namespace)\<close> when \<open>prev\<close> is NULL and
  \<open>prev->l_next\<close> otherwise.\<close>

definition link_last :: "addr \<Rightarrow> addr \<Rightarrow> 'w rtld \<Rightarrow> 'w rtld" where
  "link_last l prev s =
     (let s = upd_map l (\<lambda>L. L\<lparr>l_prev := prev, l_next := NULL\<rparr>) s
      in if prev = NULL then s\<lparr>namespace := l\<rparr> else upd_map prev (\<lambda>L. L\<lparr>l_next := l\<rparr>) s)"

partial_function (option) append_walk :: "addr \<Rightarrow> addr \<Rightarrow> addr \<Rightarrow> 'w rtld \<Rightarrow> 'w rtld option" where
  "append_walk l prev cur s =
     (if cur = NULL then Some (link_last l prev s)
      else if cur = l then Some s
      else append_walk l cur (l_next (maps s cur)) s)"

definition append_to_namespace :: "addr \<Rightarrow> 'w rtld \<Rightarrow> 'w rtld option" where
  "append_to_namespace l s = append_walk l NULL (namespace s) s"

text \<open>The walks of \<open>print_namespace\<close>: forwards with the number of objects and the last one, and back.\<close>

partial_function (option) ns_forward :: "(addr \<Rightarrow> link_map) \<Rightarrow> addr \<Rightarrow> addr \<Rightarrow> int \<Rightarrow> (addr \<times> int) option" where
  "ns_forward mp l lastmap n = (if l = NULL then Some (lastmap, n) else ns_forward mp (l_next (mp l)) l (n + 1))"

partial_function (option) ns_backward :: "(addr \<Rightarrow> link_map) \<Rightarrow> addr \<Rightarrow> int \<Rightarrow> int option" where
  "ns_backward mp l n = (if l = NULL then Some n else ns_backward mp (l_prev (mp l)) (n - 1))"

definition print_namespace :: "'w rtld \<Rightarrow> unit outcome" where
  "print_namespace s =
     obind (olift (ns_forward (maps s) (namespace s) NULL 0)) (\<lambda>(l, n).
     obind (olift (ns_backward (maps s) l n)) (\<lambda>n. oassert (n = 0)))"

section \<open>Dependencies\<close>

text \<open>\<open>struct runlist\<close>: \<open>map\<close> at 0, \<open>list\<close> at 8. Node \<open>k\<close> is the \<open>k\<close>-th that \<open>ealloca\<close> gives; node 0 is the root's.\<close>

definition run_map :: "mem \<Rightarrow> addr \<Rightarrow> addr" where
  "run_map m r = load64 m r"

definition chain_runlist :: "'w env \<Rightarrow> addr \<Rightarrow> addr \<Rightarrow> 'w rtld \<Rightarrow> 'w rtld" where
  "chain_runlist E l r s = set_rmem (list_add_tail (r + 8) (runhead E) (store64 (rmem s) r l)) s"

text \<open>The inner loop over the dynamic section of \<open>l\<close>, with \<open>nlist\<close>.\<close>

partial_function (option) deps_dyn :: "'w env \<Rightarrow> addr \<Rightarrow> addr \<Rightarrow> nat \<Rightarrow> 'w rtld \<Rightarrow> (nat \<times> 'w rtld) outcome" where
  "deps_dyn E l dyn n s =
     (if d_tag (rmem s) dyn = 0 then oreturn (n, s)
      else
        obind (D_PTR (rmem s) (maps s l) DT_STRTAB) (\<lambda>strtab.
          if d_tag (rmem s) dyn \<noteq> of_nat DT_NEEDED then deps_dyn E l (dyn + sizeof_Dyn) n s
          else
            obind (map_object E (strtab + d_un (rmem s) dyn) s) (\<lambda>(s, new).
            obind
              (if l_reserved (maps s new) = 0 then
                 oreturn (Suc n, chain_runlist E new (runnode E (Suc n)) (upd_map new (\<lambda>L. L\<lparr>l_reserved := 1\<rparr>) s))
               else oreturn (n, s)) (\<lambda>(n, s).
            obind (olift (append_to_namespace new s)) (\<lambda>s. deps_dyn E l (dyn + sizeof_Dyn) n s)))))"

text \<open>The outer loop over the run list, which grows while it is walked; \<open>pos\<close> is \<open>&runp->list\<close>.\<close>

partial_function (option) deps_run :: "'w env \<Rightarrow> addr \<Rightarrow> nat \<Rightarrow> 'w rtld \<Rightarrow> (nat \<times> 'w rtld) outcome" where
  "deps_run E pos n s =
     (if pos = runhead E then oreturn (n, s)
      else
        let l = run_map (rmem s) (list_entry pos 8)
        in obind (deps_dyn E l (l_ld (maps s l)) n s) (\<lambda>(n, s). deps_run E (list_next (rmem s) pos) n s))"

text \<open>Filling \<open>r_list\<close> with the objects of the run list other than the root.\<close>

partial_function (option) fill_searchlist :: "'w env \<Rightarrow> addr \<Rightarrow> addr \<Rightarrow> addr \<Rightarrow> mem \<Rightarrow> mem option" where
  "fill_searchlist E root pos slot m =
     (if pos = runhead E then Some m
      else
        let l = run_map m (list_entry pos 8)
        in if l = root then fill_searchlist E root (list_next m pos) slot m
           else let m = store64 m slot l in fill_searchlist E root (list_next m pos) (slot + 8) m)"

definition map_object_deps :: "'w env \<Rightarrow> addr \<Rightarrow> 'w rtld \<Rightarrow> 'w rtld outcome" where
  "map_object_deps E root s =
     obind (parse_dynamic E root (set_rmem (INIT_LIST_HEAD (runhead E) (rmem s)) s)) (\<lambda>s.
     let s = chain_runlist E root (runnode E 0) s
     in obind (deps_run E (list_next (rmem s) (runhead E)) 0 s) (\<lambda>(nlist, s).
        obind
          (if nlist > 0 then
             obind (emalloc (kern E) (heap_var E) (8 * of_nat nlist) (lst s)) (\<lambda>(t, p).
               let s = upd_map root (\<lambda>L. L\<lparr>r_list := p, r_nlist := of_nat nlist\<rparr>) (s\<lparr>lst := t\<rparr>)
               in obind (olift (fill_searchlist E root (list_next (rmem s) (runhead E)) (r_list (maps s root)) (rmem s))) (\<lambda>m.
                    oreturn (set_rmem m s)))
           else oreturn s) (\<lambda>s.
        obind (print_namespace s) (\<lambda>_. oreturn s))))"

end
