(* ===== verification/Load_Map.thy ===== *)
theory Load_Map
  imports Load
begin

text \<open>
  Mapping the segments of an object: what \<open>parse_phdr\<close> makes of the program headers, and that
  \<open>map_object_loadcmd\<close> puts every segment in memory as the ELF format asks: the bytes of the file, then
  zeros up to the size in memory.
\<close>

section \<open>Page numbers\<close>

definition page_up :: "nat \<Rightarrow> nat \<Rightarrow> nat" where
  "page_up k n = (n + 2 ^ k - 1) div 2 ^ k * 2 ^ k"

lemma page_up_ge: "n \<le> page_up k n"
  and page_up_less: "page_up k n < n + 2 ^ k"
  and page_up_dvd [simp]: "2 ^ k dvd page_up k n"
proof -
  let ?p = "2 ^ k :: nat"
  have p: "0 < ?p" by simp
  have d: "(n + ?p - 1) div ?p * ?p + (n + ?p - 1) mod ?p = n + ?p - 1" by (rule div_mult_mod_eq)
  have m: "(n + ?p - 1) mod ?p < ?p" using p by (rule mod_less_divisor)
  show "n \<le> page_up k n" and "page_up k n < n + ?p"
    unfolding page_up_def using d m p by linarith+
  show "2 ^ k dvd page_up k n" by (simp add: page_up_def)
qed

lemma page_up_least: "n \<le> m \<Longrightarrow> 2 ^ k dvd m \<Longrightarrow> page_up k n \<le> m"
proof (rule ccontr)
  assume "n \<le> m" and d: "2 ^ k dvd m" and "\<not> page_up k n \<le> m"
  then have "m < page_up k n" "page_up k n < m + 2 ^ k" using page_up_less [of k n] by auto
  moreover have "2 ^ k dvd page_up k n - m" using d by (simp add: dvd_diff_nat)
  ultimately show False by (auto dest: dvd_imp_le)
qed

lemma page_up_mono: "n \<le> m \<Longrightarrow> page_up k n \<le> page_up k m"
  using page_up_least [of n "page_up k m" k] page_up_ge [of m k] by simp

lemma page_up_add: "2 ^ k dvd a \<Longrightarrow> page_up k (a + n) = a + page_up k n"
proof -
  assume "2 ^ k dvd a"
  then obtain q where a: "a = q * 2 ^ k" by (auto elim: dvdE)
  have "a + n + 2 ^ k - 1 = n + 2 ^ k - 1 + q * 2 ^ k" using a one_le_power [of "2 :: nat" k] by linarith
  then show ?thesis by (simp only: page_up_def) (simp add: a distrib_right)
qed

lemma page_up_word:
  assumes "ps = 2 ^ k" and "n + 2 ^ k \<le> 2 ^ 64"
  shows "(ptr n + ps - 1) AND NOT (ps - 1) = ptr (page_up k n)"
proof -
  have n1: "1 \<le> n + 2 ^ k" using one_le_power [of "2 :: nat" k] by linarith
  then have "ptr n + ps - 1 = ptr (n + 2 ^ k - 1)"
    using assms(1) ptr_diff_1 [of "n + 2 ^ k"] by (simp flip: ptr_add)
  moreover have "unat (ptr (n + 2 ^ k - 1)) = n + 2 ^ k - 1"
    by (rule unat_ptr) (use assms(2) n1 in linarith)
  ultimately show ?thesis
    unfolding round_down_pow2 [OF assms(1)] by (simp add: page_up_def)
qed

section \<open>One load command\<close>

text \<open>
  \<open>grants K W fd file k\<close>: in the states of \<open>W\<close>, which these calls do not leave, the kernel grants fixed mappings
  of the file \<open>file\<close> open as \<open>fd\<close>, fixed anonymous mappings and changes of protection, in pages of \<open>2 ^ k\<close>
  bytes, with the contents \<open>mmap(2)\<close> promises.
\<close>

definition grants :: "'w kernel \<Rightarrow> ('w \<Rightarrow> bool) \<Rightarrow> 32 word \<Rightarrow> (nat \<Rightarrow> byte) \<Rightarrow> nat \<Rightarrow> bool" where
  "grants K W fd file k \<longleftrightarrow>
     (\<forall>a n p off w m. W w \<and> 2 ^ k dvd a \<and> 2 ^ k dvd off \<and> off < 2 ^ 64 \<and> 0 < n \<and> page_up k (a + n) < 2 ^ 64 \<longrightarrow>
        (\<exists>w'. W w' \<and> K SYS_mmap [ptr a, ptr n, p, 0x12, scast fd, ptr off] (w, m) =
           (ptr a, w', \<lambda>x. if unat x \<in> {a ..< page_up k (a + n)} then file (off + (unat x - a)) else m x))) \<and>
     (\<forall>a n p w m. W w \<and> 2 ^ k dvd a \<and> 0 < n \<and> page_up k (a + n) < 2 ^ 64 \<longrightarrow>
        (\<exists>w'. W w' \<and> K SYS_mmap [ptr a, ptr n, p, 0x32, - 1, 0] (w, m) =
           (ptr a, w', \<lambda>x. if unat x \<in> {a ..< page_up k (a + n)} then 0 else m x))) \<and>
     (\<forall>a n p w m. W w \<longrightarrow> (\<exists>w'. W w' \<and> K SYS_mprotect [a, n, p] (w, m) = (0, w', m)))"

text \<open>
  \<open>cmd_ok k A c\<close>: a load command whose fields are in order, for an object at address number \<open>A\<close>.
  \<open>cmd_top k c\<close> is the end of its last page, \<open>cmd_loaded file m A c\<close> says that it is in memory.
\<close>

definition cmd_top :: "nat \<Rightarrow> loadcmd \<Rightarrow> nat" where
  "cmd_top k c = page_up k (max (unat (dataend c)) (unat (allocend c)))"

definition cmd_ok :: "nat \<Rightarrow> nat \<Rightarrow> loadcmd \<Rightarrow> bool" where
  "cmd_ok k A c \<longleftrightarrow> 2 ^ k dvd unat (mapstart c) \<and> 2 ^ k dvd unat (mapoff c) \<and> unat (mapend c) = page_up k (unat (dataend c)) \<and>
     mapstart c \<le> dataend c \<and> A + cmd_top k c + 2 ^ k \<le> 2 ^ 64"

definition cmd_loaded :: "(nat \<Rightarrow> byte) \<Rightarrow> mem \<Rightarrow> nat \<Rightarrow> loadcmd \<Rightarrow> bool" where
  "cmd_loaded file m A c \<longleftrightarrow>
     (\<forall>x \<in> {unat (mapstart c) ..< unat (dataend c)}. m (ptr (A + x)) = file (unat (mapoff c) + (x - unat (mapstart c)))) \<and>
     (\<forall>x \<in> {unat (dataend c) ..< unat (allocend c)}. m (ptr (A + x)) = 0)"

lemma grants_file:
  assumes "grants K W fd file k" and "W w" and "2 ^ k dvd a" and "2 ^ k dvd off" and "off < 2 ^ 64" and "0 < n"
    and "page_up k (a + n) < 2 ^ 64"
  obtains w' where "W w'" and "K SYS_mmap [ptr a, ptr n, p, 0x12, scast fd, ptr off] (w, m) =
    (ptr a, w', \<lambda>x. if unat x \<in> {a ..< page_up k (a + n)} then file (off + (unat x - a)) else m x)"
  using assms unfolding grants_def by meson

lemma grants_anon:
  assumes "grants K W fd file k" and "W w" and "2 ^ k dvd a" and "0 < n" and "page_up k (a + n) < 2 ^ 64"
  obtains w' where "W w'" and "K SYS_mmap [ptr a, ptr n, p, 0x32, - 1, 0] (w, m) =
    (ptr a, w', \<lambda>x. if unat x \<in> {a ..< page_up k (a + n)} then 0 else m x)"
  using assms unfolding grants_def by meson

lemma grants_protect:
  assumes "grants K W fd file k" and "W w"
  obtains w' where "W w'" and "K SYS_mprotect [a, n, p] (w, m) = (0, w', m)"
  using assms unfolding grants_def by meson

lemma memset_mem:
  assumes "a + n \<le> 2 ^ 64" and "n < 2 ^ 64"
  shows "fst (memset (ptr a) 0 (ptr n) m) = (\<lambda>x. if unat x \<in> {a ..< a + n} then 0 else m x)"
proof -
  have "in_range (ptr a) n x \<longleftrightarrow> unat x \<in> {a ..< a + n}" for x
    using in_range_ptr [OF assms(1), of "unat x"] unsigned_less [of x] by simp
  then show ?thesis using assms(2) by (simp add: memset_def memset_loop_eq unat_ptr)
qed

lemma ptr_not_failed: "a + 1 < 2 ^ 64 \<Longrightarrow> ptr a \<noteq> MAP_FAILED"
proof
  assume a: "a + 1 < 2 ^ 64" and "ptr a = MAP_FAILED"
  then have "a = unat (- 1 :: addr)" using unat_ptr [of a] by (simp add: MAP_FAILED_def)
  with a show False by (simp add: unsigned_minus_1_eq_mask mask_eq_exp_minus_1)
qed

lemma protect_page_granted:
  assumes "grants (kern E) W fd file k" and "W (world (lst s))"
  obtains t where "protect_page E a p s = oreturn (s\<lparr>lst := t\<rparr>)" and "smem t = rmem s" and "W (world t)"
proof -
  obtain w' where "W w'" "kern E SYS_mprotect [a AND NOT (dl_pagesize s - 1), dl_pagesize s, scast p] (world (lst s), rmem s) = (0, w', rmem s)"
    by (rule grants_protect [OF assms])
  then show ?thesis by (intro that [of "(lst s)\<lparr>world := w'\<rparr>"]) (simp_all add: protect_page_def mprotect_def syscall_def)
qed

lemma zero_tail_granted:
  assumes "grants (kern E) W fd file k" and "z \<le> e" and "e < 2 ^ 64" and "W (world (lst s))"
  obtains t where "zero_tail E c (ptr z) (ptr e) s = oreturn (s\<lparr>lst := t\<rparr>)" and "W (world t)"
    and "smem t = (\<lambda>x. if unat x \<in> {z ..< e} then 0 else rmem s x)"
proof -
  consider "z = e" | "z < e" "prot c AND PROT_WRITE \<noteq> 0" | "z < e" "prot c AND PROT_WRITE = 0"
    using assms(2) by fastforce
  then show ?thesis
  proof cases
    case 1
    then show ?thesis using assms(4) by (intro that [of "lst s"]) (auto simp: zero_tail_def)
  next
    case 2
    then show ?thesis
      using assms(2-4) memset_mem [of z "e - z" "rmem s"]
      by (intro that [of "(lst s)\<lparr>smem := \<lambda>x. if unat x \<in> {z ..< e} then 0 else rmem s x\<rparr>"])
        (simp_all add: zero_tail_def Let_def ptr_less set_rmem_def ptr_diff)
  next
    case 3
    have ms: "fst (memset (ptr z) 0 (ptr (e - z)) m) = (\<lambda>x. if unat x \<in> {z ..< e} then 0 else m x)" for m
      using memset_mem [of z "e - z" m] assms(2,3) by simp
    obtain t1 where t1: "protect_page E (ptr z) (prot c OR PROT_WRITE) s = oreturn (s\<lparr>lst := t1\<rparr>)" "smem t1 = rmem s" "W (world t1)"
      using protect_page_granted [OF assms(1,4)] .
    obtain t2 where t2: "protect_page E (ptr z) (prot c) (set_rmem (\<lambda>x. if unat x \<in> {z ..< e} then 0 else rmem s x) (s\<lparr>lst := t1\<rparr>)) =
        oreturn (set_rmem (\<lambda>x. if unat x \<in> {z ..< e} then 0 else rmem s x) (s\<lparr>lst := t1\<rparr>)\<lparr>lst := t2\<rparr>)"
        "smem t2 = (\<lambda>x. if unat x \<in> {z ..< e} then 0 else rmem s x)" "W (world t2)"
      using protect_page_granted [OF assms(1), of "set_rmem (\<lambda>x. if unat x \<in> {z ..< e} then 0 else rmem s x) (s\<lparr>lst := t1\<rparr>)" "ptr z" "prot c"] t1(3)
      by (auto simp: set_rmem_def)
    show ?thesis
      using 3 assms(2,3) t1 t2 by (intro that [of t2]) (simp_all add: zero_tail_def Let_def ptr_less ptr_diff ms, simp add: set_rmem_def cong: if_cong)
  qed
qed

lemma zero_pages_granted:
  assumes "grants (kern E) W fd file k" and "2 ^ k dvd z \<or> e \<le> z" and "z < 2 ^ 64" and "page_up k e < 2 ^ 64"
    and W: "W (world (lst s))"
  obtains t where "zero_pages E c (ptr z) (ptr e) s = oreturn (s\<lparr>lst := t\<rparr>)" and "W (world t)"
    and "smem t = (\<lambda>x. if e \<le> z then rmem s x else if unat x \<in> {z ..< page_up k e} then 0 else rmem s x)"
proof (cases "e \<le> z")
  case True
  then show ?thesis using assms(3) W by (intro that [of "lst s"]) (simp_all add: zero_pages_def ptr_less)
next
  case False
  have e: "e < 2 ^ 64" using page_up_ge [of e k] assms(4) by linarith
  have fl: "MAP_ANON OR MAP_PRIVATE OR MAP_FIXED = 0x32" by (simp add: MAP_ANON_def MAP_PRIVATE_def MAP_FIXED_def)
  obtain w' where "W w'" "kern E SYS_mmap [ptr z, ptr (e - z), scast (prot c), 0x32, - 1, 0] (world (lst s), rmem s) =
      (ptr z, w', \<lambda>x. if unat x \<in> {z ..< page_up k (z + (e - z))} then 0 else rmem s x)"
    by (rule grants_anon [OF assms(1) W, of z "e - z"]) (use False assms in auto)
  moreover have "ptr z \<noteq> MAP_FAILED"
    by (rule ptr_not_failed) (use False e in simp)
  ultimately show ?thesis
    using False e by (intro that [of "(lst s)\<lparr>world := w', smem := \<lambda>x. if unat x \<in> {z ..< page_up k e} then 0 else rmem s x\<rparr>"])
      (simp_all add: zero_pages_def ptr_less ptr_diff fl mmap_def syscall_def)
qed

text \<open>A state after some system calls: only memory and kernel changed.\<close>

lemma zero_fill_granted:
  assumes g: "grants (kern E) W fd file k" and ps: "dl_pagesize s = 2 ^ k" and A: "2 ^ k dvd A" "l_addr (maps s l) = ptr A"
    and c: "cmd_ok k A c" and W: "W (world (lst s))"
  obtains t where "zero_fill E l c s = oreturn (s\<lparr>lst := t\<rparr>)" and "W (world t)"
    and "\<forall>x \<in> {unat (dataend c) ..< unat (allocend c)}. smem t (ptr (A + x)) = 0"
    and "unchanged_outside {A + unat (dataend c) ..< A + cmd_top k c} (rmem s) (smem t)"
proof -
  define d e where "d = unat (dataend c)" and "e = unat (allocend c)"
  have w: "dataend c = ptr d" "allocend c = ptr e" by (simp_all add: d_def e_def)
  have top: "cmd_top k c = page_up k (max d e)" by (simp add: cmd_top_def d_def e_def)
  have bnd: "A + page_up k (max d e) + 2 ^ k \<le> 2 ^ 64" using c by (simp add: cmd_ok_def top)
  have le: "A + d + 2 ^ k \<le> 2 ^ 64" "A + e < 2 ^ 64" "page_up k d \<le> page_up k (max d e)" "page_up k e \<le> page_up k (max d e)"
    using bnd page_up_ge [of "max d e" k] page_up_mono [of d "max d e" k] page_up_mono [of e "max d e" k]
      one_le_power [of "2 :: nat" k] by linarith+
  have lt: "dataend c < allocend c \<longleftrightarrow> d < e" by (simp add: d_def e_def word_less_nat_alt)
  show ?thesis
  proof (cases "d < e")
    case False
    then show ?thesis using W by (intro that [of "lst s"]) (simp_all add: zero_fill_def lt flip: d_def e_def)
  next
    case True
    define z where "z = min (A + e) (A + page_up k d)"
    have pd: "A + page_up k d < 2 ^ 64" using le(3) bnd one_le_power [of "2 :: nat" k] by linarith
    have zw: "(let zp = (ptr (A + d) + dl_pagesize s - 1) AND NOT (dl_pagesize s - 1) in if ptr (A + e) < zp then ptr (A + e) else zp) = ptr z"
      using page_up_word [OF ps le(1)] ptr_less [OF le(2) pd] by (auto simp: z_def page_up_add [OF A(1)] min_def Let_def)
    have z: "A + d \<le> z" "z \<le> A + e" "z < 2 ^ 64" using page_up_ge [of d k] True le by (auto simp: z_def)
    obtain t1 where t1: "zero_tail E c (ptr (A + d)) (ptr z) s = oreturn (s\<lparr>lst := t1\<rparr>)" "W (world t1)"
        "smem t1 = (\<lambda>x. if unat x \<in> {A + d ..< z} then 0 else rmem s x)"
      by (rule zero_tail_granted [OF g z(1,3) W])
    have zp: "2 ^ k dvd z \<or> A + e \<le> z" using A(1) by (auto simp: z_def min_def)
    have pe: "page_up k (A + e) < 2 ^ 64"
      using le(4) bnd one_le_power [of "2 :: nat" k] unfolding page_up_add [OF A(1)] by linarith
    have W1: "W (world (lst (s\<lparr>lst := t1\<rparr>)))" using t1(2) by simp
    obtain t2 where t2: "zero_pages E c (ptr z) (ptr (A + e)) (s\<lparr>lst := t1\<rparr>) = oreturn (s\<lparr>lst := t1\<rparr>\<lparr>lst := t2\<rparr>)" "W (world t2)"
        "smem t2 = (\<lambda>x. if A + e \<le> z then rmem (s\<lparr>lst := t1\<rparr>) x
           else if unat x \<in> {z ..< page_up k (A + e)} then 0 else rmem (s\<lparr>lst := t1\<rparr>) x)"
      by (rule zero_pages_granted [OF g zp z(3) pe W1])
    have "zero_fill E l c s = oreturn (s\<lparr>lst := t2\<rparr>)"
      using True zw t1(1) t2(1) by (simp add: zero_fill_def lt, simp add: w A(2) Let_def ptr_add)
    moreover have "smem t2 (ptr (A + x)) = 0" if "x \<in> {d ..< e}" for x
      using that le z page_up_ge [of "A + e" k] by (auto simp: t2(3) t1(3) unat_ptr)
    moreover have "unchanged_outside {A + d ..< A + cmd_top k c} (rmem s) (smem t2)"
      using le z page_up_ge [of e k] by (auto simp: unchanged_outside_def t2(3) t1(3) top page_up_add [OF A(1)])
    ultimately show ?thesis using t2(2) by (intro that) (simp_all flip: d_def e_def)
  qed
qed

lemma page_up_id: "2 ^ k dvd n \<Longrightarrow> page_up k n = n"
  using page_up_least [of n n k] page_up_ge [of n k] by simp

lemma map_segment_granted:
  assumes g: "grants (kern E) W fd file k" and A: "2 ^ k dvd A" "l_addr (maps s l) = ptr A" and c: "cmd_ok k A c"
    and W: "W (world (lst s))"
  obtains t where "map_segment E l fd c s = oreturn (s\<lparr>lst := t\<rparr>)" and "W (world t)"
    and "\<forall>x \<in> {unat (mapstart c) ..< unat (dataend c)}. smem t (ptr (A + x)) = file (unat (mapoff c) + (x - unat (mapstart c)))"
    and "unchanged_outside {A + unat (mapstart c) ..< A + cmd_top k c} (rmem s) (smem t)"
proof -
  define a e d where "a = unat (mapstart c)" and "e = unat (mapend c)" and "d = unat (dataend c)"
  have w: "mapstart c = ptr a" "mapend c = ptr e" by (simp_all add: a_def e_def)
  have lt: "mapstart c < mapend c \<longleftrightarrow> a < e" by (simp add: a_def e_def word_less_nat_alt)
  have ok: "2 ^ k dvd a" "2 ^ k dvd unat (mapoff c)" "e = page_up k d" "a \<le> d" "A + cmd_top k c + 2 ^ k \<le> 2 ^ 64"
    using c by (auto simp: cmd_ok_def a_def e_def d_def word_le_nat_alt)
  have e: "d \<le> e" "e \<le> cmd_top k c" "2 ^ k dvd e"
    using ok(3) page_up_ge [of d k] by (auto simp: cmd_top_def d_def intro: page_up_mono)
  have bnd: "A + e < 2 ^ 64" using e(2) ok(5) one_le_power [of "2 :: nat" k] by linarith
  show ?thesis
  proof (cases "a < e")
    case False
    then show ?thesis using e(1) ok(4) W by (intro that [of "lst s"]) (simp_all add: map_segment_def lt flip: a_def d_def)
  next
    case True
    have up: "page_up k (A + a + (e - a)) = A + e" using True A(1) e(3) by (simp add: page_up_id)
    obtain w' where w': "W w'" and k: "kern E SYS_mmap [ptr (A + a), ptr (e - a), scast (prot c), 0x12, scast fd, ptr (unat (mapoff c))] (world (lst s), rmem s) =
        (ptr (A + a), w', \<lambda>x. if unat x \<in> {A + a ..< page_up k (A + a + (e - a))}
           then file (unat (mapoff c) + (unat x - (A + a))) else rmem s x)"
      by (rule grants_file [OF g W, of "A + a" "unat (mapoff c)" "e - a"])
        (use True A(1) ok bnd up unsigned_less [of "mapoff c"] in auto)
    let ?m = "\<lambda>x. if unat x \<in> {A + a ..< A + e} then file (unat (mapoff c) + (unat x - (A + a))) else rmem s x"
    have "ptr (A + a) \<noteq> MAP_FAILED" by (rule ptr_not_failed) (use True bnd in simp)
    then have "map_segment E l fd c s = oreturn (s\<lparr>lst := (lst s)\<lparr>world := w', smem := ?m\<rparr>\<rparr>)"
      using True k up by (simp add: map_segment_def lt) (simp add: w A(2) ptr_add ptr_diff mmap_def syscall_def
          MAP_FIXED_def MAP_PRIVATE_def)
    then show ?thesis
    proof (rule that)
      show "W (world ((lst s)\<lparr>world := w', smem := ?m\<rparr>))" using w' by simp
      show "\<forall>x \<in> {unat (mapstart c) ..< unat (dataend c)}. smem ((lst s)\<lparr>world := w', smem := ?m\<rparr>) (ptr (A + x)) =
          file (unat (mapoff c) + (x - unat (mapstart c)))"
        using e(1) bnd by (auto simp: unat_ptr simp flip: a_def d_def)
      show "unchanged_outside {A + unat (mapstart c) ..< A + cmd_top k c} (rmem s) (smem ((lst s)\<lparr>world := w', smem := ?m\<rparr>))"
        using e(2) by (auto simp: unchanged_outside_def simp flip: a_def)
    qed
  qed
qed

lemma note_segment_keeps:
  "lst (note_segment E l c s) = lst s" "dl_pagesize (note_segment E l c s) = dl_pagesize s"
  "l_addr (maps (note_segment E l c s) l') = l_addr (maps s l')"
  by (simp_all add: note_segment_def upd_map_def Let_def)

section \<open>All load commands\<close>

primrec cmds_apart :: "nat \<Rightarrow> loadcmd list \<Rightarrow> bool" where
  "cmds_apart k [] \<longleftrightarrow> True"
| "cmds_apart k (c # cs) \<longleftrightarrow> (\<forall>c' \<in> set cs. cmd_top k c \<le> unat (mapstart c')) \<and> cmds_apart k cs"

definition cmd_range :: "nat \<Rightarrow> nat \<Rightarrow> loadcmd \<Rightarrow> nat set" where
  "cmd_range k A c = {A + unat (mapstart c) ..< A + cmd_top k c}"

lemma cmd_loaded_unchanged:
  assumes "cmd_loaded file m A c" and "cmd_ok k A c" and "unchanged_outside W m m'" and "W \<inter> cmd_range k A c = {}"
  shows "cmd_loaded file m' A c"
proof -
  have "m' (ptr (A + x)) = m (ptr (A + x))"
    if x: "unat (mapstart c) \<le> x" "x < max (unat (dataend c)) (unat (allocend c))" for x
  proof -
    have "x < cmd_top k c" using x(2) page_up_ge unfolding cmd_top_def by (rule less_le_trans)
    moreover from this have "A + x < 2 ^ 64" using assms(2) by (simp add: cmd_ok_def)
    ultimately show ?thesis
      using assms(3,4) x(1) by (auto simp: unchanged_outside_def cmd_range_def unat_ptr disjoint_iff)
  qed
  moreover have "unat (mapstart c) \<le> unat (dataend c)" using assms(2) by (simp add: cmd_ok_def word_le_nat_alt)
  ultimately show ?thesis using assms(1) unfolding cmd_loaded_def by (auto simp: less_max_iff_disj)
qed

text \<open>Entering the loop after the first mapping: the file part of the first command is in place already.\<close>

definition file_part :: "(nat \<Rightarrow> byte) \<Rightarrow> mem \<Rightarrow> nat \<Rightarrow> loadcmd \<Rightarrow> bool" where
  "file_part file m A c \<longleftrightarrow>
     (\<forall>x \<in> {unat (mapstart c) ..< unat (dataend c)}. m (ptr (A + x)) = file (unat (mapoff c) + (x - unat (mapstart c))))"

lemma postmap_granted:
  assumes g: "grants (kern E) W fd file k" and ps: "dl_pagesize s = 2 ^ k" and A: "2 ^ k dvd A" "l_addr (maps s l) = ptr A"
    and c: "cmd_ok k A c" and f: "file_part file (rmem s) A c" and W: "W (world (lst s))"
  obtains s' where "W (world (lst s'))" and "zero_fill E l c (note_segment E l c s) = oreturn s'"
    and "cmd_loaded file (rmem s') A c" and "unchanged_outside (cmd_range k A c) (rmem s) (rmem s')"
    and "dl_pagesize s' = 2 ^ k" and "l_addr (maps s' l) = ptr A"
proof -
  let ?s = "note_segment E l c s"
  have s: "dl_pagesize ?s = 2 ^ k" "l_addr (maps ?s l) = ptr A" "rmem ?s = rmem s"
    using ps A(2) by (simp_all add: note_segment_keeps)
  have Ws: "W (world (lst ?s))" using W by (simp add: note_segment_keeps)
  obtain t' where t': "zero_fill E l c ?s = oreturn (?s\<lparr>lst := t'\<rparr>)"
      "\<forall>x \<in> {unat (dataend c) ..< unat (allocend c)}. smem t' (ptr (A + x)) = 0"
      "unchanged_outside {A + unat (dataend c) ..< A + cmd_top k c} (rmem s) (smem t')" "W (world t')"
    using zero_fill_granted [OF g s(1) A(1) s(2) c Ws] s(3) by metis
  have d: "unat (mapstart c) \<le> unat (dataend c)" using c by (simp add: cmd_ok_def word_le_nat_alt)
  have "A + unat (dataend c) < 2 ^ 64"
    using c page_up_ge [of "max (unat (dataend c)) (unat (allocend c))" k] one_le_power [of "2 :: nat" k]
    unfolding cmd_ok_def cmd_top_def by linarith
  then have keep: "smem t' (ptr (A + x)) = rmem s (ptr (A + x))" if "x < unat (dataend c)" for x
    using t'(3) that by (auto simp: unchanged_outside_def unat_ptr)
  show ?thesis
  proof (rule that)
    show "zero_fill E l c ?s = oreturn (?s\<lparr>lst := t'\<rparr>)" by (rule t'(1))
    show "cmd_loaded file (rmem (?s\<lparr>lst := t'\<rparr>)) A c" using f t'(2) keep by (simp add: cmd_loaded_def file_part_def)
    show "unchanged_outside (cmd_range k A c) (rmem s) (rmem (?s\<lparr>lst := t'\<rparr>))"
      using unchanged_mono [OF t'(3), of "cmd_range k A c"] d by (simp add: cmd_range_def)
  qed (use s t'(4) in simp_all)
qed

lemma load_command_granted:
  assumes g: "grants (kern E) W fd file k" and ps: "dl_pagesize s = 2 ^ k" and A: "2 ^ k dvd A" "l_addr (maps s l) = ptr A"
    and c: "cmd_ok k A c" and W: "W (world (lst s))"
  obtains s' where "W (world (lst s'))" and "obind (map_segment E l fd c s) (\<lambda>s. zero_fill E l c (note_segment E l c s)) = oreturn s'"
    and "cmd_loaded file (rmem s') A c" and "unchanged_outside (cmd_range k A c) (rmem s) (rmem s')"
    and "dl_pagesize s' = 2 ^ k" and "l_addr (maps s' l) = ptr A"
proof -
  obtain t where t: "map_segment E l fd c s = oreturn (s\<lparr>lst := t\<rparr>)" "file_part file (smem t) A c"
      "unchanged_outside (cmd_range k A c) (rmem s) (smem t)" "W (world t)"
    unfolding file_part_def cmd_range_def by (rule map_segment_granted [OF g A c W])
  obtain s' where s': "W (world (lst s'))" "zero_fill E l c (note_segment E l c (s\<lparr>lst := t\<rparr>)) = oreturn s'" "cmd_loaded file (rmem s') A c"
      "unchanged_outside (cmd_range k A c) (smem t) (rmem s')" "dl_pagesize s' = 2 ^ k" "l_addr (maps s' l) = ptr A"
    using postmap_granted [OF g _ A(1) _ c, of "s\<lparr>lst := t\<rparr>" l] ps A(2) t(2,4) by auto
  show ?thesis
    by (rule that [of s']) (use t s' in \<open>auto intro: unchanged_trans\<close>)
qed

lemma loadcmd_loop_granted:
  assumes "grants (kern E) W fd file k" and "2 ^ k dvd A" and "dl_pagesize s = 2 ^ k" and "l_addr (maps s l) = ptr A"
    and "W (world (lst s))" and "\<forall>c \<in> set cs. cmd_ok k A c" and "cmds_apart k cs"
  shows "\<exists>s'. loadcmd_loop E l fd cs s = oreturn s' \<and> W (world (lst s')) \<and> (\<forall>c \<in> set cs. cmd_loaded file (rmem s') A c) \<and>
           unchanged_outside (\<Union> (cmd_range k A ` set cs)) (rmem s) (rmem s')"
  using assms(3-)
proof (induction cs arbitrary: s)
  case (Cons c cs)
  then obtain s1 where s1: "obind (map_segment E l fd c s) (\<lambda>s. zero_fill E l c (note_segment E l c s)) = oreturn s1"
      "cmd_loaded file (rmem s1) A c" "unchanged_outside (cmd_range k A c) (rmem s) (rmem s1)"
      "dl_pagesize s1 = 2 ^ k" "l_addr (maps s1 l) = ptr A" "W (world (lst s1))"
    by (auto elim: load_command_granted [OF assms(1) _ assms(2), of s l c])
  obtain s' where s': "loadcmd_loop E l fd cs s1 = oreturn s'" "\<forall>c \<in> set cs. cmd_loaded file (rmem s') A c"
      "unchanged_outside (\<Union> (cmd_range k A ` set cs)) (rmem s1) (rmem s')" "W (world (lst s'))"
    using Cons.IH [OF s1(4-6)] Cons.prems(4,5) by auto
  have "\<Union> (cmd_range k A ` set cs) \<inter> cmd_range k A c = {}"
    using Cons.prems(5) by (fastforce simp: cmd_range_def)
  then have "cmd_loaded file (rmem s') A c"
    using Cons.prems(4) by (intro cmd_loaded_unchanged [OF s1(2) _ s'(3)]) simp_all
  moreover have "loadcmd_loop E l fd (c # cs) s = oreturn s'"
    using s1(1) s'(1) by (auto simp: obind_eq_return)
  moreover have "unchanged_outside (\<Union> (cmd_range k A ` set (c # cs))) (rmem s) (rmem s')"
    by (rule unchanged_trans [OF unchanged_mono [OF s1(3)] unchanged_mono [OF s'(3)]]) auto
  ultimately show ?case using s'(2,4) by auto
qed simp

lemma map_object_loadcmd_granted:
  assumes g: "grants (kern E) W fd file k" and A: "2 ^ k dvd A" and ps: "dl_pagesize s = 2 ^ k" and l: "l_addr (maps s l) = ptr A"
    and W: "W (world (lst s))" and ok: "\<forall>c \<in> set cs. cmd_ok k A c" "cmds_apart k cs" "cs \<noteq> []" and post: "postmap \<longrightarrow> file_part file (rmem s) A (hd cs)"
  shows "\<exists>s'. map_object_loadcmd E l fd cs n holes postmap s = oreturn s' \<and> W (world (lst s')) \<and> (\<forall>c \<in> set cs. cmd_loaded file (rmem s') A c) \<and>
           unchanged_outside (\<Union> (cmd_range k A ` set cs)) (rmem s) (rmem s')"
proof (cases postmap)
  case False
  obtain c cs' where "cs = c # cs'" using ok(3) by (cases cs) auto
  with False show ?thesis
    using loadcmd_loop_granted [OF g A, of "upd_map l (\<lambda>L. L\<lparr>l_map_start := mapstart c + l_addr L,
        l_map_end := mapstart c + l_addr L + n, l_contiguous := \<not> holes\<rparr>) s" l cs] ps l W ok(1,2)
    by (simp add: map_object_loadcmd_def upd_map_def)
next
  case True
  obtain c cs' where cs: "cs = c # cs'" using ok(3) by (cases cs) auto
  obtain s1 where s1: "zero_fill E l c (note_segment E l c s) = oreturn s1" and W1: "W (world (lst s1))" and s1': "cmd_loaded file (rmem s1) A c"
      "unchanged_outside (cmd_range k A c) (rmem s) (rmem s1)" "dl_pagesize s1 = 2 ^ k" "l_addr (maps s1 l) = ptr A"
    using postmap_granted [OF g ps A l, of c] ok(1) post True cs W by auto
  obtain s' where s': "loadcmd_loop E l fd cs' s1 = oreturn s'" "\<forall>c \<in> set cs'. cmd_loaded file (rmem s') A c"
      "unchanged_outside (\<Union> (cmd_range k A ` set cs')) (rmem s1) (rmem s')" "W (world (lst s'))"
    using loadcmd_loop_granted [OF g A s1'(3,4) W1, of cs'] ok(1,2) cs by auto
  have "\<Union> (cmd_range k A ` set cs') \<inter> cmd_range k A c = {}"
    using ok(2) cs by (fastforce simp: cmd_range_def)
  then have "cmd_loaded file (rmem s') A c"
    using ok(1) cs by (intro cmd_loaded_unchanged [OF s1'(1) _ s'(3)]) simp_all
  moreover have "unchanged_outside (\<Union> (cmd_range k A ` set cs)) (rmem s) (rmem s')"
    by (rule unchanged_trans [OF unchanged_mono [OF s1'(2)] unchanged_mono [OF s'(3)]]) (auto simp: cs)
  ultimately show ?thesis using True cs s1 s'(1,2,4) by (simp add: map_object_loadcmd_def)
qed

section \<open>From program headers to load commands\<close>

text \<open>The two assertions on a \<open>PT_LOAD\<close> header; the headers of the table; the fields of the link map a header sets.\<close>

definition phdr_aligned :: "addr \<Rightarrow> mem \<Rightarrow> addr \<Rightarrow> bool" where
  "phdr_aligned pagesz m ph \<longleftrightarrow> p_align m ph AND (pagesz - 1) = 0 \<and> (p_vaddr m ph - p_offset m ph) AND (p_align m ph - 1) = 0"

primrec phdrs :: "addr \<Rightarrow> nat \<Rightarrow> addr list" where
  "phdrs ph 0 = []"
| "phdrs ph (Suc n) = ph # phdrs (ph + sizeof_Phdr) n"

definition is_load :: "mem \<Rightarrow> addr \<Rightarrow> bool" where
  "is_load m ph \<longleftrightarrow> p_type m ph = PT_LOAD"

definition phdr_fields :: "mem \<Rightarrow> addr \<Rightarrow> link_map \<Rightarrow> link_map" where
  "phdr_fields m ph L =
     (if p_type m ph = PT_DYNAMIC then L\<lparr>l_ld := p_vaddr m ph, l_ldnum := ucast (p_memsz m ph div sizeof_Dyn)\<rparr>
      else if p_type m ph = PT_PHDR then L\<lparr>l_phdr := p_vaddr m ph\<rparr>
      else L)"

fun has_gap :: "loadcmd list \<Rightarrow> bool" where
  "has_gap (c # d # cs) \<longleftrightarrow> mapend c \<noteq> mapstart d \<or> has_gap (d # cs)"
| "has_gap cs \<longleftrightarrow> False"

lemma has_gap_snoc: "has_gap (cs @ [c]) \<longleftrightarrow> has_gap cs \<or> (cs \<noteq> [] \<and> mapend (last cs) \<noteq> mapstart c)"
  by (induction cs rule: has_gap.induct) auto

lemma parse_phdr_loop_eq:
  "parse_phdr_loop ps m n ph (L, cs, has_gap cs) =
     (if \<forall>q \<in> set (filter (is_load m) (phdrs ph n)). phdr_aligned ps m q
      then let cs' = cs @ map (seg_cmd ps m) (filter (is_load m) (phdrs ph n))
           in oreturn (fold (phdr_fields m) (phdrs ph n) L, cs', has_gap cs')
      else ostop (Exited 1))"
proof (induction n arbitrary: ph L cs)
  case (Suc n)
  consider "is_load m ph" "phdr_aligned ps m ph" | "is_load m ph" "\<not> phdr_aligned ps m ph" | "\<not> is_load m ph" by blast
  then show ?case
  proof cases
    case 1
    then have one: "parse_phdr_one ps m ph (L, cs, has_gap cs) =
        oreturn (phdr_fields m ph L, cs @ [seg_cmd ps m ph], has_gap (cs @ [seg_cmd ps m ph]))"
      by (simp add: parse_phdr_one_def is_load_def phdr_aligned_def has_gap_snoc phdr_fields_def Let_def PT_LOAD_def PT_DYNAMIC_def PT_PHDR_def)
    show ?thesis using 1 Suc.IH [of "ph + sizeof_Phdr" "phdr_fields m ph L" "cs @ [seg_cmd ps m ph]"] by (auto simp: one Let_def)
  next
    case 2
    then have one: "parse_phdr_one ps m ph (L, cs, has_gap cs) = ostop (Exited 1)"
      by (auto simp: parse_phdr_one_def is_load_def phdr_aligned_def oassert_def)
    show ?thesis using 2 by (simp add: one)
  next
    case 3
    then have one: "parse_phdr_one ps m ph (L, cs, has_gap cs) = oreturn (phdr_fields m ph L, cs, has_gap cs)"
      by (simp add: parse_phdr_one_def is_load_def phdr_fields_def)
    show ?thesis using 3 Suc.IH [of "ph + sizeof_Phdr" "phdr_fields m ph L" cs] by (auto simp: one)
  qed
qed (simp add: Let_def)

text \<open>The assertions make the address and the file offset of a segment agree within the page.\<close>

lemma take_bit_and_zero:
  fixes x y :: addr
  assumes "y AND mask k = 0" and "x AND (y - 1) = 0" and "k \<le> 64"
  shows "take_bit k x = 0"
proof -
  have y: "unat y mod 2 ^ k = 0"
    using assms(1) by (simp flip: take_bit_eq_mask take_bit_eq_mod unsigned_take_bit_eq)
  have "take_bit k (unat (y - 1)) = mask k"
  proof (cases "y = 0")
    case True
    then show ?thesis using assms(3) by (simp add: unsigned_minus_1_eq_mask take_bit_of_mask min_def)
  next
    case False
    then obtain q where q: "unat y = Suc q * 2 ^ k"
      using y by (metis mult.commute mod_0_imp_dvd dvdE mult_0_right not0_implies_Suc unat_eq_zero)
    then have "unat (y - 1) = q * 2 ^ k + (2 ^ k - 1)"
      using False one_le_power [of "2 :: nat" k] by (simp add: unat_minus_one)
    then have "unat (y - 1) mod 2 ^ k = (2 ^ k - 1) mod 2 ^ k" by (simp only: mod_mult_self3)
    then show ?thesis by (simp add: take_bit_eq_mod mask_eq_exp_minus_1)
  qed
  then have "bit (y - 1) n" if "n < k" for n
    using that by (metis bit_mask_iff bit_take_bit_iff bit_unsigned_iff possible_bit_nat)
  then have "\<not> bit x n" if "n < k" for n
    using that assms(2) by (metis bit_and_iff bit_0_eq bot_apply bot_bool_def)
  then show ?thesis by (auto simp: bit_eq_iff bit_take_bit_iff)
qed

lemma aligned_same_page_offset:
  assumes "phdr_aligned (2 ^ k) m ph" and "k \<le> 64"
  shows "unat (p_vaddr m ph) mod 2 ^ k = unat (p_offset m ph) mod 2 ^ k"
proof -
  let ?v = "p_vaddr m ph" and ?o = "p_offset m ph"
  have "take_bit k (?v - ?o) = 0"
    using assms(1) by (intro take_bit_and_zero [OF _ _ assms(2), of "p_align m ph"])
      (simp_all add: phdr_aligned_def mask_eq_exp_minus_1)
  then have x: "unat (?v - ?o) mod 2 ^ k = 0" by (metis take_bit_eq_mod unsigned_take_bit_eq unsigned_0)
  have "unat ?v = (unat (?v - ?o) + unat ?o) mod 2 ^ 64" using unat_word_ariths(1) [of "?v - ?o" ?o] by simp
  moreover have "(2 :: nat) ^ k dvd 2 ^ 64" using assms(2) by (rule le_imp_power_dvd)
  ultimately have "unat ?v mod 2 ^ k = (unat (?v - ?o) + unat ?o) mod 2 ^ k" by (simp only: mod_mod_cancel)
  with x show ?thesis by (simp add: mod_add_left_eq [symmetric, of "unat (?v - ?o)"])
qed

text \<open>
  \<open>seg_fits k A m ph\<close>: the segment is no larger in the file than in memory and ends well below the end of
  the address space. The load command that is made of it is in order.
\<close>

definition seg_fits :: "nat \<Rightarrow> nat \<Rightarrow> mem \<Rightarrow> addr \<Rightarrow> bool" where
  "seg_fits k A m ph \<longleftrightarrow> p_filesz m ph \<le> p_memsz m ph \<and> A + unat (p_vaddr m ph) + unat (p_memsz m ph) + 2 * 2 ^ k \<le> 2 ^ 64"

lemma seg_cmd_fields:
  assumes "seg_fits k A m ph" and ps: "ps = 2 ^ k"
  shows "unat (mapstart (seg_cmd ps m ph)) = unat (p_vaddr m ph) div 2 ^ k * 2 ^ k"
    and "unat (mapoff (seg_cmd ps m ph)) = unat (p_offset m ph) div 2 ^ k * 2 ^ k"
    and "unat (dataend (seg_cmd ps m ph)) = unat (p_vaddr m ph) + unat (p_filesz m ph)"
    and "unat (allocend (seg_cmd ps m ph)) = unat (p_vaddr m ph) + unat (p_memsz m ph)"
    and "unat (mapend (seg_cmd ps m ph)) = page_up k (unat (p_vaddr m ph) + unat (p_filesz m ph))"
    and "cmd_ok k A (seg_cmd ps m ph)"
proof -
  let ?v = "unat (p_vaddr m ph)" and ?f = "unat (p_filesz m ph)" and ?z = "unat (p_memsz m ph)"
  have fz: "?f \<le> ?z" and bnd: "A + ?v + ?z + 2 * 2 ^ k \<le> 2 ^ 64"
    using assms(1) by (simp_all add: seg_fits_def word_le_nat_alt)
  have p1: "1 \<le> (2 :: nat) ^ k" by simp
  have down: "unat (ptr (unat x div 2 ^ k * 2 ^ k)) = unat x div 2 ^ k * 2 ^ k" for x :: addr
  proof (rule unat_ptr)
    have "unat x < 2 ^ 64" using unsigned_less [of x] by simp
    then show "unat x div 2 ^ k * 2 ^ k < 2 ^ 64" by (rule le_less_trans [OF div_times_less_eq_dividend])
  qed
  have sum: "p_vaddr m ph + p_filesz m ph = ptr (?v + ?f)" "p_vaddr m ph + p_memsz m ph = ptr (?v + ?z)"
    by (simp_all flip: ptr_add)
  have lt: "?v + ?f < 2 ^ 64" "?v + ?z < 2 ^ 64" "?v + ?f + 2 ^ k \<le> 2 ^ 64" using fz bnd p1 by linarith+
  have up: "page_up k (?v + ?f) < 2 ^ 64" using page_up_less [of k "?v + ?f"] lt(3) by linarith
  show ms: "unat (mapstart (seg_cmd ps m ph)) = ?v div 2 ^ k * 2 ^ k"
    and mo: "unat (mapoff (seg_cmd ps m ph)) = unat (p_offset m ph) div 2 ^ k * 2 ^ k"
    by (simp_all only: seg_cmd_def loadcmd.simps round_down_pow2 [OF ps] down)
  show de: "unat (dataend (seg_cmd ps m ph)) = ?v + ?f" and ae: "unat (allocend (seg_cmd ps m ph)) = ?v + ?z"
    by (simp_all only: seg_cmd_def loadcmd.simps sum unat_ptr [OF lt(1)] unat_ptr [OF lt(2)])
  show me: "unat (mapend (seg_cmd ps m ph)) = page_up k (?v + ?f)"
    by (simp only: seg_cmd_def loadcmd.simps sum page_up_word [OF ps lt(3)] unat_ptr [OF up])
  have "cmd_top k (seg_cmd ps m ph) = page_up k (?v + ?z)" using fz by (simp add: cmd_top_def de ae max_def)
  moreover have "A + page_up k (?v + ?z) + 2 ^ k \<le> 2 ^ 64" using page_up_less [of k "?v + ?z"] bnd by linarith
  moreover have "?v div 2 ^ k * 2 ^ k \<le> ?v + ?f" by (simp add: trans_le_add1)
  ultimately show "cmd_ok k A (seg_cmd ps m ph)"
    by (simp add: cmd_ok_def ms mo de me word_le_nat_alt)
qed

text \<open>A segment in memory, as the ELF format describes it.\<close>

definition segment_loaded :: "(nat \<Rightarrow> byte) \<Rightarrow> mem \<Rightarrow> addr \<Rightarrow> mem \<Rightarrow> addr \<Rightarrow> bool" where
  "segment_loaded file m base hm ph \<longleftrightarrow>
     (\<forall>i < unat (p_filesz hm ph). m (base + p_vaddr hm ph + ptr i) = file (unat (p_offset hm ph) + i)) \<and>
     (\<forall>i. unat (p_filesz hm ph) \<le> i \<and> i < unat (p_memsz hm ph) \<longrightarrow> m (base + p_vaddr hm ph + ptr i) = 0)"

lemma cmd_segment_loaded:
  assumes fit: "seg_fits k A hm ph" and al: "phdr_aligned (2 ^ k) hm ph" "k \<le> 64"
    and ld: "cmd_loaded file m A (seg_cmd (2 ^ k) hm ph)"
  shows "segment_loaded file m (ptr A) hm ph"
proof -
  let ?v = "unat (p_vaddr hm ph)" and ?o = "unat (p_offset hm ph)"
  note F = seg_cmd_fields [OF fit refl]
  have p: "ptr A + p_vaddr hm ph + ptr i = ptr (A + (?v + i))" for i by (simp flip: ptr_add)
  have off: "?o div 2 ^ k * 2 ^ k + (?v + i - ?v div 2 ^ k * 2 ^ k) = ?o + i" for i
  proof -
    have v: "?v div 2 ^ k * 2 ^ k + ?v mod 2 ^ k = ?v" by (rule div_mult_mod_eq)
    have "?o div 2 ^ k * 2 ^ k + ?v mod 2 ^ k = ?o"
      unfolding aligned_same_page_offset [OF al] by (rule div_mult_mod_eq)
    with v show ?thesis by linarith
  qed
  have "m (ptr (A + (?v + i))) = file (?o + i)" if "i < unat (p_filesz hm ph)" for i
  proof -
    have "?v + i \<in> {?v div 2 ^ k * 2 ^ k ..< ?v + unat (p_filesz hm ph)}" using that by (simp add: trans_le_add1)
    with ld show ?thesis unfolding cmd_loaded_def F using off by metis
  qed
  moreover have "m (ptr (A + (?v + i))) = 0" if "unat (p_filesz hm ph) \<le> i" "i < unat (p_memsz hm ph)" for i
    using ld that unfolding cmd_loaded_def F by simp
  ultimately show ?thesis by (simp add: segment_loaded_def p)
qed

section \<open>Properties\<close>

text \<open>
  C35. \<open>parse_phdr\<close> gives one load command per \<open>PT_LOAD\<close> header, in the order of the table, and records
  whether two neighbours leave a gap; \<open>l_ld\<close>, \<open>l_ldnum\<close> and \<open>l_phdr\<close> come from the last \<open>PT_DYNAMIC\<close> and
  \<open>PT_PHDR\<close> headers. It ends the process with code 1 exactly when some \<open>PT_LOAD\<close> header violates the
  alignment rules, so a command it returns has its file offset and address at the same place of a page.
\<close>

theorem parse_phdr_commands:
  "parse_phdr (2 ^ k) m L ph =
     (let hs = phdrs ph (unat (l_phnum L)); cs = map (seg_cmd (2 ^ k) m) (filter (is_load m) hs)
      in if \<forall>q \<in> set (filter (is_load m) hs). phdr_aligned (2 ^ k) m q
         then oreturn (fold (phdr_fields m) hs L, cs, has_gap cs) else ostop (Exited 1)) \<and>
   (k \<le> 64 \<longrightarrow> phdr_aligned (2 ^ k) m q \<longrightarrow> unat (p_vaddr m q) mod 2 ^ k = unat (p_offset m q) mod 2 ^ k)"
  using parse_phdr_loop_eq [of "2 ^ k" m "unat (l_phnum L)" ph L "[]"] aligned_same_page_offset [of k m q]
  by (auto simp: parse_phdr_def Let_def)

text \<open>
  C36. The segments of an object are in memory after \<open>map_object_loadcmd\<close>. The kernel grants the mappings, in the states of \<open>W\<close>;
  the headers pass the assertions of \<open>parse_phdr\<close>, their segments fit and do not share a page. Then the
  code returns; for every header the bytes at \<open>l_addr + p_vaddr\<close> are the \<open>p_filesz\<close> bytes of the file at
  \<open>p_offset\<close>, followed by zeros up to \<open>p_memsz\<close>, and no byte outside the pages of the segments has changed.
  With \<open>postmap\<close> (shared objects) the file part of the first segment is in place before the call.
\<close>

theorem segments_are_loaded:
  assumes "grants (kern E) W fd file k" and "k < 64" and "2 ^ k dvd A" and "dl_pagesize s = 2 ^ k" and "l_addr (maps s l) = ptr A"
    and "W (world (lst s))" and "\<forall>ph \<in> set phs. phdr_aligned (2 ^ k) hm ph \<and> seg_fits k A hm ph" and "phs \<noteq> []"
    and "cmds_apart k (map (seg_cmd (2 ^ k) hm) phs)"
    and "postmap \<longrightarrow> file_part file (rmem s) A (seg_cmd (2 ^ k) hm (hd phs))"
  shows "\<exists>s'. map_object_loadcmd E l fd (map (seg_cmd (2 ^ k) hm) phs) n holes postmap s = oreturn s' \<and> W (world (lst s')) \<and>
           (\<forall>ph \<in> set phs. segment_loaded file (rmem s') (ptr A) hm ph) \<and>
           unchanged_outside (\<Union>ph \<in> set phs. cmd_range k A (seg_cmd (2 ^ k) hm ph)) (rmem s) (rmem s')"
proof -
  let ?cs = "map (seg_cmd (2 ^ k) hm) phs"
  have ok: "\<forall>c \<in> set ?cs. cmd_ok k A c" using assms(7) seg_cmd_fields(6) by fastforce
  have ne: "?cs \<noteq> []" and hd: "hd ?cs = seg_cmd (2 ^ k) hm (hd phs)" using assms(8) by (simp_all add: hd_map)
  obtain s' where "map_object_loadcmd E l fd ?cs n holes postmap s = oreturn s'" "W (world (lst s'))"
      "\<forall>c \<in> set ?cs. cmd_loaded file (rmem s') A c" "unchanged_outside (\<Union> (cmd_range k A ` set ?cs)) (rmem s) (rmem s')"
    using map_object_loadcmd_granted [OF assms(1,3-6) ok assms(9) ne, of postmap n holes] assms(10) hd by auto
  moreover from this(3) have "segment_loaded file (rmem s') (ptr A) hm ph" if "ph \<in> set phs" for ph
    using that assms(2,7) by (intro cmd_segment_loaded [of k A]) auto
  ultimately show ?thesis by (intro exI [of _ s']) (auto simp: image_image)
qed

section \<open>Examples\<close>

text \<open>A program header at 64: 8 bytes of the file at 16 go to 4112, in a segment of 5000 bytes.\<close>

definition demo_header :: mem where
  "demo_header = (\<lambda>_. 0)(64 := 1, 68 := 6, 72 := 16, 80 := 16, 81 := 16, 96 := 8, 104 := 0x88, 105 := 0x13, 113 := 0x10)"

lemma demo_header_fields:
  "p_type demo_header 64 = 1" "p_offset demo_header 64 = 16" "p_vaddr demo_header 64 = 4112" "p_filesz demo_header 64 = 8"
  "p_memsz demo_header 64 = 5000" "p_align demo_header 64 = 4096" "p_flags demo_header 64 = 6"
  by (simp_all add: p_type_def p_offset_def p_vaddr_def p_filesz_def p_memsz_def p_align_def p_flags_def demo_header_def word_loads)

lemma demo_header_ok: "phdr_aligned (2 ^ 12) demo_header 64" "seg_fits 12 0 demo_header 64"
  by (simp_all add: phdr_aligned_def seg_fits_def demo_header_fields)

definition demo_file :: "nat \<Rightarrow> byte" where
  "demo_file n = of_nat n"

definition paging_kernel :: "unit kernel" where
  "paging_kernel sysno args = (\<lambda>(w, m).
     if sysno = SYS_mmap then
       (args ! 0, w, \<lambda>x. if unat x \<in> {unat (args ! 0) ..< page_up 12 (unat (args ! 0) + unat (args ! 1))}
          then (if args ! 3 = 0x12 then demo_file (unat (args ! 5) + (unat x - unat (args ! 0))) else 0) else m x)
     else (0, w, m))"

lemma paging_kernel_grants: "grants paging_kernel (\<lambda>_. True) 3 demo_file 12"
proof -
  have b: "a < 2 ^ 64" "n < 2 ^ 64" if "page_up 12 (a + n) < 2 ^ 64" for a n
    using that page_up_ge [of "a + n" 12] by linarith+
  have f: "paging_kernel SYS_mmap [ptr a, ptr n, p, 0x12, x, ptr off] (w, m) =
      (ptr a, w, \<lambda>y. if unat y \<in> {a ..< page_up 12 (a + n)} then demo_file (off + (unat y - a)) else m y)"
    if "off < 2 ^ 64" "page_up 12 (a + n) < 2 ^ 64" for a n p x off w m
    using that(1) b [OF that(2)] by (simp add: paging_kernel_def unat_ptr nth_Cons_numeral cong: if_cong)
  have z: "paging_kernel SYS_mmap [ptr a, ptr n, p, 0x32, - 1, 0] (w, m) =
      (ptr a, w, \<lambda>y. if unat y \<in> {a ..< page_up 12 (a + n)} then 0 else m y)"
    if "page_up 12 (a + n) < 2 ^ 64" for a n p w m
    using b [OF that] by (simp add: paging_kernel_def unat_ptr nth_Cons_numeral cong: if_cong)
  have q: "paging_kernel SYS_mprotect [a, n, p] (w, m) = (0, w, m)" for a n p w m
    by (simp add: paging_kernel_def SYS_mmap_def SYS_mprotect_def)
  show ?thesis unfolding grants_def using f z q by blast
qed

theorem parse_phdr_commands_witness:
  "parse_phdr (2 ^ 12) demo_header (init_link_map\<lparr>l_phnum := 1\<rparr>) 64 =
     oreturn (init_link_map\<lparr>l_phnum := 1\<rparr>, [seg_cmd 4096 demo_header 64], False) \<and>
   unat (p_vaddr demo_header 64) mod 4096 = unat (p_offset demo_header 64) mod 4096"
proof -
  have "p_align demo_header 64 AND 4095 = 0" by (simp add: demo_header_fields)
  then show ?thesis
    using parse_phdr_commands [of 12 demo_header "init_link_map\<lparr>l_phnum := 1\<rparr>" 64 64] demo_header_ok(1)
    by (simp add: is_load_def demo_header_fields PT_LOAD_def PT_DYNAMIC_def PT_PHDR_def phdr_fields_def)
qed

theorem segments_are_loaded_witness:
  "\<exists>s'. map_object_loadcmd (demo_env\<lparr>kern := paging_kernel\<rparr>) 16 3 [seg_cmd 4096 demo_header 64] 5016 False False
      (demo_rtld\<lparr>maps := (\<lambda>_. init_link_map)\<rparr>) = oreturn s' \<and> rmem s' 4115 = 19 \<and> rmem s' 9000 = 0"
proof -
  have "\<exists>s'. map_object_loadcmd (demo_env\<lparr>kern := paging_kernel\<rparr>) 16 3 (map (seg_cmd (2 ^ 12) demo_header) [64]) 5016 False False
      (demo_rtld\<lparr>maps := (\<lambda>_. init_link_map)\<rparr>) = oreturn s' \<and> True \<and>
    (\<forall>ph \<in> set [64]. segment_loaded demo_file (rmem s') (ptr 0) demo_header ph) \<and>
    unchanged_outside (\<Union>ph \<in> set [64]. cmd_range 12 0 (seg_cmd (2 ^ 12) demo_header ph))
      (rmem (demo_rtld\<lparr>maps := (\<lambda>_. init_link_map)\<rparr>)) (rmem s')"
    by (rule segments_are_loaded [of "demo_env\<lparr>kern := paging_kernel\<rparr>" "\<lambda>_. True" 3 demo_file 12])
      (use paging_kernel_grants demo_header_ok in \<open>simp_all add: demo_env_def demo_rtld_def init_link_map_def\<close>)
  then obtain s' where "map_object_loadcmd (demo_env\<lparr>kern := paging_kernel\<rparr>) 16 3 [seg_cmd 4096 demo_header 64] 5016 False False
      (demo_rtld\<lparr>maps := (\<lambda>_. init_link_map)\<rparr>) = oreturn s'" and l: "segment_loaded demo_file (rmem s') 0 demo_header 64"
    by auto
  moreover have "rmem s' (0 + p_vaddr demo_header 64 + ptr 3) = demo_file (unat (p_offset demo_header 64) + 3)"
    "rmem s' (0 + p_vaddr demo_header 64 + ptr 4888) = 0"
    using l [unfolded segment_loaded_def, THEN conjunct1, rule_format, of 3]
      l [unfolded segment_loaded_def, THEN conjunct2, rule_format, of 4888] by (simp_all add: demo_header_fields)
  ultimately show ?thesis by (auto simp: demo_header_fields demo_file_def)
qed

end
