(* ===== verification/Load_Path.thy ===== *)
theory Load_Path
  imports Load Malloc_Props
begin

text \<open>
  Finding a library: \<open>open_path\<close> tries the directories of \<open>GL(rpath)\<close> in order and takes the first in which
  the kernel opens the file; \<open>map_object\<close> ends the process when there is none, and reuses an object of
  the namespace that has the name of the file.
\<close>

section \<open>What the search needs\<close>

text \<open>
  \<open>string_at m b a xs\<close>: the string \<open>xs\<close> is at address number \<open>a\<close>, outside the buffer of 1024 bytes at \<open>b\<close>.
  \<open>open_by_name K mapped b P\<close>: on a path in the buffer, the kernel's \<open>open\<close> for reading succeeds exactly on
  the paths in \<open>P\<close>, leaves the memory alone and maps nothing. \<open>name_step mapped b t t'\<close>: from \<open>t\<close> to \<open>t'\<close> only
  the buffer and the kernel's own state changed.
\<close>

definition string_at :: "mem \<Rightarrow> nat \<Rightarrow> nat \<Rightarrow> byte list \<Rightarrow> bool" where
  "string_at m b a xs \<longleftrightarrow> 0 < a \<and> cstr m a xs \<and> {a .. a + length xs} \<inter> {b ..< b + 1024} = {}"

definition open_by_name :: "'w kernel \<Rightarrow> ('w \<Rightarrow> 'o) \<Rightarrow> nat \<Rightarrow> (byte list \<Rightarrow> bool) \<Rightarrow> bool" where
  "open_by_name K mapped b P \<longleftrightarrow>
     (\<forall>w m name. cstr m b name \<longrightarrow>
        (\<exists>r w'. K SYS_open [ptr b, 0, 0] (w, m) = (r, w', m) \<and> mapped w' = mapped w \<and> (0 \<le> sint (ucast r :: 32 word) \<longleftrightarrow> P name)))"

definition name_step :: "('w \<Rightarrow> 'o) \<Rightarrow> nat \<Rightarrow> 'w lstate \<Rightarrow> 'w lstate \<Rightarrow> bool" where
  "name_step mapped b t t' \<longleftrightarrow> unchanged_outside {b ..< b + 1024} (smem t) (smem t') \<and>
     mapped (world t') = mapped (world t) \<and> pagesize t' = pagesize t"

lemma name_step_refl [simp]: "name_step mapped b t t"
  by (simp add: name_step_def)

lemma name_step_trans: "name_step mapped b t t' \<Longrightarrow> name_step mapped b t' t'' \<Longrightarrow> name_step mapped b t t''"
  unfolding name_step_def by (auto intro: unchanged_trans)

text \<open>The path \<open>"%s/%s"\<close> gives in a buffer of 1024 bytes.\<close>

definition path_of :: "byte list \<Rightarrow> byte list \<Rightarrow> byte list" where
  "path_of d x = take 1023 (d @ 47 # x)"

lemma string_at_unchanged:
  "string_at m b a xs \<Longrightarrow> unchanged_outside {b ..< b + 1024} m m' \<Longrightarrow> string_at m' b a xs"
  unfolding string_at_def by (metis cstr_unchanged)

lemma find_split:
  assumes "find Q xs = Some x"
  shows "\<exists>ys zs. xs = ys @ x # zs \<and> (\<forall>y \<in> set ys. \<not> Q y) \<and> Q x"
  using assms
proof (induction xs)
  case (Cons a xs)
  then show ?case
  proof (cases "Q a")
    case True
    with Cons.prems have "a # xs = [] @ x # xs \<and> (\<forall>y \<in> set []. \<not> Q y) \<and> Q x" by simp
    then show ?thesis by blast
  next
    case False
    with Cons obtain ys zs where "xs = ys @ x # zs" "\<forall>y \<in> set ys. \<not> Q y" "Q x" by auto
    with False have "a # xs = (a # ys) @ x # zs \<and> (\<forall>y \<in> set (a # ys). \<not> Q y) \<and> Q x" by simp
    then show ?thesis by blast
  qed
qed simp

text \<open>The strings the search uses are all in place.\<close>

definition search_ok :: "'w env \<Rightarrow> nat \<Rightarrow> nat \<Rightarrow> byte list \<Rightarrow> mem \<Rightarrow> bool" where
  "search_ok E b a x m \<longleftrightarrow>
     namebuf E = ptr b \<and> buf_ok b 1024 \<and> string_at m b (unat (path_fmt E)) path_format \<and> string_at m b a x"

lemma search_ok_unchanged:
  "search_ok E b a x m \<Longrightarrow> unchanged_outside {b ..< b + 1024} m m' \<Longrightarrow> search_ok E b a x m'"
  unfolding search_ok_def by (auto intro: string_at_unchanged)

lemma path_step:
  assumes "search_ok E b a x m" and "string_at m b d ds"
  obtains m' n where "dsnprintf (namebuf E) 1024 (path_fmt E) [ptr d, ptr a] m = oreturn (m', n)"
    and "cstr m' b (path_of ds x)" and "unchanged_outside {b ..< b + 1024} m m'"
proof -
  from dsnprintf_path [of b 1024 m "unat (path_fmt E)" d ds a x] assms that show ?thesis
    by (auto simp: search_ok_def string_at_def path_of_def)
qed

text \<open>Trying one directory: the path in the buffer, and the kernel's answer for it.\<close>

lemma try_directory:
  assumes "open_by_name (kern E) mapped b P" and "search_ok E b a x (rmem s)" and "string_at (rmem s) b p d"
  obtains m n t fd where "dsnprintf (namebuf E) 1024 (path_fmt E) [ptr p, ptr a] (rmem s) = oreturn (m, n)"
    and "sys_open (kern E) (namebuf E) 0 0 (lst (set_rmem m s)) = (t, fd)" and "0 \<le> sint fd \<longleftrightarrow> P (path_of d x)"
    and "cstr (smem t) b (path_of d x)" and "name_step mapped b (lst s) t" and "ptr p \<noteq> NULL"
    and "cstr (rmem (set_rmem m s)) b (path_of d x)"
proof -
  obtain m n where m: "dsnprintf (namebuf E) 1024 (path_fmt E) [ptr p, ptr a] (rmem s) = oreturn (m, n)"
    "cstr m b (path_of d x)" "unchanged_outside {b ..< b + 1024} (rmem s) m"
    using path_step [OF assms(2,3)] .
  from assms(1) m(2) obtain r w' where k: "kern E SYS_open [ptr b, 0, 0] (world (lst s), m) = (r, w', m)"
    "mapped w' = mapped (world (lst s))" "0 \<le> sint (ucast r :: 32 word) \<longleftrightarrow> P (path_of d x)"
    unfolding open_by_name_def by blast
  let ?t = "(lst s)\<lparr>smem := m, world := w'\<rparr>"
  have "sys_open (kern E) (namebuf E) 0 0 (lst (set_rmem m s)) = (?t, ucast r)"
    using assms(2) k(1) by (simp add: search_ok_def sys_open_def syscall_def set_rmem_def)
  moreover have "ptr p \<noteq> NULL" using assms(3) cstr_bound by (fastforce simp: string_at_def wnat)
  ultimately show ?thesis using m k(2,3) by (intro that [of m n ?t "ucast r"]) (simp_all add: name_step_def set_rmem_def)
qed

section \<open>The directories before the file is found\<close>

lemma open_path_skip:
  assumes "open_by_name (kern E) mapped b P" and "search_ok E b a x (rmem s)"
    and "list_all2 (string_at (rmem s) b) ps ds" and "\<forall>d \<in> set ds. \<not> P (path_of d x)"
  shows "\<exists>t. open_path_loop E (ptr a) (map ptr ps @ rest) s = open_path_loop E (ptr a) rest (s\<lparr>lst := t\<rparr>) \<and>
            name_step mapped b (lst s) t"
  using assms(2-)
proof (induction ps arbitrary: ds s)
  case Nil
  then show ?case by (intro exI [of _ "lst s"]) simp
next
  case (Cons p ps)
  then obtain d ds' where ds: "ds = d # ds'" and p: "string_at (rmem s) b p d"
    and rest: "list_all2 (string_at (rmem s) b) ps ds'"
    by (auto simp: list_all2_Cons1)
  obtain m n t1 fd where d: "dsnprintf (namebuf E) 1024 (path_fmt E) [ptr p, ptr a] (rmem s) = oreturn (m, n)"
      "sys_open (kern E) (namebuf E) 0 0 (lst (set_rmem m s)) = (t1, fd)" "0 \<le> sint fd \<longleftrightarrow> P (path_of d x)"
      "ptr p \<noteq> NULL" and step: "name_step mapped b (lst s) t1"
    by (rule try_directory [OF assms(1) Cons.prems(1) p])
  then have now: "open_path_loop E (ptr a) (map ptr (p # ps) @ rest) s =
      open_path_loop E (ptr a) (map ptr ps @ rest) (s\<lparr>lst := t1\<rparr>)"
    using Cons.prems(3) ds by simp
  have u: "unchanged_outside {b ..< b + 1024} (rmem s) (smem t1)" using step by (simp add: name_step_def)
  have "list_all2 (string_at (rmem (s\<lparr>lst := t1\<rparr>)) b) ps ds'"
    using rest by (rule list_all2_mono) (use u string_at_unchanged in auto)
  moreover have "search_ok E b a x (rmem (s\<lparr>lst := t1\<rparr>))"
    using search_ok_unchanged [OF Cons.prems(1) u] by simp
  ultimately obtain t where "open_path_loop E (ptr a) (map ptr ps @ rest) (s\<lparr>lst := t1\<rparr>) =
      open_path_loop E (ptr a) rest (s\<lparr>lst := t\<rparr>)" and "name_step mapped b t1 t"
    using Cons.IH [of "s\<lparr>lst := t1\<rparr>" ds'] Cons.prems(3) ds by auto
  with now step show ?case by (auto intro: name_step_trans)
qed

lemma open_path_hit:
  assumes "open_by_name (kern E) mapped b P" and "search_ok E b a x (rmem s)" and "string_at (rmem s) b p d"
    and "P (path_of d x)"
  shows "\<exists>t fd. open_path_loop E (ptr a) (ptr p # rest) s =
              obind (strdup (kern E) (heap_var E) (namebuf E) t) (\<lambda>(t, r). oreturn (s\<lparr>lst := t\<rparr>, fd, r)) \<and>
            0 \<le> sint fd \<and> cstr (smem t) b (path_of d x) \<and> name_step mapped b (lst s) t \<and>
            (\<exists>t0. sys_open (kern E) (namebuf E) 0 0 t0 = (t, fd) \<and> cstr (smem t0) b (path_of d x))"
  by (rule try_directory [OF assms(1-3)]) (use assms(4) in \<open>auto 4 3\<close>)

text \<open>The whole search, in terms of the first directory that has the file.\<close>

lemma open_path_found:
  assumes "open_by_name (kern E) mapped b P" and "search_ok E b a x (rmem s)"
    and "rpath s = map ptr ps @ NULL # rest" and "list_all2 (string_at (rmem s) b) ps ds"
    and "find (\<lambda>d. P (path_of d x)) ds = Some d"
  shows "\<exists>t fd. open_path E (ptr a) s =
           obind (strdup (kern E) (heap_var E) (namebuf E) t) (\<lambda>(t, r). oreturn (s\<lparr>lst := t\<rparr>, fd, r)) \<and>
         0 \<le> sint fd \<and> cstr (smem t) b (path_of d x) \<and> name_step mapped b (lst s) t \<and>
         (\<exists>t0. sys_open (kern E) (namebuf E) 0 0 t0 = (t, fd) \<and> cstr (smem t0) b (path_of d x))"
proof -
  obtain ds1 ds2 where ds: "ds = ds1 @ d # ds2" and no: "\<forall>d \<in> set ds1. \<not> P (path_of d x)" and yes: "P (path_of d x)"
    using find_split [OF assms(5)] by blast
  obtain ps1 p ps2 where ps: "ps = ps1 @ p # ps2" and l1: "list_all2 (string_at (rmem s) b) ps1 ds1"
    and p: "string_at (rmem s) b p d"
    using assms(4) unfolding ds by (auto simp: list_all2_append2 list_all2_Cons2)
  obtain t where run: "open_path E (ptr a) s = open_path_loop E (ptr a) (ptr p # map ptr ps2 @ NULL # rest) (s\<lparr>lst := t\<rparr>)"
    and step: "name_step mapped b (lst s) t"
    using open_path_skip [OF assms(1,2) l1 no, of "ptr p # map ptr ps2 @ NULL # rest"] by (auto simp: open_path_def assms(3) ps)
  then have u: "unchanged_outside {b ..< b + 1024} (rmem s) (smem t)" by (simp add: name_step_def)
  have "search_ok E b a x (rmem (s\<lparr>lst := t\<rparr>))" "string_at (rmem (s\<lparr>lst := t\<rparr>)) b p d"
    using search_ok_unchanged [OF assms(2) u] string_at_unchanged [OF p u] by simp_all
  from open_path_hit [OF assms(1) this yes, of "map ptr ps2 @ NULL # rest"] obtain t' fd where
    "open_path_loop E (ptr a) (ptr p # map ptr ps2 @ NULL # rest) (s\<lparr>lst := t\<rparr>) =
       obind (strdup (kern E) (heap_var E) (namebuf E) t') (\<lambda>(t, r). oreturn (s\<lparr>lst := t\<rparr>, fd, r))"
    "0 \<le> sint fd" "cstr (smem t') b (path_of d x)" "name_step mapped b t t'"
    "\<exists>t0. sys_open (kern E) (namebuf E) 0 0 t0 = (t', fd) \<and> cstr (smem t0) b (path_of d x)"
    by auto
  then show ?thesis unfolding run using name_step_trans [OF step] by blast
qed

section \<open>The namespace search\<close>

lemma ns_find_list:
  assumes "ns_list mp l ls" and "\<forall>l \<in> set ls. l_name (mp l) \<noteq> NULL \<and> cstr m (unat (l_name (mp l))) (nm l)"
    and "cstr m (unat r) y"
  shows "ns_find m mp r l = oreturn (find (\<lambda>l. nm l = y) ls)"
  using assms(1,2)
proof (induction ls arbitrary: l)
  case Nil
  then show ?case by (subst ns_find.simps) simp
next
  case (Cons k ls)
  have "strcmp m (l_name (mp k)) r = Some (cmp_bytes (nm k) y)"
    using strcmp_cstr [of m "unat (l_name (mp k))" "nm k" "unat r" y] Cons.prems(2) assms(3) by simp
  moreover have same: "cmp_bytes (nm k) y = 0 \<longleftrightarrow> nm k = y"
    using Cons.prems(2) assms(3) by (intro cmp_bytes_0) (auto dest: cstr_nonzero)
  ultimately show ?case using Cons by (subst ns_find.simps) auto
qed

section \<open>Properties\<close>

text \<open>
  C33. \<open>open_path\<close> tries the directories of \<open>GL(rpath)\<close> in order. In the first one where the kernel opens
  the file it stops, with a nonnegative descriptor and the path (cut to 1023 bytes) in its buffer,
  which it then copies; no byte outside the buffer has changed by then. When there is none, it reports
  failure, and \<open>map_object\<close> ends the process with exit code 1.
\<close>

theorem open_path_first_directory:
  assumes "open_by_name (kern E) mapped b P" and "search_ok E b a x (rmem s)"
    and "rpath s = map ptr ps @ NULL # rest" and "list_all2 (string_at (rmem s) b) ps ds"
  shows "case find (\<lambda>d. P (path_of d x)) ds of
           Some d \<Rightarrow> \<exists>t fd. open_path E (ptr a) s =
                obind (strdup (kern E) (heap_var E) (namebuf E) t) (\<lambda>(t, r). oreturn (s\<lparr>lst := t\<rparr>, fd, r)) \<and>
              0 \<le> sint fd \<and> cstr (smem t) b (path_of d x) \<and> unchanged_outside {b ..< b + 1024} (rmem s) (smem t)
         | None \<Rightarrow> (\<exists>t. open_path E (ptr a) s = oreturn (s\<lparr>lst := t\<rparr>, - 1, NULL)) \<and> map_object E (ptr a) s = ostop (Exited 1)"
proof (cases "find (\<lambda>d. P (path_of d x)) ds")
  case None
  then have "\<forall>d \<in> set ds. \<not> P (path_of d x)" by (simp add: find_None_iff)
  from open_path_skip [OF assms(1,2,4) this, of "NULL # rest"] None show ?thesis
    by (auto simp: open_path_def assms(3) map_object_def)
next
  case (Some d)
  from open_path_found [OF assms Some] Some show ?thesis by (auto simp: name_step_def)
qed

text \<open>What the allocator keeps when only the buffer changes.\<close>

lemma malloc_inv_name_step:
  assumes "malloc_inv K mapped ps h F L t" and "name_step mapped b t t'"
    and "{b ..< b + 1024} \<inter> (F \<union> {h ..< h + 8} \<union> live_bytes L) = {}"
  shows "malloc_inv K mapped ps h F L t'"
proof -
  note I = malloc_invD [OF assms(1)]
  have u: "unchanged_outside {b ..< b + 1024} (smem t) (smem t')" using assms(2) by (simp add: name_step_def)
  have "heap_owns h (smem t') F" using assms(3) by (intro hs.owns_frame [OF I(3) u]) blast
  moreover have "live_ok L (smem t')" using assms(3) by (intro live_ok_frame [OF I(4) u]) blast
  ultimately show ?thesis using I assms(2) by (simp add: malloc_inv_def name_step_def)
qed

text \<open>The name of the file is copied into a fresh block: \<open>open_path\<close> with the allocator behind it.\<close>

lemma open_path_copies:
  assumes "open_by_name (kern E) mapped b P" and "search_ok E b a x (rmem s)"
    and "rpath s = map ptr ps @ NULL # rest" and "list_all2 (string_at (rmem s) b) ps ds"
    and d: "find (\<lambda>d. P (path_of d x)) ds = Some d" and y: "y = path_of d x"
    and inv: "malloc_inv (kern E) mapped pg h F L (lst s)" "heap_var E = ptr h" "pg < 2 ^ 63" "fits F (length y + 8)"
    and buf: "{b ..< b + 1024} \<inter> (spare mapped h F (lst s) \<union> live_bytes L) = {}"
    and len: "length y mod 8 \<noteq> 0 \<or> length y < 16"
  shows "\<exists>t fd r. open_path E (ptr a) s = oreturn (s\<lparr>lst := t\<rparr>, fd, r) \<and> 0 \<le> sint fd \<and> cstr (smem t) (unat r) y \<and>
           unchanged_outside ({b ..< b + 1024} \<union> spare mapped h F (lst s)) (rmem s) (smem t)"
proof -
  obtain t fd where run: "open_path E (ptr a) s =
        obind (strdup (kern E) (heap_var E) (namebuf E) t) (\<lambda>(t, r). oreturn (s\<lparr>lst := t\<rparr>, fd, r))" "0 \<le> sint fd"
    and str: "cstr (smem t) b y" and step: "name_step mapped b (lst s) t"
    using open_path_found [OF assms(1-4) d] y by blast
  have inv': "malloc_inv (kern E) mapped pg h F L t"
    using buf by (intro malloc_inv_name_step [OF inv(1) step]) blast
  have ly: "length y \<le> 1023" "y \<noteq> []" using y by (simp_all add: path_of_def)
  then have "{b .. b + length y} \<subseteq> {b ..< b + 1024}" by auto
  moreover have "mapped (world t) = mapped (world (lst s))" using step by (simp add: name_step_def)
  ultimately have src: "{b .. b + length y} \<inter> spare mapped h F t = {}" using buf by auto
  have bnd: "length y + pg + 32 < 2 ^ 64" using ly(1) inv(3) by simp
  obtain r where r: "strdup (kern E) (ptr h) (ptr b) t = Some r"
      "r = Inl (Exited 1) \<and> \<not> fits F (length y + 8) \<or>
        (\<exists>s' b' k F'. r = Inr (s', ptr (b' + 8)) \<and> L b' = None \<and> length y + 8 < k \<and>
           malloc_inv (kern E) mapped pg h F' (L(b' \<mapsto> k)) s' \<and> cstr (smem s') (b' + 8) y \<and> cstr (smem s') b y \<and>
           unchanged_outside (spare mapped h F t) (smem t) (smem s'))"
    using strdup_correct [OF inv' str ly(2) src len bnd] by blast
  with inv(4) obtain t' b' where t': "strdup (kern E) (ptr h) (ptr b) t = oreturn (t', ptr (b' + 8))"
      "cstr (smem t') (b' + 8) y" "unchanged_outside (spare mapped h F t) (smem t) (smem t')"
    by auto
  have "unat (ptr (b' + 8)) = b' + 8" using cstr_bound [OF t'(2)] by (simp add: unat_ptr)
  moreover have "unchanged_outside ({b ..< b + 1024} \<union> spare mapped h F (lst s)) (rmem s) (smem t')"
    using step t'(3) by (auto simp: name_step_def unchanged_outside_def)
  moreover have "namebuf E = ptr b" using assms(2) by (simp add: search_ok_def)
  ultimately show ?thesis using run t'(1,2) inv(2) by auto
qed

text \<open>
  C34. An object is mapped once. The path of the file that \<open>open_path\<close> finds is copied into a block of the
  heap and compared with the names of the objects of the namespace, in their order: the first object
  with that name is returned, with the namespace, the link maps and the search paths as they were;
  only when there is none, the file is mapped, under the name in the fresh block. (The copy is right
  when the length of the path is not a multiple of 8 or is below 16.)
\<close>

theorem map_object_loads_once:
  assumes "open_by_name (kern E) mapped b P" and "search_ok E b a x (rmem s)"
    and "rpath s = map ptr ps @ NULL # rest" and "list_all2 (string_at (rmem s) b) ps ds"
    and "find (\<lambda>d. P (path_of d x)) ds = Some d" and "y = path_of d x"
    and "malloc_inv (kern E) mapped pg h F L (lst s)" and "heap_var E = ptr h" and "pg < 2 ^ 63" and "fits F (length y + 8)"
    and "{b ..< b + 1024} \<inter> (spare mapped h F (lst s) \<union> live_bytes L) = {}"
    and "length y mod 8 \<noteq> 0 \<or> length y < 16"
    and ns: "ns_list (maps s) (namespace s) ls"
    and names: "\<forall>l \<in> set ls. l_name (maps s l) \<noteq> NULL \<and> cstr (rmem s) (unat (l_name (maps s l))) (nm l) \<and>
      {unat (l_name (maps s l)) .. unat (l_name (maps s l)) + length (nm l)} \<inter> ({b ..< b + 1024} \<union> spare mapped h F (lst s)) = {}"
  shows "case find (\<lambda>l. nm l = y) ls of
           Some l \<Rightarrow> \<exists>t. map_object E (ptr a) s = oreturn (s\<lparr>lst := t\<rparr>, l)
         | None \<Rightarrow> \<exists>t fd r. map_object E (ptr a) s =
                obind (map_object_fd E fd r (s\<lparr>lst := t\<rparr>)) (\<lambda>(s', l). oreturn (close_fd E fd s', l)) \<and>
              cstr (smem t) (unat r) y"
proof -
  obtain t fd r where t: "open_path E (ptr a) s = oreturn (s\<lparr>lst := t\<rparr>, fd, r)" "0 \<le> sint fd" "cstr (smem t) (unat r) y"
      "unchanged_outside ({b ..< b + 1024} \<union> spare mapped h F (lst s)) (rmem s) (smem t)"
    using open_path_copies [OF assms(1-12)] by blast
  have "\<forall>l \<in> set ls. l_name (maps s l) \<noteq> NULL \<and> cstr (smem t) (unat (l_name (maps s l))) (nm l)"
    using names cstr_unchanged [OF t(4)] by blast
  from ns_find_list [OF ns this t(3)]
  have "ns_find (smem t) (maps s) r (namespace s) = oreturn (find (\<lambda>l. nm l = y) ls)" .
  with t(1,2) have run: "map_object E (ptr a) s =
      (case find (\<lambda>l. nm l = y) ls of
         Some l \<Rightarrow> oreturn (close_fd E fd (s\<lparr>lst := t\<rparr>), l)
       | None \<Rightarrow> obind (map_object_fd E fd r (s\<lparr>lst := t\<rparr>)) (\<lambda>(s', l). oreturn (close_fd E fd s', l)))"
    by (simp add: map_object_def)
  show ?thesis
  proof (cases "find (\<lambda>l. nm l = y) ls")
    case None
    with run t(3) show ?thesis by auto
  next
    case (Some l)
    have "close_fd E fd (s\<lparr>lst := t\<rparr>) = s\<lparr>lst := fst (sys_close (kern E) fd t)\<rparr>" by (simp add: close_fd_def)
    with run Some show ?thesis by auto
  qed
qed

section \<open>Examples\<close>

text \<open>A kernel whose files are those whose path starts with the byte 98; the directories \<open>a\<close> and \<open>b\<close>.\<close>

definition demo_open :: "unit kernel" where
  "demo_open sysno args = (\<lambda>(w, m). (if m 16384 = 98 then 3 else - 2, w, m))"

definition demo_strings :: mem where
  "demo_strings = (\<lambda>_. 0)(8192 := 37, 8193 := 115, 8194 := 47, 8195 := 37, 8196 := 115, 8208 := 97, 8224 := 98, 8240 := 120)"

definition demo_search :: "unit rtld" where
  "demo_search = demo_rtld\<lparr>lst := \<lparr>world = (), smem = demo_strings, errno = 0, pagesize = 4096\<rparr>, rpath := [8208, 8224, 0, 0]\<rparr>"

lemma demo_open_files: "open_by_name demo_open (\<lambda>_. {}) 16384 (\<lambda>name. name \<noteq> [] \<and> hd name = 98)"
proof -
  have "m 16384 = 98 \<longleftrightarrow> name \<noteq> [] \<and> hd name = 98" if "cstr m 16384 name" for m :: mem and name
    using that by (cases name) auto
  then show ?thesis by (simp add: open_by_name_def demo_open_def)
qed

lemma demo_strings_at:
  "string_at demo_strings 16384 8192 path_format" "string_at demo_strings 16384 8208 [97]"
  "string_at demo_strings 16384 8224 [98]" "string_at demo_strings 16384 8240 [120]"
  by (auto simp: string_at_def demo_strings_def path_format_def)

theorem open_path_first_directory_witness:
  "\<exists>t fd. open_path (demo_env\<lparr>kern := demo_open\<rparr>) (ptr 8240) demo_search =
      obind (strdup demo_open 0 16384 t) (\<lambda>(t, r). oreturn (demo_search\<lparr>lst := t\<rparr>, fd, r)) \<and>
    0 \<le> sint fd \<and> cstr (smem t) 16384 [98, 47, 120]"
proof -
  have "search_ok (demo_env\<lparr>kern := demo_open\<rparr>) 16384 8240 [120] (rmem demo_search)"
    using demo_strings_at by (simp add: search_ok_def buf_ok_def demo_env_def demo_search_def)
  moreover have "rpath demo_search = map ptr [8208, 8224] @ NULL # [NULL]" by (simp add: demo_search_def)
  moreover have "list_all2 (string_at (rmem demo_search) 16384) [8208, 8224] [[97], [98]]"
    using demo_strings_at by (simp add: demo_search_def)
  ultimately show ?thesis
    using open_path_first_directory [of "demo_env\<lparr>kern := demo_open\<rparr>" "\<lambda>_. {}" 16384 "\<lambda>name. name \<noteq> [] \<and> hd name = 98" 8240 "[120]"
        demo_search "[8208, 8224]" "[NULL]" "[[97], [98]]"] demo_open_files
    by (auto simp: path_of_def demo_env_def)
qed

text \<open>The allocator of the earlier examples, with the same strings beside its heap and a loaded object \<open>b/x\<close>.\<close>

definition demo_name_bytes :: "byte list" where
  "demo_name_bytes = [37, 115, 47, 37, 115, 0, 0, 0, 0, 0, 98, 0, 0, 0, 0, 0, 0, 0, 0, 0, 120, 0, 0, 0, 0, 0, 0, 0, 0, 0, 98, 47, 120, 0]"

definition demo_loaded :: "area list rtld" where
  "demo_loaded = \<lparr>lst = demo_state\<lparr>smem := write_bytes demo_heap2 (ptr 5000) demo_name_bytes\<rparr>,
     maps = (\<lambda>_. init_link_map)(16 := init_link_map\<lparr>l_name := 5030\<rparr>), namespace = 16, rpath = [5010, 0],
     dl_pagesize = 4096, dl_stack_flags = 0\<rparr>"

definition demo_loaded_env :: "area list env" where
  "demo_loaded_env = \<lparr>kern = demo_kernel, heap_var = ptr 4096, initial_fa = 0, dt_num = 38, sizeof_link_map = 808,
     runtime_resolve = 4096, start_sym = 0, begin_sym = 0, path_fmt = 5000, lit_lib = 0, lit_usr_lib = 0, lit_dot = 0,
     lit_RTLD = 0, lit_main = 0, namebuf = 6000, filebuf = 20480, phdrbuf = 24576, runhead = 28672, runnode = (\<lambda>k. 0)\<rparr>"

lemma demo_loaded_inv: "malloc_inv demo_kernel demo_mapped 4096 4096 demo_free Map.empty (lst demo_loaded)"
proof -
  have "unchanged_outside {5000 ..< 5034} demo_heap2 (write_bytes demo_heap2 (ptr 5000) demo_name_bytes)"
    using unchanged_write_bytes [of 5000 demo_name_bytes demo_heap2] by (simp add: demo_name_bytes_def)
  moreover have "heap_owns 4096 demo_heap2 demo_free" using malloc_invD(3) [OF demo_state_inv] by (simp add: demo_state_def)
  ultimately have "heap_owns 4096 (rmem demo_loaded) demo_free"
    by (auto simp: demo_loaded_def intro: hs.owns_frame)
  then show ?thesis
    using demo_state_inv by (auto simp: malloc_inv_def demo_loaded_def live_ok_def)
qed

lemma demo_loaded_strings:
  "string_at (rmem demo_loaded) 6000 5000 path_format" "string_at (rmem demo_loaded) 6000 5010 [98]"
  "string_at (rmem demo_loaded) 6000 5020 [120]" "string_at (rmem demo_loaded) 6000 5030 [98, 47, 120]"
  by (auto simp: string_at_def demo_loaded_def demo_name_bytes_def path_format_def)

theorem map_object_loads_once_witness:
  "\<exists>t. map_object demo_loaded_env (ptr 5020) demo_loaded = oreturn (demo_loaded\<lparr>lst := t\<rparr>, 16)"
proof -
  have k: "open_by_name (kern demo_loaded_env) demo_mapped 6000 (\<lambda>_. True)"
    by (simp add: open_by_name_def demo_loaded_env_def demo_kernel_def SYS_open_def SYS_mmap_def)
  have ok: "search_ok demo_loaded_env 6000 5020 [120] (rmem demo_loaded)"
    using demo_loaded_strings by (simp add: search_ok_def buf_ok_def demo_loaded_env_def)
  have p: "rpath demo_loaded = map ptr [5010] @ NULL # []" by (simp add: demo_loaded_def)
  have l: "list_all2 (string_at (rmem demo_loaded) 6000) [5010] [[98]]" using demo_loaded_strings by simp
  have inv: "malloc_inv (kern demo_loaded_env) demo_mapped 4096 4096 demo_free Map.empty (lst demo_loaded)"
    using demo_loaded_inv by (simp add: demo_loaded_env_def)
  have f: "fits demo_free (length [98, 47, 120 :: byte] + 8)" by (rule demo_fits) (simp add: request_def adjust_def)
  have b: "{6000 ..< 6000 + 1024} \<inter> (spare demo_mapped 4096 demo_free (lst demo_loaded) \<union> live_bytes Map.empty) = {}"
    by (auto simp: demo_loaded_def demo_mapped_def live_bytes_def)
  have n: "\<forall>l \<in> set [16]. l_name (maps demo_loaded l) \<noteq> NULL \<and>
      cstr (rmem demo_loaded) (unat (l_name (maps demo_loaded l))) [98, 47, 120] \<and>
      {unat (l_name (maps demo_loaded l)) .. unat (l_name (maps demo_loaded l)) + length [98, 47, 120 :: byte]} \<inter>
        ({6000 ..< 6000 + 1024} \<union> spare demo_mapped 4096 demo_free (lst demo_loaded)) = {}"
    using demo_loaded_strings(4) by (auto simp: demo_loaded_def demo_mapped_def demo_state_def string_at_def)
  have ns: "ns_list (maps demo_loaded) (namespace demo_loaded) [16]"
    by (simp add: demo_loaded_def init_link_map_def)
  show ?thesis
    using map_object_loads_once [OF k ok p l _ _ inv _ _ f b _ ns, of "[98]" "\<lambda>_. [98, 47, 120]"] n
    by (simp add: path_of_def demo_loaded_env_def)
qed

end
