(* ===== verification/Load_Dyn.thy ===== *)
theory Load_Dyn
  imports Load_Path
begin

text \<open>
  The dynamic section: what \<open>parse_dynamic\<close> records of its entries, and how it extends the search paths.
\<close>

section \<open>The entries\<close>

text \<open>The \<open>n\<close> entries at \<open>dyn\<close>; \<open>dyn_section m dyn n\<close>: they are followed by \<open>DT_NULL\<close> and none of them is one.\<close>

primrec dyns :: "addr \<Rightarrow> nat \<Rightarrow> addr list" where
  "dyns dyn 0 = []"
| "dyns dyn (Suc n) = dyn # dyns (dyn + sizeof_Dyn) n"

primrec dyn_section :: "mem \<Rightarrow> addr \<Rightarrow> nat \<Rightarrow> bool" where
  "dyn_section m dyn 0 \<longleftrightarrow> d_tag m dyn = 0"
| "dyn_section m dyn (Suc n) \<longleftrightarrow> d_tag m dyn \<noteq> 0 \<and> dyn_section m (dyn + sizeof_Dyn) n"

definition dyn_tag :: "mem \<Rightarrow> addr \<Rightarrow> int" where
  "dyn_tag m d = sint (d_tag m d)"

text \<open>An entry at which the scan stops: a filter object, or a negative tag, which indexes outside \<open>l_info\<close>.\<close>

definition bad_entry :: "mem \<Rightarrow> addr \<Rightarrow> stop option" where
  "bad_entry m d =
     (if dyn_tag m d < 0 then Some Out_of_bounds
      else if dyn_tag m d = int DT_AUXILIARY \<or> dyn_tag m d = int DT_FILTER then Some (Exited 1) else None)"

definition last_entry :: "mem \<Rightarrow> nat \<Rightarrow> addr list \<Rightarrow> addr option" where
  "last_entry m t ds = find (\<lambda>d. dyn_tag m d = int t) (rev ds)"

lemma last_entry_Cons:
  "last_entry m t (d # ds) = (case last_entry m t ds of Some e \<Rightarrow> Some e | None \<Rightarrow> if dyn_tag m d = int t then Some d else None)"
proof -
  have "find P (xs @ ys) = (case find P xs of Some x \<Rightarrow> Some x | None \<Rightarrow> find P ys)" for P and xs ys :: "addr list"
    by (induction xs) auto
  then show ?thesis by (simp add: last_entry_def split: option.split)
qed

section \<open>Search paths\<close>

lemma rpath_find_list:
  assumes "\<forall>p \<in> set ps. p \<noteq> NULL \<and> cstr m (unat p) (nm p)" and "cstr m (unat a) y"
  shows "\<exists>i. rpath_find m a (ps @ NULL # rest) = oreturn i \<and>
           (if y \<in> nm ` set ps then i < length ps else i = length ps)"
  using assms(1)
proof (induction ps)
  case (Cons p ps)
  have "strcmp m p a = Some (cmp_bytes (nm p) y)"
    using strcmp_cstr [of m "unat p" "nm p" "unat a" y] Cons.prems assms(2) by simp
  moreover have "cmp_bytes (nm p) y = 0 \<longleftrightarrow> nm p = y"
    using Cons.prems assms(2) by (intro cmp_bytes_0) (auto dest: cstr_nonzero)
  ultimately show ?case using Cons by auto
qed simp

section \<open>The scan\<close>

lemma dyn_scan_list:
  assumes "dyn_section m dyn n"
  shows "dyn_scan E m dyn info =
           (case find (\<lambda>d. bad_entry m d \<noteq> None) (dyns dyn n) of
              Some d \<Rightarrow> ostop (the (bad_entry m d))
            | None \<Rightarrow> oreturn (\<lambda>t. if t < dt_num E then case last_entry m t (dyns dyn n) of Some d \<Rightarrow> d | None \<Rightarrow> info t else info t))"
  using assms
proof (induction n arbitrary: dyn info)
  case 0
  then show ?case by (subst dyn_scan.simps) (auto simp: last_entry_def fun_eq_iff)
next
  case (Suc n)
  let ?t = "sint (d_tag m dyn)" and ?next = "dyn + sizeof_Dyn"
  have rest: "dyn_section m ?next n" and nz: "d_tag m dyn \<noteq> 0" using Suc.prems by simp_all
  show ?case
  proof (cases "bad_entry m dyn")
    case (Some c)
    then have "dyn_scan E m dyn info = ostop c"
      using nz by (subst dyn_scan.simps) (auto simp: bad_entry_def dyn_tag_def Let_def split: if_splits)
    with Some show ?thesis by simp
  next
    case None
    define info' where "info' = (if ?t < int (dt_num E) then info(nat ?t := dyn) else info)"
    have t: "0 \<le> ?t" "?t \<noteq> int DT_AUXILIARY" "?t \<noteq> int DT_FILTER"
      using None by (auto simp: bad_entry_def dyn_tag_def split: if_splits)
    then have step: "dyn_scan E m dyn info = dyn_scan E m ?next info'"
      using nz by (subst dyn_scan.simps) (auto simp: Let_def info'_def)
    have "(if t < dt_num E then case last_entry m t (dyns ?next n) of Some d \<Rightarrow> d | None \<Rightarrow> info' t else info' t) =
        (if t < dt_num E then case last_entry m t (dyns dyn (Suc n)) of Some d \<Rightarrow> d | None \<Rightarrow> info t else info t)" for t
      using \<open>0 \<le> ?t\<close> by (auto simp: last_entry_Cons info'_def dyn_tag_def split: option.split)
    then show ?thesis
      unfolding step Suc.IH [OF rest] using None by (simp split: option.split)
  qed
qed

section \<open>Properties\<close>

text \<open>
  C37. The first loop of \<open>parse_dynamic\<close> on a dynamic section that \<open>DT_NULL\<close> ends: it returns, and for every
  tag below \<open>DT_NUM\<close> the slot of \<open>l_info\<close> is the last entry with that tag, and what it was before when there
  is none. At the first entry that is \<open>DT_AUXILIARY\<close> or \<open>DT_FILTER\<close> the process ends with code 1; at a
  negative tag, which passes the test \<open>d_tag < DT_NUM\<close>, the code writes outside \<open>l_info\<close>.
\<close>

theorem dyn_scan_records_last:
  assumes "dyn_section m dyn n"
  shows "dyn_scan E m dyn info =
           (case find (\<lambda>d. bad_entry m d \<noteq> None) (dyns dyn n) of
              Some d \<Rightarrow> ostop (the (bad_entry m d))
            | None \<Rightarrow> oreturn (\<lambda>t. if t < dt_num E then case last_entry m t (dyns dyn n) of Some d \<Rightarrow> d | None \<Rightarrow> info t else info t))"
  by (rule dyn_scan_list [OF assms])

text \<open>
  C38. The search paths are a set in the order of addition: a path of \<open>DT_RPATH\<close> that is in \<open>GL(rpath)\<close>
  already changes nothing; another is copied and put behind the last one, with the closing NULL after
  it, when there is a cell for both. When the array is full (\<open>MAX_PATH\<close> paths and the NULL), the code
  writes the NULL outside the array.
\<close>

theorem rpath_add_once:
  assumes "rpath s = ps @ NULL # rest" and "\<forall>p \<in> set ps. p \<noteq> NULL \<and> cstr (rmem s) (unat p) (nm p)"
    and "cstr (rmem s) (unat a) y"
  shows "rpath_add E a s =
           (if y \<in> nm ` set ps then oreturn s
            else obind (strdup (kern E) (heap_var E) a (lst s)) (\<lambda>(t, p).
              case rest of
                [] \<Rightarrow> ostop Out_of_bounds
              | _ # rest' \<Rightarrow> oreturn (s\<lparr>lst := t, rpath := ps @ p # NULL # rest'\<rparr>)))"
proof -
  obtain i where i: "rpath_find (rmem s) a (ps @ NULL # rest) = oreturn i"
      "if y \<in> nm ` set ps then i < length ps else i = length ps"
    using rpath_find_list [OF assms(2,3)] by blast
  show ?thesis
  proof (cases "y \<in> nm ` set ps")
    case True
    then have "(ps @ NULL # rest) ! i \<noteq> NULL" using i(2) assms(2) by (simp add: nth_append)
    then show ?thesis using True i(1) by (simp add: rpath_add_def assms(1))
  next
    case False
    then have "i = length ps" using i(2) by simp
    then show ?thesis
      using False i(1) by (cases rest) (auto simp: rpath_add_def assms(1) nth_append list_update_append split: prod.split intro!: arg_cong [where f = "obind _"])
  qed
qed

section \<open>Examples\<close>

definition demo_dynamic :: mem where
  "demo_dynamic = (\<lambda>_. 0)(256 := 5, 264 := 9, 272 := 1, 288 := 5)"

theorem dyn_scan_records_last_witness:
  "\<exists>info. dyn_scan demo_env demo_dynamic 256 (\<lambda>_. 7) = oreturn info \<and> info DT_STRTAB = 288 \<and> info DT_NEEDED = 272 \<and> info DT_HASH = 7"
proof -
  have t: "d_tag demo_dynamic 256 = 5" "d_tag demo_dynamic 272 = 1" "d_tag demo_dynamic 288 = 5" "d_tag demo_dynamic 304 = 0"
    by (simp_all add: d_tag_def demo_dynamic_def word_loads)
  then have sec: "dyn_section demo_dynamic 256 (Suc (Suc (Suc 0)))" and ds: "dyns 256 (Suc (Suc (Suc 0))) = [256, 272, 288]"
    by (simp_all add: sizeof_Dyn_def)
  have tags: "dyn_tag demo_dynamic 256 = 5" "dyn_tag demo_dynamic 272 = 1" "dyn_tag demo_dynamic 288 = 5"
    by (simp_all add: dyn_tag_def t)
  then have ok: "find (\<lambda>d. bad_entry demo_dynamic d \<noteq> None) [256, 272, 288] = None"
    by (simp add: bad_entry_def DT_defs)
  have last: "last_entry demo_dynamic DT_STRTAB [256, 272, 288] = Some 288"
    "last_entry demo_dynamic DT_NEEDED [256, 272, 288] = Some 272" "last_entry demo_dynamic DT_HASH [256, 272, 288] = None"
    by (simp_all add: last_entry_def tags DT_defs)
  have n: "dt_num demo_env = 38" by (simp add: demo_env_def)
  show ?thesis
    unfolding dyn_scan_records_last [OF sec] ds ok by (simp add: n last) (simp add: DT_defs)
qed

theorem rpath_add_once_witness:
  "rpath_add (demo_env\<lparr>kern := demo_open\<rparr>) 8224 demo_search = oreturn demo_search \<and>
   rpath_add (demo_env\<lparr>kern := demo_open\<rparr>) 8240 demo_search =
     obind (strdup demo_open 0 8240 (lst demo_search)) (\<lambda>(t, p). oreturn (demo_search\<lparr>lst := t, rpath := [8208, 8224, p, 0]\<rparr>))"
proof -
  have r: "rpath demo_search = [8208, 8224] @ NULL # [NULL]" by (simp add: demo_search_def)
  have p: "\<forall>p \<in> set [8208, 8224 :: addr]. p \<noteq> NULL \<and> cstr (rmem demo_search) (unat p) (if p = 8208 then [97] else [98])"
    and a: "cstr (rmem demo_search) (unat (8224 :: addr)) [98]" "cstr (rmem demo_search) (unat (8240 :: addr)) [120]"
    using demo_strings_at by (simp_all add: demo_search_def string_at_def)
  show ?thesis
    using rpath_add_once [OF r p a(1), of "demo_env\<lparr>kern := demo_open\<rparr>"] rpath_add_once [OF r p a(2), of "demo_env\<lparr>kern := demo_open\<rparr>"]
    by (simp add: demo_env_def)
qed

end
