(* ===== verification/Load_Props.thy ===== *)
theory Load_Props
  imports Load
begin

text \<open>
  Properties of \<open>rtld/load.c\<close>: the namespace stays a doubly linked list, the walks over it end, the
  search along the paths, the load commands and the zero-filled part of a segment, the dynamic section.
\<close>

section \<open>The namespace\<close>

definition namespace_ok :: "'w rtld \<Rightarrow> addr list \<Rightarrow> bool" where
  "namespace_ok s ls \<longleftrightarrow> ns_list (maps s) (namespace s) ls \<and> prev_ok (maps s) NULL ls"

lemma ns_list_extend:
  assumes "ns_list mp a xs" and "xs \<noteq> []" and "x \<noteq> NULL" and "l_next (mp' x) = NULL"
    and "\<And>y. y \<in> set xs \<Longrightarrow> l_next (mp' y) = (if y = last xs then x else l_next (mp y))"
  shows "ns_list mp' a (xs @ [x])"
  using assms(1,2,5) ns_list_distinct [OF assms(1)]
proof (induction xs arbitrary: a)
  case (Cons y ys)
  show ?case
  proof (cases "ys = []")
    case True
    with Cons.prems assms(3,4) show ?thesis by simp
  next
    case False
    then have "y \<noteq> last ys" using Cons.prems(4) by auto
    with False have "l_next (mp' y) = l_next (mp y)" using Cons.prems(3) [of y] by simp
    moreover have "ns_list mp' (l_next (mp y)) (ys @ [x])"
    proof (rule Cons.IH)
      show "l_next (mp' z) = (if z = last ys then x else l_next (mp z))" if "z \<in> set ys" for z
        using Cons.prems(3) [of z] that False by simp
    qed (use Cons.prems False in auto)
    ultimately show ?thesis using Cons.prems(1) by simp
  qed
qed simp

lemma append_walk_list:
  assumes "ns_list (maps s) cur ls" and "l \<noteq> NULL"
  shows "append_walk l prev cur s = Some (if l \<in> set ls then s else link_last l (last (prev # ls)) s)"
  using assms(1)
proof (induction ls arbitrary: prev cur)
  case Nil
  then show ?case by (subst append_walk.simps) simp
next
  case (Cons x xs)
  then show ?case
    by (subst append_walk.simps) (use Cons.IH [of "l_next (maps s x)" x] in auto)
qed

lemma link_last_maps:
  assumes "l \<noteq> p"
  shows "maps (link_last l p s) =
     (if p = NULL then (maps s)(l := (maps s l)\<lparr>l_prev := p, l_next := NULL\<rparr>)
      else (maps s)(l := (maps s l)\<lparr>l_prev := p, l_next := NULL\<rparr>, p := (maps s p)\<lparr>l_next := l\<rparr>))"
  using assms by (simp add: link_last_def upd_map_def Let_def)

lemma link_last_namespace: "namespace (link_last l p s) = (if p = NULL then l else namespace s)"
  by (simp add: link_last_def upd_map_def Let_def)

lemma link_last_ok:
  assumes "namespace_ok s ls" and "l \<notin> set ls" and "l \<noteq> NULL" and p: "p = last (NULL # ls)"
  shows "namespace_ok (link_last l p s) (ls @ [l])"
proof -
  have ns: "ns_list (maps s) (namespace s) ls" and pv: "prev_ok (maps s) NULL ls"
    using assms(1) by (simp_all add: namespace_ok_def)
  have lp: "l \<noteq> p" using assms(2,3) last_in_set [of ls] unfolding p by (cases "ls = []") auto
  note mp = link_last_maps [OF lp]
  have "ns_list (maps (link_last l p s)) (namespace (link_last l p s)) (ls @ [l])"
  proof (cases "ls = []")
    case True
    with assms(3) p show ?thesis by (simp add: link_last_def upd_map_def)
  next
    case False
    then have last: "p = last ls" and "p \<noteq> NULL"
      using p ns_list_nonnull [OF ns] last_in_set [of ls] by (simp, metis last.simps)
    have "ns_list (maps (link_last l p s)) (namespace s) (ls @ [l])"
      by (rule ns_list_extend [OF ns False assms(3)]) (use \<open>p \<noteq> NULL\<close> lp assms(2) in \<open>auto simp: mp simp flip: last\<close>)
    with \<open>p \<noteq> NULL\<close> show ?thesis by (simp add: link_last_namespace)
  qed
  moreover have "prev_ok (maps (link_last l p s)) NULL (ls @ [l])"
  proof -
    have "prev_ok (maps (link_last l p s)) NULL ls \<longleftrightarrow> prev_ok (maps s) NULL ls"
      by (rule prev_ok_cong) (use assms(2) in \<open>auto simp: mp\<close>)
    with pv lp show ?thesis unfolding prev_ok_snoc p [symmetric] by (simp add: mp)
  qed
  ultimately show ?thesis by (simp add: namespace_ok_def)
qed

text \<open>The walks of \<open>print_namespace\<close> on a namespace.\<close>

lemma ns_forward_list:
  "ns_list mp l ls \<Longrightarrow> ns_forward mp l p n = Some (last (p # ls), n + int (length ls))"
proof (induction ls arbitrary: l p n)
  case Nil
  then show ?case by (subst ns_forward.simps) simp
next
  case (Cons x xs)
  then show ?case by (subst ns_forward.simps) (use Cons.IH [of "l_next (mp x)" x "n + 1"] in auto)
qed

lemma ns_backward_list:
  "prev_ok mp NULL ls \<Longrightarrow> NULL \<notin> set ls \<Longrightarrow> ns_backward mp (last (NULL # ls)) n = Some (n - int (length ls))"
proof (induction ls arbitrary: n rule: rev_induct)
  case Nil
  then show ?case by (subst ns_backward.simps) simp
next
  case (snoc x xs)
  then show ?case
    unfolding prev_ok_snoc
    by (subst ns_backward.simps) (use snoc.IH [of "n - 1"] snoc.prems in \<open>simp add: prev_ok_snoc\<close>)
qed

lemma print_namespace_ok: "namespace_ok s ls \<Longrightarrow> print_namespace s = oreturn ()"
  using ns_forward_list [of "maps s" "namespace s" ls NULL 0] ns_backward_list [of "maps s" ls "int (length ls)"]
    ns_list_nonnull [of "maps s" "namespace s" ls]
  by (simp add: namespace_ok_def print_namespace_def)

lemma append_to_namespace_list:
  assumes "namespace_ok s ls" and "l \<noteq> NULL"
  shows "append_to_namespace l s = Some (if l \<in> set ls then s else link_last l (last (NULL # ls)) s)"
  using assms append_walk_list [of s "namespace s" ls l NULL] by (simp add: namespace_ok_def append_to_namespace_def)

text \<open>Appending a sequence of objects, as the loops of \<open>map_object_deps\<close> do; the first occurrences of a list.\<close>

primrec append_all :: "addr list \<Rightarrow> 'w rtld \<Rightarrow> 'w rtld option" where
  "append_all [] s = Some s"
| "append_all (l # ls) s = Option.bind (append_to_namespace l s) (append_all ls)"

definition firsts :: "'a list \<Rightarrow> 'a list" where
  "firsts xs = rev (remdups (rev xs))"

lemma firsts_snoc: "firsts (xs @ [x]) = (if x \<in> set (firsts xs) then firsts xs else firsts xs @ [x])"
  by (simp add: firsts_def)

lemma append_one:
  assumes "namespace_ok s ls" and "l \<noteq> NULL"
  obtains s' where "append_to_namespace l s = Some s'" and "namespace_ok s' (if l \<in> set ls then ls else ls @ [l])"
    and "lst s' = lst s" and "\<And>x. (maps s' x)\<lparr>l_prev := NULL, l_next := NULL\<rparr> = (maps s x)\<lparr>l_prev := NULL, l_next := NULL\<rparr>"
proof
  show "append_to_namespace l s = Some (if l \<in> set ls then s else link_last l (last (NULL # ls)) s)"
    by (rule append_to_namespace_list [OF assms])
qed (use assms link_last_ok [OF assms(1) _ _ refl] in \<open>auto simp: link_last_def upd_map_def Let_def\<close>)

lemma append_all_ok:
  assumes "namespace_ok s (firsts ys)" and "NULL \<notin> set xs"
  shows "\<exists>s'. append_all xs s = Some s' \<and> namespace_ok s' (firsts (ys @ xs))"
  using assms
proof (induction xs arbitrary: s ys)
  case (Cons x xs)
  from Cons.prems obtain s1 where "append_to_namespace x s = Some s1" and "namespace_ok s1 (firsts (ys @ [x]))"
    by (auto simp: firsts_snoc elim: append_one [of s "firsts ys" x])
  with Cons.IH [of s1 "ys @ [x]"] Cons.prems(2) show ?case by simp
qed simp

section \<open>Properties of the namespace\<close>

text \<open>
  C31. \<open>append_to_namespace\<close> keeps the namespace a doubly linked list: on a namespace of the objects \<open>ls\<close>
  it returns; an object that is there already changes nothing, another becomes the last one, linked both
  ways; a second call with the same object changes nothing, the walks forwards and back and the assertion of
  \<open>print_namespace\<close> end normally, and no other field of any object and no memory is touched.
\<close>

theorem append_to_namespace_keeps:
  assumes "namespace_ok s ls" and "l \<noteq> NULL"
  shows "\<exists>s'. append_to_namespace l s = Some s' \<and> namespace_ok s' (if l \<in> set ls then ls else ls @ [l]) \<and>
           append_to_namespace l s' = Some s' \<and> print_namespace s' = oreturn () \<and> lst s' = lst s \<and>
           (\<forall>x. (maps s' x)\<lparr>l_prev := NULL, l_next := NULL\<rparr> = (maps s x)\<lparr>l_prev := NULL, l_next := NULL\<rparr>)"
proof -
  obtain s' where s': "append_to_namespace l s = Some s'" "namespace_ok s' (if l \<in> set ls then ls else ls @ [l])"
    "lst s' = lst s" "\<And>x. (maps s' x)\<lparr>l_prev := NULL, l_next := NULL\<rparr> = (maps s x)\<lparr>l_prev := NULL, l_next := NULL\<rparr>"
    by (rule append_one [OF assms]) blast
  moreover have "append_to_namespace l s' = Some s'"
    using append_to_namespace_list [OF s'(2) assms(2)] by (auto split: if_splits)
  ultimately show ?thesis using print_namespace_ok by auto
qed

text \<open>
  Any sequence of objects can be appended to a namespace: every call returns, the namespace lists the
  objects in the order of their first appearance, and the walk forwards and back with the assertion in
  \<open>print_namespace\<close> ends normally.
\<close>

theorem namespace_walks_end:
  assumes "namespace_ok s ls" and "NULL \<notin> set xs"
  shows "\<exists>s'. append_all xs s = Some s' \<and> namespace_ok s' (firsts (ls @ xs)) \<and> print_namespace s' = oreturn ()"
proof -
  have "distinct ls" using assms(1) ns_list_distinct by (auto simp: namespace_ok_def)
  then have "firsts ls = ls" by (simp add: firsts_def distinct_remdups_id)
  with append_all_ok [of s ls xs] assms print_namespace_ok show ?thesis by fastforce
qed

section \<open>Examples\<close>

lemma demo_namespace: "namespace_ok (demo_rtld\<lparr>maps := demo_maps(32 := (demo_object 0)\<lparr>l_prev := 16\<rparr>)\<rparr>) [16, 32]"
  by (simp add: namespace_ok_def demo_fields) (simp add: demo_object_def init_link_map_def)

theorem append_to_namespace_keeps_witness:
  "\<exists>s'. append_to_namespace 48 (demo_rtld\<lparr>maps := demo_maps(32 := (demo_object 0)\<lparr>l_prev := 16\<rparr>)\<rparr>) = Some s' \<and>
     namespace_ok s' [16, 32, 48]"
  using append_to_namespace_keeps [OF demo_namespace, of 48] by auto

theorem namespace_walks_end_witness:
  "\<exists>s'. append_all [48, 16, 64, 48] (demo_rtld\<lparr>maps := demo_maps(32 := (demo_object 0)\<lparr>l_prev := 16\<rparr>)\<rparr>) = Some s' \<and>
     namespace_ok s' [16, 32, 48, 64] \<and> print_namespace s' = oreturn ()"
  using namespace_walks_end [OF demo_namespace, of "[48, 16, 64, 48]"] by (simp add: firsts_def)

end
