(* ===== verification/Load_Files.thy ===== *)
theory Load_Files
  imports Load_Map Load_Dyn Load_Props
begin

text \<open>
  Files and the kernel: what loading an object relies on when files are opened, read, mapped and closed,
  and what the allocator leaves alone on the kernel's side.
\<close>

section \<open>A kernel with files\<close>

text \<open>
  What is visible of the kernel's state: the mapped addresses, the open files with their contents and
  positions, and \<open>room\<close>, the number of bytes that can still be mapped. Beyond the end of a file its
  last page reads as zero. \<open>calm V c w w'\<close>: at most \<open>c\<close> bytes were mapped, and no file was touched.
\<close>

record 'w view =
  vmapped :: "'w \<Rightarrow> nat set"
  opened :: "'w \<Rightarrow> 32 word \<Rightarrow> (byte list \<times> nat) option"
  room :: "'w \<Rightarrow> nat"

definition fbyte :: "byte list \<Rightarrow> nat \<Rightarrow> byte" where
  "fbyte xs i = (if i < length xs then xs ! i else 0)"

definition calm :: "'w view \<Rightarrow> nat \<Rightarrow> 'w \<Rightarrow> 'w \<Rightarrow> bool" where
  "calm V c w w' \<longleftrightarrow> vmapped V w \<subseteq> vmapped V w' \<and> opened V w' = opened V w \<and> room V w \<le> room V w' + c"

text \<open>\<open>read(2)\<close>, \<open>lseek(2)\<close> with \<open>SEEK_SET\<close>, and \<open>close(2)\<close>.\<close>

definition reads_files :: "'w kernel \<Rightarrow> 'w view \<Rightarrow> bool" where
  "reads_files K V \<longleftrightarrow>
     (\<forall>w m fd xs p a n. opened V w fd = Some (xs, p) \<and> n < 2 ^ 31 \<and> a + n \<le> 2 ^ 64 \<longrightarrow>
        (\<exists>w'. K SYS_read [scast fd, ptr a, ptr n] (w, m) =
             (ptr (length (take n (drop p xs))), w', write_bytes m (ptr a) (take n (drop p xs))) \<and>
           vmapped V w' = vmapped V w \<and> room V w' = room V w \<and>
           opened V w' fd = Some (xs, p + length (take n (drop p xs))))) \<and>
     (\<forall>w m fd xs p off. opened V w fd = Some (xs, p) \<and> off \<le> length xs \<and> off < 2 ^ 63 \<longrightarrow>
        (\<exists>w'. K SYS_lseek [scast fd, ptr off, 0] (w, m) = (ptr off, w', m) \<and>
           vmapped V w' = vmapped V w \<and> room V w' = room V w \<and> opened V w' fd = Some (xs, off))) \<and>
     (\<forall>w m (fd :: 32 word). \<exists>r w'. K SYS_close [scast fd] (w, m) = (r, w', m) \<and> vmapped V w' = vmapped V w \<and> room V w' = room V w)"

text \<open>\<open>mmap(2)\<close>: anonymous memory for the allocator is given while there is room, and leaves the files alone.\<close>

definition gives_pages :: "'w kernel \<Rightarrow> 'w view \<Rightarrow> nat \<Rightarrow> bool" where
  "gives_pages K V ps \<longleftrightarrow>
     (\<forall>n w m. ps dvd n \<and> n < 2 ^ 64 \<longrightarrow> calm V n w (fst (snd (K SYS_mmap [0, ptr n, 3, 34, 0, 0] (w, m)))) \<and>
        (0 < n \<and> n \<le> room V w \<longrightarrow> fst (K SYS_mmap [0, ptr n, 3, 34, 0, 0] (w, m)) \<noteq> - 1))"

text \<open>\<open>mmap(2)\<close>: a private mapping of a file wherever the kernel likes, and the
  fixed mappings of \<open>grants\<close>.\<close>

definition maps_files :: "'w kernel \<Rightarrow> 'w view \<Rightarrow> nat \<Rightarrow> bool" where
  "maps_files K V k \<longleftrightarrow>
     (\<forall>w m fd xs p n prot. opened V w fd = Some (xs, p) \<and> 0 < n \<and> page_up k n \<le> room V w \<longrightarrow>
        (\<exists>c w'. K SYS_mmap [0, ptr n, prot, 2, scast fd, 0] (w, m) =
             (ptr c, w', \<lambda>x. if unat x \<in> {c ..< c + page_up k n} then fbyte xs (unat x - c) else m x) \<and>
           0 < c \<and> 2 ^ k dvd c \<and> c + page_up k n \<le> 2 ^ 47 \<and> {c ..< c + page_up k n} \<inter> vmapped V w = {} \<and>
           vmapped V w' = vmapped V w \<union> {c ..< c + page_up k n} \<and> opened V w' fd = Some (xs, p) \<and>
           room V w \<le> room V w' + page_up k n)) \<and>
     (\<forall>fd f M r. grants K (\<lambda>w. opened V w fd = Some f \<and> M \<subseteq> vmapped V w \<and> r \<le> room V w) fd (fbyte (fst f)) k)"

text \<open>\<open>open(2)\<close> on the files \<open>fs\<close>, with the name in the buffer at \<open>b\<close>.\<close>

definition opens :: "'w kernel \<Rightarrow> 'w view \<Rightarrow> nat \<Rightarrow> (byte list \<rightharpoonup> byte list) \<Rightarrow> bool" where
  "opens K V b fs \<longleftrightarrow>
     (\<forall>w m name. cstr m b name \<longrightarrow>
        (\<exists>r w'. K SYS_open [ptr b, 0, 0] (w, m) = (r, w', m) \<and> vmapped V w' = vmapped V w \<and> room V w' = room V w \<and>
           (case fs name of
              None \<Rightarrow> sint (ucast r :: 32 word) < 0
            | Some xs \<Rightarrow> 0 \<le> sint (ucast r :: 32 word) \<and> opened V w' (ucast r) = Some (xs, 0))))"

lemma calm_refl [simp]: "calm V c w w"
  by (simp add: calm_def)

lemma calm_mono: "calm V c w w' \<Longrightarrow> c \<le> c' \<Longrightarrow> calm V c' w w'"
  by (auto simp: calm_def)

lemma opens_by_name:
  assumes "opens K V b fs"
  shows "open_by_name K (\<lambda>w. (vmapped V w, room V w)) b (\<lambda>name. fs name \<noteq> None)"
  unfolding open_by_name_def
proof (intro allI impI)
  fix w m name
  assume c: "cstr m b name"
  obtain r w' where "K SYS_open [ptr b, 0, 0] (w, m) = (r, w', m)" "vmapped V w' = vmapped V w" "room V w' = room V w"
      "case fs name of None \<Rightarrow> sint (ucast r :: 32 word) < 0
        | Some xs \<Rightarrow> 0 \<le> sint (ucast r :: 32 word) \<and> opened V w' (ucast r) = Some (xs, 0)"
    using assms [unfolded opens_def, rule_format, OF c, of w] by blast
  then show "\<exists>r w'. K SYS_open [ptr b, 0, 0] (w, m) = (r, w', m) \<and> (vmapped V w', room V w') = (vmapped V w, room V w) \<and>
      (0 \<le> sint (ucast r :: 32 word) \<longleftrightarrow> fs name \<noteq> None)"
    by (intro exI [of _ r] exI [of _ w']) (auto split: option.splits)
qed

lemma opens_file:
  assumes "opens K V b fs" and "sys_open K (ptr b) 0 0 t0 = (t, fd)" and "cstr (smem t0) b name" and "fs name = Some xs"
  shows "opened V (world t) fd = Some (xs, 0)"
proof -
  obtain r w' where "K SYS_open [ptr b, 0, 0] (world t0, smem t0) = (r, w', smem t0)" "opened V w' (ucast r) = Some (xs, 0)"
    using assms(1) [unfolded opens_def, rule_format, OF assms(3), of "world t0"] assms(4) by auto
  with assms(2) show ?thesis by (auto simp: sys_open_def syscall_def)
qed

section \<open>The allocator's calls\<close>

lemma malloc_from_heap_calm:
  assumes inv: "malloc_inv K mapped ps h F L s" and g: "gives_pages K V ps" and z: "z + ps + 32 < 2 ^ 64"
    and run: "malloc_from_heap K (ptr z) (ptr h) s = Some (s', a)"
  shows "calm V (z + 8 + ps) (world s) (world s')"
proof -
  note I = malloc_invD [OF inv]
  have z8: "z + 8 + 24 < 2 ^ 64" "z + 8 + ps + 24 < 2 ^ 64" using z by linarith+
  show ?thesis
  proof (rule hs.alloc_total [OF I(3) z8(1)])
    fix m b k
    assume "heap_alloc (ptr h) (ptr (z + 8)) (smem s) = Some (m, ptr b, ptr k)" "area_ok (b, k)"
    moreover from this have "ptr b \<noteq> NULL" by (subst ptr_eq_0) (auto simp: area_ok_def)
    ultimately show ?thesis using run by (auto simp: malloc_from_heap_def MALLOC_SETUP_def)
  next
    assume f: "heap_alloc (ptr h) (ptr (z + 8)) (smem s) = Some (smem s, NULL, ptr (z + 8))"
    obtain n where n: "(if ptr (z + 8) < MALLOC_HEAP_EXTEND_SIZE s then MALLOC_HEAP_EXTEND_SIZE s
          else MALLOC_ROUND_UP_TO_PAGE_SIZE s (ptr (z + 8))) = ptr n" "ps dvd n" "n < 2 ^ 64" "n \<le> z + 8 + ps"
      by (rule block_size [OF I(1,2) z8(2)])
    obtain t r where t: "mmap K 0 (ptr n) 3 34 0 0 s = (t, r)" by fastforce
    then have "world t = fst (snd (K SYS_mmap [0, ptr n, 3, 34, 0, 0] (world s, smem s)))"
      by (cases "K SYS_mmap [0, ptr n, 3, 34, 0, 0] (world s, smem s)") (auto simp: mmap_def syscall_def)
    then have "calm V n (world s) (world t)" using g n(2,3) by (simp add: gives_pages_def)
    moreover have "world s' = world t"
      using run f n(1) t by (auto simp: malloc_from_heap_def bind_eq_Some_conv MALLOC_SETUP_def split: if_splits)
    ultimately show ?thesis using n(4) by (auto intro: calm_mono)
  qed
qed

lemma malloc_calm:
  assumes inv: "malloc_inv K mapped ps h F L s" and g: "gives_pages K V ps" and z: "z + ps + 32 < 2 ^ 64"
    and run: "malloc K (ptr h) (ptr z) s = Some (s', a)"
  shows "calm V (z + 8 + ps) (world s) (world s')"
  using run malloc_from_heap_calm [OF inv g z]
  by (auto simp: malloc_def set_errno_def bind_eq_Some_conv split: if_splits)

text \<open>A refused block means that there is no room.\<close>

lemma refused_no_room:
  assumes "gives_pages K V ps" and "\<exists>n. 0 < n \<and> ps dvd n \<and> n \<le> c \<and> fst (K SYS_mmap [0, ptr n, 3, 34, 0, 0] (world s, smem s)) = - 1" and "c < 2 ^ 64"
  shows "room V (world s) < c"
proof -
  obtain n where n: "0 < n" "ps dvd n" "n \<le> c" "fst (K SYS_mmap [0, ptr n, 3, 34, 0, 0] (world s, smem s)) = - 1" using assms(2) by blast
  have "n < 2 ^ 64" using n(3) assms(3) by linarith
  then have "\<not> n \<le> room V (world s)" using assms(1) n(1,2,4) by (auto simp: gives_pages_def)
  then show ?thesis using n(3) by linarith
qed

text \<open>A block for the loader: either there is no memory, and the process ends, or the block is new.\<close>

lemma emalloc_correct:
  assumes inv: "malloc_inv K (vmapped V) ps h F L s" and g: "gives_pages K V ps" and z: "0 < z" "z + ps + 32 < 2 ^ 64"
  shows "emalloc K (ptr h) (ptr z) s = ostop (Exited 1) \<and> \<not> fits F (z + 8) \<and> room V (world s) < z + 8 + ps \<or>
         (\<exists>s' b k F'. emalloc K (ptr h) (ptr z) s = oreturn (s', ptr (b + 8)) \<and> L b = None \<and> area_ok (b, k) \<and> z + 8 \<le> k \<and>
            malloc_inv K (vmapped V) ps h F' (L(b \<mapsto> k)) s' \<and> F' \<union> {b ..< b + k} \<subseteq> F \<union> - vmapped V (world s) \<and>
            calm V (z + 8 + ps) (world s) (world s') \<and> unchanged_outside (spare (vmapped V) h F s) (smem s) (smem s'))"
proof -
  obtain s' a where r: "malloc K (ptr h) (ptr z) s = Some (s', a)"
      "malloc_good K (vmapped V) ps h z F L s s' a \<or> a = NULL \<and> \<not> fits F (z + 8) \<and>
        (\<exists>n. 0 < n \<and> ps dvd n \<and> n \<le> z + 8 + ps \<and> fst (K SYS_mmap [0, ptr n, 3, 34, 0, 0] (world s, smem s)) = - 1)"
    using malloc_correct [OF inv z] by blast
  show ?thesis
  proof (cases "malloc_good K (vmapped V) ps h z F L s s' a")
    case False
    with r have "room V (world s) < z + 8 + ps" using z(2) by (intro refused_no_room [OF g]) auto
    with False r show ?thesis by (simp add: emalloc_def)
  next
    case True
    then obtain b k F' where b: "a = ptr (b + 8)" "L b = None" "area_ok (b, k)" "request (z + 8) \<le> k"
        "malloc_inv K (vmapped V) ps h F' (L(b \<mapsto> k)) s'" "F' \<union> {b ..< b + k} \<subseteq> F \<union> - vmapped V (world s)"
        "unchanged_outside (spare (vmapped V) h F s) (smem s) (smem s')"
      by (auto simp: malloc_good_def)
    have "z + 8 \<le> k" using b(4) request_bounds(1) [of "z + 8"] by linarith
    moreover have "a \<noteq> NULL" using b(1,3) by (auto simp: area_ok_def ptr_eq_0)
    ultimately show ?thesis using b r(1) malloc_calm [OF inv g z(2) r(1)] by (auto simp: emalloc_def)
  qed
qed

text \<open>A copy of a name.\<close>

lemma strdup_room:
  assumes inv: "malloc_inv K (vmapped V) ps h F L s" and g: "gives_pages K V ps" and str: "cstr (smem s) a xs" "xs \<noteq> []"
    and src: "{a .. a + length xs} \<inter> spare (vmapped V) h F s = {}"
    and len: "length xs mod 8 \<noteq> 0 \<or> length xs < 16" "length xs + ps + 32 < 2 ^ 64"
    and rm: "length xs + 8 + ps \<le> room V (world s)"
  shows "\<exists>s' b k F'. strdup K (ptr h) (ptr a) s = oreturn (s', ptr (b + 8)) \<and> L b = None \<and> area_ok (b, k) \<and> length xs + 8 < k \<and>
    F' \<union> {b ..< b + k} \<subseteq> F \<union> - vmapped V (world s) \<and> malloc_inv K (vmapped V) ps h F' (L(b \<mapsto> k)) s' \<and>
    cstr (smem s') (b + 8) xs \<and> calm V (length xs + 8 + ps) (world s) (world s') \<and>
    unchanged_outside (spare (vmapped V) h F s) (smem s) (smem s')"
proof -
  obtain r where r: "strdup K (ptr h) (ptr a) s = Some r"
      "r = Inl (Exited 1) \<and> \<not> fits F (length xs + 8) \<and>
         (\<exists>n. 0 < n \<and> ps dvd n \<and> n \<le> length xs + 8 + ps \<and> fst (K SYS_mmap [0, ptr n, 3, 34, 0, 0] (world s, smem s)) = - 1) \<or>
       (\<exists>s' b k F'. r = Inr (s', ptr (b + 8)) \<and> L b = None \<and> area_ok (b, k) \<and> length xs + 8 < k \<and>
          F' \<union> {b ..< b + k} \<subseteq> F \<union> - vmapped V (world s) \<and> malloc_inv K (vmapped V) ps h F' (L(b \<mapsto> k)) s' \<and>
          cstr (smem s') (b + 8) xs \<and> cstr (smem s') a xs \<and> unchanged_outside (spare (vmapped V) h F s) (smem s) (smem s'))"
    using strdup_correct [OF inv str src len] by blast
  have "\<not> room V (world s) < length xs + 8 + ps" using rm by simp
  then have "\<not> (\<exists>n. 0 < n \<and> ps dvd n \<and> n \<le> length xs + 8 + ps \<and> fst (K SYS_mmap [0, ptr n, 3, 34, 0, 0] (world s, smem s)) = - 1)"
    using refused_no_room [OF g] len(2) by fastforce
  with r obtain s' b k F' where b: "r = Inr (s', ptr (b + 8))" "L b = None" "area_ok (b, k)" "length xs + 8 < k"
      "F' \<union> {b ..< b + k} \<subseteq> F \<union> - vmapped V (world s)" "malloc_inv K (vmapped V) ps h F' (L(b \<mapsto> k)) s'"
      "cstr (smem s') (b + 8) xs" "unchanged_outside (spare (vmapped V) h F s) (smem s) (smem s')"
    by blast
  obtain q where q: "emalloc K (ptr h) (ptr (length xs)) s = Some q"
      "(case q of Inl c \<Rightarrow> Some (Inl c) | Inr (s, newp) \<Rightarrow> do { (m, d) \<leftarrow> strcpy newp (ptr a) (smem s); Some (Inr (s\<lparr>smem := m\<rparr>, newp)) }) =
       oreturn (s', ptr (b + 8))"
    using r(1) b(1) strlen_cstr [OF str(1)] unfolding strdup_def bind_eq_Some_conv by auto
  then obtain t m where t: "emalloc K (ptr h) (ptr (length xs)) s = oreturn (t, ptr (b + 8))" "s' = t\<lparr>smem := m\<rparr>"
    by (cases q) (auto simp: bind_eq_Some_conv split: prod.splits)
  then have "malloc K (ptr h) (ptr (length xs)) s = Some (t, ptr (b + 8))"
    by (auto simp: emalloc_def bind_eq_Some_conv split: if_splits)
  from malloc_calm [OF inv g len(2) this] t(2) have "calm V (length xs + 8 + ps) (world s) (world s')" by simp
  with b r(1) show ?thesis by blast
qed

end
