(* ===== verification/Load_Object.thy ===== *)
theory Load_Object
  imports Load_Files
begin

text \<open>
  Loading one shared object (\<open>map_object_fd\<close>): the headers are read from the file, the segments mapped, and
  the dynamic section of the mapped image read into the link map.
\<close>

section \<open>The same bytes at two places\<close>

definition same_at :: "nat \<Rightarrow> mem \<Rightarrow> addr \<Rightarrow> mem \<Rightarrow> addr \<Rightarrow> bool" where
  "same_at n m a m' a' \<longleftrightarrow> (\<forall>i < n. m (a + ptr i) = m' (a' + ptr i))"

definition file_mem :: "byte list \<Rightarrow> mem" where
  "file_mem xs x = fbyte xs (unat x)"

lemma same_at_sub:
  assumes "same_at n m a m' a'" and "i + j \<le> n"
  shows "same_at j m (a + ptr i) m' (a' + ptr i)"
  unfolding same_at_def
proof (intro allI impI)
  fix q
  assume "q < j"
  then have "i + q < n" using assms(2) by simp
  then have "m (a + ptr (i + q)) = m' (a' + ptr (i + q))" using assms(1) by (simp add: same_at_def)
  then show "m (a + ptr i + ptr q) = m' (a' + ptr i + ptr q)" by (simp add: add.assoc)
qed

lemma same_at_read: "same_at n m a m' a' \<Longrightarrow> read_bytes m a n = read_bytes m' a' n"
  by (intro nth_equalityI) (simp_all add: nth_read_bytes same_at_def)

lemma same_at_loads:
  "same_at 8 m a m' a' \<Longrightarrow> load64 m a = load64 m' a'" "same_at 4 m a m' a' \<Longrightarrow> load32 m a = load32 m' a'"
  "same_at 2 m a m' a' \<Longrightarrow> load16 m a = load16 m' a'"
  by (simp_all add: load64_def load32_def load16_def same_at_read)

lemma same_at_load64: "same_at n m a m' a' \<Longrightarrow> i + 8 \<le> n \<Longrightarrow> load64 m (a + ptr i) = load64 m' (a' + ptr i)"
  and same_at_load32: "same_at n m a m' a' \<Longrightarrow> i + 4 \<le> n \<Longrightarrow> load32 m (a + ptr i) = load32 m' (a' + ptr i)"
  and same_at_load16: "same_at n m a m' a' \<Longrightarrow> i + 2 \<le> n \<Longrightarrow> load16 m (a + ptr i) = load16 m' (a' + ptr i)"
  by (blast intro: same_at_loads same_at_sub)+

lemma same_at_unchanged:
  assumes "same_at n m (ptr a) m' a'" and "unchanged_outside S m m2" and "{a ..< a + n} \<inter> S = {}" and "a + n \<le> 2 ^ 64"
  shows "same_at n m2 (ptr a) m' a'"
proof -
  have "m2 (ptr (a + i)) = m (ptr (a + i))" if "i < n" for i
  proof -
    have "unat (ptr (a + i)) = a + i" using that assms(4) by (simp add: unat_ptr)
    then show ?thesis using assms(2,3) that by (auto simp: unchanged_outside_def disjoint_iff)
  qed
  with assms(1) show ?thesis by (simp add: same_at_def)
qed

lemma phdr_same:
  assumes "same_at 56 m q m' q'"
  shows "p_type m q = p_type m' q'" and "p_flags m q = p_flags m' q'" and "p_offset m q = p_offset m' q'"
    and "p_vaddr m q = p_vaddr m' q'" and "p_filesz m q = p_filesz m' q'" and "p_memsz m q = p_memsz m' q'"
    and "p_align m q = p_align m' q'"
  using same_at_load32 [OF assms, of 0] same_at_load32 [OF assms, of 4] same_at_load64 [OF assms, of 8]
    same_at_load64 [OF assms, of 16] same_at_load64 [OF assms, of 32] same_at_load64 [OF assms, of 40] same_at_load64 [OF assms, of 48]
  by (simp_all add: p_type_def p_flags_def p_offset_def p_vaddr_def p_filesz_def p_memsz_def p_align_def)

lemma phdr_same_uses:
  assumes "same_at 56 m q m' q'"
  shows "seg_cmd ps m q = seg_cmd ps m' q'" and "is_load m q \<longleftrightarrow> is_load m' q'"
    and "phdr_aligned ps m q \<longleftrightarrow> phdr_aligned ps m' q'" and "phdr_fields m q = phdr_fields m' q'"
  by (simp_all add: seg_cmd_def is_load_def phdr_aligned_def phdr_fields_def phdr_same [OF assms] fun_eq_iff)

text \<open>The table of program headers, wherever it is.\<close>

lemma phdrs_same:
  assumes "same_at (56 * n) m q m' q'"
  shows "map (seg_cmd ps m) (filter (is_load m) (phdrs q n)) = map (seg_cmd ps m') (filter (is_load m') (phdrs q' n))"
    and "(\<forall>p \<in> set (filter (is_load m) (phdrs q n)). phdr_aligned ps m p) \<longleftrightarrow>
         (\<forall>p \<in> set (filter (is_load m') (phdrs q' n)). phdr_aligned ps m' p)"
    and "fold (phdr_fields m) (phdrs q n) = fold (phdr_fields m') (phdrs q' n)"
proof -
  have all: "list_all2 (\<lambda>p p'. same_at 56 m p m' p') (phdrs q n) (phdrs q' n)"
    using assms
  proof (induction n arbitrary: q q')
    case (Suc n)
    have "same_at 56 m q m' q'" using same_at_sub [OF Suc.prems, of 0 56] by simp
    moreover have "same_at (56 * n) m (q + 56) m' (q' + 56)" using same_at_sub [OF Suc.prems, of 56 "56 * n"] by simp
    ultimately show ?case using Suc.IH by (simp add: sizeof_Phdr_def)
  qed simp
  have "map (seg_cmd ps m) (filter (is_load m) xs) = map (seg_cmd ps m') (filter (is_load m') ys) \<and>
      ((\<forall>p \<in> set (filter (is_load m) xs). phdr_aligned ps m p) \<longleftrightarrow> (\<forall>p \<in> set (filter (is_load m') ys). phdr_aligned ps m' p)) \<and>
      fold (phdr_fields m) xs = fold (phdr_fields m') ys" if "list_all2 (\<lambda>p p'. same_at 56 m p m' p') xs ys" for xs ys
    using that by (induction rule: list_all2_induct) (auto simp: phdr_same_uses)
  from this [OF all] show "map (seg_cmd ps m) (filter (is_load m) (phdrs q n)) = map (seg_cmd ps m') (filter (is_load m') (phdrs q' n))"
    and "(\<forall>p \<in> set (filter (is_load m) (phdrs q n)). phdr_aligned ps m p) \<longleftrightarrow>
         (\<forall>p \<in> set (filter (is_load m') (phdrs q' n)). phdr_aligned ps m' p)"
    and "fold (phdr_fields m) (phdrs q n) = fold (phdr_fields m') (phdrs q' n)"
    by blast+
qed

text \<open>Bytes of a file that were read into a buffer.\<close>

lemma write_bytes_nth:
  assumes "i < length bs" and "length bs \<le> 2 ^ 64"
  shows "write_bytes m a bs (a + ptr i) = bs ! i"
  using nth_read_bytes [OF assms(1), of "write_bytes m a bs" a] read_write_bytes [OF assms(2), of m a] by simp

lemma read_same_at:
  assumes "p + n \<le> length xs" and "length xs < 2 ^ 64" and "n \<le> n'"
  shows "same_at n (write_bytes m a (take n' (drop p xs))) a (file_mem xs) (ptr p)"
  unfolding same_at_def
proof (intro allI impI)
  fix i
  assume i: "i < n"
  have "write_bytes m a (take n' (drop p xs)) (a + ptr i) = take n' (drop p xs) ! i"
    by (rule write_bytes_nth) (use i assms in auto)
  also have "\<dots> = xs ! (p + i)" using i assms by simp
  also have "\<dots> = file_mem xs (ptr p + ptr i)"
    using i assms by (simp add: file_mem_def fbyte_def unat_ptr)
  finally show "write_bytes m a (take n' (drop p xs)) (a + ptr i) = file_mem xs (ptr p + ptr i)" .
qed

lemma unchanged_write_bytes_sub:
  assumes "length bs \<le> n" and "a + n \<le> 2 ^ 64"
  shows "unchanged_outside {a ..< a + n} m (write_bytes m (ptr a) bs)"
  unfolding unchanged_outside_def
proof (intro allI impI)
  fix x :: addr
  assume "unat x \<notin> {a ..< a + n}"
  moreover have "in_range (ptr a) (length bs) (ptr (unat x)) \<longleftrightarrow> a \<le> unat x \<and> unat x < a + length bs"
    by (rule in_range_ptr) (use assms unsigned_less [of x] in auto)
  ultimately have "\<not> in_range (ptr a) (length bs) x" using assms(1) by auto
  then show "write_bytes m (ptr a) bs x = m x" by (rule write_bytes_other)
qed

section \<open>Reading the headers\<close>

lemma ehdr_same:
  assumes "same_at 64 m a m' a'"
  shows "e_type m a = e_type m' a'" and "e_entry m a = e_entry m' a'" and "e_phoff m a = e_phoff m' a'" and "e_phnum m a = e_phnum m' a'"
  using same_at_load16 [OF assms, of 16] same_at_load64 [OF assms, of 24] same_at_load64 [OF assms, of 32] same_at_load16 [OF assms, of 56]
  by (simp_all add: e_type_def e_entry_def e_phoff_def e_phnum_def)

text \<open>The buffers on the stack, with \<open>n\<close> bytes for the program headers.\<close>

definition head_bytes :: "nat \<Rightarrow> nat \<Rightarrow> nat \<Rightarrow> nat set" where
  "head_bytes fb pb n = {fb ..< fb + 832} \<union> {pb ..< pb + n}"

definition head_bufs :: "'w env \<Rightarrow> nat \<Rightarrow> nat \<Rightarrow> nat \<Rightarrow> bool" where
  "head_bufs E fb pb n \<longleftrightarrow> filebuf E = ptr fb \<and> phdrbuf E = ptr pb \<and> fb + 832 \<le> 2 ^ 64 \<and> pb + n \<le> 2 ^ 64 \<and>
     {fb ..< fb + 832} \<inter> {pb ..< pb + n} = {}"

definition obj_phoff :: "byte list \<Rightarrow> nat" where "obj_phoff xs = unat (e_phoff (file_mem xs) 0)"
definition obj_phnum :: "byte list \<Rightarrow> nat" where "obj_phnum xs = unat (e_phnum (file_mem xs) 0)"

definition headers_ok :: "byte list \<Rightarrow> bool" where
  "headers_ok xs \<longleftrightarrow> 64 \<le> length xs \<and> length xs < 2 ^ 31 \<and> obj_phoff xs + 56 * obj_phnum xs \<le> length xs \<and>
     e_type (file_mem xs) 0 = ET_DYN"

lemma ucast_ptr: "ucast (ptr n) = (word_of_nat n :: 32 word)"
  by (rule bit_word_eqI) (auto simp: bit_simps bit_take_bit_iff)

lemma read_call:
  assumes "reads_files K V" and "opened V (world t) fd = Some (xs, p)" and "n < 2 ^ 31" and "a + n \<le> 2 ^ 64"
  obtains t' q where "sys_read K fd (ptr a) (ptr n) t = (t', word_of_nat (length (take n (drop p xs))))"
    and "smem t' = write_bytes (smem t) (ptr a) (take n (drop p xs))" and "pagesize t' = pagesize t"
    and "vmapped V (world t') = vmapped V (world t)" and "room V (world t') = room V (world t)"
    and "opened V (world t') fd = Some (xs, q)"
proof -
  obtain w' q where "K SYS_read [scast fd, ptr a, ptr n] (world t, smem t) =
        (ptr (length (take n (drop p xs))), w', write_bytes (smem t) (ptr a) (take n (drop p xs)))"
      "vmapped V w' = vmapped V (world t)" "room V w' = room V (world t)" "opened V w' fd = Some (xs, q)"
    using assms(1) [unfolded reads_files_def, THEN conjunct1, rule_format, of "world t" fd xs p n a "smem t"] assms(2-) by auto
  then show ?thesis
    by (intro that [of "t\<lparr>world := w', smem := write_bytes (smem t) (ptr a) (take n (drop p xs))\<rparr>"])
      (simp_all add: sys_read_def syscall_def ucast_ptr)
qed

lemma seek_call:
  assumes "reads_files K V" and "opened V (world t) fd = Some (xs, p)" and "off \<le> length xs" and "off < 2 ^ 63"
  obtains t' where "sys_lseek K fd (ptr off) 0 t = (t', ptr off)"
    and "smem t' = smem t" and "pagesize t' = pagesize t"
    and "vmapped V (world t') = vmapped V (world t)" and "room V (world t') = room V (world t)"
    and "opened V (world t') fd = Some (xs, off)"
proof -
  obtain w' where "K SYS_lseek [scast fd, ptr off, 0] (world t, smem t) = (ptr off, w', smem t)"
      "vmapped V w' = vmapped V (world t)" "room V w' = room V (world t)" "opened V w' fd = Some (xs, off)"
    using assms(1) [unfolded reads_files_def, THEN conjunct2, THEN conjunct1, rule_format, of "world t" fd xs p off "smem t"] assms(2-) by auto
  then show ?thesis by (intro that [of "t\<lparr>world := w'\<rparr>"]) (simp_all add: sys_lseek_def syscall_def)
qed

lemma small_int:
  assumes "n < 2 ^ 31"
  shows "sint (word_of_nat n :: 32 word) = int n" and "scast (word_of_nat n :: 32 word) = ptr n"
proof -
  show s: "sint (word_of_nat n :: 32 word) = int n"
    using assms by (simp add: signed_of_nat signed_take_bit_int_eq_self)
  show "scast (word_of_nat n :: 32 word) = ptr n" by (simp add: scast_eq s)
qed

lemma read_headers_file:
  assumes rf: "reads_files (kern E) V" and op: "opened V (world (lst s)) fd = Some (xs, 0)"
    and hb: "head_bufs E fb pb (56 * obj_phnum xs)" and ok: "headers_ok xs"
  obtains t q p where
    "read_headers E l fd s = oreturn (upd_map l (\<lambda>L. L\<lparr>l_entry := e_entry (file_mem xs) 0, l_phnum := e_phnum (file_mem xs) 0\<rparr>) (s\<lparr>lst := t\<rparr>), q)"
    and "same_at (56 * obj_phnum xs) (smem t) q (file_mem xs) (e_phoff (file_mem xs) 0)"
    and "same_at 64 (smem t) (filebuf E) (file_mem xs) 0"
    and "unchanged_outside (head_bytes fb pb (56 * obj_phnum xs)) (rmem s) (smem t)" and "pagesize t = pagesize (lst s)"
    and "vmapped V (world t) = vmapped V (world (lst s))" and "room V (world t) = room V (world (lst s))"
    and "opened V (world t) fd = Some (xs, p)"
proof -
  let ?hm = "file_mem xs" and ?n = "56 * obj_phnum xs" and ?c = "length (take 832 xs)"
  have E: "filebuf E = ptr fb" "phdrbuf E = ptr pb" "fb + 832 \<le> 2 ^ 64" "pb + ?n \<le> 2 ^ 64" "{fb ..< fb + 832} \<inter> {pb ..< pb + ?n} = {}"
    using hb by (simp_all add: head_bufs_def)
  have len: "64 \<le> length xs" "length xs < 2 ^ 31" "obj_phoff xs + ?n \<le> length xs" "e_type ?hm 0 = ET_DYN"
    using ok by (simp_all add: headers_ok_def)
  obtain t1 q1 where r1: "sys_read (kern E) fd (ptr fb) (ptr 832) (lst s) = (t1, word_of_nat (length (take 832 (drop 0 xs))))"
    and m1: "smem t1 = write_bytes (rmem s) (ptr fb) (take 832 (drop 0 xs))" and t1: "pagesize t1 = pagesize (lst s)"
      "vmapped V (world t1) = vmapped V (world (lst s))" "room V (world t1) = room V (world (lst s))"
      "opened V (world t1) fd = Some (xs, q1)"
    by (rule read_call [OF rf op _ E(3)]) auto
  have same0: "same_at n (smem t1) (ptr fb) ?hm 0" if "n \<le> ?c" for n
    using read_same_at [of 0 n xs 832 "rmem s" "ptr fb"] that len(2) by (simp add: m1)
  have H: "e_type (smem t1) (ptr fb) = ET_DYN" "e_entry (smem t1) (ptr fb) = e_entry ?hm 0"
      "e_phoff (smem t1) (ptr fb) = e_phoff ?hm 0" "e_phnum (smem t1) (ptr fb) = e_phnum ?hm 0"
    using ehdr_same [OF same0 [of 64]] len(1,4) by simp_all
  have u1: "unchanged_outside {fb ..< fb + 832} (rmem s) (smem t1)"
    unfolding m1 by (rule unchanged_write_bytes_sub) (use E(3) in auto)
  have po: "e_phoff ?hm 0 = ptr (obj_phoff xs)" by (simp add: obj_phoff_def)
  have ml: "ucast (e_phnum ?hm 0) * sizeof_Phdr = ptr ?n"
    by (simp add: obj_phnum_def sizeof_Phdr_def mult.commute)
  have n0: "?c \<le> 832" "sint (word_of_nat ?c :: 32 word) = int ?c" "scast (word_of_nat ?c :: 32 word) = ptr ?c"
    using small_int [of ?c] by simp_all
  let ?s1 = "upd_map l (\<lambda>L. L\<lparr>l_entry := e_entry ?hm 0, l_phnum := e_phnum ?hm 0\<rparr>) (s\<lparr>lst := t1\<rparr>)"
  have fits: "e_phoff ?hm 0 + ptr ?n \<le> ptr ?c \<longleftrightarrow> obj_phoff xs + ?n \<le> ?c"
    unfolding po ptr_add by (rule ptr_le) (use len(2,3) n0(1) in \<open>simp_all add: min_def split: if_splits\<close>)
  have run: "read_headers E l fd s =
      (if obj_phoff xs + ?n \<le> ?c then oreturn (?s1, ptr fb + e_phoff ?hm 0)
       else case sys_lseek (kern E) fd (e_phoff ?hm 0) 0 t1 of (t, off) \<Rightarrow>
         case sys_read (kern E) fd (phdrbuf E) (ptr ?n) t of (t, n) \<Rightarrow>
           if sint n < 0 then ostop (Exited 1) else oreturn (?s1\<lparr>lst := t\<rparr>, phdrbuf E))"
    using r1 n0(2,3) fits by (simp add: read_headers_def E(1) FILEBUF_SIZE_def Let_def upd_map_def H ml split: prod.split)
  show ?thesis
  proof (cases "obj_phoff xs + ?n \<le> ?c")
    case True
    have "same_at ?n (smem t1) (ptr fb + e_phoff ?hm 0) ?hm (e_phoff ?hm 0)"
      using same_at_sub [OF same0 [OF True]] by (simp add: po)
    moreover have "unchanged_outside (head_bytes fb pb ?n) (rmem s) (smem t1)"
      by (rule unchanged_mono [OF u1]) (auto simp: head_bytes_def)
    ultimately show ?thesis
      using True run t1 same0 [of 64] len(1) by (intro that [of t1 "ptr fb + e_phoff ?hm 0" q1]) (simp_all add: E(1))
  next
    case False
    have off: "obj_phoff xs \<le> length xs" "obj_phoff xs < 2 ^ 63" using len(2,3) by simp_all
    obtain t2 where t2: "sys_lseek (kern E) fd (ptr (obj_phoff xs)) 0 t1 = (t2, ptr (obj_phoff xs))" "smem t2 = smem t1"
        "pagesize t2 = pagesize t1" "vmapped V (world t2) = vmapped V (world t1)" "room V (world t2) = room V (world t1)"
        and op2: "opened V (world t2) fd = Some (xs, obj_phoff xs)"
      by (rule seek_call [OF rf t1(4) off])
    have nb: "?n < 2 ^ 31" using len(2,3) by simp
    obtain t3 q3 where r3: "sys_read (kern E) fd (ptr pb) (ptr ?n) t2 = (t3, word_of_nat (length (take ?n (drop (obj_phoff xs) xs))))"
      and m3: "smem t3 = write_bytes (smem t2) (ptr pb) (take ?n (drop (obj_phoff xs) xs))" and t3: "pagesize t3 = pagesize t2"
        "vmapped V (world t3) = vmapped V (world t2)" "room V (world t3) = room V (world t2)"
        "opened V (world t3) fd = Some (xs, q3)"
      by (rule read_call [OF rf op2 nb E(4)])
    have "same_at ?n (smem t3) (ptr pb) ?hm (e_phoff ?hm 0)"
      using read_same_at [OF len(3) _ order_refl] len(2) by (simp add: m3 po)
    moreover have u3: "unchanged_outside {pb ..< pb + ?n} (smem t1) (smem t3)"
      unfolding m3 t2(2) by (rule unchanged_write_bytes_sub) (use E(4) in auto)
    have "same_at 64 (smem t3) (ptr fb) ?hm 0"
      by (rule same_at_unchanged [OF same0 u3]) (use len(1) E(3,5) in auto)
    moreover have "unchanged_outside (head_bytes fb pb ?n) (rmem s) (smem t3)"
      by (rule unchanged_trans [OF unchanged_mono [OF u1] unchanged_mono [OF u3]]) (auto simp: head_bytes_def)
    moreover have "read_headers E l fd s = oreturn (?s1\<lparr>lst := t3\<rparr>, ptr pb)"
      using False run t2(1) r3 nb len(3) small_int(1) [OF nb] by (simp add: E(2) po)
    ultimately show ?thesis
      using t1 t2 t3 by (intro that [of t3 "ptr pb" q3]) (simp_all add: E(1) upd_map_def)
  qed
qed

section \<open>The segments\<close>

text \<open>The \<open>PT_LOAD\<close> headers of a file, their load commands, and the number of bytes from address 0 to their end.\<close>

definition obj_loads :: "byte list \<Rightarrow> addr list" where
  "obj_loads xs = filter (is_load (file_mem xs)) (phdrs (e_phoff (file_mem xs) 0) (obj_phnum xs))"

definition obj_cmds :: "nat \<Rightarrow> byte list \<Rightarrow> loadcmd list" where
  "obj_cmds k xs = map (seg_cmd (2 ^ k) (file_mem xs)) (obj_loads xs)"

definition obj_len :: "nat \<Rightarrow> byte list \<Rightarrow> nat" where
  "obj_len k xs = unat (allocend (last (obj_cmds k xs)))"

text \<open>A shared object that is linked at address 0, with its segments in ascending order on pages of their own, from
  the start of the file on.\<close>

definition segments_ok :: "nat \<Rightarrow> byte list \<Rightarrow> bool" where
  "segments_ok k xs \<longleftrightarrow> obj_loads xs \<noteq> [] \<and> 0 < obj_len k xs \<and> cmds_apart k (obj_cmds k xs) \<and>
     mapstart (hd (obj_cmds k xs)) = 0 \<and> mapoff (hd (obj_cmds k xs)) = 0 \<and>
     (\<forall>ph \<in> set (obj_loads xs). phdr_aligned (2 ^ k) (file_mem xs) ph \<and> p_filesz (file_mem xs) ph \<le> p_memsz (file_mem xs) ph \<and>
        unat (p_vaddr (file_mem xs) ph) + unat (p_memsz (file_mem xs) ph) \<le> 2 ^ 47)"

lemma segments_fit:
  assumes "segments_ok k xs" and "A \<le> 2 ^ 47" and "k \<le> 30" and "ph \<in> set (obj_loads xs)"
  shows "seg_fits k A (file_mem xs) ph"
proof -
  have "unat (p_vaddr (file_mem xs) ph) + unat (p_memsz (file_mem xs) ph) \<le> 2 ^ 47" "p_filesz (file_mem xs) ph \<le> p_memsz (file_mem xs) ph"
    using assms(1,4) by (auto simp: segments_ok_def)
  moreover have "(2 :: nat) ^ k \<le> 2 ^ 30" using assms(3) by (rule power_increasing) simp
  ultimately show ?thesis using assms(2) by (simp add: seg_fits_def)
qed

lemma cmds_fit:
  assumes "segments_ok k xs" and "A \<le> 2 ^ 47" and "k \<le> 30"
  shows "\<forall>c \<in> set (obj_cmds k xs). cmd_ok k A c"
  using segments_fit [OF assms] seg_cmd_fields(6) by (fastforce simp: obj_cmds_def)

text \<open>All of the commands lie between 0 and the end of the last one.\<close>

lemma apart_last:
  assumes "cmds_apart k cs" and "\<forall>c \<in> set cs. mapstart c \<le> dataend c \<and> dataend c \<le> allocend c" and "c \<in> set cs"
  shows "cmd_top k c \<le> page_up k (unat (allocend (last cs)))"
  using assms
proof (induction cs)
  case (Cons d cs)
  show ?case
  proof (cases "cs = []")
    case True
    with Cons.prems show ?thesis by (simp add: cmd_top_def max_def word_le_nat_alt)
  next
    case False
    then have l: "last cs \<in> set cs" by simp
    have "unat (mapstart (last cs)) \<le> unat (allocend (last cs))"
      using Cons.prems(2) l by (auto simp: word_le_nat_alt intro: order_trans)
    then have "cmd_top k d \<le> page_up k (unat (allocend (last cs)))"
      using Cons.prems(1) l page_up_ge [of "unat (allocend (last cs))" k] by fastforce
    with Cons False show ?thesis by auto
  qed
qed simp

lemma cmds_order:
  assumes "segments_ok k xs" and "k \<le> 30" and "c \<in> set (obj_cmds k xs)"
  shows "cmd_top k c \<le> page_up k (obj_len k xs)"
  unfolding obj_len_def
proof (rule apart_last)
  show "cmds_apart k (obj_cmds k xs)" using assms(1) by (simp add: segments_ok_def)
  show "\<forall>c \<in> set (obj_cmds k xs). mapstart c \<le> dataend c \<and> dataend c \<le> allocend c"
  proof
    fix c
    assume "c \<in> set (obj_cmds k xs)"
    then obtain ph where ph: "ph \<in> set (obj_loads xs)" "c = seg_cmd (2 ^ k) (file_mem xs) ph" by (auto simp: obj_cmds_def)
    note F = seg_cmd_fields [OF segments_fit [OF assms(1) _ assms(2) ph(1), of 0] refl]
    have "p_filesz (file_mem xs) ph \<le> p_memsz (file_mem xs) ph" using assms(1) ph(1) by (auto simp: segments_ok_def)
    then show "mapstart c \<le> dataend c \<and> dataend c \<le> allocend c"
      using F(3,4,6) ph(2) by (simp add: word_le_nat_alt cmd_ok_def)
  qed
qed (rule assms(3))

lemma obj_len_bound:
  assumes "segments_ok k xs" and "k \<le> 30"
  shows "obj_len k xs \<le> 2 ^ 47"
proof -
  have ne: "obj_loads xs \<noteq> []" using assms(1) by (simp add: segments_ok_def)
  then have l: "last (obj_loads xs) \<in> set (obj_loads xs)" by simp
  note F = seg_cmd_fields [OF segments_fit [OF assms(1) _ assms(2) l, of 0] refl]
  show ?thesis using assms(1) l ne F(4) by (simp add: obj_len_def obj_cmds_def last_map segments_ok_def)
qed

section \<open>Mapping the segments\<close>

text \<open>The kernel's side while the segments of one file are mapped.\<close>

definition mapping :: "'w view \<Rightarrow> 32 word \<Rightarrow> byte list \<times> nat \<Rightarrow> nat set \<Rightarrow> nat \<Rightarrow> 'w \<Rightarrow> bool" where
  "mapping V fd f M r w \<longleftrightarrow> opened V w fd = Some f \<and> M \<subseteq> vmapped V w \<and> r \<le> room V w"

lemma maps_files_grants: "maps_files K V k \<Longrightarrow> grants K (mapping V fd f M r) fd (fbyte (fst f)) k"
  unfolding maps_files_def mapping_def [abs_def] by blast

lemma first_mapping:
  assumes mf: "maps_files K V k" and op: "opened V (world t) fd = Some (xs, p)" and n: "0 < n" "page_up k n \<le> room V (world t)"
  obtains t' c where "mmap K 0 (ptr n) pr 2 (scast fd) 0 t = (t', ptr c)"
    and "smem t' = (\<lambda>x. if unat x \<in> {c ..< c + page_up k n} then fbyte xs (unat x - c) else smem t x)"
    and "0 < c" and "2 ^ k dvd c" and "c + page_up k n \<le> 2 ^ 47" and "{c ..< c + page_up k n} \<inter> vmapped V (world t) = {}"
    and "mapping V fd (xs, p) (vmapped V (world t) \<union> {c ..< c + page_up k n}) (room V (world t) - page_up k n) (world t')"
    and "pagesize t' = pagesize t"
proof -
  obtain c w' where "K SYS_mmap [0, ptr n, pr, 2, scast fd, 0] (world t, smem t) =
        (ptr c, w', \<lambda>x. if unat x \<in> {c ..< c + page_up k n} then fbyte xs (unat x - c) else smem t x)"
      "0 < c" "2 ^ k dvd c" "c + page_up k n \<le> 2 ^ 47" "{c ..< c + page_up k n} \<inter> vmapped V (world t) = {}"
      "vmapped V w' = vmapped V (world t) \<union> {c ..< c + page_up k n}" "opened V w' fd = Some (xs, p)"
      "room V (world t) \<le> room V w' + page_up k n"
    using mf [unfolded maps_files_def, THEN conjunct1, rule_format, of "world t" fd xs p n pr "smem t"] op n by blast
  then show ?thesis
    by (intro that [of "t\<lparr>world := w', smem := \<lambda>x. if unat x \<in> {c ..< c + page_up k n} then fbyte xs (unat x - c) else smem t x\<rparr>" c])
      (simp_all add: mmap_def syscall_def mapping_def)
qed

lemma reserve_file:
  assumes mf: "maps_files (kern E) V k" and op: "opened V (world (lst s)) fd = Some (xs, p)"
    and n: "0 < n" "page_up k n \<le> room V (world (lst s))" and c0: "mapstart (hd cs) = 0"
  obtains t c where "reserve_dyn E l fd cs (ptr n) holes s =
      upd_map l (\<lambda>L. L\<lparr>l_map_start := ptr c, l_map_end := ptr (c + n), l_addr := ptr c, l_contiguous := True\<rparr>) (s\<lparr>lst := t\<rparr>)"
    and "smem t = (\<lambda>x. if unat x \<in> {c ..< c + page_up k n} then fbyte xs (unat x - c) else rmem s x)"
    and "0 < c" and "2 ^ k dvd c" and "c + page_up k n \<le> 2 ^ 47" and "{c ..< c + page_up k n} \<inter> vmapped V (world (lst s)) = {}"
    and "mapping V fd (xs, p) (vmapped V (world (lst s)) \<union> {c ..< c + page_up k n}) (room V (world (lst s)) - page_up k n) (world t)"
    and "pagesize t = pagesize (lst s)"
proof -
  let ?W = "\<lambda>c. mapping V fd (xs, p) (vmapped V (world (lst s)) \<union> {c ..< c + page_up k n}) (room V (world (lst s)) - page_up k n)"
  obtain t1 c where r1: "mmap (kern E) 0 (ptr n) (scast (prot (hd cs))) 2 (scast fd) 0 (lst s) = (t1, ptr c)"
    and m1: "smem t1 = (\<lambda>x. if unat x \<in> {c ..< c + page_up k n} then fbyte xs (unat x - c) else rmem s x)"
    and c: "0 < c" "2 ^ k dvd c" "c + page_up k n \<le> 2 ^ 47" "{c ..< c + page_up k n} \<inter> vmapped V (world (lst s)) = {}"
    and w1: "?W c (world t1)" and p1: "pagesize t1 = pagesize (lst s)"
    by (rule first_mapping [OF mf op n])
  define t where "t = (if holes then fst (mprotect (kern E) (ptr c + mapend (hd cs)) (mapstart (last cs) - mapend (hd cs)) 0 t1) else t1)"
  obtain w2 where w2: "?W c w2"
      "kern E SYS_mprotect [ptr c + mapend (hd cs), mapstart (last cs) - mapend (hd cs), 0] (world t1, smem t1) = (0, w2, smem t1)"
    by (rule grants_protect [OF maps_files_grants [OF mf] w1])
  then have "smem t = smem t1" "?W c (world t)" "pagesize t = pagesize t1"
    using w1 by (auto simp: t_def mprotect_def syscall_def)
  moreover have "reserve_dyn E l fd cs (ptr n) holes s =
      upd_map l (\<lambda>L. L\<lparr>l_map_start := ptr c, l_map_end := ptr (c + n), l_addr := ptr c, l_contiguous := True\<rparr>) (s\<lparr>lst := t\<rparr>)"
    using r1 by (simp add: reserve_dyn_def Let_def MAP_PRIVATE_def c0 t_def upd_map_def)
  ultimately show ?thesis using m1 c p1 by (intro that [of c t]) simp_all
qed

text \<open>What mapping the segments leaves alone.\<close>

definition seg_free :: "link_map \<Rightarrow> link_map" where
  "seg_free L = L\<lparr>l_map_start := 0, l_map_end := 0, l_contiguous := False, l_text_end := 0, l_phdr := NULL\<rparr>"

definition seg_frame :: "addr \<Rightarrow> 'w rtld \<Rightarrow> 'w rtld \<Rightarrow> bool" where
  "seg_frame l s s' \<longleftrightarrow> seg_free (maps s' l) = seg_free (maps s l) \<and> (\<forall>x. x \<noteq> l \<longrightarrow> maps s' x = maps s x) \<and>
     namespace s' = namespace s \<and> rpath s' = rpath s \<and> dl_pagesize s' = dl_pagesize s \<and> dl_stack_flags s' = dl_stack_flags s \<and>
     pagesize (lst s') = pagesize (lst s)"

lemma seg_frame_lst: "pagesize t = pagesize (lst s) \<Longrightarrow> seg_frame l s (s\<lparr>lst := t\<rparr>)"
  by (simp add: seg_frame_def)

lemma seg_frame_trans: "seg_frame l s s1 \<Longrightarrow> seg_frame l s1 s2 \<Longrightarrow> seg_frame l s s2"
  by (simp add: seg_frame_def)

lemma call_pagesize:
  "mmap K a n p f fd off t = (t', r) \<Longrightarrow> pagesize t' = pagesize t" "mprotect K a n p t = (t', r') \<Longrightarrow> pagesize t' = pagesize t"
proof -
  show "mmap K a n p f fd off t = (t', r) \<Longrightarrow> pagesize t' = pagesize t" unfolding mmap_def by (rule syscall_fields(2))
  obtain t1 r1 where c: "syscall K SYS_mprotect [a, n, p] t = (t1, r1)" by fastforce
  from syscall_fields(2) [OF c] c show "mprotect K a n p t = (t', r') \<Longrightarrow> pagesize t' = pagesize t" by (simp add: mprotect_def)
qed

lemma upd_frame:
  "seg_frame l s (upd_map l (\<lambda>L. L\<lparr>l_text_end := f L\<rparr>) s)" "seg_frame l s (upd_map l (\<lambda>L. L\<lparr>l_phdr := g L\<rparr>) s)"
  by (simp_all add: seg_frame_def upd_map_def seg_free_def)

lemma seg_frame_refl [simp]: "seg_frame l s s"
  by (simp add: seg_frame_def)

lemma note_segment_frame: "seg_frame l s (note_segment E l c s)"
proof -
  let ?s = "if prot c AND PROT_EXEC \<noteq> 0 then upd_map l (\<lambda>L. L\<lparr>l_text_end := l_addr L + mapend c\<rparr>) s else s"
  have "seg_frame l s ?s" by (simp add: upd_frame(1))
  moreover have "seg_frame l ?s (note_segment E l c s)"
    unfolding note_segment_def Let_def by (cases "prot c AND PROT_EXEC = 0") (simp_all add: upd_frame(2))
  ultimately show ?thesis by (rule seg_frame_trans)
qed

lemma protect_page_frame: "protect_page E a p s = oreturn s' \<Longrightarrow> seg_frame l s s'"
  by (auto simp: protect_page_def split: prod.splits if_splits intro!: seg_frame_lst dest: call_pagesize)

lemma zero_tail_frame:
  assumes "zero_tail E c z e s = oreturn s'"
  shows "seg_frame l s s'"
proof (cases "z < e")
  case True
  obtain s1 where s1: "(if prot c AND PROT_WRITE = 0 then protect_page E z (prot c OR PROT_WRITE) s else oreturn s) = oreturn s1"
      "(let s = set_rmem (fst (memset z 0 (e - z) (rmem s1))) s1
        in if prot c AND PROT_WRITE = 0 then protect_page E z (prot c) s else oreturn s) = oreturn s'"
    using assms True by (auto simp: zero_tail_def obind_eq_return)
  let ?s2 = "set_rmem (fst (memset z 0 (e - z) (rmem s1))) s1"
  have "seg_frame l s s1" using s1(1) by (auto split: if_splits intro: protect_page_frame)
  moreover have "seg_frame l s1 ?s2" by (simp add: set_rmem_def seg_frame_lst)
  moreover have "seg_frame l ?s2 s'" using s1(2) by (auto simp: Let_def split: if_splits intro: protect_page_frame)
  ultimately show ?thesis by (blast intro: seg_frame_trans)
next
  case False
  with assms show ?thesis by (simp add: zero_tail_def)
qed

lemma zero_pages_frame: "zero_pages E c z e s = oreturn s' \<Longrightarrow> seg_frame l s s'"
  by (auto simp: zero_pages_def split: if_splits prod.splits intro!: seg_frame_lst dest: call_pagesize)

lemma zero_fill_frame: "zero_fill E l c s = oreturn s' \<Longrightarrow> seg_frame l s s'"
  unfolding zero_fill_def Let_def
  by (fastforce simp: obind_eq_return split: if_splits intro: seg_frame_trans [OF zero_tail_frame zero_pages_frame])

lemma map_segment_frame: "map_segment E l fd c s = oreturn s' \<Longrightarrow> seg_frame l s s'"
  using seg_frame_lst [of "lst s" s l]
  by (auto simp: map_segment_def split: if_splits prod.splits intro!: seg_frame_lst dest: call_pagesize)

lemma loadcmd_loop_frame: "loadcmd_loop E l fd cs s = oreturn s' \<Longrightarrow> seg_frame l s s'"
proof (induction cs arbitrary: s)
  case Nil
  then show ?case using seg_frame_lst [of "lst s" s l] by simp
next
  case (Cons c cs)
  then obtain s1 s2 where "map_segment E l fd c s = oreturn s1" "zero_fill E l c (note_segment E l c s1) = oreturn s2"
      "loadcmd_loop E l fd cs s2 = oreturn s'"
    by (auto simp: obind_eq_return)
  with Cons.IH show ?case
    by (meson map_segment_frame zero_fill_frame note_segment_frame seg_frame_trans)
qed

lemma postmap_frame:
  assumes "map_object_loadcmd E l fd cs n holes True s = oreturn s'"
  shows "seg_frame l s s'"
proof -
  obtain c cs' s1 where "zero_fill E l c (note_segment E l c s) = oreturn s1" "loadcmd_loop E l fd cs' s1 = oreturn s'"
    using assms by (cases cs) (auto simp: map_object_loadcmd_def obind_eq_return)
  then show ?thesis by (meson zero_fill_frame note_segment_frame loadcmd_loop_frame seg_frame_trans)
qed

end
