(* ===== verification/Load_Image.thy ===== *)
theory Load_Image
  imports Load_Object
begin

text \<open>
  The image of a shared object: its segments as they lie in memory, described from the file alone, and the
  dynamic section inside it as \<open>parse_dynamic\<close> reads it.
\<close>

section \<open>The image\<close>

definition seg_bytes :: "byte list \<Rightarrow> addr \<Rightarrow> nat set" where
  "seg_bytes xs ph = {unat (p_vaddr (file_mem xs) ph) ..< unat (p_vaddr (file_mem xs) ph) + unat (p_memsz (file_mem xs) ph)}"

definition image_bytes :: "byte list \<Rightarrow> nat set" where
  "image_bytes xs = (\<Union>ph \<in> set (obj_loads xs). seg_bytes xs ph)"

text \<open>The byte of the image at an address, for an object that is loaded at 0.\<close>

definition obj_image :: "byte list \<Rightarrow> mem" where
  "obj_image xs x =
     (case find (\<lambda>ph. unat x \<in> seg_bytes xs ph) (obj_loads xs) of
        None \<Rightarrow> 0
      | Some ph \<Rightarrow>
          let i = unat x - unat (p_vaddr (file_mem xs) ph)
          in if i < unat (p_filesz (file_mem xs) ph) then fbyte xs (unat (p_offset (file_mem xs) ph) + i) else 0)"

definition image_at :: "mem \<Rightarrow> nat \<Rightarrow> byte list \<Rightarrow> bool" where
  "image_at m A xs \<longleftrightarrow> (\<forall>x \<in> image_bytes xs. m (ptr (A + x)) = obj_image xs (ptr x))"

lemma image_bytes_bound: "segments_ok k xs \<Longrightarrow> x \<in> image_bytes xs \<Longrightarrow> x < 2 ^ 47"
  by (fastforce simp: image_bytes_def seg_bytes_def segments_ok_def)

lemma image_bytes_len:
  assumes "segments_ok k xs" and "k \<le> 30"
  shows "image_bytes xs \<subseteq> {0 ..< page_up k (obj_len k xs)}"
proof
  fix x
  assume "x \<in> image_bytes xs"
  then obtain ph where ph: "ph \<in> set (obj_loads xs)" "x \<in> seg_bytes xs ph" by (auto simp: image_bytes_def)
  let ?c = "seg_cmd (2 ^ k) (file_mem xs) ph"
  have c: "?c \<in> set (obj_cmds k xs)" using ph(1) by (simp add: obj_cmds_def)
  note F = seg_cmd_fields [OF segments_fit [OF assms(1) _ assms(2) ph(1), of 0] refl]
  have "x < unat (allocend ?c)" using ph(2) F(4) by (simp add: seg_bytes_def)
  also have "\<dots> \<le> cmd_top k ?c" unfolding cmd_top_def by (rule order_trans [OF _ page_up_ge]) simp
  also have "\<dots> \<le> page_up k (obj_len k xs)" by (rule cmds_order [OF assms c])
  finally show "x \<in> {0 ..< page_up k (obj_len k xs)}" by simp
qed

lemma image_loaded:
  assumes "segments_ok k xs" and "\<forall>ph \<in> set (obj_loads xs). segment_loaded (fbyte xs) m (ptr A) (file_mem xs) ph"
  shows "image_at m A xs"
  unfolding image_at_def
proof
  fix x
  assume x: "x \<in> image_bytes xs"
  have u: "unat (ptr x) = x" using image_bytes_bound [OF assms(1) x] by (simp add: unat_ptr)
  obtain ph where ph: "find (\<lambda>ph. unat (ptr x) \<in> seg_bytes xs ph) (obj_loads xs) = Some ph"
    using x u by (cases "find (\<lambda>ph. unat (ptr x) \<in> seg_bytes xs ph) (obj_loads xs)") (auto simp: find_None_iff image_bytes_def)
  then have ph': "ph \<in> set (obj_loads xs)" "x \<in> seg_bytes xs ph"
    using u by (auto simp: find_Some_iff)
  define i where "i = x - unat (p_vaddr (file_mem xs) ph)"
  have x': "x = unat (p_vaddr (file_mem xs) ph) + i" "i < unat (p_memsz (file_mem xs) ph)" using ph'(2) by (auto simp: seg_bytes_def i_def)
  have a: "ptr A + p_vaddr (file_mem xs) ph + ptr i = ptr (A + x)" by (simp add: x'(1) flip: ptr_add)
  have "m (ptr (A + x)) = (if i < unat (p_filesz (file_mem xs) ph) then fbyte xs (unat (p_offset (file_mem xs) ph) + i) else 0)"
    using assms(2) ph'(1) x'(2) unfolding segment_loaded_def a [symmetric] by (metis leI)
  then show "m (ptr (A + x)) = obj_image xs (ptr x)" unfolding obj_image_def ph by (simp add: Let_def u i_def)
qed

lemma image_same_at:
  assumes "image_at m A xs" and "{x ..< x + n} \<subseteq> image_bytes xs"
  shows "same_at n m (ptr (A + x)) (obj_image xs) (ptr x)"
  unfolding same_at_def
proof (intro allI impI)
  fix i
  assume "i < n"
  then have "x + i \<in> image_bytes xs" using assms(2) by auto
  with assms(1) show "m (ptr (A + x) + ptr i) = obj_image xs (ptr x + ptr i)" by (simp add: image_at_def add.assoc)
qed

lemma image_at_unchanged:
  assumes "image_at m A xs" and "unchanged_outside S m m'" and "(+) A ` image_bytes xs \<inter> S = {}"
    and "segments_ok k xs" and "A \<le> 2 ^ 47"
  shows "image_at m' A xs"
  unfolding image_at_def
proof
  fix x
  assume x: "x \<in> image_bytes xs"
  have "unat (ptr (A + x)) = A + x" using image_bytes_bound [OF assms(4) x] assms(5) by (simp add: unat_ptr)
  then have "m' (ptr (A + x)) = m (ptr (A + x))" using assms(2,3) x by (fastforce simp: unchanged_outside_def)
  with assms(1) x show "m' (ptr (A + x)) = obj_image xs (ptr x)" by (simp add: image_at_def)
qed

text \<open>Mapping all segments of a file whose first mapping is in place.\<close>

lemma object_mapped:
  assumes mf: "maps_files (kern E) V k" and seg: "segments_ok k xs" "k \<le> 30"
    and A: "2 ^ k dvd A" "A \<le> 2 ^ 47" "l_addr (maps s l) = ptr A" and ps: "dl_pagesize s = 2 ^ k"
    and W: "mapping V fd (xs, p) M r (world (lst s))"
    and m: "\<forall>x < page_up k (obj_len k xs). rmem s (ptr (A + x)) = fbyte xs x"
  obtains s' where "map_object_loadcmd E l fd (obj_cmds k xs) n holes True s = oreturn s'"
    and "mapping V fd (xs, p) M r (world (lst s'))" and "image_at (rmem s') A xs" and "seg_frame l s s'"
    and "unchanged_outside {A ..< A + page_up k (obj_len k xs)} (rmem s) (rmem s')"
proof -
  let ?cs = "obj_cmds k xs"
  have ne: "?cs \<noteq> []" and ap: "cmds_apart k ?cs" and c0: "mapstart (hd ?cs) = 0" "mapoff (hd ?cs) = 0"
    using seg(1) by (simp_all add: segments_ok_def obj_cmds_def)
  have fp: "file_part (fbyte xs) (rmem s) A (hd ?cs)"
    unfolding file_part_def
  proof
    fix x
    assume x: "x \<in> {unat (mapstart (hd ?cs)) ..< unat (dataend (hd ?cs))}"
    have "unat (dataend (hd ?cs)) \<le> cmd_top k (hd ?cs)" unfolding cmd_top_def by (rule order_trans [OF _ page_up_ge]) simp
    also have "\<dots> \<le> page_up k (obj_len k xs)" by (rule cmds_order [OF seg]) (use ne in simp)
    finally show "rmem s (ptr (A + x)) = fbyte xs (unat (mapoff (hd ?cs)) + (x - unat (mapstart (hd ?cs))))"
      using m x by (simp add: c0)
  qed
  obtain s' where s': "map_object_loadcmd E l fd ?cs n holes True s = oreturn s'" "mapping V fd (xs, p) M r (world (lst s'))"
      "\<forall>c \<in> set ?cs. cmd_loaded (fbyte xs) (rmem s') A c" "unchanged_outside (\<Union> (cmd_range k A ` set ?cs)) (rmem s) (rmem s')"
    using map_object_loadcmd_granted [OF maps_files_grants [OF mf] A(1) ps A(3) W cmds_fit [OF seg(1) A(2) seg(2)] ap ne, of True n holes] fp
    by auto
  have "segment_loaded (fbyte xs) (rmem s') (ptr A) (file_mem xs) ph" if "ph \<in> set (obj_loads xs)" for ph
  proof (rule cmd_segment_loaded [OF segments_fit [OF seg(1) A(2) seg(2) that]])
    show "phdr_aligned (2 ^ k) (file_mem xs) ph" using seg(1) that by (simp add: segments_ok_def)
    show "cmd_loaded (fbyte xs) (rmem s') A (seg_cmd (2 ^ k) (file_mem xs) ph)" using s'(3) that by (simp add: obj_cmds_def)
  qed (use seg(2) in simp)
  then have "image_at (rmem s') A xs" using seg(1) by (intro image_loaded) auto
  moreover have "unchanged_outside {A ..< A + page_up k (obj_len k xs)} (rmem s) (rmem s')"
    by (rule unchanged_mono [OF s'(4)]) (use cmds_order [OF seg] in \<open>force simp: cmd_range_def\<close>)
  ultimately show ?thesis using s'(1,2) postmap_frame [OF s'(1)] by (intro that)
qed

section \<open>The dynamic section\<close>

text \<open>Where the last \<open>PT_DYNAMIC\<close> header puts it, its entries up to \<open>DT_NULL\<close>, and the last entry with a tag; the
  addresses are those of the image.\<close>

definition obj_map :: "byte list \<Rightarrow> link_map" where
  "obj_map xs = fold (phdr_fields (file_mem xs)) (phdrs (e_phoff (file_mem xs) 0) (obj_phnum xs)) init_link_map"

definition obj_ld :: "byte list \<Rightarrow> nat" where
  "obj_ld xs = unat (l_ld (obj_map xs))"

definition obj_dyns :: "byte list \<Rightarrow> addr list" where
  "obj_dyns xs = takeWhile (\<lambda>d. d_tag (obj_image xs) d \<noteq> 0) (dyns (ptr (obj_ld xs)) (unat (l_ldnum (obj_map xs))))"

definition obj_entry :: "byte list \<Rightarrow> nat \<Rightarrow> addr option" where
  "obj_entry xs t = last_entry (obj_image xs) t (obj_dyns xs)"

definition obj_val :: "byte list \<Rightarrow> nat \<Rightarrow> addr" where
  "obj_val xs t = (case obj_entry xs t of Some d \<Rightarrow> d_un (obj_image xs) d | None \<Rightarrow> 0)"

text \<open>A dynamic section that the loader accepts: it ends inside the image, it has a string table, no search paths and
  no filters, and it satisfies the assertions of \<open>check_dynamic_assert\<close>.\<close>

definition dynamic_ok :: "nat \<Rightarrow> byte list \<Rightarrow> bool" where
  "dynamic_ok dtn xs \<longleftrightarrow>
     obj_ld xs \<noteq> 0 \<and> length (obj_dyns xs) < unat (l_ldnum (obj_map xs)) \<and>
     {obj_ld xs ..< obj_ld xs + 16 * Suc (length (obj_dyns xs))} \<subseteq> image_bytes xs \<and> 24 \<le> dtn \<and>
     (\<forall>d \<in> set (obj_dyns xs). bad_entry (obj_image xs) d = None \<and> d_tag (obj_image xs) d \<noteq> of_nat DT_RPATH) \<and>
     obj_entry xs DT_STRTAB \<noteq> None \<and>
     (obj_entry xs DT_NEEDED \<noteq> None \<longrightarrow> obj_entry xs DT_SYMTAB \<noteq> None) \<and>
     (obj_entry xs DT_RELA \<noteq> None \<longrightarrow> obj_entry xs DT_RELAENT \<noteq> None \<and> obj_val xs DT_RELAENT = 24 \<and>
        obj_entry xs DT_RELASZ \<noteq> None \<and> obj_entry xs DT_SYMTAB \<noteq> None) \<and>
     (obj_entry xs DT_PLTGOT \<noteq> None \<longrightarrow> obj_entry xs DT_PLTRELSZ \<noteq> None \<and> obj_entry xs DT_PLTREL \<noteq> None \<and>
        obj_val xs DT_PLTREL = of_nat DT_RELA) \<and>
     (obj_entry xs DT_SYMENT \<noteq> None \<longrightarrow> obj_val xs DT_SYMENT = 24) \<and>
     (obj_entry xs DT_HASH \<noteq> None \<longrightarrow> {unat (obj_val xs DT_HASH) ..< unat (obj_val xs DT_HASH) + 4} \<subseteq> image_bytes xs)"

text \<open>What \<open>parse_dynamic\<close> records for the object at \<open>A\<close>.\<close>

definition obj_info :: "nat \<Rightarrow> byte list \<Rightarrow> nat \<Rightarrow> nat \<Rightarrow> addr" where
  "obj_info dtn xs A t = (if t < dtn then case obj_entry xs t of Some d \<Rightarrow> ptr A + d | None \<Rightarrow> NULL else NULL)"

definition with_dynamic :: "nat \<Rightarrow> byte list \<Rightarrow> nat \<Rightarrow> link_map \<Rightarrow> link_map" where
  "with_dynamic dtn xs A L =
     (let L = L\<lparr>l_info := obj_info dtn xs A\<rparr>;
          nb = load32 (obj_image xs) (obj_val xs DT_HASH);
          h = ptr A + obj_val xs DT_HASH + 8
      in if obj_entry xs DT_HASH = None then L else L\<lparr>l_nbuckets := nb, l_buckets := h, l_chain := h + 4 * ucast nb\<rparr>)"

lemma with_dynamic_fields [simp]:
  "l_info (with_dynamic dtn xs A L) = obj_info dtn xs A" "l_addr (with_dynamic dtn xs A L) = l_addr L"
  "l_ld (with_dynamic dtn xs A L) = l_ld L" "l_name (with_dynamic dtn xs A L) = l_name L" "l_next (with_dynamic dtn xs A L) = l_next L"
  "l_prev (with_dynamic dtn xs A L) = l_prev L" "l_reserved (with_dynamic dtn xs A L) = l_reserved L"
  "l_relocated (with_dynamic dtn xs A L) = l_relocated L" "l_entry (with_dynamic dtn xs A L) = l_entry L"
  by (simp_all add: with_dynamic_def Let_def)

lemma dyn_step: "d + sizeof_Dyn + ptr (16 * i) = d + ptr (16 * Suc i)"
proof -
  have "ptr (16 * Suc i) = ptr 16 + ptr (16 * i)" unfolding mult_Suc_right by (rule of_nat_add)
  then show ?thesis by (simp add: sizeof_Dyn_def add.assoc)
qed

lemma dyns_nth: "i < n \<Longrightarrow> dyns d n ! i = d + ptr (16 * i)"
proof (induction n arbitrary: d i)
  case (Suc n)
  then show ?case using dyn_step by (cases i) (simp_all del: of_nat_mult mult_Suc_right)
qed simp

lemma length_dyns [simp]: "length (dyns d n) = n"
  by (induction n arbitrary: d) auto

lemma dyns_take: "i \<le> n \<Longrightarrow> take i (dyns d n) = dyns d i"
  by (intro nth_equalityI) (simp_all add: dyns_nth)

lemma dyn_section_nth: "dyn_section m d n \<longleftrightarrow> (\<forall>i < n. d_tag m (d + ptr (16 * i)) \<noteq> 0) \<and> d_tag m (d + ptr (16 * n)) = 0"
proof (induction n arbitrary: d)
  case (Suc n)
  show ?case unfolding dyn_section.simps Suc.IH dyn_step by (auto simp: All_less_Suc2 simp del: of_nat_mult mult_Suc_right)
qed simp

lemma obj_dyns_eq: "obj_dyns xs = dyns (ptr (obj_ld xs)) (length (obj_dyns xs))"
proof -
  have le: "length (obj_dyns xs) \<le> unat (l_ldnum (obj_map xs))"
    unfolding obj_dyns_def by (rule order_trans [OF length_takeWhile_le]) simp
  show ?thesis using dyns_take [OF le, of "ptr (obj_ld xs)"] unfolding obj_dyns_def by (metis takeWhile_eq_take)
qed

lemma obj_dyns_section:
  assumes "dynamic_ok dtn xs"
  shows "dyn_section (obj_image xs) (ptr (obj_ld xs)) (length (obj_dyns xs))"
proof -
  let ?ds = "dyns (ptr (obj_ld xs)) (unat (l_ldnum (obj_map xs)))"
  have lt: "length (obj_dyns xs) < length ?ds" using assms by (simp add: dynamic_ok_def)
  have "d_tag (obj_image xs) (?ds ! i) \<noteq> 0" if i: "i < length (obj_dyns xs)" for i
  proof -
    have "obj_dyns xs ! i = ?ds ! i" using i unfolding obj_dyns_def by (rule takeWhile_nth)
    moreover have "obj_dyns xs ! i \<in> set (obj_dyns xs)" using i by simp
    ultimately show ?thesis unfolding obj_dyns_def by (auto dest: set_takeWhileD)
  qed
  moreover have "d_tag (obj_image xs) (?ds ! length (obj_dyns xs)) = 0"
    using nth_length_takeWhile [of "\<lambda>d. d_tag (obj_image xs) d \<noteq> 0" ?ds] lt unfolding obj_dyns_def by simp
  ultimately show ?thesis using lt by (simp add: dyn_section_nth dyns_nth)
qed

text \<open>The entries of a loaded object are those of its image, moved.\<close>

lemma entry_moved:
  assumes im: "image_at m A xs" and ok: "dynamic_ok dtn xs" and i: "i \<le> length (obj_dyns xs)"
  shows "d_tag m (ptr (A + (obj_ld xs + 16 * i))) = d_tag (obj_image xs) (ptr (obj_ld xs + 16 * i))"
    and "d_un m (ptr (A + (obj_ld xs + 16 * i))) = d_un (obj_image xs) (ptr (obj_ld xs + 16 * i))"
proof -
  have r: "{obj_ld xs + 16 * i ..< obj_ld xs + 16 * i + 16} \<subseteq> image_bytes xs"
    using ok i by (force simp: dynamic_ok_def)
  note same = image_same_at [OF im r]
  show "d_tag m (ptr (A + (obj_ld xs + 16 * i))) = d_tag (obj_image xs) (ptr (obj_ld xs + 16 * i))"
    and "d_un m (ptr (A + (obj_ld xs + 16 * i))) = d_un (obj_image xs) (ptr (obj_ld xs + 16 * i))"
    unfolding d_tag_def d_un_def using same_at_load64 [OF same, of 0] same_at_load64 [OF same, of 8] by simp_all
qed

lemma entry_nth:
  assumes "d \<in> set (obj_dyns xs)"
  obtains i where "i < length (obj_dyns xs)" and "d = ptr (obj_ld xs + 16 * i)"
proof -
  obtain i where i: "i < length (obj_dyns xs)" "d = obj_dyns xs ! i" using assms by (auto simp: in_set_conv_nth)
  have "obj_dyns xs ! i = dyns (ptr (obj_ld xs)) (length (obj_dyns xs)) ! i" using obj_dyns_eq [of xs] by simp
  also have "\<dots> = ptr (obj_ld xs + 16 * i)" unfolding dyns_nth [OF i(1)] by (rule ptr_add)
  finally show ?thesis using that [OF i(1)] i(2) by simp
qed

lemma entry_same:
  assumes im: "image_at m A xs" and ok: "dynamic_ok dtn xs" and d: "d \<in> set (obj_dyns xs)"
  shows "d_tag m (ptr A + d) = d_tag (obj_image xs) d" and "d_un m (ptr A + d) = d_un (obj_image xs) d"
proof -
  obtain i where i: "i < length (obj_dyns xs)" and d': "d = ptr (obj_ld xs + 16 * i)" by (rule entry_nth [OF d])
  have pa: "ptr A + d = ptr (A + (obj_ld xs + 16 * i))" by (simp only: d' ptr_add)
  show "d_tag m (ptr A + d) = d_tag (obj_image xs) d" "d_un m (ptr A + d) = d_un (obj_image xs) d"
    using entry_moved [OF im ok less_imp_le [OF i]] unfolding pa by (simp_all only: d')
qed

lemma dyns_shift: "dyns (ptr A + d) n = map ((+) (ptr A)) (dyns d n)"
  by (induction n arbitrary: d) (simp_all add: add.assoc)

lemma find_map_cong: "(\<And>x. x \<in> set xs \<Longrightarrow> P (f x) \<longleftrightarrow> Q x) \<Longrightarrow> find P (map f xs) = map_option f (find Q xs)"
  by (induction xs) auto

lemma section_moved:
  assumes im: "image_at m A xs" and ok: "dynamic_ok dtn xs"
  shows "dyn_section m (ptr (A + obj_ld xs)) (length (obj_dyns xs))"
    and "dyns (ptr (A + obj_ld xs)) (length (obj_dyns xs)) = map ((+) (ptr A)) (obj_dyns xs)"
    and "find (\<lambda>d. bad_entry m d \<noteq> None) (map ((+) (ptr A)) (obj_dyns xs)) = None"
    and "last_entry m t (map ((+) (ptr A)) (obj_dyns xs)) = map_option ((+) (ptr A)) (obj_entry xs t)"
proof -
  have s: "d_tag (obj_image xs) (ptr (obj_ld xs) + ptr (16 * i)) = d_tag m (ptr (A + obj_ld xs) + ptr (16 * i))" if "i \<le> length (obj_dyns xs)" for i
    using entry_moved(1) [OF im ok that] by (simp only: ptr_add add.assoc)
  show "dyn_section m (ptr (A + obj_ld xs)) (length (obj_dyns xs))"
    using obj_dyns_section [OF ok] s unfolding dyn_section_nth by (simp del: ptr_add of_nat_mult)
  show "dyns (ptr (A + obj_ld xs)) (length (obj_dyns xs)) = map ((+) (ptr A)) (obj_dyns xs)"
    using dyns_shift [of A "ptr (obj_ld xs)" "length (obj_dyns xs)"] obj_dyns_eq [of xs] by simp
  have t: "dyn_tag m (ptr A + d) = dyn_tag (obj_image xs) d" if "d \<in> set (obj_dyns xs)" for d
    using entry_same(1) [OF im ok that] by (simp add: dyn_tag_def)
  have "\<forall>d \<in> set (obj_dyns xs). bad_entry (obj_image xs) d = None" using ok by (simp add: dynamic_ok_def)
  then have "\<forall>d \<in> set (obj_dyns xs). bad_entry m (ptr A + d) = None" using t by (auto simp: bad_entry_def split: if_splits)
  then show "find (\<lambda>d. bad_entry m d \<noteq> None) (map ((+) (ptr A)) (obj_dyns xs)) = None" by (auto simp: find_None_iff)
  show "last_entry m t (map ((+) (ptr A)) (obj_dyns xs)) = map_option ((+) (ptr A)) (obj_entry xs t)"
    unfolding last_entry_def obj_entry_def rev_map by (rule find_map_cong) (simp add: t)
qed

text \<open>The slots of \<open>l_info\<close>.\<close>

lemma obj_entry_in: "obj_entry xs t = Some d \<Longrightarrow> d \<in> set (obj_dyns xs)"
  unfolding obj_entry_def last_entry_def find_Some_iff by (metis length_rev nth_mem set_rev)

lemma obj_info_slot:
  assumes "segments_ok k xs" and ok: "dynamic_ok dtn xs" and A: "0 < A" "A \<le> 2 ^ 47" and "t < dtn"
  shows "obj_info dtn xs A t = NULL \<longleftrightarrow> obj_entry xs t = None"
proof (cases "obj_entry xs t")
  case (Some d)
  obtain i where i: "i < length (obj_dyns xs)" and d: "d = ptr (obj_ld xs + 16 * i)" by (rule entry_nth [OF obj_entry_in [OF Some]])
  have "obj_ld xs + 16 * i \<in> image_bytes xs" using ok i by (force simp: dynamic_ok_def)
  then have "obj_ld xs + 16 * i < 2 ^ 47" by (rule image_bytes_bound [OF assms(1)])
  then have "A + (obj_ld xs + 16 * i) < 2 ^ 64" using A(2) by simp
  then have "ptr (A + (obj_ld xs + 16 * i)) \<noteq> 0" using A(1) by (subst ptr_eq_0) auto
  moreover have "ptr A + d = ptr (A + (obj_ld xs + 16 * i))" by (simp only: d ptr_add)
  ultimately show ?thesis using Some assms(5) by (simp add: obj_info_def)
qed (simp add: obj_info_def)

lemma obj_info_value:
  assumes "image_at m A xs" and "dynamic_ok dtn xs" and "t < dtn" and "obj_entry xs t \<noteq> None"
  shows "d_un m (obj_info dtn xs A t) = obj_val xs t"
  using assms(3,4) entry_same(2) [OF assms(1,2)] obj_entry_in by (auto simp: obj_info_def obj_val_def)

section \<open>Reading the dynamic section\<close>

lemma rpath_scan_none:
  assumes "dyn_section (rmem s) d n" and "\<forall>x \<in> set (dyns d n). d_tag (rmem s) x \<noteq> of_nat DT_RPATH"
  shows "rpath_scan E strtab d s = oreturn s"
  using assms by (induction n arbitrary: d) (subst rpath_scan.simps, simp)+

lemma check_dynamic_object:
  assumes seg: "segments_ok k xs" and ok: "dynamic_ok dtn xs" and im: "image_at m A xs" and A: "0 < A" "A \<le> 2 ^ 47"
    and L: "l_info L = obj_info dtn xs A" "l_addr L = ptr A"
    and h: "obj_entry xs DT_HASH \<noteq> None \<Longrightarrow> l_buckets L \<noteq> NULL \<and> l_chain L \<noteq> NULL"
  shows "check_dynamic_assert m L = oreturn ()"
proof -
  have n: "24 \<le> dtn" using ok by (simp add: dynamic_ok_def)
  have v: "D_VALID L t \<longleftrightarrow> obj_entry xs t \<noteq> None" if "t < 24" for t
    using obj_info_slot [OF seg ok A, of t] that n by (simp add: D_VALID_def L)
  have val: "D_VAL m L t = oreturn (obj_val xs t)" if "t < 24" "obj_entry xs t \<noteq> None" for t
    using v [OF that(1)] that obj_info_value [OF im ok, of t] n by (simp add: D_VALID_def D_VAL_def L)
  have pv: "D_PTR m L t = oreturn (obj_val xs t + ptr A)" if "t < 24" "obj_entry xs t \<noteq> None" for t
    using v [OF that(1)] that obj_info_value [OF im ok, of t] n by (simp add: D_VALID_def D_PTR_def L)
  have "(if D_VALID L DT_NEEDED then oassert (l_info L DT_SYMTAB \<noteq> NULL) else oreturn ()) = oreturn ()"
    using v [of DT_NEEDED] v [of DT_SYMTAB] ok by (auto simp: DT_defs dynamic_ok_def D_VALID_def)
  moreover have "(if D_VALID L DT_RELA then
      obind (D_PTR m L DT_RELAENT) (\<lambda>p.
      obind (if p \<noteq> 0 then obind (D_VAL m L DT_RELAENT) (\<lambda>v. oassert (v = sizeof_Rela)) else oreturn ()) (\<lambda>_.
      obind (oassert (D_VALID L DT_RELASZ)) (\<lambda>_.
      obind (oassert (D_VALID L DT_SYMTAB)) (\<lambda>_. oassert (D_VALID L DT_STRTAB)))))
    else oreturn ()) = oreturn ()"
    using v [of DT_RELA] v [of DT_RELAENT] v [of DT_RELASZ] v [of DT_SYMTAB] v [of DT_STRTAB] val [of DT_RELAENT] pv [of DT_RELAENT] ok
    by (simp add: dynamic_ok_def DT_defs sizeof_Rela_def)
  moreover have "(if D_VALID L DT_PLTGOT then
      obind (oassert (D_VALID L DT_PLTREL)) (\<lambda>_.
      obind (oassert (D_VALID L DT_PLTRELSZ)) (\<lambda>_.
      obind (oassert (D_VALID L DT_PLTREL)) (\<lambda>_.
      obind (D_VAL m L DT_PLTREL) (\<lambda>v. oassert (v = of_nat DT_RELA)))))
    else oreturn ()) = oreturn ()"
    using v [of DT_PLTGOT] v [of DT_PLTREL] v [of DT_PLTRELSZ] val [of DT_PLTREL] ok by (simp add: dynamic_ok_def DT_defs)
  moreover have "(if D_VALID L DT_SYMENT then obind (D_VAL m L DT_SYMENT) (\<lambda>v. oassert (v = sizeof_Sym)) else oreturn ()) = oreturn ()"
    using v [of DT_SYMENT] val [of DT_SYMENT] ok by (simp add: dynamic_ok_def DT_defs sizeof_Sym_def)
  moreover have "(if D_VALID L DT_HASH then obind (oassert (l_buckets L \<noteq> NULL)) (\<lambda>_. oassert (l_chain L \<noteq> NULL)) else oreturn ()) = oreturn ()"
    using v [of DT_HASH] h by (simp add: DT_defs)
  ultimately show ?thesis unfolding check_dynamic_assert_def by simp
qed

text \<open>The hash table of a loaded object.\<close>

lemma hash_moved:
  assumes seg: "segments_ok k xs" and ok: "dynamic_ok dtn xs" and im: "image_at m A xs" and A: "0 < A" "A \<le> 2 ^ 47"
    and h: "obj_entry xs DT_HASH \<noteq> None"
  shows "load32 m (ptr A + obj_val xs DT_HASH) = load32 (obj_image xs) (obj_val xs DT_HASH)"
    and "l_buckets (with_dynamic dtn xs A L) \<noteq> NULL" and "l_chain (with_dynamic dtn xs A L) \<noteq> NULL"
proof -
  define hv where "hv = unat (obj_val xs DT_HASH)"
  have v: "obj_val xs DT_HASH = ptr hv" by (simp add: hv_def)
  have r: "{hv ..< hv + 4} \<subseteq> image_bytes xs" using ok h by (simp add: dynamic_ok_def hv_def)
  then have b: "hv < 2 ^ 47" using image_bytes_bound [OF seg subsetD, OF r] by simp
  have pa: "ptr A + ptr hv = ptr (A + hv)" by (rule ptr_add)
  show "load32 m (ptr A + obj_val xs DT_HASH) = load32 (obj_image xs) (obj_val xs DT_HASH)"
    unfolding v pa by (rule same_at_loads(2) [OF image_same_at [OF im r]])
  let ?nb = "load32 (obj_image xs) (obj_val xs DT_HASH)"
  have nb: "unat ?nb < 2 ^ 32" using unsigned_less [of ?nb] by simp
  have "(ucast ?nb :: addr) = ptr (unat ?nb)" by simp
  then have c: "ptr A + obj_val xs DT_HASH + 8 + 4 * ucast ?nb = ptr (A + hv + 8 + 4 * unat ?nb)"
    and bu: "ptr A + obj_val xs DT_HASH + 8 = ptr (A + hv + 8)"
    by (simp_all add: v flip: ptr_add)
  obtain e where e: "obj_entry xs DT_HASH = Some e" using h by blast
  have "ptr (A + hv + 8) \<noteq> NULL" by (subst ptr_eq_0) (use A b in auto)
  with e bu show "l_buckets (with_dynamic dtn xs A L) \<noteq> NULL" by (simp add: with_dynamic_def Let_def)
  have "ptr (A + hv + 8 + 4 * unat ?nb) \<noteq> NULL" by (subst ptr_eq_0) (use A b nb in auto)
  with e c show "l_chain (with_dynamic dtn xs A L) \<noteq> NULL" by (simp add: with_dynamic_def Let_def)
qed

lemma parse_dynamic_object:
  assumes seg: "segments_ok k xs" and ok: "dynamic_ok (dt_num E) xs" and im: "image_at (rmem s) A xs" and A: "0 < A" "A \<le> 2 ^ 47"
    and L: "l_addr (maps s l) = ptr A" "l_ld (maps s l) = ptr (A + obj_ld xs)"
      "l_info (maps s l) \<in> {\<lambda>_. NULL, obj_info (dt_num E) xs A}"
  shows "parse_dynamic E l s = oreturn (upd_map l (with_dynamic (dt_num E) xs A) s)"
proof -
  let ?dtn = "dt_num E" and ?s = "upd_map l (\<lambda>L. L\<lparr>l_info := obj_info (dt_num E) xs A\<rparr>) s"
  note M = section_moved [OF im ok]
  have "obj_ld xs \<in> image_bytes xs" using ok by (force simp: dynamic_ok_def)
  then have "obj_ld xs < 2 ^ 47" by (rule image_bytes_bound [OF seg])
  then have "A + obj_ld xs < 2 ^ 64" using A(2) by simp
  then have ld: "ptr (A + obj_ld xs) \<noteq> NULL" using A(1) by (subst ptr_eq_0) auto
  have "dyn_scan E (rmem s) (ptr (A + obj_ld xs)) (l_info (maps s l)) = oreturn (obj_info ?dtn xs A)"
    unfolding dyn_scan_list [OF M(1)] M(2,3,4) using L(3) by (auto simp: obj_info_def fun_eq_iff split: option.split)
  moreover have str: "obj_entry xs DT_STRTAB \<noteq> None" "DT_STRTAB < ?dtn" using ok by (simp_all add: dynamic_ok_def DT_STRTAB_def)
  then have "D_PTR (rmem ?s) (maps ?s l) DT_STRTAB = oreturn (obj_val xs DT_STRTAB + ptr A)"
    using obj_info_slot [OF seg ok A, of DT_STRTAB] obj_info_value [OF im ok, of DT_STRTAB] L(1) by (simp add: D_PTR_def upd_map_def)
  moreover have "rpath_scan E (obj_val xs DT_STRTAB + ptr A) (ptr (A + obj_ld xs)) ?s = oreturn ?s"
  proof (rule rpath_scan_none)
    show "dyn_section (rmem ?s) (ptr (A + obj_ld xs)) (length (obj_dyns xs))" using M(1) by (simp add: upd_map_def)
    show "\<forall>x \<in> set (dyns (ptr (A + obj_ld xs)) (length (obj_dyns xs))). d_tag (rmem ?s) x \<noteq> of_nat DT_RPATH"
      unfolding M(2) using ok entry_same(1) [OF im ok] by (auto simp: dynamic_ok_def upd_map_def)
  qed
  moreover have hash: "setup_hash (rmem ?s) (maps ?s l) = oreturn (with_dynamic ?dtn xs A (maps s l))"
  proof (cases "obj_entry xs DT_HASH = None")
    case True
    then show ?thesis
      using obj_info_slot [OF seg ok A, of DT_HASH] str(2)
      by (simp add: setup_hash_def D_VALID_def with_dynamic_def upd_map_def DT_defs)
  next
    case False
    have t: "DT_HASH < ?dtn" using str(2) by (simp add: DT_defs)
    have nn: "obj_info ?dtn xs A DT_HASH \<noteq> NULL" using obj_info_slot [OF seg ok A t] False by simp
    have "D_PTR (rmem ?s) (maps ?s l) DT_HASH = oreturn (ptr A + obj_val xs DT_HASH)"
      using nn obj_info_value [OF im ok t False] by (simp add: D_PTR_def upd_map_def L(1) add.commute)
    moreover have "D_VALID (maps ?s l) DT_HASH" using nn by (simp add: D_VALID_def upd_map_def)
    moreover have "rmem ?s = rmem s" "maps ?s l = (maps s l)\<lparr>l_info := obj_info ?dtn xs A\<rparr>" by (simp_all add: upd_map_def)
    moreover obtain e where "obj_entry xs DT_HASH = Some e" using False by blast
    ultimately show ?thesis
      using hash_moved(1) [OF seg ok im A False] by (simp add: setup_hash_def with_dynamic_def Let_def)
  qed
  moreover have "check_dynamic_assert (rmem ?s) (with_dynamic ?dtn xs A (maps s l)) = oreturn ()"
    using check_dynamic_object [OF seg ok im A, of "with_dynamic ?dtn xs A (maps s l)"] hash_moved(2,3) [OF seg ok im A] L(1)
    by (simp add: upd_map_def)
  ultimately show ?thesis
    using ld by (simp add: parse_dynamic_def L(1,2) Let_def) (simp add: upd_map_def L(1,2))
qed

end
