(* ===== verification/Load_Shared.thy ===== *)
theory Load_Shared
  imports Load_Image
begin

text \<open>
  Loading a shared object from an open file: \<open>map_object_fd\<close>, from the link map it allocates to the dynamic
  section it has read.
\<close>

section \<open>The pieces\<close>

definition object_ok :: "nat \<Rightarrow> nat \<Rightarrow> byte list \<Rightarrow> bool" where
  "object_ok dtn k xs \<longleftrightarrow> headers_ok xs \<and> segments_ok k xs \<and> dynamic_ok dtn xs"

text \<open>A link map describes the object of the file \<open>xs\<close>, loaded at \<open>A\<close>.\<close>

definition object_at :: "nat \<Rightarrow> byte list \<Rightarrow> mem \<Rightarrow> link_map \<Rightarrow> nat \<Rightarrow> bool" where
  "object_at dtn xs m L A \<longleftrightarrow> image_at m A xs \<and> l_addr L = ptr A \<and> l_ld L = ptr (A + obj_ld xs) \<and> l_info L = obj_info dtn xs A \<and>
     l_entry L = e_entry (file_mem xs) 0 \<and>
     (obj_entry xs DT_HASH \<noteq> None \<longrightarrow>
        l_nbuckets L = load32 (obj_image xs) (obj_val xs DT_HASH) \<and> l_buckets L = ptr A + obj_val xs DT_HASH + 8 \<and>
        l_chain L = l_buckets L + 4 * ucast (l_nbuckets L))"

lemma malloc_inv_step:
  assumes "malloc_inv K mapped ps h F L t" and u: "unchanged_outside S (smem t) (smem t')"
    and "S \<inter> (F \<union> {h ..< h + 8} \<union> live_bytes L) = {}" and "mapped (world t) \<subseteq> mapped (world t')" and "pagesize t' = pagesize t"
  shows "malloc_inv K mapped ps h F L t'"
proof -
  note I = malloc_invD [OF assms(1)]
  have "heap_owns h (smem t') F" using assms(3) by (intro hs.owns_frame [OF I(3) u]) blast
  moreover have "live_ok L (smem t')" using assms(3) by (intro live_ok_frame [OF I(4) u]) blast
  ultimately show ?thesis using I assms(4,5) unfolding malloc_inv_def by auto
qed

text \<open>The fields that program headers do not set.\<close>

lemma phdr_fields_other [simp]:
  "l_name (phdr_fields m ph L) = l_name L" "l_next (phdr_fields m ph L) = l_next L" "l_prev (phdr_fields m ph L) = l_prev L"
  "l_reserved (phdr_fields m ph L) = l_reserved L" "l_info (phdr_fields m ph L) = l_info L" "l_entry (phdr_fields m ph L) = l_entry L"
  "l_relocated (phdr_fields m ph L) = l_relocated L"
  by (simp_all add: phdr_fields_def)

lemma fold_phdr_fields_other [simp]:
  "l_name (fold (phdr_fields m) hs L) = l_name L" "l_next (fold (phdr_fields m) hs L) = l_next L" "l_prev (fold (phdr_fields m) hs L) = l_prev L"
  "l_reserved (fold (phdr_fields m) hs L) = l_reserved L" "l_info (fold (phdr_fields m) hs L) = l_info L"
  "l_entry (fold (phdr_fields m) hs L) = l_entry L" "l_relocated (fold (phdr_fields m) hs L) = l_relocated L"
  by (induction hs arbitrary: L) (simp_all only: fold_simps phdr_fields_other)

lemma fold_phdr_fields_ld: "l_ld L = l_ld L' \<Longrightarrow> l_ld (fold (phdr_fields m) hs L) = l_ld (fold (phdr_fields m) hs L')"
proof (induction hs arbitrary: L L')
  case (Cons h hs)
  have "l_ld (phdr_fields m h L) = l_ld (phdr_fields m h L')" using Cons.prems by (simp add: phdr_fields_def)
  from Cons.IH [OF this] show ?case by (simp only: fold_simps)
qed simp

lemma parse_phdr_file:
  assumes "same_at (56 * obj_phnum xs) m q (file_mem xs) (e_phoff (file_mem xs) 0)" and "segments_ok k xs"
    and "unat (l_phnum L) = obj_phnum xs"
  shows "parse_phdr (2 ^ k) m L q = oreturn (fold (phdr_fields (file_mem xs)) (phdrs (e_phoff (file_mem xs) 0) (obj_phnum xs)) L,
     obj_cmds k xs, has_gap (obj_cmds k xs))"
proof -
  note P = phdrs_same [OF assms(1)]
  have "\<forall>p \<in> set (filter (is_load m) (phdrs q (obj_phnum xs))). phdr_aligned (2 ^ k) m p"
    unfolding P(2) using assms(2) by (simp add: segments_ok_def obj_loads_def)
  then show ?thesis
    using parse_phdr_loop_eq [of "2 ^ k" m "obj_phnum xs" q L "[]"] P(1) [of "2 ^ k"] P(3)
    by (simp add: parse_phdr_def assms(3) obj_cmds_def obj_loads_def Let_def)
qed

text \<open>Mapping the object and completing its link map, once the headers are known.\<close>

definition finish_map :: "addr \<Rightarrow> addr \<Rightarrow> 'w rtld \<Rightarrow> 'w rtld" where
  "finish_map l realname = upd_map l (\<lambda>L. L\<lparr>l_name := realname,
     l_ld := (if l_ld L \<noteq> NULL then l_ld L + l_addr L else l_ld L),
     l_phdr := (if l_phdr L \<noteq> NULL then l_phdr L + l_addr L else l_phdr L)\<rparr>)"

lemma map_and_parse:
  assumes mf: "maps_files (kern E) V k" and k: "k \<le> 30" and ok: "segments_ok k xs" "dynamic_ok (dt_num E) xs"
    and op: "opened V (world (lst s)) fd = Some (xs, p)" and rm: "page_up k (obj_len k xs) \<le> room V (world (lst s))"
    and ps: "dl_pagesize s = 2 ^ k" and L: "l_ld (maps s l) = l_ld (obj_map xs)" "l_info (maps s l) = (\<lambda>_. NULL)"
  obtains s1 s2 s3 A where "reserve_dyn E l fd (obj_cmds k xs) (ptr (obj_len k xs)) holes s = s1"
    and "map_object_loadcmd E l fd (obj_cmds k xs) (ptr (obj_len k xs)) holes True s1 = oreturn s2"
    and "parse_dynamic E l (finish_map l r s2) = oreturn s3"
    and "0 < A" and "A + page_up k (obj_len k xs) \<le> 2 ^ 47" and "{A ..< A + page_up k (obj_len k xs)} \<inter> vmapped V (world (lst s)) = {}"
    and "mapping V fd (xs, p) (vmapped V (world (lst s)) \<union> {A ..< A + page_up k (obj_len k xs)})
      (room V (world (lst s)) - page_up k (obj_len k xs)) (world (lst s3))"
    and "unchanged_outside {A ..< A + page_up k (obj_len k xs)} (rmem s) (rmem s3)" and "pagesize (lst s3) = pagesize (lst s)"
    and "image_at (rmem s3) A xs" and "maps s3 l = with_dynamic (dt_num E) xs A (maps (finish_map l r s2) l)"
    and "seg_frame l (upd_map l (\<lambda>L. L\<lparr>l_addr := ptr A\<rparr>) s) s2" and "\<forall>x. x \<noteq> l \<longrightarrow> maps s3 x = maps s x"
    and "namespace s3 = namespace s" and "rpath s3 = rpath s" and "dl_pagesize s3 = dl_pagesize s"
proof -
  let ?n = "obj_len k xs" and ?cs = "obj_cmds k xs"
  have n: "0 < ?n" and c0: "mapstart (hd ?cs) = 0" using ok(1) by (simp_all add: segments_ok_def)
  let ?W = "\<lambda>A. mapping V fd (xs, p) (vmapped V (world (lst s)) \<union> {A ..< A + page_up k ?n}) (room V (world (lst s)) - page_up k ?n)"
  obtain t A where s1: "reserve_dyn E l fd ?cs (ptr ?n) holes s =
        upd_map l (\<lambda>L. L\<lparr>l_map_start := ptr A, l_map_end := ptr (A + ?n), l_addr := ptr A, l_contiguous := True\<rparr>) (s\<lparr>lst := t\<rparr>)"
    and m1: "smem t = (\<lambda>x. if unat x \<in> {A ..< A + page_up k ?n} then fbyte xs (unat x - A) else rmem s x)"
    and A: "0 < A" "2 ^ k dvd A" "A + page_up k ?n \<le> 2 ^ 47" "{A ..< A + page_up k ?n} \<inter> vmapped V (world (lst s)) = {}"
    and w1: "?W A (world t)" and p1: "pagesize t = pagesize (lst s)"
    by (rule reserve_file [OF mf op n rm c0])
  define s1 where "s1 = upd_map l (\<lambda>L. L\<lparr>l_map_start := ptr A, l_map_end := ptr (A + ?n), l_addr := ptr A, l_contiguous := True\<rparr>) (s\<lparr>lst := t\<rparr>)"
  have A': "A \<le> 2 ^ 47" using A(3) by simp
  have f1: "l_addr (maps s1 l) = ptr A" "dl_pagesize s1 = 2 ^ k" "?W A (world (lst s1))"
    using ps w1 by (simp_all add: s1_def upd_map_def)
  have c1: "\<forall>x < page_up k ?n. rmem s1 (ptr (A + x)) = fbyte xs x"
  proof (intro allI impI)
    fix x
    assume "x < page_up k ?n"
    moreover from this have "unat (ptr (A + x)) = A + x" using A(3) by (simp add: unat_ptr)
    ultimately show "rmem s1 (ptr (A + x)) = fbyte xs x" by (simp add: s1_def upd_map_def m1)
  qed
  obtain s2 where s2: "map_object_loadcmd E l fd ?cs (ptr ?n) holes True s1 = oreturn s2" "?W A (world (lst s2))"
      "image_at (rmem s2) A xs" "seg_frame l s1 s2" "unchanged_outside {A ..< A + page_up k ?n} (rmem s1) (rmem s2)"
    by (rule object_mapped [OF mf ok(1) k A(2) A' f1 c1])
  have fr: "seg_frame l (upd_map l (\<lambda>L. L\<lparr>l_addr := ptr A\<rparr>) s) s2"
    by (rule seg_frame_trans [OF _ s2(4)]) (simp add: seg_frame_def s1_def upd_map_def seg_free_def p1)
  note FR = fr [unfolded seg_frame_def]
  have l2: "l_addr (maps s2 l) = ptr A" "l_ld (maps s2 l) = l_ld (obj_map xs)" "l_info (maps s2 l) = (\<lambda>_. NULL)"
    using arg_cong [OF FR [THEN conjunct1], of l_addr] arg_cong [OF FR [THEN conjunct1], of l_ld]
      arg_cong [OF FR [THEN conjunct1], of l_info] L
    by (simp_all add: seg_free_def upd_map_def)
  have ldn: "l_ld (obj_map xs) \<noteq> NULL" using ok(2) by (auto simp: dynamic_ok_def obj_ld_def)
  have s2m: "image_at (rmem (finish_map l r s2)) A xs" using s2(3) by (simp add: finish_map_def upd_map_def)
  have "l_addr (maps (finish_map l r s2) l) = ptr A" "l_info (maps (finish_map l r s2) l) = (\<lambda>_. NULL)"
    using l2 by (simp_all add: finish_map_def upd_map_def)
  moreover have "l_ld (maps (finish_map l r s2) l) = ptr (A + obj_ld xs)"
    using l2 ldn by (simp add: finish_map_def upd_map_def obj_ld_def add.commute flip: ptr_add)
  ultimately have s3: "parse_dynamic E l (finish_map l r s2) =
      oreturn (upd_map l (with_dynamic (dt_num E) xs A) (finish_map l r s2))" (is "_ = oreturn ?s3")
    by (intro parse_dynamic_object [OF ok s2m A(1) A']) simp_all
  have fields: "lst ?s3 = lst s2" "maps ?s3 l = with_dynamic (dt_num E) xs A (maps (finish_map l r s2) l)"
      "\<forall>x. x \<noteq> l \<longrightarrow> maps ?s3 x = maps s x" "namespace ?s3 = namespace s" "rpath ?s3 = rpath s" "dl_pagesize ?s3 = dl_pagesize s"
    using FR by (simp_all add: finish_map_def upd_map_def)
  have u: "unchanged_outside {A ..< A + page_up k ?n} (rmem s) (rmem s2)"
    using s2(5) by (auto simp: unchanged_outside_def s1_def upd_map_def m1)
  have pg: "pagesize (lst s2) = pagesize (lst s)" using FR by (simp add: upd_map_def)
  show ?thesis
    by (rule that [OF _ s2(1) s3 A(1,3,4) _ _ _ _ fields(2) fr fields(3-6)]) (use s1 s2(2,3) u pg in \<open>simp_all add: fields(1) s1_def\<close>)
qed

section \<open>The whole object\<close>

text \<open>What the kernel, the allocator and the stack provide for a file of \<open>n\<close> bytes of program headers.\<close>

definition load_ready :: "'w env \<Rightarrow> 'w view \<Rightarrow> nat \<Rightarrow> nat \<Rightarrow> nat \<Rightarrow> nat \<Rightarrow> nat \<Rightarrow> nat set \<Rightarrow> blocks \<Rightarrow> 'w rtld \<Rightarrow> bool" where
  "load_ready E V k h fb pb n F L s \<longleftrightarrow>
     reads_files (kern E) V \<and> maps_files (kern E) V k \<and> gives_pages (kern E) V (2 ^ k) \<and>
     malloc_inv (kern E) (vmapped V) (2 ^ k) h F L (lst s) \<and> heap_var E = ptr h \<and>
     0 < sizeof_link_map E \<and> sizeof_link_map E < 2 ^ 32 \<and> dl_pagesize s = 2 ^ k \<and>
     head_bufs E fb pb n \<and> head_bytes fb pb n \<subseteq> vmapped V (world (lst s)) \<and>
     head_bytes fb pb n \<inter> (F \<union> {h ..< h + 8} \<union> live_bytes L) = {}"

text \<open>The bytes that may be mapped for a link map, and for a whole object.\<close>

definition link_cost :: "'w env \<Rightarrow> nat \<Rightarrow> nat" where
  "link_cost E k = unat (sizeof_link_map E) + 8 + 2 ^ k"

definition object_cost :: "'w env \<Rightarrow> nat \<Rightarrow> byte list \<Rightarrow> nat" where
  "object_cost E k xs = link_cost E k + page_up k (obj_len k xs)"

lemma create_link_map_ready:
  assumes r: "load_ready E V k h fb pb n F L s" and rm: "link_cost E k \<le> room V (world (lst s))"
  obtains t b j F' where "create_link_map E s = oreturn (upd_map (ptr (b + 8)) (\<lambda>_. init_link_map) (s\<lparr>lst := t\<rparr>), ptr (b + 8))"
    and "L b = None" and "area_ok (b, j)" and "9 \<le> j" and "F' \<union> {b ..< b + j} \<subseteq> F \<union> - vmapped V (world (lst s))"
    and "calm V (link_cost E k) (world (lst s)) (world t)"
    and "unchanged_outside (spare (vmapped V) h F (lst s)) (rmem s) (smem t)"
    and "load_ready E V k h fb pb n F' (L(b \<mapsto> j)) (upd_map (ptr (b + 8)) (\<lambda>_. init_link_map) (s\<lparr>lst := t\<rparr>))"
proof -
  define z where "z = unat (sizeof_link_map E)"
  note R = r [unfolded load_ready_def]
  have z: "sizeof_link_map E = ptr z" "0 < z" "z < 2 ^ 32" using R by (simp_all add: z_def word_less_nat_alt unat_gt_0 flip: word_neq_0_conv)
  have inv: "malloc_inv (kern E) (vmapped V) (2 ^ k) h F L (lst s)" and g: "gives_pages (kern E) V (2 ^ k)" using R by blast+
  have "2 ^ k \<le> (2 :: nat) ^ 30" using page_size(3) [OF malloc_invD(1) [OF inv]] .
  then have zb: "z + 2 ^ k + 32 < 2 ^ 64" using z(3) by simp
  have "\<not> room V (world (lst s)) < z + 8 + 2 ^ k" using rm by (simp add: link_cost_def z_def)
  with emalloc_correct [OF inv g z(2) zb] obtain t b j F' where
    2: "emalloc (kern E) (ptr h) (ptr z) (lst s) = oreturn (t, ptr (b + 8))" "L b = None" "area_ok (b, j)" "z + 8 \<le> j"
      "malloc_inv (kern E) (vmapped V) (2 ^ k) h F' (L(b \<mapsto> j)) t" "F' \<union> {b ..< b + j} \<subseteq> F \<union> - vmapped V (world (lst s))"
      "calm V (z + 8 + 2 ^ k) (world (lst s)) (world t)"
      "unchanged_outside (spare (vmapped V) h F (lst s)) (rmem s) (smem t)"
    by blast
  let ?s = "upd_map (ptr (b + 8)) (\<lambda>_. init_link_map) (s\<lparr>lst := t\<rparr>)"
  have "{b ..< b + j} \<subseteq> F \<union> - vmapped V (world (lst s))" using 2(6) by blast
  then have "head_bytes fb pb n \<inter> (F' \<union> {h ..< h + 8} \<union> live_bytes (L(b \<mapsto> j))) = {}"
    using R 2(6) by (auto simp: in_live_bytes disjoint_iff split: if_splits)
  moreover have "head_bytes fb pb n \<subseteq> vmapped V (world t)" using R 2(7) by (auto simp: calm_def)
  ultimately have "load_ready E V k h fb pb n F' (L(b \<mapsto> j)) ?s"
    using R 2(5) by (simp add: load_ready_def upd_map_def)
  moreover have "create_link_map E s = oreturn (?s, ptr (b + 8))" using R z(1) 2(1) by (simp add: create_link_map_def)
  ultimately show ?thesis using 2 z(2) by (intro that [of b t j F']) (simp_all add: link_cost_def z_def)
qed

lemma headers_parsed:
  assumes ready: "load_ready E V k h fb pb (56 * obj_phnum xs) F L s" and ok: "headers_ok xs" "segments_ok k xs"
    and op: "opened V (world (lst s)) fd = Some (xs, 0)" and l: "maps s l = init_link_map"
  obtains s2 q M p where "read_headers E l fd s = oreturn (s2, q)"
    and "parse_phdr (dl_pagesize s2) (rmem s2) (maps s2 l) q = oreturn (M, obj_cmds k xs, has_gap (obj_cmds k xs))"
    and "load_ready E V k h fb pb (56 * obj_phnum xs) F L s2" and "e_type (rmem s2) (filebuf E) = ET_DYN"
    and "vmapped V (world (lst s2)) = vmapped V (world (lst s))" and "room V (world (lst s2)) = room V (world (lst s))"
    and "opened V (world (lst s2)) fd = Some (xs, p)"
    and "unchanged_outside (head_bytes fb pb (56 * obj_phnum xs)) (rmem s) (rmem s2)"
    and "\<forall>x. x \<noteq> l \<longrightarrow> maps s2 x = maps s x" and "namespace s2 = namespace s" and "rpath s2 = rpath s"
    and "l_ld M = l_ld (obj_map xs)" and "l_info M = (\<lambda>_. NULL)" and "l_entry M = e_entry (file_mem xs) 0"
    and "l_next M = NULL" and "l_reserved M = 0" and "\<not> l_relocated M"
proof -
  let ?n = "56 * obj_phnum xs" and ?H = "head_bytes fb pb (56 * obj_phnum xs)" and ?hm = "file_mem xs"
  note R = ready [unfolded load_ready_def]
  obtain t q p where rd: "read_headers E l fd s =
        oreturn (upd_map l (\<lambda>L. L\<lparr>l_entry := e_entry ?hm 0, l_phnum := e_phnum ?hm 0\<rparr>) (s\<lparr>lst := t\<rparr>), q)"
    and sm: "same_at ?n (smem t) q ?hm (e_phoff ?hm 0)" and sf: "same_at 64 (smem t) (filebuf E) ?hm 0"
    and u: "unchanged_outside ?H (rmem s) (smem t)" and p: "pagesize t = pagesize (lst s)"
    and v: "vmapped V (world t) = vmapped V (world (lst s))" "room V (world t) = room V (world (lst s))"
      "opened V (world t) fd = Some (xs, p)"
    by (rule read_headers_file [OF _ op _ ok(1)]) (use R in auto)
  define s2 where "s2 = upd_map l (\<lambda>L. L\<lparr>l_entry := e_entry ?hm 0, l_phnum := e_phnum ?hm 0\<rparr>) (s\<lparr>lst := t\<rparr>)"
  let ?L2 = "init_link_map\<lparr>l_entry := e_entry ?hm 0, l_phnum := e_phnum ?hm 0\<rparr>"
  have s2: "lst s2 = t" "maps s2 l = ?L2" "dl_pagesize s2 = 2 ^ k" "namespace s2 = namespace s" "rpath s2 = rpath s"
      "\<forall>x. x \<noteq> l \<longrightarrow> maps s2 x = maps s x"
    using R l by (simp_all add: s2_def upd_map_def)
  let ?M = "fold (phdr_fields ?hm) (phdrs (e_phoff ?hm 0) (obj_phnum xs)) ?L2"
  have M: "l_ld ?M = l_ld (obj_map xs)" unfolding obj_map_def by (rule fold_phdr_fields_ld) simp
  have "parse_phdr (2 ^ k) (smem t) ?L2 q = oreturn (?M, obj_cmds k xs, has_gap (obj_cmds k xs))"
    by (rule parse_phdr_file [OF sm ok(2)]) (simp add: obj_phnum_def)
  moreover have "malloc_inv (kern E) (vmapped V) (2 ^ k) h F L t"
    by (rule malloc_inv_step [of _ _ _ _ _ _ "lst s", OF _ u]) (use R p v(1) in auto)
  then have "load_ready E V k h fb pb ?n F L s2" using R v(1) by (simp add: load_ready_def s2)
  moreover have "e_type (smem t) (filebuf E) = ET_DYN" using ehdr_same(1) [OF sf] ok(1) by (simp add: headers_ok_def)
  ultimately show ?thesis
    using rd u v M s2 by (intro that [of s2 q ?M p]) (simp_all add: s2_def [symmetric] init_link_map_def)
qed

lemma finished_object:
  assumes fr: "seg_frame l (upd_map l (\<lambda>L. L\<lparr>l_addr := ptr A\<rparr>) s) s'" and im: "image_at m A xs" and ok: "dynamic_ok dtn xs"
    and M: "l_ld (maps s l) = l_ld (obj_map xs)" "l_entry (maps s l) = e_entry (file_mem xs) 0"
    and X: "X = with_dynamic dtn xs A (maps (finish_map l r s') l)"
  shows "object_at dtn xs m X A" and "l_name X = r" and "l_next X = l_next (maps s l)" and "l_reserved X = l_reserved (maps s l)"
    and "l_relocated X = l_relocated (maps s l)"
proof -
  let ?Y = "maps (finish_map l r s') l"
  note FR = fr [unfolded seg_frame_def, THEN conjunct1]
  have Y: "l_addr ?Y = ptr A" "l_entry ?Y = e_entry (file_mem xs) 0" "l_next ?Y = l_next (maps s l)" "l_reserved ?Y = l_reserved (maps s l)"
      "l_relocated ?Y = l_relocated (maps s l)" "l_name ?Y = r"
    using arg_cong [OF FR, of l_addr] arg_cong [OF FR, of l_entry] arg_cong [OF FR, of l_next] arg_cong [OF FR, of l_reserved]
      arg_cong [OF FR, of l_relocated] M(2)
    by (simp_all add: finish_map_def seg_free_def upd_map_def)
  have ldn: "l_ld (obj_map xs) \<noteq> NULL" using ok by (auto simp: dynamic_ok_def obj_ld_def)
  have "l_ld ?Y = ptr (A + obj_ld xs)"
    using arg_cong [OF FR, of l_addr] arg_cong [OF FR, of l_ld] M(1) ldn
    by (simp add: finish_map_def seg_free_def upd_map_def obj_ld_def add.commute flip: ptr_add)
  then show "object_at dtn xs m X A" unfolding X object_at_def using im Y by (auto simp: with_dynamic_def Let_def)
  show "l_name X = r" "l_next X = l_next (maps s l)" "l_reserved X = l_reserved (maps s l)" "l_relocated X = l_relocated (maps s l)"
    unfolding X by (simp_all add: Y)
qed

text \<open>The state after an object was loaded, compared with the state before.\<close>

definition loaded_step ::
  "'w env \<Rightarrow> 'w view \<Rightarrow> nat \<Rightarrow> nat \<Rightarrow> nat \<Rightarrow> nat \<Rightarrow> nat \<Rightarrow> nat set \<Rightarrow> blocks \<Rightarrow> byte list \<Rightarrow> addr \<Rightarrow> 'w rtld \<Rightarrow> 'w rtld \<Rightarrow>
     nat \<Rightarrow> nat \<Rightarrow> nat \<Rightarrow> nat set \<Rightarrow> bool" where
  "loaded_step E V k h fb pb n F L xs r s s' b j A F' \<longleftrightarrow>
     L b = None \<and> area_ok (b, j) \<and> 9 \<le> j \<and> load_ready E V k h fb pb n F' (L(b \<mapsto> j)) s' \<and>
     F' \<union> {b ..< b + j} \<subseteq> F \<union> - vmapped V (world (lst s)) \<and>
     0 < A \<and> A + page_up k (obj_len k xs) \<le> 2 ^ 47 \<and>
     {A ..< A + page_up k (obj_len k xs)} \<inter> (vmapped V (world (lst s)) \<union> F' \<union> live_bytes (L(b \<mapsto> j))) = {} \<and>
     vmapped V (world (lst s)) \<union> {A ..< A + page_up k (obj_len k xs)} \<subseteq> vmapped V (world (lst s')) \<and>
     room V (world (lst s)) \<le> room V (world (lst s')) + object_cost E k xs \<and>
     (\<forall>x. x \<noteq> ptr (b + 8) \<longrightarrow> maps s' x = maps s x) \<and> namespace s' = namespace s \<and> rpath s' = rpath s \<and>
     unchanged_outside (spare (vmapped V) h F (lst s) \<union> head_bytes fb pb n) (rmem s) (rmem s') \<and>
     object_at (dt_num E) xs (rmem s') (maps s' (ptr (b + 8))) A \<and> l_name (maps s' (ptr (b + 8))) = r \<and>
     l_next (maps s' (ptr (b + 8))) = NULL \<and> l_reserved (maps s' (ptr (b + 8))) = 0 \<and> \<not> l_relocated (maps s' (ptr (b + 8)))"

text \<open>The step, from its parts: \<open>s2\<close> is the state when the headers are known.\<close>

lemma mapped_step:
  fixes E V k h fb pb xs A s s'
  defines "N \<equiv> page_up k (obj_len k xs)" and "H \<equiv> head_bytes fb pb (56 * obj_phnum xs)"
  assumes b: "L b = None" "area_ok (b, j)" "9 \<le> j" "F' \<union> {b ..< b + j} \<subseteq> F \<union> - vmapped V (world (lst s))"
    and r2: "load_ready E V k h fb pb (56 * obj_phnum xs) F' (L(b \<mapsto> j)) s2"
    and v1: "vmapped V (world (lst s)) \<subseteq> vmapped V (world (lst s2))" "room V (world (lst s)) \<le> room V (world (lst s2)) + link_cost E k"
    and A: "0 < A" "A + N \<le> 2 ^ 47" "{A ..< A + N} \<inter> vmapped V (world (lst s2)) = {}"
    and w: "mapping V fd f (vmapped V (world (lst s2)) \<union> {A ..< A + N}) (room V (world (lst s2)) - N) (world (lst s'))"
    and u2: "unchanged_outside (spare (vmapped V) h F (lst s) \<union> H) (rmem s) (rmem s2)"
    and u: "unchanged_outside {A ..< A + N} (rmem s2) (rmem s')"
    and p: "pagesize (lst s') = pagesize (lst s2)" "dl_pagesize s' = 2 ^ k"
    and m: "\<forall>x. x \<noteq> ptr (b + 8) \<longrightarrow> maps s' x = maps s x" "namespace s' = namespace s" "rpath s' = rpath s"
    and o: "object_at (dt_num E) xs (rmem s') (maps s' (ptr (b + 8))) A" "l_name (maps s' (ptr (b + 8))) = r"
      "l_next (maps s' (ptr (b + 8))) = NULL" "l_reserved (maps s' (ptr (b + 8))) = 0" "\<not> l_relocated (maps s' (ptr (b + 8)))"
  shows "loaded_step E V k h fb pb (56 * obj_phnum xs) F L xs r s s' b j A F'"
proof -
  note R2 = r2 [unfolded load_ready_def]
  have inv2: "malloc_inv (kern E) (vmapped V) (2 ^ k) h F' (L(b \<mapsto> j)) (lst s2)" using R2 by blast
  have clear: "{A ..< A + N} \<inter> (F' \<union> {h ..< h + 8} \<union> live_bytes (L(b \<mapsto> j))) = {}" using malloc_invD(6) [OF inv2] A(3) by blast
  have new: "{A ..< A + N} \<inter> vmapped V (world (lst s)) = {}" using A(3) v1(1) by blast
  have vm: "vmapped V (world (lst s2)) \<union> {A ..< A + N} \<subseteq> vmapped V (world (lst s'))" using w by (simp add: mapping_def)
  have "malloc_inv (kern E) (vmapped V) (2 ^ k) h F' (L(b \<mapsto> j)) (lst s')"
    by (rule malloc_inv_step [OF inv2 u clear _ p(1)]) (use vm in blast)
  then have "load_ready E V k h fb pb (56 * obj_phnum xs) F' (L(b \<mapsto> j)) s'"
    using R2 vm p(2) by (auto simp: load_ready_def)
  moreover have "unchanged_outside (spare (vmapped V) h F (lst s) \<union> H) (rmem s2) (rmem s')"
    using u by (rule unchanged_mono) (use new in blast)
  then have "unchanged_outside (spare (vmapped V) h F (lst s) \<union> H) (rmem s) (rmem s')" using u2 by (rule unchanged_trans [rotated])
  moreover have "{A ..< A + N} \<inter> (vmapped V (world (lst s)) \<union> F' \<union> live_bytes (L(b \<mapsto> j))) = {}"
    using new clear by blast
  moreover have "vmapped V (world (lst s)) \<union> {A ..< A + N} \<subseteq> vmapped V (world (lst s'))" using vm v1(1) by blast
  moreover have "room V (world (lst s)) \<le> room V (world (lst s')) + object_cost E k xs"
    using w v1(2) unfolding mapping_def object_cost_def N_def by linarith
  ultimately show ?thesis unfolding loaded_step_def using b A(1,2) m o unfolding N_def H_def by blast
qed

lemma map_object_fd_loads:
  assumes ready: "load_ready E V k h fb pb (56 * obj_phnum xs) F L s" and ok: "object_ok (dt_num E) k xs"
    and op: "opened V (world (lst s)) fd = Some (xs, 0)" and rm: "object_cost E k xs \<le> room V (world (lst s))"
  shows "\<exists>s' b j A F'. map_object_fd E fd r s = oreturn (s', ptr (b + 8)) \<and>
       loaded_step E V k h fb pb (56 * obj_phnum xs) F L xs r s s' b j A F'"
proof -
  let ?n = "56 * obj_phnum xs" and ?H = "head_bytes fb pb (56 * obj_phnum xs)" and ?hm = "file_mem xs" and ?N = "page_up k (obj_len k xs)"
  have oks: "headers_ok xs" "segments_ok k xs" "dynamic_ok (dt_num E) xs" using ok by (simp_all add: object_ok_def)
  have "link_cost E k \<le> room V (world (lst s))" using rm by (simp add: object_cost_def)
  then obtain t b j F' where
    2: "create_link_map E s = oreturn (upd_map (ptr (b + 8)) (\<lambda>_. init_link_map) (s\<lparr>lst := t\<rparr>), ptr (b + 8))"
       "L b = None" "area_ok (b, j)" "9 \<le> j" "F' \<union> {b ..< b + j} \<subseteq> F \<union> - vmapped V (world (lst s))"
       "calm V (link_cost E k) (world (lst s)) (world t)"
       "unchanged_outside (spare (vmapped V) h F (lst s)) (rmem s) (smem t)"
       "load_ready E V k h fb pb ?n F' (L(b \<mapsto> j)) (upd_map (ptr (b + 8)) (\<lambda>_. init_link_map) (s\<lparr>lst := t\<rparr>))"
    by (rule create_link_map_ready [OF ready])
  let ?l = "ptr (b + 8)"
  define s1 where "s1 = upd_map ?l (\<lambda>_. init_link_map) (s\<lparr>lst := t\<rparr>)"
  have r1: "load_ready E V k h fb pb ?n F' (L(b \<mapsto> j)) s1" using 2(8) by (simp add: s1_def)
  have f1: "lst s1 = t" "maps s1 ?l = init_link_map" "\<forall>x. x \<noteq> ?l \<longrightarrow> maps s1 x = maps s x" "namespace s1 = namespace s" "rpath s1 = rpath s"
    by (simp_all add: s1_def upd_map_def)
  have op1: "opened V (world (lst s1)) fd = Some (xs, 0)" using op 2(6) by (simp add: f1 calm_def)
  obtain s2 q M p where rd: "read_headers E ?l fd s1 = oreturn (s2, q)"
      "parse_phdr (dl_pagesize s2) (rmem s2) (maps s2 ?l) q = oreturn (M, obj_cmds k xs, has_gap (obj_cmds k xs))"
    and r2: "load_ready E V k h fb pb ?n F' (L(b \<mapsto> j)) s2" and ty: "e_type (rmem s2) (filebuf E) = ET_DYN"
    and v2: "vmapped V (world (lst s2)) = vmapped V (world (lst s1))" "room V (world (lst s2)) = room V (world (lst s1))"
      "opened V (world (lst s2)) fd = Some (xs, p)" and u2: "unchanged_outside ?H (rmem s1) (rmem s2)"
    and f2: "\<forall>x. x \<noteq> ?l \<longrightarrow> maps s2 x = maps s1 x" "namespace s2 = namespace s1" "rpath s2 = rpath s1"
    and M: "l_ld M = l_ld (obj_map xs)" "l_info M = (\<lambda>_. NULL)" "l_entry M = e_entry ?hm 0" "l_next M = NULL" "l_reserved M = 0" "\<not> l_relocated M"
    by (rule headers_parsed [OF r1 oks(1,2) op1 f1(2)])
  define s3 where "s3 = upd_map ?l (\<lambda>_. M) s2"
  have s3: "lst s3 = lst s2" "maps s3 ?l = M" "dl_pagesize s3 = 2 ^ k" "\<forall>x. x \<noteq> ?l \<longrightarrow> maps s3 x = maps s x"
      "namespace s3 = namespace s" "rpath s3 = rpath s"
    using r2 f1 f2 by (simp_all add: s3_def upd_map_def load_ready_def)
  note R2 = r2 [unfolded load_ready_def]
  have inv2: "malloc_inv (kern E) (vmapped V) (2 ^ k) h F' (L(b \<mapsto> j)) (lst s2)" using R2 by blast
  have k: "k \<le> 30" by (rule power_le_imp_le_exp [OF _ page_size(3) [OF malloc_invD(1) [OF inv2]]]) simp
  have mf: "maps_files (kern E) V k" using R2 by blast
  have v1: "vmapped V (world (lst s)) \<subseteq> vmapped V (world (lst s2))" "room V (world (lst s)) \<le> room V (world (lst s2)) + link_cost E k"
    using 2(6) v2 by (simp_all add: calm_def f1)
  obtain s4 s5 s6 A where run: "reserve_dyn E ?l fd (obj_cmds k xs) (ptr (obj_len k xs)) (has_gap (obj_cmds k xs)) s3 = s4"
      "map_object_loadcmd E ?l fd (obj_cmds k xs) (ptr (obj_len k xs)) (has_gap (obj_cmds k xs)) True s4 = oreturn s5"
      "parse_dynamic E ?l (finish_map ?l r s5) = oreturn s6"
    and A: "0 < A" "A + ?N \<le> 2 ^ 47" "{A ..< A + ?N} \<inter> vmapped V (world (lst s3)) = {}"
    and w6: "mapping V fd (xs, p) (vmapped V (world (lst s3)) \<union> {A ..< A + ?N}) (room V (world (lst s3)) - ?N) (world (lst s6))"
    and u6: "unchanged_outside {A ..< A + ?N} (rmem s3) (rmem s6)" and p6: "pagesize (lst s6) = pagesize (lst s3)"
    and im: "image_at (rmem s6) A xs" and m6: "maps s6 ?l = with_dynamic (dt_num E) xs A (maps (finish_map ?l r s5) ?l)"
    and fr: "seg_frame ?l (upd_map ?l (\<lambda>L. L\<lparr>l_addr := ptr A\<rparr>) s3) s5" and o6: "\<forall>x. x \<noteq> ?l \<longrightarrow> maps s6 x = maps s3 x"
    and n6: "namespace s6 = namespace s3" "rpath s6 = rpath s3" "dl_pagesize s6 = dl_pagesize s3"
    by (rule map_and_parse [OF mf k oks(2,3) _ _ s3(3), of fd p ?l "has_gap (obj_cmds k xs)" r])
      (use v1(2) v2(3) rm M s3 in \<open>auto simp: object_cost_def\<close>)
  have cs: "obj_cmds k xs \<noteq> []" "allocend (last (obj_cmds k xs)) - mapstart (hd (obj_cmds k xs)) = ptr (obj_len k xs)"
    using oks(2) by (simp_all add: segments_ok_def obj_cmds_def obj_len_def)
  have "map_object_fd E fd r s = oreturn (s6, ?l)"
    using 2(1) rd run cs ty s3(1)
    by (simp add: map_object_fd_def s1_def [symmetric] s3_def [symmetric] finish_map_def [symmetric] Let_def)
  moreover have "loaded_step E V k h fb pb ?n F L xs r s s6 b j A F'"
  proof (rule mapped_step [OF 2(2-5) r2 v1 A(1,2) A(3) [unfolded s3(1)] w6 [unfolded s3(1)] _ u6 [unfolded s3(1)]])
    have "unchanged_outside (spare (vmapped V) h F (lst s) \<union> ?H) (rmem s) (rmem s1)"
      unfolding f1(1) using 2(7) by (rule unchanged_mono) blast
    also have "unchanged_outside (spare (vmapped V) h F (lst s) \<union> ?H) (rmem s1) (rmem s2)" using u2 by (rule unchanged_mono) blast
    finally show "unchanged_outside (spare (vmapped V) h F (lst s) \<union> ?H) (rmem s) (rmem s2)" .
  qed (use finished_object [OF fr im oks(3) _ _ m6] M s3 p6 o6 n6 in simp_all)
  ultimately show ?thesis by blast
qed

text \<open>The buffer for the program headers may be larger than the table.\<close>

lemma head_bytes_mono: "n' \<le> n \<Longrightarrow> head_bytes fb pb n' \<subseteq> head_bytes fb pb n"
  by (auto simp: head_bytes_def)

lemma load_ready_narrow:
  assumes "load_ready E V k h fb pb n F L s" and "n' \<le> n"
  shows "load_ready E V k h fb pb n' F L s"
proof -
  have "head_bufs E fb pb n'" using assms by (auto simp: load_ready_def head_bufs_def)
  then show ?thesis using assms(1) head_bytes_mono [OF assms(2), of fb pb] unfolding load_ready_def by blast
qed

lemma block_bytes:
  assumes "x \<in> live_bytes (L(b \<mapsto> j))"
  shows "x \<in> {b ..< b + j} \<or> x \<in> live_bytes L"
  using assms by (auto simp: in_live_bytes split: if_splits)

lemma loaded_step_wide:
  assumes st: "loaded_step E V k h fb pb n' F L xs r s s' b j A F'" and rd: "load_ready E V k h fb pb n F L s" and n: "n' \<le> n"
  shows "loaded_step E V k h fb pb n F L xs r s s' b j A F'"
proof -
  note S = st [unfolded loaded_step_def] and R = rd [unfolded load_ready_def]
  have "head_bytes fb pb n \<inter> (F' \<union> {h ..< h + 8} \<union> live_bytes (L(b \<mapsto> j))) = {}"
    using S R block_bytes [of _ L b j] by (auto simp: disjoint_iff dest!: block_bytes)
  moreover have "head_bytes fb pb n \<subseteq> vmapped V (world (lst s'))" using S R by blast
  ultimately have "load_ready E V k h fb pb n F' (L(b \<mapsto> j)) s'" using S R unfolding load_ready_def by blast
  moreover have "unchanged_outside (spare (vmapped V) h F (lst s) \<union> head_bytes fb pb n) (rmem s) (rmem s')"
    using S head_bytes_mono [OF n, of fb pb] by (blast intro: unchanged_mono)
  ultimately show ?thesis using S unfolding loaded_step_def by blast
qed

lemma map_object_fd_wide:
  assumes "load_ready E V k h fb pb n F L s" and "56 * obj_phnum xs \<le> n" and "object_ok (dt_num E) k xs"
    and "opened V (world (lst s)) fd = Some (xs, 0)" and "object_cost E k xs \<le> room V (world (lst s))"
  obtains s' b j A F' where "map_object_fd E fd r s = oreturn (s', ptr (b + 8))" and "loaded_step E V k h fb pb n F L xs r s s' b j A F'"
  using map_object_fd_loads [OF load_ready_narrow [OF assms(1,2)] assms(3-5)] loaded_step_wide [OF _ assms(1,2)] by blast

end
