(* ===== verification/Load_Site.thy ===== *)
theory Load_Site
  imports Load_Shared
begin

text \<open>
  Loading a library by name, from the search along the directories to the completed link map: \<open>map_object\<close> in a state
  where nothing the loader relies on can be overwritten.
\<close>

section \<open>The surroundings\<close>

text \<open>
  The view of the kernel, the binary logarithm of the page size, the cell of the allocator, the buffers for names and
  headers, the search directories and the files by their paths; the head of the run list and its nodes, of which there
  are \<open>rcap\<close> besides the first.
\<close>

record 'w site =
  kview :: "'w view"
  kbits :: nat
  hcell :: nat
  nbuf :: nat
  fbuf :: nat
  pbuf :: nat
  pcap :: nat
  sdirs :: "byte list list"
  sfiles :: "byte list \<rightharpoonup> byte list"
  rhead :: nat
  rnode :: "nat \<Rightarrow> nat"
  rcap :: nat

definition scratch :: "'w site \<Rightarrow> nat set" where
  "scratch N = {nbuf N ..< nbuf N + 1024} \<union> head_bytes (fbuf N) (pbuf N) (pcap N)"

abbreviation site_mapped :: "'w site \<Rightarrow> 'w rtld \<Rightarrow> nat set" where
  "site_mapped N s \<equiv> vmapped (kview N) (world (lst s))"

abbreviation site_room :: "'w site \<Rightarrow> 'w rtld \<Rightarrow> nat" where
  "site_room N s \<equiv> room (kview N) (world (lst s))"

abbreviation site_ready :: "'w env \<Rightarrow> 'w site \<Rightarrow> nat set \<Rightarrow> blocks \<Rightarrow> 'w rtld \<Rightarrow> bool" where
  "site_ready E N \<equiv> load_ready E (kview N) (kbits N) (hcell N) (fbuf N) (pbuf N) (pcap N)"

definition str_in :: "nat set \<Rightarrow> mem \<Rightarrow> nat \<Rightarrow> byte list \<Rightarrow> bool" where
  "str_in T m a xs \<longleftrightarrow> 0 < a \<and> cstr m a xs \<and> {a .. a + length xs} \<subseteq> T"

text \<open>The path under which a library is found.\<close>

definition resolve :: "'w site \<Rightarrow> byte list \<Rightarrow> byte list option" where
  "resolve N x = map_option (\<lambda>d. path_of d x) (find (\<lambda>d. sfiles N (path_of d x) \<noteq> None) (sdirs N))"

text \<open>
  The bytes \<open>T\<close> are never overwritten: they are mapped, and not free, nor part of a buffer. They hold the format and the
  directories.
\<close>

definition site_inv :: "'w env \<Rightarrow> 'w site \<Rightarrow> nat set \<Rightarrow> nat set \<Rightarrow> blocks \<Rightarrow> 'w rtld \<Rightarrow> bool" where
  "site_inv E N T F L s \<longleftrightarrow>
     site_ready E N F L s \<and> opens (kern E) (kview N) (nbuf N) (sfiles N) \<and>
     namebuf E = ptr (nbuf N) \<and> buf_ok (nbuf N) 1024 \<and> {nbuf N ..< nbuf N + 1024} \<subseteq> site_mapped N s \<and>
     {nbuf N ..< nbuf N + 1024} \<inter> (F \<union> {hcell N ..< hcell N + 8} \<union> live_bytes L) = {} \<and>
     T \<subseteq> site_mapped N s \<and> T \<inter> (F \<union> {hcell N ..< hcell N + 8} \<union> scratch N) = {} \<and>
     str_in T (rmem s) (unat (path_fmt E)) path_format \<and>
     (\<exists>ps rest. rpath s = map ptr ps @ NULL # rest \<and> list_all2 (str_in T (rmem s)) ps (sdirs N))"

text \<open>A step that takes the bytes \<open>X\<close> into use and maps at most \<open>c\<close> bytes.\<close>

definition grown :: "'w site \<Rightarrow> nat set \<Rightarrow> blocks \<Rightarrow> 'w rtld \<Rightarrow> nat set \<Rightarrow> blocks \<Rightarrow> nat set \<Rightarrow> 'w rtld \<Rightarrow> nat \<Rightarrow> bool" where
  "grown N F L s F' L' X s' c \<longleftrightarrow>
     F' \<union> X \<subseteq> F \<union> - site_mapped N s \<and> X \<inter> F' = {} \<and> live_bytes L' \<subseteq> live_bytes L \<union> X \<and>
     site_mapped N s \<union> X \<subseteq> site_mapped N s' \<and> site_room N s \<le> site_room N s' + c \<and>
     unchanged_outside (spare (vmapped (kview N)) (hcell N) F (lst s) \<union> scratch N) (rmem s) (rmem s') \<and>
     namespace s' = namespace s \<and> rpath s' = rpath s"

lemma grown_trans:
  assumes "grown N F L s F1 L1 X1 s1 c1" and "grown N F1 L1 s1 F2 L2 X2 s2 c2"
  shows "grown N F L s F2 L2 (X1 \<union> X2) s2 (c1 + c2)"
proof -
  note A = assms(1) [unfolded grown_def] and B = assms(2) [unfolded grown_def]
  have "unchanged_outside (spare (vmapped (kview N)) (hcell N) F (lst s) \<union> scratch N) (rmem s1) (rmem s2)"
    using B A by (blast intro: unchanged_mono)
  then have "unchanged_outside (spare (vmapped (kview N)) (hcell N) F (lst s) \<union> scratch N) (rmem s) (rmem s2)"
    using A by (blast intro: unchanged_trans)
  moreover have "F2 \<union> (X1 \<union> X2) \<subseteq> F \<union> - site_mapped N s" "(X1 \<union> X2) \<inter> F2 = {}" "live_bytes L2 \<subseteq> live_bytes L \<union> (X1 \<union> X2)"
      "site_mapped N s \<union> (X1 \<union> X2) \<subseteq> site_mapped N s2"
    using A B by blast+
  moreover have "site_room N s \<le> site_room N s2 + (c1 + c2)" using A B by linarith
  ultimately show ?thesis using A B by (simp add: grown_def)
qed

lemma str_in_kept:
  assumes "str_in T m a xs" and "unchanged_outside S m m'" and "T \<inter> S = {}"
  shows "str_in T m' a xs"
  using assms cstr_unchanged [OF assms(2)] unfolding str_in_def by blast

lemma str_in_mono: "str_in T m a xs \<Longrightarrow> T \<subseteq> T' \<Longrightarrow> str_in T' m a xs"
  by (auto simp: str_in_def)

text \<open>What is protected does not change.\<close>

lemma site_inv_clear:
  assumes "site_inv E N T F L s"
  shows "T \<inter> (spare (vmapped (kview N)) (hcell N) F (lst s) \<union> scratch N) = {}"
  using assms unfolding site_inv_def by blast

lemma site_inv_grown:
  assumes inv: "site_inv E N T F L s" and g: "grown N F L s F' L' X s' c" and r: "site_ready E N F' L' s'"
  shows "site_inv E N (T \<union> X) F' L' s'"
proof -
  note I = inv [unfolded site_inv_def] and G = g [unfolded grown_def]
  have R: "site_ready E N F L s" using I by blast
  then have mi: "malloc_inv (kern E) (vmapped (kview N)) (2 ^ kbits N) (hcell N) F L (lst s)" by (simp add: load_ready_def)
  have u: "unchanged_outside (spare (vmapped (kview N)) (hcell N) F (lst s) \<union> scratch N) (rmem s) (rmem s')" using G by blast
  note keep = str_in_mono [OF str_in_kept [OF _ u site_inv_clear [OF inv]], of _ _ "T \<union> X"]
  have "str_in (T \<union> X) (rmem s') (unat (path_fmt E)) path_format" using I by (intro keep) auto
  moreover obtain ps rest where p: "rpath s = map ptr ps @ NULL # rest" "list_all2 (str_in T (rmem s)) ps (sdirs N)" using I by blast
  have "list_all2 (str_in (T \<union> X) (rmem s')) ps (sdirs N)" by (rule list_all2_mono [OF p(2)]) (rule keep, auto)
  moreover have "rpath s' = map ptr ps @ NULL # rest" using G p(1) by simp
  moreover have "scratch N \<subseteq> site_mapped N s" "scratch N \<inter> F = {}"
    using I R by (auto simp: scratch_def load_ready_def)
  then have "X \<inter> scratch N = {}" using G by blast
  moreover have "X \<inter> {hcell N ..< hcell N + 8} = {}" using malloc_invD(6,7) [OF mi] G by blast
  moreover have "{nbuf N ..< nbuf N + 1024} \<subseteq> scratch N" by (simp add: scratch_def)
  moreover have "{nbuf N ..< nbuf N + 1024} \<inter> (F' \<union> {hcell N ..< hcell N + 8} \<union> live_bytes L') = {}"
    using I G \<open>X \<inter> scratch N = {}\<close> \<open>{nbuf N ..< nbuf N + 1024} \<subseteq> scratch N\<close> by blast
  moreover have "(T \<union> X) \<inter> (F' \<union> {hcell N ..< hcell N + 8} \<union> scratch N) = {}"
    using I G \<open>X \<inter> scratch N = {}\<close> \<open>X \<inter> {hcell N ..< hcell N + 8} = {}\<close> by blast
  moreover have "T \<union> X \<subseteq> site_mapped N s'" "{nbuf N ..< nbuf N + 1024} \<subseteq> site_mapped N s'" using I G by blast+
  ultimately show ?thesis using I r unfolding site_inv_def by blast
qed

section \<open>Finding the file\<close>

definition open_cost :: "'w site \<Rightarrow> nat" where
  "open_cost N = 1031 + 2 ^ kbits N"

text \<open>Paths that \<open>__strdup\<close> copies correctly.\<close>

definition path_fine :: "byte list \<Rightarrow> bool" where
  "path_fine y \<longleftrightarrow> length y mod 8 \<noteq> 0 \<or> length y < 16"

lemma name_step_mapped: "name_step (\<lambda>w. (f w, g w)) b t t' \<Longrightarrow> name_step f b t t'"
  by (simp add: name_step_def)

lemma str_in_string: "str_in T m a xs \<Longrightarrow> T \<inter> {b ..< b + 1024} = {} \<Longrightarrow> string_at m b a xs"
  by (auto simp: str_in_def string_at_def)

lemma site_search:
  assumes inv: "site_inv E N T F L s" and x: "str_in T (rmem s) a x" and y: "resolve N x = Some y"
  obtains t fd where "open_path E (ptr a) s =
        obind (strdup (kern E) (heap_var E) (namebuf E) t) (\<lambda>(t, r). oreturn (s\<lparr>lst := t\<rparr>, fd, r))"
    and "0 \<le> sint fd" and "cstr (smem t) (nbuf N) y" and "opened (kview N) (world t) fd = Some (the (sfiles N y), 0)"
    and "name_step (\<lambda>w. (vmapped (kview N) w, room (kview N) w)) (nbuf N) (lst s) t"
proof -
  note I = inv [unfolded site_inv_def]
  have nb: "T \<inter> {nbuf N ..< nbuf N + 1024} = {}" using I by (auto simp: scratch_def)
  obtain d where d: "find (\<lambda>d. sfiles N (path_of d x) \<noteq> None) (sdirs N) = Some d" "y = path_of d x"
    using y by (auto simp: resolve_def)
  obtain ps rest where p: "rpath s = map ptr ps @ NULL # rest" "list_all2 (str_in T (rmem s)) ps (sdirs N)" using I by blast
  have ps: "list_all2 (string_at (rmem s) (nbuf N)) ps (sdirs N)" by (rule list_all2_mono [OF p(2)]) (rule str_in_string [OF _ nb])
  have ob: "open_by_name (kern E) (\<lambda>w. (vmapped (kview N) w, room (kview N) w)) (nbuf N) (\<lambda>name. sfiles N name \<noteq> None)"
    using I by (intro opens_by_name) blast
  have so: "search_ok E (nbuf N) a x (rmem s)"
    using I x by (simp add: search_ok_def str_in_string [OF _ nb])
  obtain t fd t0 where t: "open_path E (ptr a) s =
        obind (strdup (kern E) (heap_var E) (namebuf E) t) (\<lambda>(t, r). oreturn (s\<lparr>lst := t\<rparr>, fd, r))"
      "0 \<le> sint fd" "cstr (smem t) (nbuf N) y" "name_step (\<lambda>w. (vmapped (kview N) w, room (kview N) w)) (nbuf N) (lst s) t"
      "sys_open (kern E) (namebuf E) 0 0 t0 = (t, fd)" "cstr (smem t0) (nbuf N) y"
    using open_path_found [OF ob so p(1) ps d(1)] d(2) by blast
  have "sfiles N y \<noteq> None" using find_split [OF d(1)] d(2) by blast
  then have "sfiles N y = Some (the (sfiles N y))" by simp
  moreover have "sys_open (kern E) (ptr (nbuf N)) 0 0 t0 = (t, fd)" "opens (kern E) (kview N) (nbuf N) (sfiles N)"
    using t(5) I by auto
  ultimately have "opened (kview N) (world t) fd = Some (the (sfiles N y), 0)" using opens_file t(6) by blast
  with t show ?thesis using that by blast
qed

lemma open_path_site:
  assumes inv: "site_inv E N T F L s" and x: "str_in T (rmem s) a x" and y: "resolve N x = Some y" "path_fine y"
    and rm: "open_cost N \<le> site_room N s"
  obtains t fd b j F' where "open_path E (ptr a) s = oreturn (s\<lparr>lst := t\<rparr>, fd, ptr (b + 8))" and "0 \<le> sint fd"
    and "opened (kview N) (world t) fd = Some (the (sfiles N y), 0)" and "L b = None" and "str_in {b ..< b + j} (smem t) (b + 8) y"
    and "site_ready E N F' (L(b \<mapsto> j)) (s\<lparr>lst := t\<rparr>)"
    and "grown N F L s F' (L(b \<mapsto> j)) {b ..< b + j} (s\<lparr>lst := t\<rparr>) (open_cost N)"
proof -
  let ?V = "kview N" and ?h = "hcell N" and ?nb = "{nbuf N ..< nbuf N + 1024}"
  note I = inv [unfolded site_inv_def]
  have R: "site_ready E N F L s" using I by blast
  note RD = R [unfolded load_ready_def]
  obtain t0 fd where t0: "open_path E (ptr a) s =
        obind (strdup (kern E) (heap_var E) (namebuf E) t0) (\<lambda>(t, r). oreturn (s\<lparr>lst := t\<rparr>, fd, r))"
      "0 \<le> sint fd" "cstr (smem t0) (nbuf N) y" "opened ?V (world t0) fd = Some (the (sfiles N y), 0)"
      "name_step (\<lambda>w. (vmapped ?V w, room ?V w)) (nbuf N) (lst s) t0"
    by (rule site_search [OF inv x y(1)])
  have st: "unchanged_outside ?nb (rmem s) (smem t0)" "vmapped ?V (world t0) = site_mapped N s" "room ?V (world t0) = site_room N s"
      "pagesize t0 = pagesize (lst s)"
    using t0(5) by (simp_all add: name_step_def)
  have inv0: "malloc_inv (kern E) (vmapped ?V) (2 ^ kbits N) ?h F L t0"
    by (rule malloc_inv_name_step [OF _ name_step_mapped [OF t0(5)]]) (use RD I in blast)+
  have len: "y \<noteq> []" "length y \<le> 1023" using y(1) by (auto simp: resolve_def path_of_def)
  then have src: "{nbuf N .. nbuf N + length y} \<inter> spare (vmapped ?V) ?h F t0 = {}"
    using I st(2) by fastforce
  have k: "2 ^ kbits N \<le> (2 :: nat) ^ 30" using page_size(3) [OF malloc_invD(1) [OF inv0]] .
  have bnd: "length y + 2 ^ kbits N + 32 < 2 ^ 64" "length y + 8 + 2 ^ kbits N \<le> room ?V (world t0)"
    using k len(2) rm st(3) by (simp_all add: open_cost_def)
  have g: "gives_pages (kern E) ?V (2 ^ kbits N)" using RD by blast
  obtain t b j F' where t: "strdup (kern E) (ptr ?h) (ptr (nbuf N)) t0 = oreturn (t, ptr (b + 8))" "L b = None" "area_ok (b, j)"
      "length y + 8 < j" "F' \<union> {b ..< b + j} \<subseteq> F \<union> - vmapped ?V (world t0)"
      "malloc_inv (kern E) (vmapped ?V) (2 ^ kbits N) ?h F' (L(b \<mapsto> j)) t" "cstr (smem t) (b + 8) y"
      "calm ?V (length y + 8 + 2 ^ kbits N) (world t0) (world t)"
      "unchanged_outside (spare (vmapped ?V) ?h F t0) (smem t0) (smem t)"
    using strdup_room [OF inv0 g t0(3) len(1) src y(2) [unfolded path_fine_def] bnd] by blast
  have run: "open_path E (ptr a) s = oreturn (s\<lparr>lst := t\<rparr>, fd, ptr (b + 8))" using t0(1) t(1) I RD by simp
  have blk: "{b ..< b + j} \<inter> F' = {}" "{b ..< b + j} \<subseteq> vmapped ?V (world t)"
    using malloc_invD(5,6) [OF t(6)] live_bytesI [of "L(b \<mapsto> j)" b j] by auto
  have gr: "grown N F L s F' (L(b \<mapsto> j)) {b ..< b + j} (s\<lparr>lst := t\<rparr>) (open_cost N)"
    unfolding grown_def
  proof (intro conjI)
    show "unchanged_outside (spare (vmapped ?V) ?h F (lst s) \<union> scratch N) (rmem s) (rmem (s\<lparr>lst := t\<rparr>))"
      using st(1,2) t(9) by (auto simp: unchanged_outside_def scratch_def)
    show "live_bytes (L(b \<mapsto> j)) \<subseteq> live_bytes L \<union> {b ..< b + j}" using block_bytes by blast
  qed (use t(5,8) st len(2) blk in \<open>auto simp: calm_def open_cost_def\<close>)
  have "site_ready E N F' (L(b \<mapsto> j)) (s\<lparr>lst := t\<rparr>)"
    using RD t(6) gr block_bytes [of _ L b j] unfolding load_ready_def grown_def by simp blast
  moreover have "str_in {b ..< b + j} (smem t) (b + 8) y" using t(3,4,7) by (auto simp: str_in_def)
  moreover have "opened ?V (world t) fd = Some (the (sfiles N y), 0)" using t0(4) t(8) by (simp add: calm_def)
  ultimately show ?thesis using that [OF run t0(2)] t(2) gr by blast
qed

section \<open>Mapping the object\<close>

lemma close_fd_site:
  assumes "site_ready E N F L s"
  shows "site_ready E N F L (close_fd E fd s)" and "grown N F L s F L {} (close_fd E fd s) 0"
    and "maps (close_fd E fd s) = maps s" and "rmem (close_fd E fd s) = rmem s"
proof -
  note R = assms [unfolded load_ready_def]
  obtain r w' where k: "kern E SYS_close [scast fd] (world (lst s), rmem s) = (r, w', rmem s)"
      "vmapped (kview N) w' = site_mapped N s" "room (kview N) w' = site_room N s"
    using R [THEN conjunct1, unfolded reads_files_def, THEN conjunct2, THEN conjunct2, rule_format, of fd "world (lst s)" "rmem s"] by blast
  then have c: "close_fd E fd s = s\<lparr>lst := (lst s)\<lparr>world := w', smem := rmem s\<rparr>\<rparr>"
    by (simp add: close_fd_def sys_close_def syscall_def)
  show "maps (close_fd E fd s) = maps s" "rmem (close_fd E fd s) = rmem s" by (simp_all add: c)
  have mi: "malloc_inv (kern E) (vmapped (kview N)) (2 ^ kbits N) (hcell N) F L (lst (close_fd E fd s))"
    by (rule malloc_inv_step [of _ _ _ _ _ _ "lst s" "{}"]) (use R k in \<open>auto simp: c\<close>)
  then show "site_ready E N F L (close_fd E fd s)" using R k by (simp add: load_ready_def c)
  have "F \<subseteq> site_mapped N s" using malloc_invD(6) [of "kern E"] R by blast
  then show "grown N F L s F L {} (close_fd E fd s) 0" using k by (auto simp: grown_def c)
qed

text \<open>The object of the file with the path \<open>y\<close> is loaded, described by the link map at \<open>l\<close>, and protected.\<close>

definition loaded :: "'w env \<Rightarrow> 'w site \<Rightarrow> nat set \<Rightarrow> 'w rtld \<Rightarrow> addr \<Rightarrow> byte list \<Rightarrow> bool" where
  "loaded E N T s l y \<longleftrightarrow>
     l \<noteq> NULL \<and> unat l \<in> T \<and> str_in T (rmem s) (unat (l_name (maps s l))) y \<and>
     (\<exists>A. 0 < A \<and> A \<le> 2 ^ 47 \<and> {A ..< A + page_up (kbits N) (obj_len (kbits N) (the (sfiles N y)))} \<subseteq> T \<and>
        object_at (dt_num E) (the (sfiles N y)) (rmem s) (maps s l) A)"

definition lib_ok :: "'w env \<Rightarrow> 'w site \<Rightarrow> byte list \<Rightarrow> bool" where
  "lib_ok E N y \<longleftrightarrow> path_fine y \<and> object_ok (dt_num E) (kbits N) (the (sfiles N y)) \<and> 56 * obj_phnum (the (sfiles N y)) \<le> pcap N"

lemma loaded_step_grown:
  assumes st: "loaded_step E (kview N) (kbits N) (hcell N) (fbuf N) (pbuf N) (pcap N) F L xs r s s' b j A F'"
  shows "grown N F L s F' (L(b \<mapsto> j)) ({b ..< b + j} \<union> {A ..< A + page_up (kbits N) (obj_len (kbits N) xs)}) s'
           (object_cost E (kbits N) xs)" (is "grown _ _ _ _ _ _ (?B \<union> ?A) _ _")
    and "unat (ptr (b + 8)) = b + 8" and "b + 8 \<in> {b ..< b + j}" and "ptr (b + 8) \<noteq> NULL"
proof -
  note S = st [unfolded loaded_step_def]
  have mi: "malloc_inv (kern E) (vmapped (kview N)) (2 ^ kbits N) (hcell N) F' (L(b \<mapsto> j)) (lst s')" using S by (simp add: load_ready_def)
  have blk: "?B \<inter> F' = {}" "?B \<subseteq> site_mapped N s'"
    using malloc_invD(5,6) [OF mi] live_bytesI [of "L(b \<mapsto> j)" b j] by auto
  have "live_bytes (L(b \<mapsto> j)) \<subseteq> live_bytes L \<union> (?B \<union> ?A)" using block_bytes by blast
  moreover have "unchanged_outside (spare (vmapped (kview N)) (hcell N) F (lst s) \<union> head_bytes (fbuf N) (pbuf N) (pcap N)) (rmem s) (rmem s')"
    using S by blast
  then have "unchanged_outside (spare (vmapped (kview N)) (hcell N) F (lst s) \<union> scratch N) (rmem s) (rmem s')"
    by (rule unchanged_mono) (auto simp: scratch_def)
  moreover have "F' \<union> (?B \<union> ?A) \<subseteq> F \<union> - site_mapped N s" "(?B \<union> ?A) \<inter> F' = {}" "site_mapped N s \<union> (?B \<union> ?A) \<subseteq> site_mapped N s'"
    using S blk by blast+
  ultimately show "grown N F L s F' (L(b \<mapsto> j)) (?B \<union> ?A) s' (object_cost E (kbits N) xs)"
    using S unfolding grown_def by blast
  have "area_ok (b, j)" "9 \<le> j" using S by blast+
  then have "b + 8 < 2 ^ 64" by (simp add: area_ok_def)
  then show "unat (ptr (b + 8)) = b + 8" "b + 8 \<in> {b ..< b + j}" "ptr (b + 8) \<noteq> NULL"
    using \<open>9 \<le> j\<close> by (simp_all add: unat_ptr ptr_eq_0 del: ptr_add of_nat_add)
qed

lemma map_object_site:
  assumes inv: "site_inv E N T F L s" and x: "str_in T (rmem s) a x" and y: "resolve N x = Some y" "lib_ok E N y"
    and ns: "ns_list (maps s) (namespace s) ls" "\<forall>l \<in> set ls. str_in T (rmem s) (unat (l_name (maps s l))) (nm l)"
    and rm: "open_cost N + (if find (\<lambda>l. nm l = y) ls = None then object_cost E (kbits N) (the (sfiles N y)) else 0) \<le> site_room N s"
  shows "case find (\<lambda>l. nm l = y) ls of
      Some l \<Rightarrow> \<exists>s' F' L' X. map_object E (ptr a) s = oreturn (s', l) \<and> maps s' = maps s \<and>
        site_inv E N (T \<union> X) F' L' s' \<and> grown N F L s F' L' X s' (open_cost N)
    | None \<Rightarrow> \<exists>s' l F' L' X. map_object E (ptr a) s = oreturn (s', l) \<and> (\<forall>z. z \<noteq> l \<longrightarrow> maps s' z = maps s z) \<and>
        site_inv E N (T \<union> X) F' L' s' \<and> grown N F L s F' L' X s' (open_cost N + object_cost E (kbits N) (the (sfiles N y))) \<and>
        loaded E N X s' l y \<and> l_next (maps s' l) = NULL \<and> l_reserved (maps s' l) = 0 \<and> \<not> l_relocated (maps s' l)"
proof -
  let ?xs = "the (sfiles N y)" and ?c = "object_cost E (kbits N) (the (sfiles N y))"
  have yo: "path_fine y" "object_ok (dt_num E) (kbits N) ?xs" "56 * obj_phnum ?xs \<le> pcap N" using y(2) by (simp_all add: lib_ok_def)
  have "open_cost N \<le> site_room N s" using rm by simp
  then obtain t fd b j F1 where o: "open_path E (ptr a) s = oreturn (s\<lparr>lst := t\<rparr>, fd, ptr (b + 8))" "0 \<le> sint fd"
      "opened (kview N) (world t) fd = Some (?xs, 0)" "L b = None" "str_in {b ..< b + j} (smem t) (b + 8) y"
      "site_ready E N F1 (L(b \<mapsto> j)) (s\<lparr>lst := t\<rparr>)"
      "grown N F L s F1 (L(b \<mapsto> j)) {b ..< b + j} (s\<lparr>lst := t\<rparr>) (open_cost N)"
    by (rule open_path_site [OF inv x y(1) yo(1)])
  let ?s1 = "s\<lparr>lst := t\<rparr>"
  note i1 = site_inv_grown [OF inv o(7,6)]
  have u: "unchanged_outside (spare (vmapped (kview N)) (hcell N) F (lst s) \<union> scratch N) (rmem s) (smem t)"
    using o(7) by (simp add: grown_def)
  have r: "unat (ptr (b + 8)) = b + 8" using o(5) cstr_bound [of "smem t" "b + 8" y] by (simp add: str_in_def unat_ptr)
  have "l_name (maps s l) \<noteq> NULL \<and> cstr (smem t) (unat (l_name (maps s l))) (nm l)" if "l \<in> set ls" for l
    using str_in_kept [OF _ u site_inv_clear [OF inv]] ns(2) that by (fastforce simp: str_in_def)
  then have f: "ns_find (smem t) (maps s) (ptr (b + 8)) (namespace s) = oreturn (find (\<lambda>l. nm l = y) ls)"
    using o(5) r by (intro ns_find_list [OF ns(1)]) (auto simp: str_in_def)
  show ?thesis
  proof (cases "find (\<lambda>l. nm l = y) ls")
    case (Some l)
    note c = close_fd_site [OF o(6), of fd]
    have "map_object E (ptr a) s = oreturn (close_fd E fd ?s1, l)" using o(1,2) f Some by (simp add: map_object_def)
    moreover have "grown N F L s F1 (L(b \<mapsto> j)) {b ..< b + j} (close_fd E fd ?s1) (open_cost N)"
      using grown_trans [OF o(7) c(2)] by simp
    moreover have "maps (close_fd E fd ?s1) = maps s" using c(3) by simp
    ultimately show ?thesis unfolding Some option.case using site_inv_grown [OF inv _ c(1)] by blast
  next
    case None
    have rm1: "?c \<le> room (kview N) (world (lst ?s1))" using rm o(7) None by (simp add: grown_def)
    obtain s2 b2 j2 A F2 where m: "map_object_fd E fd (ptr (b + 8)) ?s1 = oreturn (s2, ptr (b2 + 8))"
        "loaded_step E (kview N) (kbits N) (hcell N) (fbuf N) (pbuf N) (pcap N) F1 (L(b \<mapsto> j)) ?xs (ptr (b + 8)) ?s1 s2 b2 j2 A F2"
      by (rule map_object_fd_wide [OF o(6) yo(3,2) _ rm1]) (use o(3) in auto)
    note S = m(2) [unfolded loaded_step_def] and G = loaded_step_grown [OF m(2)]
    let ?X = "{b ..< b + j} \<union> ({b2 ..< b2 + j2} \<union> {A ..< A + page_up (kbits N) (obj_len (kbits N) ?xs)})" and ?l = "ptr (b2 + 8)"
    have r2: "site_ready E N F2 ((L(b \<mapsto> j))(b2 \<mapsto> j2)) s2" using S by blast
    note c = close_fd_site [OF r2, of fd]
    have g: "grown N F L s F2 ((L(b \<mapsto> j))(b2 \<mapsto> j2)) ?X (close_fd E fd s2) (open_cost N + ?c)"
      using grown_trans [OF o(7) grown_trans [OF G(1) c(2)]] by simp
    have run: "map_object E (ptr a) s = oreturn (close_fd E fd s2, ?l)" using o(1,2) f None m(1) by (simp add: map_object_def)
    have "str_in {b ..< b + j} (rmem s2) (b + 8) y"
    proof (rule str_in_kept [of _ "smem t"])
      show "str_in {b ..< b + j} (smem t) (b + 8) y" by (fact o(5))
      show "unchanged_outside (spare (vmapped (kview N)) (hcell N) F1 (lst ?s1) \<union> scratch N) (smem t) (rmem s2)"
        using G(1) by (simp add: grown_def)
      show "{b ..< b + j} \<inter> (spare (vmapped (kview N)) (hcell N) F1 (lst ?s1) \<union> scratch N) = {}"
        using site_inv_clear [OF i1] by blast
    qed
    then have "str_in ?X (rmem s2) (unat (l_name (maps s2 ?l))) y" using S r by (auto intro: str_in_mono)
    moreover have "A \<le> 2 ^ 47" "0 < A" "object_at (dt_num E) ?xs (rmem s2) (maps s2 ?l) A" using S by auto
    ultimately have "loaded E N ?X (close_fd E fd s2) ?l y"
      unfolding loaded_def c(3,4) using G(2,3,4) by (intro conjI exI [of _ A]) auto
    moreover have "\<forall>z. z \<noteq> ?l \<longrightarrow> maps (close_fd E fd s2) z = maps s z" using S unfolding c(3) by simp
    moreover have "l_next (maps (close_fd E fd s2) ?l) = NULL" "l_reserved (maps (close_fd E fd s2) ?l) = 0"
        "\<not> l_relocated (maps (close_fd E fd s2) ?l)"
      using S unfolding c(3) by simp_all
    moreover note site_inv_grown [OF inv g c(1)]
    ultimately show ?thesis unfolding None option.case using run g by blast
  qed
qed

end
