(* ===== verification/Load_Runlist.thy ===== *)
theory Load_Runlist
  imports Load_Site
begin

text \<open>
  The run list of \<open>map_object_deps\<close>: nodes on the stack that hold the root and the objects whose dependencies are to be
  loaded, in a list that grows at its end while it is walked from its front.
\<close>

definition run_bytes :: "'w site \<Rightarrow> nat set" where
  "run_bytes N = {rhead N ..< rhead N + 16} \<union> (\<Union>j \<le> rcap N. {rnode N j ..< rnode N j + 24})"

text \<open>The nodes are where the environment says, and do not overlap.\<close>

definition run_area :: "'w env \<Rightarrow> 'w site \<Rightarrow> bool" where
  "run_area E N \<longleftrightarrow>
     runhead E = ptr (rhead N) \<and> head_at (rhead N) \<and>
     (\<forall>j \<le> rcap N. runnode E j = ptr (rnode N j) \<and> 0 < rnode N j \<and> rnode N j + 24 \<le> 2 ^ 63 \<and>
        {rnode N j ..< rnode N j + 24} \<inter> {rhead N ..< rhead N + 16} = {} \<and>
        (\<forall>i \<le> rcap N. i \<noteq> j \<longrightarrow> {rnode N i ..< rnode N i + 24} \<inter> {rnode N j ..< rnode N j + 24} = {}))"

definition run_list :: "'w site \<Rightarrow> mem \<Rightarrow> addr list \<Rightarrow> bool" where
  "run_list N m objs \<longleftrightarrow>
     dlist m (rhead N) (map (\<lambda>j. rnode N j + 8) [0 ..< length objs]) \<and> (\<forall>j < length objs. load64 m (ptr (rnode N j)) = objs ! j)"

lemma disjoint_ranges:
  assumes "{a ..< a + n} \<inter> {b ..< b + k} = {}" and "0 < n" and "0 < k"
  shows "a + n \<le> b \<or> b + k \<le> (a :: nat)"
proof (rule ccontr)
  assume "\<not> (a + n \<le> b \<or> b + k \<le> a)"
  then have "max a b \<in> {a ..< a + n} \<inter> {b ..< b + k}" using assms(2,3) by auto
  with assms(1) show False by simp
qed

lemma run_ring:
  assumes "run_area E N" and "n \<le> Suc (rcap N)"
  shows "wf_ring (rhead N # map (\<lambda>j. rnode N j + 8) [0 ..< n])"
proof -
  have h: "head_at (rnode N j + 8)" "apart (rhead N) (rnode N j + 8)" if "j < n" for j
  proof -
    have j: "rnode N j + 24 \<le> 2 ^ 63" "{rnode N j ..< rnode N j + 24} \<inter> {rhead N ..< rhead N + 16} = {}"
      using assms that by (auto simp: run_area_def)
    then show "head_at (rnode N j + 8)" by (simp add: head_at_def)
    show "apart (rhead N) (rnode N j + 8)" using disjoint_ranges [OF j(2)] by (auto simp: apart_def)
  qed
  have a: "apart (rnode N i + 8) (rnode N j + 8)" if "i < n" "j < n" "i \<noteq> j" for i j
  proof -
    have "{rnode N i ..< rnode N i + 24} \<inter> {rnode N j ..< rnode N j + 24} = {}" using assms that by (auto simp: run_area_def)
    from disjoint_ranges [OF this] show ?thesis by (auto simp: apart_def)
  qed
  have "inj_on (\<lambda>j. rnode N j + 8) {0 ..< n}"
  proof (rule inj_onI)
    fix i j
    assume "i \<in> {0 ..< n}" "j \<in> {0 ..< n}" "rnode N i + 8 = rnode N j + 8"
    with a [of i j] show "i = j" by auto
  qed
  then have "distinct (map (\<lambda>j. rnode N j + 8) [0 ..< n])" by (simp add: distinct_map)
  moreover have "x = y \<or> apart x y" if "x \<in> set (map (\<lambda>j. rnode N j + 8) [0 ..< n])" "y \<in> set (map (\<lambda>j. rnode N j + 8) [0 ..< n])" for x y
    using that a by fastforce
  moreover have "head_at (rhead N)" using assms(1) by (simp add: run_area_def)
  ultimately show ?thesis using h by (auto simp: wf_ring_iff [of "map _ _"] list_all_iff)
qed

lemma run_bound: "run_area E N \<Longrightarrow> j \<le> rcap N \<Longrightarrow> rnode N j + 24 \<le> 2 ^ 63"
  by (simp add: run_area_def)

section \<open>The bytes of a list\<close>

definition link_bytes :: "nat list \<Rightarrow> nat set" where
  "link_bytes ns = (\<Union>a \<in> set ns. {a ..< a + 16})"

lemma dlist_unchanged:
  assumes "dlist m h ns" and u: "unchanged_outside S m m'" and "link_bytes (h # ns) \<inter> S = {}"
  shows "dlist m' h ns"
proof -
  have "list_next m' (ptr a) = list_next m (ptr a)" "list_prev m' (ptr a) = list_prev m (ptr a)" if a: "a \<in> set (h # ns)" for a
  proof -
    have "{a ..< a + 16} \<inter> S = {}" using assms(3) a unfolding link_bytes_def by blast
    then have "{a ..< a + 8} \<inter> S = {}" "{a + 8 ..< a + 8 + 8} \<inter> S = {}" by (auto simp: disjoint_iff)
    moreover have "a + 16 \<le> 2 ^ 63" using wf_ring_head [OF dlist_nodes [OF assms(1)] a] by (simp add: head_at_def)
    ultimately show "list_next m' (ptr a) = list_next m (ptr a)" "list_prev m' (ptr a) = list_prev m (ptr a)"
      using unchanged_load64 [OF u, of a] unchanged_load64 [OF u, of "a + 8"] by (simp_all add: list_next_def list_prev_def)
  qed
  then show ?thesis using assms(1) dlist_cong [of h ns m' m] by blast
qed

lemma unchanged_list_link:
  assumes "{a ..< a + 16} \<subseteq> S" and "a + 16 \<le> 2 ^ 63"
  shows "unchanged_outside S m (set_next (ptr a) v m)" and "unchanged_outside S m (set_prev (ptr a) v m)"
proof -
  have "{a ..< a + 8} \<subseteq> S" "{a + 8 ..< a + 8 + 8} \<subseteq> S" using assms(1) by force+
  then show "unchanged_outside S m (set_next (ptr a) v m)" "unchanged_outside S m (set_prev (ptr a) v m)"
    using unchanged_store64 [of a S m v] unchanged_store64 [of "a + 8" S m v] assms(2) by (simp_all add: set_next_def set_prev_def)
qed

lemma list_add_tail_unchanged:
  assumes "dlist m h ns" and ring: "wf_ring (n # h # ns)"
  shows "unchanged_outside (link_bytes (n # h # ns)) m (list_add_tail (ptr n) (ptr h) m)"
proof -
  define q where "q = last (h # ns)"
  have q: "list_prev m (ptr h) = ptr q" "q \<in> set (h # ns)" unfolding q_def by (rule dlist_last [OF assms(1)]) (rule last_in_set, simp)
  have U: "unchanged_outside (link_bytes (n # h # ns)) m (set_next (ptr b) v m)" "unchanged_outside (link_bytes (n # h # ns)) m (set_prev (ptr b) v m)"
    if "b \<in> {n, h, q}" for b v m
  proof -
    have b: "b \<in> set (n # h # ns)" using that q(2) by auto
    then have "{b ..< b + 16} \<subseteq> link_bytes (n # h # ns)" "b + 16 \<le> 2 ^ 63"
      using wf_ring_head [OF ring b] by (auto simp: link_bytes_def head_at_def)
    from unchanged_list_link [OF this]
    show "unchanged_outside (link_bytes (n # h # ns)) m (set_next (ptr b) v m)" "unchanged_outside (link_bytes (n # h # ns)) m (set_prev (ptr b) v m)"
      by blast+
  qed
  show ?thesis
    unfolding list_add_tail_def q(1) list_add_between_def Let_def
    by (rule unchanged_trans [OF unchanged_trans [OF unchanged_trans [OF U(2) U(1)] U(2)] U(1)]) simp_all
qed

lemma run_links:
  assumes "n \<le> Suc (rcap N)"
  shows "link_bytes (rhead N # map (\<lambda>j. rnode N j + 8) [0 ..< n]) \<subseteq> run_bytes N"
proof
  fix x
  assume "x \<in> link_bytes (rhead N # map (\<lambda>j. rnode N j + 8) [0 ..< n])"
  then consider "x \<in> {rhead N ..< rhead N + 16}" | j where "j < n" "x \<in> {rnode N j + 8 ..< rnode N j + 24}"
    by (auto simp: link_bytes_def)
  then show "x \<in> run_bytes N"
  proof cases
    case 2
    then have "j \<le> rcap N" "x \<in> {rnode N j ..< rnode N j + 24}" using assms by auto
    then show ?thesis unfolding run_bytes_def by blast
  qed (simp add: run_bytes_def)
qed

section \<open>The run list\<close>

text \<open>The list is kept by whatever does not write its bytes.\<close>

lemma run_list_kept:
  assumes rl: "run_list N m objs" and u: "unchanged_outside S m m'" and S: "run_bytes N \<inter> S = {}" and ra: "run_area E N"
    and n: "length objs \<le> Suc (rcap N)"
  shows "run_list N m' objs"
proof -
  have "dlist m' (rhead N) (map (\<lambda>j. rnode N j + 8) [0 ..< length objs])"
    by (rule dlist_unchanged [OF _ u]) (use rl run_links [OF n] S in \<open>auto simp: run_list_def\<close>)
  moreover have "load64 m' (ptr (rnode N j)) = load64 m (ptr (rnode N j))" if "j < length objs" for j
  proof (rule unchanged_load64 [OF u])
    have "{rnode N j ..< rnode N j + 24} \<subseteq> run_bytes N" using that n by (auto simp: run_bytes_def)
    then have "{rnode N j ..< rnode N j + 24} \<inter> S = {}" using S by blast
    then show "{rnode N j ..< rnode N j + 8} \<inter> S = {}" by (auto simp: disjoint_iff)
    show "rnode N j + 8 \<le> 2 ^ 64" using run_bound [OF ra, of j] that n by simp
  qed
  ultimately show ?thesis using rl by (simp add: run_list_def)
qed

lemma run_list_init:
  assumes "run_area E N"
  shows "run_list N (INIT_LIST_HEAD (runhead E) m) []" and "unchanged_outside (run_bytes N) m (INIT_LIST_HEAD (runhead E) m)"
proof -
  have h: "runhead E = ptr (rhead N)" "head_at (rhead N)" "{rhead N ..< rhead N + 16} \<subseteq> run_bytes N"
    using assms by (auto simp: run_area_def run_bytes_def)
  then show "run_list N (INIT_LIST_HEAD (runhead E) m) []" by (simp add: run_list_def dlist_init)
  have "unchanged_outside (run_bytes N) m (set_next (ptr (rhead N)) v m)" "unchanged_outside (run_bytes N) m (set_prev (ptr (rhead N)) v m)" for m v
    using unchanged_list_link [OF h(3)] h(2) by (auto simp: head_at_def)
  then show "unchanged_outside (run_bytes N) m (INIT_LIST_HEAD (runhead E) m)"
    unfolding INIT_LIST_HEAD_def h(1) by (blast intro: unchanged_trans)
qed

text \<open>One more node: first its pointer is stored, then it is linked.\<close>

lemma run_node_apart:
  assumes ra: "run_area E N" and ij: "i \<le> rcap N" "j \<le> rcap N"
  shows "{rnode N i ..< rnode N i + 8} \<inter> {rnode N j + 8 ..< rnode N j + 8 + 16} = {}"
    and "i \<noteq> j \<Longrightarrow> {rnode N i ..< rnode N i + 8} \<inter> {rnode N j ..< rnode N j + 8} = {}"
    and "{rnode N i ..< rnode N i + 8} \<inter> {rhead N ..< rhead N + 16} = {}"
proof -
  have a: "{rnode N i ..< rnode N i + 24} \<inter> {rnode N j ..< rnode N j + 24} = {}" if "i \<noteq> j" using ra ij that by (auto simp: run_area_def)
  then show "i \<noteq> j \<Longrightarrow> {rnode N i ..< rnode N i + 8} \<inter> {rnode N j ..< rnode N j + 8} = {}" by (auto simp: disjoint_iff)
  show "{rnode N i ..< rnode N i + 8} \<inter> {rnode N j + 8 ..< rnode N j + 8 + 16} = {}"
    using a by (cases "i = j") (auto simp: disjoint_iff)
  have "{rnode N i ..< rnode N i + 24} \<inter> {rhead N ..< rhead N + 16} = {}" using ra ij by (auto simp: run_area_def)
  then show "{rnode N i ..< rnode N i + 8} \<inter> {rhead N ..< rhead N + 16} = {}" by (auto simp: disjoint_iff)
qed

lemma run_slot_apart:
  assumes "run_area E N" and "i \<le> rcap N" and "n \<le> Suc (rcap N)"
  shows "{rnode N i ..< rnode N i + 8} \<inter> link_bytes (rhead N # map (\<lambda>j. rnode N j + 8) [0 ..< n]) = {}"
proof -
  have "{rnode N i ..< rnode N i + 8} \<inter> {b ..< b + 16} = {}" if b: "b \<in> set (rhead N # map (\<lambda>j. rnode N j + 8) [0 ..< n])" for b
  proof (cases "b = rhead N")
    case True
    then show ?thesis using run_node_apart(3) [OF assms(1,2,2)] by simp
  next
    case False
    then obtain j where "j < n" "b = rnode N j + 8" using b by auto
    then show ?thesis using run_node_apart(1) [OF assms(1,2), of j] assms(3) by simp
  qed
  then show ?thesis unfolding link_bytes_def by blast
qed

lemma run_list_push:
  fixes l :: addr
  assumes ra: "run_area E N" and rl: "run_list N m objs" and n: "length objs \<le> rcap N"
  defines "m' \<equiv> list_add_tail (runnode E (length objs) + 8) (runhead E) (store64 m (runnode E (length objs)) l)"
  shows "run_list N m' (objs @ [l])" and "unchanged_outside (run_bytes N) m m'"
proof -
  let ?n = "length objs" and ?nodes = "\<lambda>n. map (\<lambda>j. rnode N j + 8) [0 ..< n]"
  define a where "a = rnode N ?n"
  have nd: "runhead E = ptr (rhead N)" "runnode E ?n = ptr a" "a + 24 \<le> 2 ^ 63" using ra n by (auto simp: run_area_def a_def)
  let ?m1 = "store64 m (ptr a) l"
  have u1: "unchanged_outside {a ..< a + 8} m ?m1" using nd by (intro unchanged_store64) auto
  have ring: "wf_ring (rhead N # ?nodes (Suc ?n))" using run_ring [OF ra, of "Suc ?n"] n by simp
  have ring': "wf_ring ((a + 8) # rhead N # ?nodes ?n)"
    by (rule wf_ring_mset [OF ring]) (use wf_ring_distinct [OF ring] in \<open>auto simp: a_def\<close>)
  have d1: "dlist ?m1 (rhead N) (?nodes ?n)"
    by (rule dlist_unchanged [OF _ u1]) (use rl run_slot_apart [OF ra n, of ?n] n in \<open>auto simp: run_list_def a_def Int_commute\<close>)
  have m': "m' = list_add_tail (ptr (a + 8)) (ptr (rhead N)) ?m1" by (simp add: m'_def nd)
  have d: "dlist m' (rhead N) (?nodes (Suc ?n))" using list_add_tail_dlist [OF d1 ring'] by (simp add: m' a_def)
  have L: "link_bytes ((a + 8) # rhead N # ?nodes ?n) = link_bytes (rhead N # ?nodes (Suc ?n))" by (auto simp: link_bytes_def a_def)
  have u2: "unchanged_outside (link_bytes (rhead N # ?nodes (Suc ?n))) ?m1 m'"
    using list_add_tail_unchanged [OF d1 ring'] unfolding m' L .
  have slot: "load64 m' (ptr (rnode N j)) = load64 ?m1 (ptr (rnode N j))" if "j \<le> ?n" for j
    using run_slot_apart [OF ra, of j "Suc ?n"] run_bound [OF ra, of j] that n by (intro unchanged_load64 [OF u2]) simp_all
  have "load64 m' (ptr (rnode N j)) = (objs @ [l]) ! j" if j: "j \<le> ?n" for j
  proof (cases "j = ?n")
    case True
    then show ?thesis using slot [OF j] by (simp add: a_def m64.load_store_same)
  next
    case False
    have "load64 ?m1 (ptr (rnode N j)) = load64 m (ptr (rnode N j))"
      using run_node_apart(2) [OF ra, of j ?n] run_bound [OF ra, of j] j n False by (intro unchanged_load64 [OF u1]) (simp_all add: a_def)
    with slot [OF j] False j rl show ?thesis by (simp add: run_list_def nth_append)
  qed
  then show "run_list N m' (objs @ [l])" using d by (simp add: run_list_def less_Suc_eq_le)
  have "{a ..< a + 8} \<subseteq> {rnode N ?n ..< rnode N ?n + 24}" by (auto simp: a_def)
  also have "\<dots> \<subseteq> run_bytes N" using n unfolding run_bytes_def by blast
  finally have "unchanged_outside (run_bytes N) m ?m1" by (rule unchanged_mono [OF u1])
  also have "unchanged_outside (run_bytes N) ?m1 m'" by (rule unchanged_mono [OF u2]) (use run_links [of "Suc ?n"] n in simp)
  finally show "unchanged_outside (run_bytes N) m m'" .
qed

text \<open>Walking the list.\<close>

lemma run_list_walk:
  assumes ra: "run_area E N" and rl: "run_list N m objs" and i: "i < length objs" and n: "length objs \<le> Suc (rcap N)"
  shows "run_map m (list_entry (ptr (rnode N i + 8)) 8) = objs ! i" and "ptr (rnode N i + 8) \<noteq> runhead E"
    and "list_next m (ptr (rnode N i + 8)) = (if Suc i < length objs then ptr (rnode N (Suc i) + 8) else runhead E)"
    and "list_next m (runhead E) = ptr (rnode N 0 + 8)"
proof -
  let ?f = "\<lambda>j. rnode N j + 8"
  have h: "runhead E = ptr (rhead N)" using ra by (simp add: run_area_def)
  have d: "dlist m (rhead N) (map ?f [0 ..< length objs])" using rl by (simp add: run_list_def)
  have sp: "[0 ..< length objs] = [0 ..< i] @ i # [Suc i ..< length objs]" using i upt_add_eq_append [of 0 i "length objs - i"] by (simp add: upt_conv_Cons)
  have "dlist m (rhead N) (map ?f [0 ..< i] @ ?f i # map ?f [Suc i ..< length objs])" using d unfolding sp by simp
  from dlist_at(2) [OF this] show "list_next m (ptr (rnode N i + 8)) = (if Suc i < length objs then ptr (rnode N (Suc i) + 8) else runhead E)"
    by (simp add: h upt_conv_Cons)
  have "[0 ..< length objs] = 0 # [1 ..< length objs]" using i by (subst upt_conv_Cons) auto
  then show "list_next m (runhead E) = ptr (rnode N 0 + 8)" using dlist_first [OF d] by (simp add: h)
  have "?f i \<in> set (map ?f [0 ..< length objs])" using i by simp
  then have "?f i \<noteq> rhead N" "head_at (?f i)" "head_at (rhead N)"
    using wf_ring_distinct [OF dlist_nodes [OF d]] wf_ring_head [OF dlist_nodes [OF d]] by auto
  then show "ptr (rnode N i + 8) \<noteq> runhead E" unfolding h by (subst ptr_eq) (auto simp: head_at_def)
  show "run_map m (list_entry (ptr (rnode N i + 8)) 8) = objs ! i" using rl i by (simp add: run_map_def list_entry_def run_list_def)
qed

end
