(* ===== verification/Load_Order.thy ===== *)
theory Load_Order
  imports Prelude
begin

text \<open>
  The order in which dependencies are loaded, as a reference: a breadth-first run over a graph that is given by the
  list of direct dependencies of each node. \<open>bfs deps n i seen\<close> makes at most \<open>n\<close> steps from position \<open>i\<close> of the nodes seen
  so far. When the graph is finite, enough steps reach every dependency, each once.
\<close>

definition add_new :: "'a \<Rightarrow> 'a list \<Rightarrow> 'a list" where
  "add_new y seen = (if y \<in> set seen then seen else seen @ [y])"

primrec bfs :: "('a \<Rightarrow> 'a list) \<Rightarrow> nat \<Rightarrow> nat \<Rightarrow> 'a list \<Rightarrow> 'a list" where
  "bfs deps 0 i seen = seen"
| "bfs deps (Suc n) i seen =
     (if i < length seen then bfs deps n (Suc i) (fold add_new (deps (seen ! i)) seen) else seen)"

definition load_order :: "('a \<Rightarrow> 'a list) \<Rightarrow> nat \<Rightarrow> 'a list \<Rightarrow> 'a list" where
  "load_order deps n start = bfs deps n 0 (fold add_new start [])"

inductive reached :: "('a \<Rightarrow> 'a list) \<Rightarrow> 'a list \<Rightarrow> 'a \<Rightarrow> bool" for deps start where
  first: "y \<in> set start \<Longrightarrow> reached deps start y"
| further: "reached deps start x \<Longrightarrow> y \<in> set (deps x) \<Longrightarrow> reached deps start y"

lemma set_add_new [simp]: "set (add_new y seen) = insert y (set seen)"
  by (auto simp: add_new_def)

lemma set_fold_add_new [simp]: "set (fold add_new ys seen) = set seen \<union> set ys"
  by (induction ys arbitrary: seen) auto

lemma distinct_fold_add_new: "distinct seen \<Longrightarrow> distinct (fold add_new ys seen)"
  by (induction ys arbitrary: seen) (auto simp: add_new_def)

lemma fold_add_new_prefix: "\<exists>zs. fold add_new ys seen = seen @ zs"
proof (induction ys arbitrary: seen)
  case (Cons y ys)
  obtain zs where "fold add_new ys (add_new y seen) = add_new y seen @ zs" using Cons.IH by blast
  moreover have "\<exists>us. add_new y seen = seen @ us" by (simp add: add_new_def)
  ultimately show ?case by auto
qed simp

lemma distinct_bfs: "distinct seen \<Longrightarrow> distinct (bfs deps n i seen)"
  by (induction n arbitrary: i seen) (auto intro: distinct_fold_add_new)

lemma bfs_reached: "(\<And>y. y \<in> set seen \<Longrightarrow> reached deps start y) \<Longrightarrow> y \<in> set (bfs deps n i seen) \<Longrightarrow> reached deps start y"
proof (induction n arbitrary: i seen)
  case (Suc n)
  show ?case
  proof (cases "i < length seen")
    case True
    show ?thesis
      by (rule Suc.IH [of "fold add_new (deps (seen ! i)) seen" "Suc i"])
        (use Suc.prems True in \<open>auto intro: further [of deps start "seen ! i"]\<close>)
  qed (use Suc.prems in auto)
qed simp

text \<open>With enough steps nothing is missing.\<close>

lemma bfs_closed:
  assumes "finite C" and "\<And>y. y \<in> C \<Longrightarrow> set (deps y) \<subseteq> C"
  shows "set seen \<subseteq> C \<Longrightarrow> distinct seen \<Longrightarrow> card C \<le> n + i \<Longrightarrow>
    (\<And>j. j < i \<Longrightarrow> j < length seen \<Longrightarrow> set (deps (seen ! j)) \<subseteq> set seen) \<Longrightarrow>
    set seen \<subseteq> set (bfs deps n i seen) \<and> (\<forall>y \<in> set (bfs deps n i seen). set (deps y) \<subseteq> set (bfs deps n i seen))"
proof (induction n arbitrary: i seen)
  case 0
  have "length seen \<le> card C" using 0(1,2) assms(1) by (metis card_mono distinct_card)
  then have "set (deps (seen ! j)) \<subseteq> set seen" if "j < length seen" for j using 0(3,4) that by auto
  then have "\<forall>y \<in> set seen. set (deps y) \<subseteq> set seen" by (metis in_set_conv_nth)
  then show ?case by simp
next
  case (Suc n)
  show ?case
  proof (cases "i < length seen")
    case True
    let ?new = "fold add_new (deps (seen ! i)) seen"
    obtain zs where zs: "?new = seen @ zs" using fold_add_new_prefix by blast
    have "seen ! i \<in> C" using Suc.prems(1) True by auto
    then have "set ?new \<subseteq> C" using Suc.prems(1) assms(2) by auto
    moreover have "set (deps (?new ! j)) \<subseteq> set ?new" if "j < Suc i" "j < length ?new" for j
    proof -
      have "?new ! j = seen ! j" using that(1) True unfolding zs by (simp add: nth_append)
      then show ?thesis using that(1) True Suc.prems(4) [of j] by (cases "j = i") auto
    qed
    ultimately have "set ?new \<subseteq> set (bfs deps n (Suc i) ?new) \<and>
        (\<forall>y \<in> set (bfs deps n (Suc i) ?new). set (deps y) \<subseteq> set (bfs deps n (Suc i) ?new))"
      using Suc.prems(2,3) by (intro Suc.IH) (auto intro: distinct_fold_add_new)
    then show ?thesis using True by auto
  next
    case False
    then have "set (deps (seen ! j)) \<subseteq> set seen" if "j < length seen" for j using Suc.prems(4) that by auto
    then have "\<forall>y \<in> set seen. set (deps y) \<subseteq> set seen" by (metis in_set_conv_nth)
    with False show ?thesis by simp
  qed
qed

lemma load_order_set:
  assumes "finite C" and "set start \<subseteq> C" and "\<And>y. y \<in> C \<Longrightarrow> set (deps y) \<subseteq> C" and "card C \<le> n"
  shows "set (load_order deps n start) = {y. reached deps start y}"
proof (intro set_eqI iffI; (unfold mem_Collect_eq)?)
  fix y
  assume "y \<in> set (load_order deps n start)"
  then show "reached deps start y" unfolding load_order_def by (rule bfs_reached [rotated]) (auto intro: first)
next
  fix y
  have c: "set (fold add_new start []) \<subseteq> set (load_order deps n start) \<and>
      (\<forall>y \<in> set (load_order deps n start). set (deps y) \<subseteq> set (load_order deps n start))"
    unfolding load_order_def using assms by (intro bfs_closed [OF assms(1)]) (auto intro: distinct_fold_add_new)
  assume "reached deps start y"
  then show "y \<in> set (load_order deps n start)" by induction (use c in auto)
qed

lemma distinct_load_order: "distinct (load_order deps n start)"
  unfolding load_order_def by (intro distinct_bfs distinct_fold_add_new) simp

lemma load_order_subset:
  assumes "finite C" and "set start \<subseteq> C" and "\<And>y. y \<in> C \<Longrightarrow> set (deps y) \<subseteq> C" and "card C \<le> n"
  shows "set (load_order deps n start) \<subseteq> C"
proof -
  have "y \<in> C" if "reached deps start y" for y
    using that by induction (use assms(2,3) in auto)
  then show ?thesis using load_order_set [OF assms] by auto
qed

end
