(* ===== verification/Load_Needs.thy ===== *)
theory Load_Needs
  imports Load_Runlist Load_Order
begin

text \<open>
  What an object needs: the names its dynamic section lists, in the file and in memory once it is loaded.
\<close>

section \<open>In the file\<close>

definition needed :: "mem \<Rightarrow> addr \<Rightarrow> bool" where
  "needed m d \<longleftrightarrow> d_tag m d = of_nat DT_NEEDED"

definition needs_ok :: "byte list \<Rightarrow> byte list list \<Rightarrow> bool" where
  "needs_ok xs names \<longleftrightarrow>
     list_all2 (\<lambda>d x. cstr (obj_image xs) (unat (obj_val xs DT_STRTAB + d_un (obj_image xs) d)) x \<and>
         {unat (obj_val xs DT_STRTAB + d_un (obj_image xs) d) .. unat (obj_val xs DT_STRTAB + d_un (obj_image xs) d) + length x} \<subseteq> image_bytes xs)
       (filter (needed (obj_image xs)) (obj_dyns xs)) names"

section \<open>In memory\<close>

text \<open>The string table, the dynamic section and the names are among the bytes \<open>T\<close>.\<close>

definition needs_in :: "nat set \<Rightarrow> mem \<Rightarrow> link_map \<Rightarrow> byte list list \<Rightarrow> bool" where
  "needs_in T m L names \<longleftrightarrow>
     (\<exists>n e d. l_info L DT_STRTAB = ptr e \<and> 0 < e \<and> e + 16 \<le> 2 ^ 64 \<and> {e ..< e + 16} \<subseteq> T \<and>
        l_ld L = ptr d \<and> d + 16 * Suc n \<le> 2 ^ 64 \<and> {d ..< d + 16 * Suc n} \<subseteq> T \<and> dyn_section m (ptr d) n \<and>
        list_all2 (\<lambda>d x. str_in T m (unat (d_un m (ptr e) + l_addr L + d_un m d)) x) (filter (needed m) (dyns (ptr d) n)) names)"

lemma cstr_image:
  assumes "image_at m A xs" and "segments_ok k xs" and "A \<le> 2 ^ 47"
  shows "cstr (obj_image xs) a x \<Longrightarrow> {a .. a + length x} \<subseteq> image_bytes xs \<Longrightarrow> cstr m (A + a) x"
proof (induction x arbitrary: a)
  case Nil
  then have "a \<in> image_bytes xs" by simp
  moreover from image_bytes_bound [OF assms(2) this] have "A + a < 2 ^ 64" using assms(3) by simp
  moreover have "m (ptr (A + a)) = obj_image xs (ptr a)" using assms(1) \<open>a \<in> image_bytes xs\<close> unfolding image_at_def by blast
  ultimately show ?case using Nil.prems(1) by (simp del: ptr_add of_nat_add)
next
  case (Cons c x)
  then have a: "a \<in> image_bytes xs" by auto
  from image_bytes_bound [OF assms(2) this] have "A + a < 2 ^ 64" using assms(3) by simp
  moreover have "{Suc a .. Suc a + length x} \<subseteq> image_bytes xs" using Cons.prems(2) by auto
  moreover have "m (ptr (A + a)) = obj_image xs (ptr a)" using assms(1) a unfolding image_at_def by blast
  ultimately show ?case using Cons.prems(1) Cons.IH [of "Suc a"] by (simp del: ptr_add of_nat_add)
qed

text \<open>The image at \<open>A\<close> lies in \<open>T\<close>, and so does every range and every string of it.\<close>

lemma moved_range:
  assumes "(+) A ` image_bytes xs \<subseteq> T" and "{a ..< b} \<subseteq> image_bytes xs"
  shows "{A + a ..< A + b} \<subseteq> T"
proof -
  have "{A + a ..< A + b} = (+) A ` {a ..< b}" by (simp add: add.commute)
  then show ?thesis using assms by blast
qed

lemma moved_string:
  assumes "image_at m A xs" and "segments_ok k xs" and A: "0 < A" "A \<le> 2 ^ 47" and T: "(+) A ` image_bytes xs \<subseteq> T"
    and c: "cstr (obj_image xs) v x" and r: "{v .. v + length x} \<subseteq> image_bytes xs"
  shows "str_in T m (unat (ptr (A + v))) x"
proof -
  have "v \<in> image_bytes xs" using r by auto
  from image_bytes_bound [OF assms(2) this] have "unat (ptr (A + v)) = A + v" using A(2) by (simp add: unat_ptr)
  moreover have "{A + v .. A + v + length x} \<subseteq> T" using moved_range [OF T, of v "Suc (v + length x)"] r
    by (simp add: atLeastLessThanSuc_atLeastAtMost add.assoc)
  ultimately show ?thesis using cstr_image [OF assms(1,2) A(2) c r] A(1) by (simp add: str_in_def del: ptr_add of_nat_add)
qed

lemma image_bytes_in:
  assumes "segments_ok k xs" and "k \<le> 30" and "{A ..< A + page_up k (obj_len k xs)} \<subseteq> T"
  shows "(+) A ` image_bytes xs \<subseteq> T"
  using image_bytes_len [OF assms(1,2)] assms(3) by fastforce

lemma loaded_object:
  assumes l: "loaded E N T s l y" and ok: "lib_ok E N y" and k: "kbits N \<le> 30"
  obtains A where "0 < A" and "A \<le> 2 ^ 47" and "object_at (dt_num E) (the (sfiles N y)) (rmem s) (maps s l) A"
    and "(+) A ` image_bytes (the (sfiles N y)) \<subseteq> T"
proof -
  let ?xs = "the (sfiles N y)"
  obtain A where A: "0 < A" "A \<le> 2 ^ 47" "{A ..< A + page_up (kbits N) (obj_len (kbits N) ?xs)} \<subseteq> T"
      "object_at (dt_num E) ?xs (rmem s) (maps s l) A"
    using l unfolding loaded_def by blast
  have "segments_ok (kbits N) ?xs" using ok by (simp add: lib_ok_def object_ok_def)
  from image_bytes_in [OF this k A(3)] have "(+) A ` image_bytes ?xs \<subseteq> T" .
  with A show ?thesis using that by blast
qed

lemma needed_moved:
  assumes "image_at m A xs" and "dynamic_ok dtn xs"
  shows "filter (needed m) (dyns (ptr (A + obj_ld xs)) (length (obj_dyns xs))) =
    map ((+) (ptr A)) (filter (needed (obj_image xs)) (obj_dyns xs))"
  unfolding section_moved(2) [OF assms] filter_map
  by (rule arg_cong [of _ _ "map _"], rule filter_cong) (auto simp: needed_def entry_same(1) [OF assms])

lemma loaded_needs:
  assumes l: "loaded E N T s l y" and ok: "lib_ok E N y" and nd: "needs_ok (the (sfiles N y)) names" and k: "kbits N \<le> 30"
  shows "needs_in T (rmem s) (maps s l) names"
proof -
  let ?xs = "the (sfiles N y)" and ?m = "rmem s"
  let ?n = "length (obj_dyns ?xs)" and ?ld = "obj_ld ?xs"
  obtain A where A: "0 < A" "A \<le> 2 ^ 47" and o: "object_at (dt_num E) ?xs ?m (maps s l) A" and T: "(+) A ` image_bytes ?xs \<subseteq> T"
    by (rule loaded_object [OF l ok k])
  have oks: "segments_ok (kbits N) ?xs" "dynamic_ok (dt_num E) ?xs" using ok by (simp_all add: lib_ok_def object_ok_def)
  have im: "image_at ?m A ?xs" and L: "l_addr (maps s l) = ptr A" "l_ld (maps s l) = ptr (A + ?ld)"
      "l_info (maps s l) = obj_info (dt_num E) ?xs A"
    using o unfolding object_at_def by blast+
  have dr: "{?ld ..< ?ld + 16 * Suc ?n} \<subseteq> image_bytes ?xs" and st: "obj_entry ?xs DT_STRTAB \<noteq> None" "DT_STRTAB < dt_num E"
    using oks(2) by (simp_all add: dynamic_ok_def DT_STRTAB_def)
  have dT: "{A + ?ld ..< A + ?ld + 16 * Suc ?n} \<subseteq> T" using moved_range [OF T dr] by (simp only: add.assoc)
  have "?ld + 16 * Suc ?n - 1 \<in> {?ld ..< ?ld + 16 * Suc ?n}" by auto
  from image_bytes_bound [OF oks(1) subsetD [OF dr this]] have dB: "A + ?ld + 16 * Suc ?n \<le> 2 ^ 64" using A(2) by simp
  obtain e where e: "obj_entry ?xs DT_STRTAB = Some e" using st by blast
  obtain i where i: "i < ?n" "e = ptr (?ld + 16 * i)" by (rule entry_nth [OF obj_entry_in [OF e]])
  define e' where "e' = A + (?ld + 16 * i)"
  have info: "l_info (maps s l) DT_STRTAB = ptr e'" using e i(2) st(2) L(3) by (simp add: obj_info_def e'_def)
  have er: "0 < e'" "e' + 16 \<le> 2 ^ 64" "{e' ..< e' + 16} \<subseteq> T" using A(1) dT dB i(1) by (auto simp: e'_def)
  have val: "d_un ?m (ptr e') = obj_val ?xs DT_STRTAB"
    using obj_info_value [OF im oks(2) st(2,1)] info L(3) by simp
  have "list_all2 (\<lambda>d x. str_in T ?m (unat (d_un ?m (ptr e') + l_addr (maps s l) + d_un ?m d)) x)
      (map ((+) (ptr A)) (filter (needed (obj_image ?xs)) (obj_dyns ?xs))) names"
    unfolding list_all2_map1
  proof (rule list.rel_mono_strong [OF nd [unfolded needs_ok_def]], elim conjE)
    fix d x
    let ?v = "unat (obj_val ?xs DT_STRTAB + d_un (obj_image ?xs) d)"
    assume d: "d \<in> set (filter (needed (obj_image ?xs)) (obj_dyns ?xs))"
      and c: "cstr (obj_image ?xs) ?v x" "{?v .. ?v + length x} \<subseteq> image_bytes ?xs"
    have du: "d_un ?m (ptr A + d) = d_un (obj_image ?xs) d" using entry_same(2) [OF im oks(2), of d] d by auto
    have "d_un ?m (ptr e') + l_addr (maps s l) + d_un ?m (ptr A + d) = ptr A + ptr ?v"
      unfolding val L(1) du ptr_unat by (simp only: ac_simps)
    also have "\<dots> = ptr (A + ?v)" by (rule ptr_add)
    finally show "str_in T ?m (unat (d_un ?m (ptr e') + l_addr (maps s l) + d_un ?m (ptr A + d))) x"
      using moved_string [OF im oks(1) A T c] by (simp only:)
  qed
  then show ?thesis
    unfolding needs_in_def using info er L(2) dB dT section_moved(1) [OF im oks(2)] needed_moved [OF im oks(2)] by (metis (no_types, lifting))
qed

end
