(* ===== verification/Load_Deps.thy ===== *)
theory Load_Deps
  imports Load_Needs
begin

text \<open>
  The dependency run: the loops of \<open>map_object_deps\<close> load the libraries breadth first, each once, and append them to the
  namespace in the order of \<open>load_order\<close>.
\<close>

section \<open>The state between two entries\<close>

text \<open>What a link map says about its object, without the links and the mark.\<close>

definition core :: "link_map \<Rightarrow> link_map" where
  "core L = L\<lparr>l_prev := NULL, l_next := NULL, l_reserved := 0\<rparr>"

lemma core_fields [simp]:
  "l_name (core L) = l_name L" "l_addr (core L) = l_addr L" "l_ld (core L) = l_ld L" "l_info (core L) = l_info L"
  "l_entry (core L) = l_entry L" "l_nbuckets (core L) = l_nbuckets L" "l_buckets (core L) = l_buckets L" "l_chain (core L) = l_chain L"
  by (simp_all add: core_def)

lemma object_at_core: "object_at dtn xs m (core L) A = object_at dtn xs m L A"
  by (simp only: object_at_def core_fields)

lemma loaded_kept:
  assumes l: "loaded E N T s l y" and ok: "lib_ok E N y" "kbits N \<le> 30" and c: "core (maps s' l) = core (maps s l)"
    and u: "unchanged_outside S (rmem s) (rmem s')" "T \<inter> S = {}" and T: "T \<subseteq> T'"
  shows "loaded E N T' s' l y"
proof -
  let ?xs = "the (sfiles N y)" and ?R = "\<lambda>A. {A ..< A + page_up (kbits N) (obj_len (kbits N) (the (sfiles N y)))}"
  obtain A where A: "0 < A" "A \<le> 2 ^ 47" "?R A \<subseteq> T" "object_at (dt_num E) ?xs (rmem s) (maps s l) A"
    using l unfolding loaded_def by blast
  have seg: "segments_ok (kbits N) ?xs" using ok by (simp add: lib_ok_def object_ok_def)
  have "(+) A ` image_bytes ?xs \<subseteq> T" by (rule image_bytes_in [OF seg ok(2) A(3)])
  then have "image_at (rmem s') A ?xs"
    using A(4) u(2) unfolding object_at_def by (intro image_at_unchanged [OF _ u(1) _ seg A(2)]) blast+
  then have "object_at (dt_num E) ?xs (rmem s') (core (maps s' l)) A"
    using A(4) unfolding c object_at_core unfolding object_at_def by blast
  moreover have "l_name (maps s' l) = l_name (maps s l)" using arg_cong [OF c, of l_name] by simp
  moreover have "str_in T' (rmem s') (unat (l_name (maps s l))) y"
    using l by (intro str_in_mono [OF str_in_kept [OF _ u] T]) (simp add: loaded_def)
  ultimately show ?thesis using l A T unfolding loaded_def object_at_core by (metis subset_eq)
qed

text \<open>
  \<open>ls\<close> are the libraries loaded so far, \<open>nm\<close> gives the paths of the objects; \<open>ns0\<close> are the objects that were in the
  namespace before. Their names are not among the paths \<open>C\<close> of the libraries.
\<close>

definition deps_inv ::
  "'w env \<Rightarrow> 'w site \<Rightarrow> byte list set \<Rightarrow> addr \<Rightarrow> addr list \<Rightarrow> (addr \<Rightarrow> byte list) \<Rightarrow> nat set \<Rightarrow> nat set \<Rightarrow> blocks \<Rightarrow> addr list \<Rightarrow>
     'w rtld \<Rightarrow> bool" where
  "deps_inv E N C root ns0 nm T F L ls s \<longleftrightarrow>
     site_inv E N T F L s \<and> namespace_ok s (ns0 @ ls) \<and> unat root \<in> T \<and> root \<notin> set ls \<and>
     (\<forall>l \<in> set ns0. unat l \<in> T \<and> str_in T (rmem s) (unat (l_name (maps s l))) (nm l) \<and> nm l \<notin> C) \<and>
     (\<forall>l \<in> set ls. loaded E N T s l (nm l) \<and> l_reserved (maps s l) \<noteq> 0 \<and> nm l \<in> C) \<and> distinct (map nm ls) \<and>
     run_list N (rmem s) (root # ls) \<and> run_bytes N \<subseteq> site_mapped N s \<and>
     run_bytes N \<inter> (F \<union> {hcell N ..< hcell N + 8} \<union> live_bytes L \<union> scratch N \<union> T) = {}"

definition libs_ok :: "'w env \<Rightarrow> 'w site \<Rightarrow> byte list set \<Rightarrow> (byte list \<Rightarrow> byte list list) \<Rightarrow> bool" where
  "libs_ok E N C sn \<longleftrightarrow> run_area E N \<and> kbits N \<le> 30 \<and> finite C \<and> card C \<le> rcap N \<and>
     (\<forall>y \<in> C. lib_ok E N y \<and> needs_ok (the (sfiles N y)) (sn y) \<and> (\<forall>x \<in> set (sn y). \<exists>z \<in> C. resolve N x = Some z))"

definition lib_costs :: "'w env \<Rightarrow> 'w site \<Rightarrow> byte list set \<Rightarrow> nat" where
  "lib_costs E N Y = (\<Sum>y \<in> Y. object_cost E (kbits N) (the (sfiles N y)))"

definition advanced ::
  "addr list \<Rightarrow> nat set \<Rightarrow> (addr \<Rightarrow> byte list) \<Rightarrow> addr list \<Rightarrow> 'w rtld \<Rightarrow> nat set \<Rightarrow> (addr \<Rightarrow> byte list) \<Rightarrow> addr list \<Rightarrow> 'w rtld \<Rightarrow> bool" where
  "advanced ns0 T nm ls s T' nm' ls' s' \<longleftrightarrow>
     T \<subseteq> T' \<and> (\<exists>zs. ls' = ls @ zs) \<and> (\<forall>l \<in> set (ns0 @ ls). nm' l = nm l) \<and>
     unchanged_outside (- T) (rmem s) (rmem s') \<and> (\<forall>l. unat l \<in> T \<longrightarrow> core (maps s' l) = core (maps s l))"

lemma advanced_refl: "advanced ns0 T nm ls s T nm ls s"
  by (simp add: advanced_def)

lemma advanced_trans:
  assumes "advanced ns0 T nm ls s T1 nm1 ls1 s1" and "advanced ns0 T1 nm1 ls1 s1 T2 nm2 ls2 s2"
  shows "advanced ns0 T nm ls s T2 nm2 ls2 s2"
proof -
  note A = assms(1) [unfolded advanced_def] and B = assms(2) [unfolded advanced_def]
  have "unchanged_outside (- T) (rmem s1) (rmem s2)" using A B by (blast intro: unchanged_mono)
  then have "unchanged_outside (- T) (rmem s) (rmem s2)" using A by (blast intro: unchanged_trans)
  moreover have "\<exists>zs. ls2 = ls @ zs" using A B by auto
  ultimately show ?thesis unfolding advanced_def using A B by (auto 0 3)
qed

section \<open>One entry\<close>

lemma site_inv_write:
  assumes inv: "site_inv E N T F L s" and st: "lst s' = (lst s)\<lparr>smem := m\<rparr>" "rpath s' = rpath s" "dl_pagesize s' = dl_pagesize s"
    and u: "unchanged_outside R (rmem s) m" and R: "R \<inter> (F \<union> {hcell N ..< hcell N + 8} \<union> live_bytes L \<union> T) = {}"
  shows "site_inv E N T F L s'"
proof -
  note I = inv [unfolded site_inv_def]
  have rd: "site_ready E N F L s" using I by blast
  note RD = rd [unfolded load_ready_def]
  have mi: "malloc_inv (kern E) (vmapped (kview N)) (2 ^ kbits N) (hcell N) F L (lst s')"
    by (rule malloc_inv_step [of _ _ _ _ _ _ "lst s" R]) (use RD R u in \<open>auto simp: st\<close>)
  then have "site_ready E N F L s'" using RD st by (simp add: load_ready_def)
  moreover have keep: "str_in T (rmem s') a x" if "str_in T (rmem s) a x" for a x
    using str_in_kept [OF that u] R by (simp add: st) blast
  moreover obtain ps rest where p: "rpath s = map ptr ps @ NULL # rest" "list_all2 (str_in T (rmem s)) ps (sdirs N)" using I by blast
  have "list_all2 (str_in T (rmem s')) ps (sdirs N)" by (rule list_all2_mono [OF p(2)]) (rule keep)
  moreover have "rpath s' = map ptr ps @ NULL # rest" "site_mapped N s' = site_mapped N s" using p(1) st by simp_all
  ultimately show ?thesis using I unfolding site_inv_def by metis
qed

lemma namespace_ok_cong:
  assumes "namespace_ok s ls" and "namespace s' = namespace s"
    and "\<And>l. l \<in> set ls \<Longrightarrow> l_next (maps s' l) = l_next (maps s l) \<and> l_prev (maps s' l) = l_prev (maps s l)"
  shows "namespace_ok s' ls"
  using assms ns_list_cong [of ls "maps s'" "maps s" "namespace s"] prev_ok_cong [of ls "maps s'" "maps s" NULL]
  by (simp add: namespace_ok_def)

text \<open>Marking a new library, putting it on the run list and appending it to the namespace.\<close>

definition enter_lib :: "'w env \<Rightarrow> addr \<Rightarrow> nat \<Rightarrow> addr list \<Rightarrow> 'w rtld \<Rightarrow> 'w rtld" where
  "enter_lib E l n ns s =
     link_last l (last (NULL # ns)) (chain_runlist E l (runnode E (Suc n)) (upd_map l (\<lambda>L. L\<lparr>l_reserved := 1\<rparr>) s))"

lemma enter_lib_maps:
  assumes "l \<notin> set ns" and "l \<noteq> NULL"
  shows "core (maps (enter_lib E l n ns s) z) = core (maps s z)"
    and "l_reserved (maps (enter_lib E l n ns s) z) = (if z = l then 1 else l_reserved (maps s z))"
    and "rpath (enter_lib E l n ns s) = rpath s" and "dl_pagesize (enter_lib E l n ns s) = dl_pagesize s"
    and "lst (enter_lib E l n ns s) =
      (lst s)\<lparr>smem := list_add_tail (runnode E (Suc n) + 8) (runhead E) (store64 (rmem s) (runnode E (Suc n)) l)\<rparr>"
proof -
  define p where "p = last (NULL # ns)"
  have "l \<noteq> p" using assms last_in_set [of ns] by (auto simp: p_def split: if_splits)
  note lm = link_last_maps [OF this]
  show "core (maps (enter_lib E l n ns s) z) = core (maps s z)"
    "l_reserved (maps (enter_lib E l n ns s) z) = (if z = l then 1 else l_reserved (maps s z))"
    unfolding enter_lib_def p_def [symmetric] lm by (auto simp: chain_runlist_def set_rmem_def upd_map_def core_def)
qed (simp_all add: enter_lib_def link_last_def chain_runlist_def set_rmem_def upd_map_def Let_def)

lemma enter_lib_namespace:
  assumes "namespace_ok s ns" and "l \<notin> set ns" and "l \<noteq> NULL"
  shows "append_to_namespace l (chain_runlist E l r (upd_map l (\<lambda>L. L\<lparr>l_reserved := 1\<rparr>) s)) =
      Some (link_last l (last (NULL # ns)) (chain_runlist E l r (upd_map l (\<lambda>L. L\<lparr>l_reserved := 1\<rparr>) s)))"
    and "namespace_ok (enter_lib E l n ns s) (ns @ [l])"
proof -
  have c: "namespace_ok (chain_runlist E l r (upd_map l (\<lambda>L. L\<lparr>l_reserved := 1\<rparr>) s)) ns" for r
    by (rule namespace_ok_cong [OF assms(1)]) (use assms(2) in \<open>auto simp: chain_runlist_def set_rmem_def upd_map_def\<close>)
  show "append_to_namespace l (chain_runlist E l r (upd_map l (\<lambda>L. L\<lparr>l_reserved := 1\<rparr>) s)) =
      Some (link_last l (last (NULL # ns)) (chain_runlist E l r (upd_map l (\<lambda>L. L\<lparr>l_reserved := 1\<rparr>) s)))"
    using append_to_namespace_list [OF c assms(3)] assms(2) by simp
  show "namespace_ok (enter_lib E l n ns s) (ns @ [l])"
    unfolding enter_lib_def by (rule link_last_ok [OF c assms(2,3) refl])
qed

lemma find_lib:
  assumes "deps_inv E N C root ns0 nm T F L ls s" and "y \<in> C"
  shows "find (\<lambda>l. nm l = y) (ns0 @ ls) = find (\<lambda>l. nm l = y) ls"
proof -
  have "\<forall>l \<in> set ns0. nm l \<noteq> y" using assms by (auto simp: deps_inv_def)
  then show ?thesis by (induction ns0) auto
qed

text \<open>What the loop relies on is kept when the memory changes outside \<open>T\<close> and the run list only.\<close>

lemma deps_kept:
  assumes inv: "deps_inv E N C root ns0 nm T F L ls s" and ok: "libs_ok E N C sn"
    and g: "grown N F L s F' L' X s1 c" and i1: "site_inv E N (T \<union> X) F' L' s1"
  shows "run_list N (rmem s1) (root # ls)" and "run_bytes N \<subseteq> site_mapped N s1"
    and "run_bytes N \<inter> (F' \<union> {hcell N ..< hcell N + 8} \<union> live_bytes L' \<union> scratch N \<union> (T \<union> X)) = {}"
    and "T \<inter> X = {}" and "length ls \<le> card C"
    and "unchanged_outside (- T) (rmem s) (rmem s1)"
proof -
  note I = inv [unfolded deps_inv_def] and G = g [unfolded grown_def]
  have si: "site_inv E N T F L s" using I by blast
  show "run_bytes N \<subseteq> site_mapped N s1" using I G by blast
  show "run_bytes N \<inter> (F' \<union> {hcell N ..< hcell N + 8} \<union> live_bytes L' \<union> scratch N \<union> (T \<union> X)) = {}" using I G by blast
  have "T \<subseteq> site_mapped N s" "T \<inter> F = {}" using si unfolding site_inv_def by blast+
  then show "T \<inter> X = {}" using G by blast
  have "set (map nm ls) \<subseteq> C" "distinct (map nm ls)" using I by auto
  moreover have "finite C" "card C \<le> rcap N" "run_area E N" using ok by (simp_all add: libs_ok_def)
  ultimately have n: "length ls \<le> card C" by (metis card_mono distinct_card length_map)
  then show "length ls \<le> card C" .
  have u: "unchanged_outside (spare (vmapped (kview N)) (hcell N) F (lst s) \<union> scratch N) (rmem s) (rmem s1)" using G by blast
  show "run_list N (rmem s1) (root # ls)"
  proof (rule run_list_kept [OF _ u _ \<open>run_area E N\<close>])
    show "run_list N (rmem s) (root # ls)" using I by blast
    show "run_bytes N \<inter> (spare (vmapped (kview N)) (hcell N) F (lst s) \<union> scratch N) = {}" using I by blast
    show "length (root # ls) \<le> Suc (rcap N)" using n \<open>card C \<le> rcap N\<close> by simp
  qed
  show "unchanged_outside (- T) (rmem s) (rmem s1)" by (rule unchanged_mono [OF u]) (use site_inv_clear [OF si] in blast)
qed

lemma deps_hit:
  assumes inv: "deps_inv E N C root ns0 nm T F L ls s" and ok: "libs_ok E N C sn"
    and g: "grown N F L s F' L' X s1 c" and i1: "site_inv E N (T \<union> X) F' L' s1" and m: "maps s1 = maps s"
  shows "deps_inv E N C root ns0 nm (T \<union> X) F' L' ls s1" and "advanced ns0 T nm ls s (T \<union> X) nm ls s1"
proof -
  note I = inv [unfolded deps_inv_def] and K = deps_kept [OF inv ok g i1]
  have lo: "lib_ok E N y" "kbits N \<le> 30" if "y \<in> C" for y using ok that by (simp_all add: libs_ok_def)
  have T: "T \<inter> - T = {}" "T \<subseteq> T \<union> X" by auto
  have "loaded E N (T \<union> X) s1 l (nm l)" if "l \<in> set ls" for l
    using I that lo by (intro loaded_kept [OF _ _ _ _ K(6) T]) (auto simp: m)
  moreover have "str_in (T \<union> X) (rmem s1) (unat (l_name (maps s1 l))) (nm l)" if "l \<in> set ns0" for l
    using I that by (intro str_in_mono [OF str_in_kept [OF _ K(6) T(1)] T(2)]) (simp add: m)
  moreover have "namespace_ok s1 (ns0 @ ls)"
    by (rule namespace_ok_cong [of s]) (use I g in \<open>auto simp: m grown_def\<close>)
  ultimately show "deps_inv E N C root ns0 nm (T \<union> X) F' L' ls s1"
    using I K(1-3) i1 unfolding deps_inv_def m by blast
  show "advanced ns0 T nm ls s (T \<union> X) nm ls s1" using K(6) by (simp add: advanced_def m)
qed

lemma deps_miss:
  assumes inv: "deps_inv E N C root ns0 nm T F L ls s" and ok: "libs_ok E N C sn" and y: "y \<in> C" "y \<notin> set (map nm ls)"
    and g: "grown N F L s F' L' X s1 c" and i1: "site_inv E N (T \<union> X) F' L' s1"
    and m: "\<forall>z. z \<noteq> l \<longrightarrow> maps s1 z = maps s z" and l: "loaded E N X s1 l y"
  defines "s' \<equiv> enter_lib E l (length ls) (ns0 @ ls) s1"
  shows "deps_inv E N C root ns0 (nm(l := y)) (T \<union> X) F' L' (ls @ [l]) s'"
    and "advanced ns0 T nm ls s (T \<union> X) (nm(l := y)) (ls @ [l]) s'" and "l \<notin> set (ns0 @ ls)" and "namespace_ok s1 (ns0 @ ls)"
    and "l \<noteq> NULL"
proof -
  note I = inv [unfolded deps_inv_def] and K = deps_kept [OF inv ok g i1]
  have lo: "lib_ok E N y" "kbits N \<le> 30" "finite C" "card C \<le> rcap N" "run_area E N" if "y \<in> C" for y
    using ok that by (simp_all add: libs_ok_def)
  have ll: "l \<noteq> NULL" "unat l \<in> X" using l unfolding loaded_def by blast+
  have inT: "unat z \<in> T" if "z \<in> insert root (set (ns0 @ ls))" for z using I that unfolding loaded_def by auto
  then have new: "l \<notin> set (ns0 @ ls)" "l \<noteq> root" using ll(2) K(4) by blast+
  then show "l \<notin> set (ns0 @ ls)" by blast
  show "l \<noteq> NULL" by (fact ll(1))
  show ns: "namespace_ok s1 (ns0 @ ls)"
    by (rule namespace_ok_cong [of s]) (use I g m new in \<open>auto simp: grown_def\<close>)
  note M = enter_lib_maps [OF new(1) ll(1), of E "length ls" s1, folded s'_def]
  have len: "length (root # ls) \<le> rcap N"
  proof -
    have "set (y # map nm ls) \<subseteq> C" "distinct (y # map nm ls)" using I y by auto
    then have "length (y # map nm ls) \<le> card C" using lo(3) [OF y(1)] by (metis card_mono distinct_card)
    then show ?thesis using lo(4) [OF y(1)] by simp
  qed
  note P = run_list_push [OF lo(5) [OF y(1)] K(1) len, of l]
  have r': "rmem s' = list_add_tail (runnode E (length (root # ls)) + 8) (runhead E) (store64 (rmem s1) (runnode E (length (root # ls))) l)"
    by (simp add: M(5))
  have u2: "unchanged_outside (run_bytes N) (rmem s1) (rmem s')" using P(2) unfolding r' .
  have T: "T \<inter> - T = {}" "T \<subseteq> T \<union> X" "X \<inter> run_bytes N = {}" "X \<subseteq> T \<union> X" using K(3) by auto
  have u: "unchanged_outside (- T) (rmem s) (rmem s')"
    by (rule unchanged_trans [OF K(6) unchanged_mono [OF u2]]) (use K(3) in blast)
  have c: "core (maps s' z) = core (maps s z)" if "z \<noteq> l" for z using M(1) m that by simp
  have "loaded E N (T \<union> X) s' z (nm z)" if "z \<in> set ls" for z
    using I that lo new by (intro loaded_kept [OF _ _ _ c u T(1,2)]) auto
  moreover have "loaded E N (T \<union> X) s' l y"
    by (rule loaded_kept [OF l lo(1,2) [OF y(1)] M(1) u2 T(3,4)])
  moreover have "str_in (T \<union> X) (rmem s') (unat (l_name (maps s' z))) (nm z)" if z: "z \<in> set ns0" for z
  proof -
    have "z \<noteq> l" using z new(1) by auto
    then have "l_name (maps s' z) = l_name (maps s z)" using arg_cong [OF c, of z l_name] by simp
    then show ?thesis using I z by (intro str_in_mono [OF str_in_kept [OF _ u T(1)] T(2)]) simp
  qed
  moreover have "site_inv E N (T \<union> X) F' L' s'"
  proof (rule site_inv_write [OF i1, of _ "rmem s'" "run_bytes N"])
    show "lst s' = lst s1\<lparr>smem := rmem s'\<rparr>" by (simp add: M(5))
    show "run_bytes N \<inter> (F' \<union> {hcell N ..< hcell N + 8} \<union> live_bytes L' \<union> (T \<union> X)) = {}" using K(3) by blast
  qed (use M(3,4) u2 in simp_all)
  moreover have "namespace_ok s' (ns0 @ (ls @ [l]))" using enter_lib_namespace(2) [OF ns new(1) ll(1)] by (simp add: s'_def)
  moreover have "run_list N (rmem s') (root # (ls @ [l]))" using P(1) unfolding r' by simp
  moreover have "site_mapped N s' = site_mapped N s1" by (simp add: M(5))
  moreover have "map (nm(l := y)) ls = map nm ls" "\<forall>z \<in> set ns0. (nm(l := y)) z = nm z" using new by auto
  moreover have "\<forall>z \<in> set ls. l_reserved (maps s' z) \<noteq> 0" "l_reserved (maps s' l) \<noteq> 0" using I m new unfolding M(2) by auto
  ultimately show "deps_inv E N C root ns0 (nm(l := y)) (T \<union> X) F' L' (ls @ [l]) s'"
    using I K(2,3) y new unfolding deps_inv_def by auto
  have "unat l \<notin> T" using ll(2) K(4) by blast
  then have "core (maps s' z) = core (maps s z)" if "unat z \<in> T" for z using c [of z] that by auto
  then show "advanced ns0 T nm ls s (T \<union> X) (nm(l := y)) (ls @ [l]) s'"
    using u new by (auto simp: advanced_def)
qed

text \<open>One \<open>DT_NEEDED\<close> entry, whatever follows.\<close>

lemma lib_costs_remove:
  assumes "finite C" and "y \<in> C" and "y \<notin> Y"
  shows "lib_costs E N (C - Y) = object_cost E (kbits N) (the (sfiles N y)) + lib_costs E N (C - insert y Y)"
proof -
  have "C - insert y Y = (C - Y) - {y}" by blast
  then show ?thesis using assms sum.remove [of "C - Y" y] by (simp add: lib_costs_def)
qed

lemma deps_entry:
  assumes inv: "deps_inv E N C root ns0 nm T F L ls s" and ok: "libs_ok E N C sn" and x: "str_in T (rmem s) (unat a) x"
    and y: "resolve N x = Some y" "y \<in> C"
    and rm: "open_cost N + (rest + lib_costs E N (C - set (map nm ls))) \<le> site_room N s"
  obtains s' nm' T' F' L' ls' where
    "\<And>k. obind (map_object E a s) (\<lambda>(s, new).
        obind
          (if l_reserved (maps s new) = 0 then
             oreturn (Suc (length ls), chain_runlist E new (runnode E (Suc (length ls))) (upd_map new (\<lambda>L. L\<lparr>l_reserved := 1\<rparr>) s))
           else oreturn (length ls, s)) (\<lambda>(n, s).
        obind (olift (append_to_namespace new s)) (\<lambda>s. k n s))) = k (length ls') s'"
    and "deps_inv E N C root ns0 nm' T' F' L' ls' s'" and "advanced ns0 T nm ls s T' nm' ls' s'"
    and "map nm' ls' = add_new y (map nm ls)" and "rest + lib_costs E N (C - set (map nm' ls')) \<le> site_room N s'"
proof -
  note I = inv [unfolded deps_inv_def]
  have lo: "lib_ok E N y" "finite C" using ok y(2) by (simp_all add: libs_ok_def)
  have si: "site_inv E N T F L s" using I by blast
  have names: "\<forall>l \<in> set (ns0 @ ls). str_in T (rmem s) (unat (l_name (maps s l))) (nm l)" using I unfolding loaded_def by auto
  have ns: "ns_list (maps s) (namespace s) (ns0 @ ls)" using I by (simp add: namespace_ok_def)
  have x': "str_in T (rmem s) (unat a) x" using x .
  note fl = find_lib [OF inv y(2)]
  have none: "find (\<lambda>l. nm l = y) (ns0 @ ls) = None \<longleftrightarrow> y \<notin> set (map nm ls)" unfolding fl by (auto simp: find_None_iff)
  have cost: "open_cost N + (if find (\<lambda>l. nm l = y) (ns0 @ ls) = None then object_cost E (kbits N) (the (sfiles N y)) else 0) \<le> site_room N s"
    using rm lib_costs_remove [OF lo(2) y(2), of "set (map nm ls)" E N] by (auto simp: none)
  note S = map_object_site [OF si x' y(1) lo(1) ns names cost]
  have a: "ptr (unat a) = a" by simp
  show ?thesis
  proof (cases "find (\<lambda>l. nm l = y) (ns0 @ ls)")
    case (Some l)
    then obtain s1 F' L' X where m: "map_object E a s = oreturn (s1, l)" "maps s1 = maps s" "site_inv E N (T \<union> X) F' L' s1"
        "grown N F L s F' L' X s1 (open_cost N)"
      using S unfolding a by auto
    have l: "l \<in> set ls" "nm l = y" using Some unfolding fl by (auto simp: find_Some_iff)
    note H = deps_hit [OF inv ok m(4,3,2)]
    have "l_reserved (maps s1 l) \<noteq> 0" "l \<noteq> NULL" "namespace_ok s1 (ns0 @ ls)" "l \<in> set (ns0 @ ls)"
      using H(1) l(1) by (auto simp: deps_inv_def loaded_def)
    moreover from this have "append_to_namespace l s1 = Some s1" using append_to_namespace_list by fastforce
    ultimately have "obind (map_object E a s) (\<lambda>(s, new).
        obind
          (if l_reserved (maps s new) = 0 then
             oreturn (Suc (length ls), chain_runlist E new (runnode E (Suc (length ls))) (upd_map new (\<lambda>L. L\<lparr>l_reserved := 1\<rparr>) s))
           else oreturn (length ls, s)) (\<lambda>(n, s).
        obind (olift (append_to_namespace new s)) (\<lambda>s. k n s))) = k (length ls) s1" for k
      by (simp add: m(1))
    moreover have "map nm ls = add_new y (map nm ls)" using l by (auto simp: add_new_def)
    moreover have "rest + lib_costs E N (C - set (map nm ls)) \<le> site_room N s1" using rm m(4) by (simp add: grown_def)
    ultimately show ?thesis using that H by blast
  next
    case None
    then obtain s1 l F' L' X where m: "map_object E a s = oreturn (s1, l)" "\<forall>z. z \<noteq> l \<longrightarrow> maps s1 z = maps s z"
        "site_inv E N (T \<union> X) F' L' s1" "grown N F L s F' L' X s1 (open_cost N + object_cost E (kbits N) (the (sfiles N y)))"
        "loaded E N X s1 l y" "l_reserved (maps s1 l) = 0"
      using S unfolding a by auto
    have y': "y \<notin> set (map nm ls)" using None none by blast
    note H = deps_miss [OF inv ok y(2) y' m(4,3,2,5)]
    let ?s = "enter_lib E l (length ls) (ns0 @ ls) s1"
    have "obind (map_object E a s) (\<lambda>(s, new).
        obind
          (if l_reserved (maps s new) = 0 then
             oreturn (Suc (length ls), chain_runlist E new (runnode E (Suc (length ls))) (upd_map new (\<lambda>L. L\<lparr>l_reserved := 1\<rparr>) s))
           else oreturn (length ls, s)) (\<lambda>(n, s).
        obind (olift (append_to_namespace new s)) (\<lambda>s. k n s))) = k (length (ls @ [l])) ?s" for k
      using enter_lib_namespace(1) [OF H(4,3,5), of E "runnode E (Suc (length ls))"] m(1,6) by (simp add: enter_lib_def)
    moreover have mp: "map (nm(l := y)) (ls @ [l]) = add_new y (map nm ls)" using H(3) y' by (auto simp: add_new_def)
    moreover have "rest + lib_costs E N (C - set (map (nm(l := y)) (ls @ [l]))) \<le> site_room N ?s"
    proof -
      have "site_room N ?s = site_room N s1" by (simp add: enter_lib_maps(5) [OF H(3,5)])
      moreover have "C - set (map (nm(l := y)) (ls @ [l])) = C - insert y (set (map nm ls))" unfolding mp by simp
      ultimately show ?thesis using rm m(4) lib_costs_remove [OF lo(2) y(2) y', of E N] by (simp add: grown_def)
    qed
    ultimately show ?thesis using that H(1,2) by blast
  qed
qed

section \<open>The entries of an object\<close>

lemma dyn_kept:
  assumes "unchanged_outside (- T) m0 m" and "{d ..< d + 16} \<subseteq> T" and "d + 16 \<le> 2 ^ 64"
  shows "d_tag m (ptr d) = d_tag m0 (ptr d)" and "d_un m (ptr d) = d_un m0 (ptr d)"
proof -
  have "{d ..< d + 8} \<subseteq> {d ..< d + 16}" "{d + 8 ..< d + 8 + 8} \<subseteq> {d ..< d + 16}" by auto
  then have r: "{d ..< d + 8} \<inter> - T = {}" "{d + 8 ..< d + 8 + 8} \<inter> - T = {}" using assms(2) by blast+
  have "d + 8 \<le> 2 ^ 64" "d + 8 + 8 \<le> 2 ^ 64" using assms(3) by simp_all
  note u = unchanged_load64 [OF assms(1) r(1) this(1)] unchanged_load64 [OF assms(1) r(2) this(2)]
  show "d_tag m (ptr d) = d_tag m0 (ptr d)" unfolding d_tag_def by (rule u(1))
  show "d_un m (ptr d) = d_un m0 (ptr d)" unfolding d_un_def ptr_add_numeral by (rule u(2))
qed

text \<open>
  The entries are those of the memory \<open>m0\<close> in which the loop began; they, the string table and the names are in \<open>T0\<close>,
  which has not changed since.
\<close>

lemma deps_dyn_entries:
  fixes E :: "'w env"
  assumes ok: "libs_ok E N C sn" and e: "0 < e" "e + 16 \<le> 2 ^ 64" "{e ..< e + 16} \<subseteq> T0" and l: "unat l \<in> T0"
  shows "deps_inv E N C root ns0 nm T F L ls s \<Longrightarrow> T0 \<subseteq> T \<Longrightarrow> unchanged_outside (- T0) m0 (rmem s) \<Longrightarrow>
    l_info (maps s l) DT_STRTAB = ptr e \<Longrightarrow> l_addr (maps s l) = ad \<Longrightarrow>
    dyn_section m0 (ptr d) n \<Longrightarrow> d + 16 * Suc n \<le> 2 ^ 64 \<Longrightarrow> {d ..< d + 16 * Suc n} \<subseteq> T0 \<Longrightarrow>
    list_all2 (\<lambda>d x. str_in T0 m0 (unat (d_un m0 (ptr e) + ad + d_un m0 d)) x) (filter (needed m0) (dyns (ptr d) n)) names \<Longrightarrow>
    \<forall>x \<in> set names. \<exists>z \<in> C. resolve N x = Some z \<Longrightarrow>
    length names * open_cost N + (rest + lib_costs E N (C - set (map nm ls))) \<le> site_room N s \<Longrightarrow>
    \<exists>s' nm' T' F' L' ls'. deps_dyn E l (ptr d) (length ls) s = oreturn (length ls', s') \<and>
      deps_inv E N C root ns0 nm' T' F' L' ls' s' \<and> advanced ns0 T nm ls s T' nm' ls' s' \<and>
      map nm' ls' = fold add_new (map (the \<circ> resolve N) names) (map nm ls) \<and>
      rest + lib_costs E N (C - set (map nm' ls')) \<le> site_room N s'"
proof (induction n arbitrary: d names nm T F L ls s)
  case 0
  have "d_tag (rmem s) (ptr d) = 0" using dyn_kept(1) [OF 0(3), of d] 0(6-8) by simp
  then have "deps_dyn E l (ptr d) (length ls) s = oreturn (length ls, s)" by (subst deps_dyn.simps) simp
  moreover have "names = []" using 0(9) by simp
  ultimately show ?case using 0(1,11) advanced_refl by fastforce
next
  case (Suc n)
  have "{d ..< d + 16} \<subseteq> {d ..< d + 16 * Suc (Suc n)}" by auto
  then have bnd: "d + 16 \<le> 2 ^ 64" "{d ..< d + 16} \<subseteq> T0" using Suc.prems(7,8) by (simp, blast)
  note tag = dyn_kept [OF Suc.prems(3) bnd(2,1)]
  have st: "d_un (rmem s) (ptr e) = d_un m0 (ptr e)" by (rule dyn_kept(2) [OF Suc.prems(3) e(3,2)])
  have "ptr e \<noteq> NULL" using e(1,2) by (subst ptr_eq_0) auto
  then have dp: "D_PTR (rmem s) (maps s l) DT_STRTAB = oreturn (d_un m0 (ptr e) + ad)"
    using Suc.prems(4,5) st by (simp add: D_PTR_def)
  have d1: "ptr d + sizeof_Dyn = ptr (d + 16)" by (simp add: sizeof_Dyn_def)
  have nz: "d_tag m0 (ptr d) \<noteq> 0" and sec: "dyn_section m0 (ptr (d + 16)) n" using Suc.prems(6) d1 by simp_all
  have next_range: "d + 16 + 16 * Suc n \<le> 2 ^ 64" "{d + 16 ..< d + 16 + 16 * Suc n} \<subseteq> T0"
  proof -
    show "d + 16 + 16 * Suc n \<le> 2 ^ 64" using Suc.prems(7) by simp
    have "{d + 16 ..< d + 16 + 16 * Suc n} \<subseteq> {d ..< d + 16 * Suc (Suc n)}" by auto
    then show "{d + 16 ..< d + 16 + 16 * Suc n} \<subseteq> T0" using Suc.prems(8) by blast
  qed
  show ?case
  proof (cases "needed m0 (ptr d)")
    case False
    then have "deps_dyn E l (ptr d) (length ls) s = deps_dyn E l (ptr (d + 16)) (length ls) s"
      using nz dp tag(1) d1 by (subst deps_dyn.simps) (simp add: needed_def)
    moreover have "list_all2 (\<lambda>d x. str_in T0 m0 (unat (d_un m0 (ptr e) + ad + d_un m0 d)) x) (filter (needed m0) (dyns (ptr (d + 16)) n)) names"
      using Suc.prems(9) False d1 by simp
    ultimately show ?thesis using Suc.IH [OF Suc.prems(1-5) sec next_range _ Suc.prems(10,11)] by simp
  next
    case True
    then obtain x xs where names: "names = x # xs" and x: "str_in T0 m0 (unat (d_un m0 (ptr e) + ad + d_un m0 (ptr d))) x"
      and rest: "list_all2 (\<lambda>d x. str_in T0 m0 (unat (d_un m0 (ptr e) + ad + d_un m0 d)) x) (filter (needed m0) (dyns (ptr (d + 16)) n)) xs"
      using Suc.prems(9) d1 by (auto simp: list_all2_Cons1)
    define a where "a = d_un m0 (ptr e) + ad + d_un m0 (ptr d)"
    have xa: "str_in T (rmem s) (unat a) x"
      unfolding a_def by (rule str_in_mono [OF str_in_kept [OF x Suc.prems(3)] Suc.prems(2)]) simp
    obtain y where y: "resolve N x = Some y" "y \<in> C" using Suc.prems(10) names by auto
    have cost: "open_cost N + ((length xs * open_cost N + rest) + lib_costs E N (C - set (map nm ls))) \<le> site_room N s"
      using Suc.prems(11) by (simp add: names)
    obtain s1 nm1 T1 F1 L1 ls1 where k: "\<And>k :: nat \<Rightarrow> 'w rtld \<Rightarrow> (nat \<times> 'w rtld) outcome. obind (map_object E a s) (\<lambda>(s, new).
        obind
          (if l_reserved (maps s new) = 0 then
             oreturn (Suc (length ls), chain_runlist E new (runnode E (Suc (length ls))) (upd_map new (\<lambda>L. L\<lparr>l_reserved := 1\<rparr>) s))
           else oreturn (length ls, s)) (\<lambda>(n, s).
        obind (olift (append_to_namespace new s)) (\<lambda>s. k n s))) = k (length ls1) s1"
      and i1: "deps_inv E N C root ns0 nm1 T1 F1 L1 ls1 s1" and a1: "advanced ns0 T nm ls s T1 nm1 ls1 s1"
      and m1: "map nm1 ls1 = add_new y (map nm ls)"
      and c1: "(length xs * open_cost N + rest) + lib_costs E N (C - set (map nm1 ls1)) \<le> site_room N s1"
      by (rule deps_entry [OF Suc.prems(1) ok xa y cost]) (rule that)
    have run: "deps_dyn E l (ptr d) (length ls) s = deps_dyn E l (ptr (d + 16)) (length ls1) s1"
      using True nz dp tag d1 k [of "deps_dyn E l (ptr (d + 16))"] by (subst deps_dyn.simps) (simp add: needed_def a_def)
    have T1: "T0 \<subseteq> T1" "unchanged_outside (- T0) m0 (rmem s1)" "core (maps s1 l) = core (maps s l)"
      using a1 Suc.prems(2,3) l unfolding advanced_def by (auto intro: unchanged_trans unchanged_mono)
    have f1: "l_info (maps s1 l) DT_STRTAB = ptr e" "l_addr (maps s1 l) = ad"
      using arg_cong [OF T1(3), of l_info] arg_cong [OF T1(3), of l_addr] Suc.prems(4,5) by simp_all
    have x1: "\<forall>x \<in> set xs. \<exists>z \<in> C. resolve N x = Some z" using Suc.prems(10) names by simp
    have c1': "length xs * open_cost N + (rest + lib_costs E N (C - set (map nm1 ls1))) \<le> site_room N s1" using c1 by simp
    obtain s' nm' T' F' L' ls' where "deps_dyn E l (ptr (d + 16)) (length ls1) s1 = oreturn (length ls', s')"
        "deps_inv E N C root ns0 nm' T' F' L' ls' s'" "advanced ns0 T1 nm1 ls1 s1 T' nm' ls' s'"
        "map nm' ls' = fold add_new (map (the \<circ> resolve N) xs) (map nm1 ls1)" "rest + lib_costs E N (C - set (map nm' ls')) \<le> site_room N s'"
      using Suc.IH [OF i1 T1(1,2) f1 sec next_range rest x1 c1'] by blast
    moreover from this have "advanced ns0 T nm ls s T' nm' ls' s'" using advanced_trans [OF a1] by blast
    moreover have "fold add_new (map (the \<circ> resolve N) names) (map nm ls) = fold add_new (map (the \<circ> resolve N) xs) (map nm1 ls1)"
      by (simp add: names y(1) m1)
    ultimately show ?thesis unfolding run by metis
  qed
qed

lemma deps_dyn_object:
  assumes inv: "deps_inv E N C root ns0 nm T F L ls s" and ok: "libs_ok E N C sn" and l: "unat l \<in> T"
    and nd: "needs_in T (rmem s) (maps s l) names" "\<forall>x \<in> set names. \<exists>z \<in> C. resolve N x = Some z"
    and rm: "length names * open_cost N + (rest + lib_costs E N (C - set (map nm ls))) \<le> site_room N s"
  shows "\<exists>s' nm' T' F' L' ls'. deps_dyn E l (l_ld (maps s l)) (length ls) s = oreturn (length ls', s') \<and>
      deps_inv E N C root ns0 nm' T' F' L' ls' s' \<and> advanced ns0 T nm ls s T' nm' ls' s' \<and>
      map nm' ls' = fold add_new (map (the \<circ> resolve N) names) (map nm ls) \<and>
      rest + lib_costs E N (C - set (map nm' ls')) \<le> site_room N s'"
proof -
  obtain n e d where *: "l_info (maps s l) DT_STRTAB = ptr e" "0 < e" "e + 16 \<le> 2 ^ 64" "{e ..< e + 16} \<subseteq> T"
      "l_ld (maps s l) = ptr d" "d + 16 * Suc n \<le> 2 ^ 64" "{d ..< d + 16 * Suc n} \<subseteq> T" "dyn_section (rmem s) (ptr d) n"
      "list_all2 (\<lambda>d x. str_in T (rmem s) (unat (d_un (rmem s) (ptr e) + l_addr (maps s l) + d_un (rmem s) d)) x)
         (filter (needed (rmem s)) (dyns (ptr d) n)) names"
    using nd(1) unfolding needs_in_def by blast
  show ?thesis
    unfolding *(5) by (rule deps_dyn_entries [OF ok *(2-4) l inv subset_refl unchanged_refl *(1) refl *(8,6,7,9) nd(2) rm])
qed

section \<open>The objects of the run list\<close>

text \<open>The paths of the libraries a library needs, and the bytes that opening them may cost.\<close>

definition lib_deps :: "'w site \<Rightarrow> (byte list \<Rightarrow> byte list list) \<Rightarrow> byte list \<Rightarrow> byte list list" where
  "lib_deps N sn y = map (the \<circ> resolve N) (sn y)"

definition entry_costs :: "'w site \<Rightarrow> (byte list \<Rightarrow> byte list list) \<Rightarrow> byte list set \<Rightarrow> nat" where
  "entry_costs N sn Y = (\<Sum>y \<in> Y. length (sn y) * open_cost N)"

lemma entry_costs_remove:
  assumes "finite C" and "y \<in> C" and "y \<notin> Y"
  shows "entry_costs N sn (C - Y) = length (sn y) * open_cost N + entry_costs N sn (C - insert y Y)"
proof -
  have "C - insert y Y = (C - Y) - {y}" by blast
  then show ?thesis using assms sum.remove [of "C - Y" y] by (simp add: entry_costs_def)
qed

lemma deps_inv_length:
  assumes "deps_inv E N C root ns0 nm T F L ls s" and "libs_ok E N C sn"
  shows "length ls \<le> card C"
proof -
  have "set (map nm ls) \<subseteq> C" "distinct (map nm ls)" using assms(1) by (auto simp: deps_inv_def)
  moreover have "finite C" using assms(2) by (simp add: libs_ok_def)
  ultimately show ?thesis by (metis card_mono distinct_card length_map)
qed

text \<open>The node at which the loop stands when the first \<open>i\<close> libraries are done.\<close>

definition run_pos :: "'w env \<Rightarrow> 'w site \<Rightarrow> nat \<Rightarrow> addr list \<Rightarrow> addr" where
  "run_pos E N i ls = (if i < length ls then ptr (rnode N (Suc i) + 8) else runhead E)"

lemma run_pos_next:
  assumes inv: "deps_inv E N C root ns0 nm T F L ls s" and ok: "libs_ok E N C sn" and i: "i \<le> length ls"
  shows "list_next (rmem s) (ptr (rnode N i + 8)) = run_pos E N i ls" and "ptr (rnode N i + 8) \<noteq> runhead E"
    and "run_map (rmem s) (list_entry (ptr (rnode N i + 8)) 8) = (root # ls) ! i"
    and "list_next (rmem s) (runhead E) = ptr (rnode N 0 + 8)"
proof -
  have rl: "run_list N (rmem s) (root # ls)" using inv by (simp add: deps_inv_def)
  have ra: "run_area E N" "card C \<le> rcap N" using ok by (simp_all add: libs_ok_def)
  then have n: "length (root # ls) \<le> Suc (rcap N)" using deps_inv_length [OF inv ok] by simp
  have i': "i < length (root # ls)" using i by simp
  note W = run_list_walk [OF ra(1) rl i' n]
  show "list_next (rmem s) (ptr (rnode N i + 8)) = run_pos E N i ls" using W(3) by (simp add: run_pos_def)
  show "ptr (rnode N i + 8) \<noteq> runhead E" "run_map (rmem s) (list_entry (ptr (rnode N i + 8)) 8) = (root # ls) ! i"
      "list_next (rmem s) (runhead E) = ptr (rnode N 0 + 8)"
    using W by blast+
qed

lemma deps_run_libs:
  assumes ok: "libs_ok E N C sn"
  shows "deps_inv E N C root ns0 nm T F L ls s \<Longrightarrow> i \<le> length ls \<Longrightarrow> card C \<le> n + i \<Longrightarrow>
    entry_costs N sn (C - set (take i (map nm ls))) + (rest + lib_costs E N (C - set (map nm ls))) \<le> site_room N s \<Longrightarrow>
    \<exists>s' nm' T' F' L' ls'. deps_run E (run_pos E N i ls) (length ls) s = oreturn (length ls', s') \<and>
      deps_inv E N C root ns0 nm' T' F' L' ls' s' \<and> advanced ns0 T nm ls s T' nm' ls' s' \<and>
      map nm' ls' = bfs (lib_deps N sn) n i (map nm ls) \<and> rest \<le> site_room N s'"
proof (induction n arbitrary: i nm T F L ls s)
  case 0
  then have "i = length ls" using deps_inv_length [OF 0(1) ok] by simp
  then have "deps_run E (run_pos E N i ls) (length ls) s = oreturn (length ls, s)"
    by (subst deps_run.simps) (simp add: run_pos_def)
  moreover have "rest \<le> site_room N s" using 0(4) by simp
  ultimately show ?case using 0(1) advanced_refl by fastforce
next
  case (Suc n)
  show ?case
  proof (cases "i < length ls")
    case False
    then have "deps_run E (run_pos E N i ls) (length ls) s = oreturn (length ls, s)"
      by (subst deps_run.simps) (simp add: run_pos_def)
    moreover have "rest \<le> site_room N s" using Suc.prems(4) by simp
    ultimately show ?thesis using False Suc.prems(1) advanced_refl by fastforce
  next
    case True
    let ?l = "ls ! i" and ?seen = "map nm ls"
    let ?y = "nm ?l"
    note I = Suc.prems(1) [unfolded deps_inv_def]
    have l: "?l \<in> set ls" using True by simp
    then have ld: "loaded E N T s ?l ?y" and yC: "?y \<in> C" using I by blast+
    have lib: "lib_ok E N ?y" "needs_ok (the (sfiles N ?y)) (sn ?y)" "\<forall>x \<in> set (sn ?y). \<exists>z \<in> C. resolve N x = Some z"
        "kbits N \<le> 30" "finite C"
      using ok yC by (simp_all add: libs_ok_def)
    have "distinct ?seen" using I by blast
    then have "?y \<notin> set (take i ?seen)" using True distinct_take [of ?seen "Suc i"] by (simp add: take_Suc_conv_app_nth)
    moreover have tk: "set (take (Suc i) ?seen) = insert ?y (set (take i ?seen))" using True by (simp add: take_Suc_conv_app_nth)
    ultimately have cost: "length (sn ?y) * open_cost N + ((entry_costs N sn (C - set (take (Suc i) ?seen)) + rest) +
        lib_costs E N (C - set ?seen)) \<le> site_room N s"
      using Suc.prems(4) entry_costs_remove [OF lib(5) yC, of "set (take i ?seen)" N sn] by simp
    have "unat ?l \<in> T" using ld by (simp add: loaded_def)
    from deps_dyn_object [OF Suc.prems(1) ok this loaded_needs [OF ld lib(1,2,4)] lib(3) cost]
    obtain s1 nm1 T1 F1 L1 ls1 where d: "deps_dyn E ?l (l_ld (maps s ?l)) (length ls) s = oreturn (length ls1, s1)"
      and i1: "deps_inv E N C root ns0 nm1 T1 F1 L1 ls1 s1" and a1: "advanced ns0 T nm ls s T1 nm1 ls1 s1"
      and m1: "map nm1 ls1 = fold add_new (map (the \<circ> resolve N) (sn ?y)) ?seen"
      and c1: "(entry_costs N sn (C - set (take (Suc i) ?seen)) + rest) + lib_costs E N (C - set (map nm1 ls1)) \<le> site_room N s1"
      by blast
    obtain zs where zs: "ls1 = ls @ zs" "\<forall>l \<in> set ls. nm1 l = nm l" using a1 unfolding advanced_def by auto
    have pos: "run_pos E N i ls = ptr (rnode N (Suc i) + 8)" using True by (simp add: run_pos_def)
    have i': "Suc i \<le> length ls" using True by simp
    note W = run_pos_next [OF Suc.prems(1) ok i']
    have "Suc i \<le> length ls1" using True zs(1) by simp
    note W1 = run_pos_next(1) [OF i1 ok this]
    have "run_map (rmem s) (list_entry (ptr (rnode N (Suc i) + 8)) 8) = ?l" using W(3) by simp
    then have run: "deps_run E (run_pos E N i ls) (length ls) s = deps_run E (run_pos E N (Suc i) ls1) (length ls1) s1"
      unfolding pos using W(2) d W1 by (subst deps_run.simps) (simp add: Let_def)
    have tk1: "take (Suc i) (map nm1 ls1) = take (Suc i) ?seen" using zs True by (auto simp: take_map dest: in_set_takeD)
    have "\<exists>s' nm' T' F' L' ls'. deps_run E (run_pos E N (Suc i) ls1) (length ls1) s1 = oreturn (length ls', s') \<and>
      deps_inv E N C root ns0 nm' T' F' L' ls' s' \<and> advanced ns0 T1 nm1 ls1 s1 T' nm' ls' s' \<and>
      map nm' ls' = bfs (lib_deps N sn) n (Suc i) (map nm1 ls1) \<and> rest \<le> site_room N s'"
      by (rule Suc.IH [OF i1]) (use \<open>Suc i \<le> length ls1\<close> Suc.prems(3) c1 tk1 in simp_all)
    moreover have "bfs (lib_deps N sn) (Suc n) i ?seen = bfs (lib_deps N sn) n (Suc i) (map nm1 ls1)"
      using True by (simp add: m1 lib_deps_def)
    ultimately show ?thesis unfolding run using advanced_trans [OF a1] by metis
  qed
qed

end
