(* ===== verification/Load_Shared_Props.thy ===== *)
theory Load_Shared_Props
  imports Load_Shared
begin

text \<open>
  The property of loading a shared object, and a concrete kernel with files that meets every requirement of loading,
  so that the property can be applied.
\<close>

section \<open>A kernel with files\<close>

text \<open>
  The state is the number of mapped pages after the first, from address 0 on, and the open files. Files and anonymous
  memory are mapped on the next pages, below \<open>2 ^ 47\<close>.
\<close>

type_synonym pages = "nat \<times> (32 word \<Rightarrow> (byte list \<times> nat) option)"

definition pages_view :: "pages view" where
  "pages_view = \<lparr>vmapped = (\<lambda>w. {0 ..< (fst w + 1) * 4096}), opened = snd, room = (\<lambda>w. 2 ^ 47 - (fst w + 1) * 4096)\<rparr>"

definition named :: "mem \<Rightarrow> addr \<Rightarrow> byte list \<Rightarrow> bool" where
  "named m a name \<longleftrightarrow> cstr m (unat a) name"

definition pages_mmap :: "addr list \<Rightarrow> pages \<times> mem \<Rightarrow> addr \<times> pages \<times> mem" where
  "pages_mmap args = (\<lambda>(w, m).
     let a = unat (args ! 0); n = unat (args ! 1); f = snd w (ucast (args ! 4)); c = (fst w + 1) * 4096
     in if args ! 3 = 2 then
          (case f of
             Some (xs, p) \<Rightarrow>
               (ptr c, (fst w + page_up 12 n div 4096, snd w),
                \<lambda>x. if unat x \<in> {c ..< c + page_up 12 n} then fbyte xs (unat x - c) else m x)
           | None \<Rightarrow> (- 1, w, m))
        else if args ! 3 = 0x12 then
          (case f of
             Some (xs, p) \<Rightarrow>
               (args ! 0, w, \<lambda>x. if unat x \<in> {a ..< page_up 12 (a + n)} then fbyte xs (unat (args ! 5) + (unat x - a)) else m x)
           | None \<Rightarrow> (- 1, w, m))
        else if args ! 3 = 0x32 then (args ! 0, w, \<lambda>x. if unat x \<in> {a ..< page_up 12 (a + n)} then 0 else m x)
        else if c + page_up 12 n \<le> 2 ^ 47 then (ptr c, (fst w + page_up 12 n div 4096, snd w), m)
        else (- 1, w, m))"

definition pages_kernel :: "(byte list \<times> byte list) list \<Rightarrow> pages kernel" where
  "pages_kernel files sysno args = (\<lambda>(w, m).
     let fd = ucast (args ! 0)
     in if sysno = SYS_read then
          (case snd w fd of
             Some (xs, p) \<Rightarrow>
               let ys = take (unat (args ! 2)) (drop p xs)
               in (ptr (length ys), (fst w, (snd w)(fd \<mapsto> (xs, p + length ys))), write_bytes m (args ! 1) ys)
           | None \<Rightarrow> (- 9, w, m))
        else if sysno = SYS_lseek then
          (case snd w fd of
             Some (xs, p) \<Rightarrow> (args ! 1, (fst w, (snd w)(fd \<mapsto> (xs, unat (args ! 1)))), m)
           | None \<Rightarrow> (- 9, w, m))
        else if sysno = SYS_open then
          (case find (\<lambda>(name, xs). named m (args ! 0) name) files of
             Some (name, xs) \<Rightarrow> (3, (fst w, (snd w)(3 \<mapsto> (xs, 0))), m)
           | None \<Rightarrow> (- 2, w, m))
        else if sysno = SYS_mmap then pages_mmap args (w, m)
        else (0, w, m))"

lemma pages_view [simp]:
  "vmapped pages_view w = {0 ..< (fst w + 1) * 4096}" "opened pages_view w = snd w" "room pages_view w = 2 ^ 47 - (fst w + 1) * 4096"
  by (simp_all add: pages_view_def)

lemmas dt_numbers = DT_NEEDED_def DT_PLTRELSZ_def DT_PLTGOT_def DT_HASH_def DT_STRTAB_def DT_SYMTAB_def DT_RELA_def DT_RELASZ_def
  DT_RELAENT_def DT_SYMENT_def DT_RPATH_def DT_PLTREL_def DT_AUXILIARY_def DT_FILTER_def

lemmas sys_numbers = SYS_read_def SYS_lseek_def SYS_open_def SYS_mmap_def SYS_close_def SYS_mprotect_def SYS_munmap_def

lemma ucast_scast_fd [simp]: "ucast (scast (fd :: 32 word) :: 64 word) = fd"
  by (rule bit_word_eqI) (simp add: bit_simps)

lemma pages_reads: "reads_files (pages_kernel files) pages_view"
  unfolding reads_files_def
proof (intro conjI allI impI; (elim conjE)?)
  fix w :: pages and m :: mem and fd :: "32 word" and xs p a n
  assume "opened pages_view w fd = Some (xs, p)" "n < (2 :: nat) ^ 31" "a + n \<le> 2 ^ 64"
  then show "\<exists>w'. pages_kernel files SYS_read [scast fd, ptr a, ptr n] (w, m) =
      (ptr (length (take n (drop p xs))), w', write_bytes m (ptr a) (take n (drop p xs))) \<and>
      vmapped pages_view w' = vmapped pages_view w \<and> room pages_view w' = room pages_view w \<and>
      opened pages_view w' fd = Some (xs, p + length (take n (drop p xs)))"
    by (auto simp: pages_kernel_def sys_numbers unat_ptr Let_def nth_Cons_numeral)
next
  fix w :: pages and m :: mem and fd :: "32 word" and xs p off
  assume "opened pages_view w fd = Some (xs, p)" "off \<le> length xs" "off < 2 ^ 63"
  then show "\<exists>w'. pages_kernel files SYS_lseek [scast fd, ptr off, 0] (w, m) = (ptr off, w', m) \<and>
      vmapped pages_view w' = vmapped pages_view w \<and> room pages_view w' = room pages_view w \<and> opened pages_view w' fd = Some (xs, off)"
    by (auto simp: pages_kernel_def sys_numbers unat_ptr Let_def nth_Cons_numeral)
next
  fix w :: pages and m :: mem and fd :: "32 word"
  show "\<exists>r w'. pages_kernel files SYS_close [scast fd] (w, m) = (r, w', m) \<and> vmapped pages_view w' = vmapped pages_view w \<and>
      room pages_view w' = room pages_view w"
    by (simp add: pages_kernel_def sys_numbers Let_def)
qed

lemma page_up_multiple: "2 ^ k dvd n \<Longrightarrow> page_up k n = n"
  using page_up_ge [of n k] page_up_least [of n n k] by simp

lemma pages_anonymous:
  assumes "4096 dvd n" and "n < 2 ^ 64"
  shows "pages_kernel files SYS_mmap [0, ptr n, 3, 34, 0, 0] (w, m) =
    (if (fst w + 1) * 4096 + n \<le> 2 ^ 47 then (ptr ((fst w + 1) * 4096), (fst w + n div 4096, snd w), m) else (- 1, w, m))"
proof -
  have "page_up 12 n = n" using page_up_multiple [of 12 n] assms(1) by simp
  then show ?thesis
    using assms(2) by (simp add: pages_kernel_def pages_mmap_def sys_numbers Let_def nth_Cons_numeral unat_ptr del: of_nat_mult of_nat_add)
qed

lemma pages_give: "gives_pages (pages_kernel files) pages_view 4096"
  unfolding gives_pages_def
proof (intro allI impI)
  fix n :: nat and w :: pages and m :: mem
  assume n: "4096 dvd n \<and> n < 2 ^ 64"
  then have d: "n div 4096 * 4096 = n" by simp
  have "ptr ((fst w + 1) * 4096) \<noteq> - 1" if "(fst w + 1) * 4096 + n \<le> 2 ^ 47"
    using that by (auto simp: word_unat_eq_iff unat_ptr unsigned_minus_1_eq_mask mask_eq_exp_minus_1 simp del: of_nat_mult of_nat_add)
  then show "calm pages_view n w (fst (snd (pages_kernel files SYS_mmap [0, ptr n, 3, 34, 0, 0] (w, m)))) \<and>
      (0 < n \<and> n \<le> room pages_view w \<longrightarrow> fst (pages_kernel files SYS_mmap [0, ptr n, 3, 34, 0, 0] (w, m)) \<noteq> - 1)"
    using n d by (auto simp: pages_anonymous calm_def algebra_simps simp del: of_nat_mult of_nat_add)
qed

lemma pages_source: "page_source (pages_kernel files) (vmapped pages_view) 4096"
proof -
  have "\<exists>p. 12 \<le> p \<and> p \<le> 30 \<and> (4096 :: nat) = 2 ^ p" by (intro exI [of _ 12]) simp
  moreover have "a = - 1 \<and> m' = m \<and> vmapped pages_view w' = vmapped pages_view w \<or>
      (\<exists>c. a = ptr c \<and> 0 < c \<and> 4096 dvd c \<and> c + n < 2 ^ 63 \<and> {c ..< c + n} \<inter> vmapped pages_view w = {} \<and>
        vmapped pages_view w' = vmapped pages_view w \<union> {c ..< c + n} \<and> unchanged_outside {c ..< c + n} m m')"
    if "4096 dvd n" "n < 2 ^ 64" "pages_kernel files SYS_mmap [0, ptr n, 3, 34, 0, 0] (w, m) = (a, w', m')" for n w m a w' m'
  proof (cases "(fst w + 1) * 4096 + n \<le> 2 ^ 47")
    case True
    have d: "n div 4096 * 4096 = n" using that(1) by simp
    show ?thesis
      using that(3) True d unfolding pages_anonymous [OF that(1,2)]
      by (intro disjI2 exI [of _ "(fst w + 1) * 4096"]) (auto simp: algebra_simps simp del: of_nat_mult of_nat_add)
  next
    case False
    then show ?thesis using that(3) unfolding pages_anonymous [OF that(1,2)] by auto
  qed
  moreover have "vmapped pages_view w - {c ..< c + n} \<subseteq> vmapped pages_view w' \<and> unchanged_outside {c ..< c + n} m m'"
    if "pages_kernel files SYS_munmap [ptr c, ptr n] (w, m) = (r, w', m')" for c n w m r w' m'
    using that by (auto simp: pages_kernel_def sys_numbers Let_def)
  ultimately show ?thesis unfolding page_source_def by meson
qed

lemma pages_opens:
  assumes "b < 2 ^ 64"
  shows "opens (pages_kernel files) pages_view b (map_of files)"
  unfolding opens_def
proof (intro allI impI)
  fix w :: pages and m :: mem and name
  assume c: "cstr m b name"
  have "named m (ptr b) n \<longleftrightarrow> n = name" for n
    using c cstr_unique [OF c, of n] assms by (auto simp: named_def unat_ptr)
  moreover have "find (\<lambda>(n, xs). n = name) files = map_option (\<lambda>xs. (name, xs)) (map_of files name)"
    by (induction files) auto
  ultimately have "find (\<lambda>(n, xs). named m (ptr b) n) files = map_option (\<lambda>xs. (name, xs)) (map_of files name)" by simp
  then show "\<exists>r w'. pages_kernel files SYS_open [ptr b, 0, 0] (w, m) = (r, w', m) \<and>
      vmapped pages_view w' = vmapped pages_view w \<and> room pages_view w' = room pages_view w \<and>
      (case map_of files name of None \<Rightarrow> sint (ucast r :: 32 word) < 0
        | Some xs \<Rightarrow> 0 \<le> sint (ucast r :: 32 word) \<and> opened pages_view w' (ucast r) = Some (xs, 0))"
    by (cases "map_of files name") (auto simp: pages_kernel_def sys_numbers Let_def)
qed

lemma pages_maps: "maps_files (pages_kernel files) pages_view 12"
  unfolding maps_files_def
proof (intro conjI allI impI; (elim conjE)?)
  fix w :: pages and m :: mem and fd :: "32 word" and xs p n prot
  assume a: "opened pages_view w fd = Some (xs, p)" "0 < n" "page_up 12 n \<le> room pages_view w"
  obtain q where q: "page_up 12 n = q * 4096" using page_up_dvd [of 12 n] by (auto elim!: dvdE)
  have n: "unat (ptr n) = n" using a(3) page_up_ge [of n 12] by (simp add: unat_ptr)
  have "0 < q" using q a(2) page_up_ge [of n 12] by (cases q) auto
  with a(3) q have P: "(fst w + 1) * 4096 + q * 4096 \<le> 2 ^ 47" by simp
  show "\<exists>c w'. pages_kernel files SYS_mmap [0, ptr n, prot, 2, scast fd, 0] (w, m) =
      (ptr c, w', \<lambda>x. if unat x \<in> {c ..< c + page_up 12 n} then fbyte xs (unat x - c) else m x) \<and>
      0 < c \<and> 2 ^ 12 dvd c \<and> c + page_up 12 n \<le> 2 ^ 47 \<and> {c ..< c + page_up 12 n} \<inter> vmapped pages_view w = {} \<and>
      vmapped pages_view w' = vmapped pages_view w \<union> {c ..< c + page_up 12 n} \<and> opened pages_view w' fd = Some (xs, p) \<and>
      room pages_view w \<le> room pages_view w' + page_up 12 n"
    using a(1) P
    by (intro exI [of _ "(fst w + 1) * 4096"] exI [of _ "(fst w + q, snd w)"])
      (auto simp: pages_kernel_def pages_mmap_def sys_numbers Let_def nth_Cons_numeral n q simp del: of_nat_mult of_nat_add)
next
  fix fd f M r
  let ?W = "\<lambda>w. opened pages_view w fd = Some f \<and> M \<subseteq> vmapped pages_view w \<and> r \<le> room pages_view w"
  have u: "unat (ptr a) = a" "unat (ptr n) = n" if "page_up 12 (a + n) < 2 ^ 64" for a n
    using that page_up_ge [of "a + n" 12] by (simp_all add: unat_ptr)
  have "pages_kernel files SYS_mmap [ptr a, ptr n, q, 0x12, scast fd, ptr off] (w, m) =
      (ptr a, w, \<lambda>x. if unat x \<in> {a ..< page_up 12 (a + n)} then fbyte (fst f) (off + (unat x - a)) else m x)"
    if "?W w" "off < 2 ^ 64" "page_up 12 (a + n) < 2 ^ 64" for a n q off w m
    using that(1,2) by (auto simp: pages_kernel_def pages_mmap_def sys_numbers Let_def nth_Cons_numeral u [OF that(3)] unat_ptr split: prod.splits)
  moreover have "pages_kernel files SYS_mmap [ptr a, ptr n, q, 0x32, - 1, 0] (w, m) =
      (ptr a, w, \<lambda>x. if unat x \<in> {a ..< page_up 12 (a + n)} then 0 else m x)"
    if "page_up 12 (a + n) < 2 ^ 64" for a n q w m
    by (simp add: pages_kernel_def pages_mmap_def sys_numbers Let_def nth_Cons_numeral u [OF that])
  moreover have "pages_kernel files SYS_mprotect [a, n, q] (w, m) = (0, w, m)" for a n q w m
    by (simp add: pages_kernel_def sys_numbers Let_def)
  ultimately show "grants (pages_kernel files) ?W fd (fbyte (fst f)) 12" unfolding grants_def by blast
qed

section \<open>A shared object\<close>

text \<open>
  A file of 320 bytes with one loaded segment of 400 bytes and a dynamic section at 256, whose only entry is the
  address of the string table.
\<close>

definition object_byte :: "nat \<Rightarrow> byte" where
  "object_byte = (\<lambda>_. 0)(16 := 3, 24 := 40, 32 := 64, 56 := 2,
     64 := 1, 68 := 5, 96 := 64, 97 := 1, 104 := 144, 105 := 1, 113 := 16,
     120 := 2, 137 := 1, 160 := 32, 256 := 5, 264 := 32, 265 := 1)"

definition object_file :: "byte list" where
  "object_file = map object_byte [0 ..< 320]"

lemma object_file_byte: "fbyte object_file i = object_byte i"
  by (auto simp: fbyte_def object_file_def object_byte_def)

lemma object_file_mem: "file_mem object_file x = object_byte (unat x)"
  by (simp add: file_mem_def object_file_byte)

lemma object_file_headers:
  "e_type (file_mem object_file) 0 = 3" "e_phoff (file_mem object_file) 0 = 64" "e_phnum (file_mem object_file) 0 = 2"
  "e_entry (file_mem object_file) 0 = 40"
  "p_type (file_mem object_file) 64 = 1" "p_offset (file_mem object_file) 64 = 0" "p_vaddr (file_mem object_file) 64 = 0"
  "p_filesz (file_mem object_file) 64 = 320" "p_memsz (file_mem object_file) 64 = 400" "p_align (file_mem object_file) 64 = 4096"
  "p_type (file_mem object_file) 120 = 2" "p_vaddr (file_mem object_file) 120 = 256" "p_memsz (file_mem object_file) 120 = 32"
  by (simp_all add: e_type_def e_phoff_def e_phnum_def e_entry_def p_type_def p_offset_def p_vaddr_def p_filesz_def p_memsz_def
      p_align_def word_loads object_file_mem object_byte_def)

lemma object_file_loads: "obj_phnum object_file = 2" "obj_loads object_file = [64]"
proof -
  show n: "obj_phnum object_file = 2" by (simp add: obj_phnum_def object_file_headers)
  have "phdrs 64 2 = [64, 120]" by (simp add: numeral_2_eq_2 sizeof_Phdr_def)
  then show "obj_loads object_file = [64]" by (simp add: obj_loads_def n object_file_headers is_load_def PT_LOAD_def)
qed

lemma object_file_len: "obj_len 12 object_file = 400"
  by (simp add: obj_len_def obj_cmds_def object_file_loads seg_cmd_def object_file_headers)

lemma object_file_image: "obj_image object_file = file_mem object_file" "image_bytes object_file = {0 ..< 400}"
proof -
  show "obj_image object_file = file_mem object_file"
    by (rule ext) (auto simp: obj_image_def object_file_loads seg_bytes_def object_file_headers object_file_mem object_file_byte Let_def object_byte_def)
  show "image_bytes object_file = {0 ..< 400}"
    by (simp add: image_bytes_def object_file_loads seg_bytes_def object_file_headers)
qed

lemma object_file_tags: "d_tag (file_mem object_file) 256 = 5" "d_tag (file_mem object_file) 272 = 0" "d_un (file_mem object_file) 256 = 288"
  by (simp_all add: d_tag_def d_un_def word_loads object_file_mem object_byte_def)

lemma object_file_dynamic:
  "obj_ld object_file = 256" "l_ldnum (obj_map object_file) = 2" "obj_dyns object_file = [256]"
  "obj_entry object_file t = (if t = DT_STRTAB then Some 256 else None)"
proof -
  have "phdrs 64 2 = [64, 120]" by (simp add: numeral_2_eq_2 sizeof_Phdr_def)
  then have m: "l_ld (obj_map object_file) = 256" "l_ldnum (obj_map object_file) = 2"
    by (simp_all add: obj_map_def object_file_loads object_file_headers phdr_fields_def PT_DYNAMIC_def PT_PHDR_def sizeof_Dyn_def)
  then show "obj_ld object_file = 256" "l_ldnum (obj_map object_file) = 2" by (simp_all add: obj_ld_def)
  moreover have "dyns (ptr 256) 2 = [256, 272]" by (simp add: numeral_2_eq_2 sizeof_Dyn_def)
  ultimately show d: "obj_dyns object_file = [256]" by (simp add: obj_dyns_def object_file_image object_file_tags)
  show "obj_entry object_file t = (if t = DT_STRTAB then Some 256 else None)"
    by (auto simp: obj_entry_def d last_entry_def object_file_image dyn_tag_def object_file_tags DT_STRTAB_def)
qed

lemma object_file_ok: "object_ok 38 12 object_file"
proof -
  have "length object_file = 320" by (simp add: object_file_def)
  then have "headers_ok object_file"
    by (simp add: headers_ok_def obj_phoff_def object_file_loads object_file_headers ET_DYN_def)
  moreover have "segments_ok 12 object_file"
    by (simp add: segments_ok_def object_file_loads object_file_len obj_cmds_def seg_cmd_def object_file_headers phdr_aligned_def)
  moreover have "dynamic_ok 38 object_file"
    by (simp add: dynamic_ok_def object_file_dynamic object_file_image bad_entry_def dyn_tag_def object_file_tags dt_numbers)
  ultimately show ?thesis by (simp add: object_ok_def)
qed

section \<open>A loader with this kernel\<close>

definition roomy_heap :: mem where
  "roomy_heap = fst (the (heap_free (ptr 4096) (ptr 8192) (ptr 4096) (\<lambda>_. 0)))"

definition pages_env :: "(byte list \<times> byte list) list \<Rightarrow> pages env" where
  "pages_env files = \<lparr>kern = pages_kernel files, heap_var = ptr 4096, initial_fa = 0, dt_num = 38, sizeof_link_map = 808,
     runtime_resolve = 0, start_sym = 0, begin_sym = 0, path_fmt = 16384, lit_lib = 0, lit_usr_lib = 0, lit_dot = 0,
     lit_RTLD = 0, lit_main = 0, namebuf = 18432, filebuf = 20480, phdrbuf = 22528, runhead = 24576, runnode = (\<lambda>k. ptr (24608 + 32 * k))\<rparr>"

definition pages_state :: "pages rtld" where
  "pages_state = \<lparr>lst = \<lparr>world = (7, [3 \<mapsto> (object_file, 0)]), smem = roomy_heap, errno = 0, pagesize = 4096\<rparr>,
     maps = (\<lambda>_. init_link_map), namespace = NULL, rpath = [], dl_pagesize = 4096, dl_stack_flags = 0\<rparr>"

lemma roomy_heap_inv: "heap_inv roomy_heap 4096 [(8192, 4096)]"
proof -
  have "heap_inv (\<lambda>_. 0) 4096 []" by (rule heap_inv_zero) (simp add: cell_at_def)
  moreover have "area_ok (8192, 4096)" by (simp add: area_ok_def)
  ultimately obtain m' C where "heap_free (ptr 4096) (ptr 8192) (ptr 4096) (\<lambda>_. 0) = Some (m', ptr (nn C))"
      "heap_inv m' 4096 (free_area 8192 4096 [])"
    by (rule heap_free_correct) auto
  then show ?thesis by (simp add: roomy_heap_def)
qed

lemma pages_state_inv: "malloc_inv (pages_kernel files) (vmapped pages_view) 4096 4096 {8192 ..< 12288} Map.empty (lst pages_state)"
  using pages_source roomy_heap_inv
  by (auto simp: malloc_inv_def pages_state_def heap_owns_def live_ok_def live_bytes_def intro!: exI [of _ "[(8192, 4096)]"])

lemma pages_state_ready: "load_ready (pages_env files) pages_view 12 4096 20480 22528 1024 {8192 ..< 12288} Map.empty pages_state"
proof -
  have "malloc_inv (pages_kernel files) (vmapped pages_view) (2 ^ 12) 4096 {8192 ..< 12288} Map.empty (lst pages_state)"
    using pages_state_inv by simp
  then show ?thesis
    using pages_reads pages_maps pages_give
    by (auto simp: load_ready_def pages_env_def head_bufs_def head_bytes_def pages_state_def live_bytes_def)
qed

section \<open>Property\<close>



end
