(* ===== verification/Load_Libraries.thy ===== *)
theory Load_Libraries
  imports Load_Deps Load_Shared_Props
begin

text \<open>
  \<open>map_object_deps\<close> as a whole: the dependency run, the search list of the root, and the check of the namespace.
\<close>

section \<open>The search list\<close>

lemma fill_from:
  assumes ra: "run_area E N" "length ls \<le> rcap N" and root: "root \<notin> set ls"
    and blk: "{a ..< a + 8 * length ls} \<inter> run_bytes N = {}" "a + 8 * length ls \<le> 2 ^ 63"
  shows "i + d = length ls \<Longrightarrow> run_list N m (root # ls) \<Longrightarrow> \<forall>j < i. load64 m (ptr (a + 8 * j)) = ls ! j \<Longrightarrow>
    \<exists>m'. fill_searchlist E root (run_pos E N i ls) (ptr (a + 8 * i)) m = Some m' \<and>
      (\<forall>j < length ls. load64 m' (ptr (a + 8 * j)) = ls ! j) \<and> unchanged_outside {a ..< a + 8 * length ls} m m'"
proof (induction d arbitrary: i m)
  case 0
  then have "fill_searchlist E root (run_pos E N i ls) (ptr (a + 8 * i)) m = Some m"
    by (subst fill_searchlist.simps) (simp add: run_pos_def)
  with 0 show ?case by auto
next
  case (Suc d)
  then have i: "i < length ls" by simp
  let ?m = "store64 m (ptr (a + 8 * i)) (ls ! i)" and ?S = "{a ..< a + 8 * length ls}"
  have rng: "{a + 8 * i ..< a + 8 * i + 8} \<subseteq> ?S" "a + 8 * i + 8 \<le> 2 ^ 64" using i blk(2) by auto
  have u: "unchanged_outside ?S m ?m" by (rule unchanged_store64 [OF rng])
  have n: "length (root # ls) \<le> Suc (rcap N)" "Suc i < length (root # ls)" using ra(2) i by simp_all
  note W = run_list_walk [OF ra(1) Suc.prems(2) n(2,1)]
  have rl: "run_list N ?m (root # ls)" by (rule run_list_kept [OF Suc.prems(2) u _ ra(1) n(1)]) (use blk(1) in blast)
  note W1 = run_list_walk(3) [OF ra(1) rl n(2,1)]
  have "ls ! i \<noteq> root" using root i nth_mem by metis
  moreover have "run_map m (list_entry (ptr (rnode N (Suc i) + 8)) 8) = ls ! i" using W(1) by simp
  moreover have "list_next ?m (ptr (rnode N (Suc i) + 8)) = run_pos E N (Suc i) ls" using W1 by (simp add: run_pos_def)
  moreover have "a + 8 * i + 8 = a + 8 * Suc i" by simp
  then have "ptr (a + 8 * i) + 8 = ptr (a + 8 * Suc i)" by (simp only: ptr_add_numeral)
  ultimately have run: "fill_searchlist E root (run_pos E N i ls) (ptr (a + 8 * i)) m =
      fill_searchlist E root (run_pos E N (Suc i) ls) (ptr (a + 8 * Suc i)) ?m"
    using W(2) i by (subst fill_searchlist.simps) (simp add: run_pos_def [of E N i] Let_def)
  have "load64 ?m (ptr (a + 8 * j)) = ls ! j" if "j < Suc i" for j
  proof (cases "j = i")
    case False
    then have "load64 ?m (ptr (a + 8 * j)) = load64 m (ptr (a + 8 * j))"
      using that i blk(2) by (intro m64.load_store_ptr) auto
    then show ?thesis using Suc.prems(3) that False by simp
  qed (simp add: m64.load_store_same)
  then obtain m' where "fill_searchlist E root (run_pos E N (Suc i) ls) (ptr (a + 8 * Suc i)) ?m = Some m'"
      "\<forall>j < length ls. load64 m' (ptr (a + 8 * j)) = ls ! j" "unchanged_outside ?S ?m m'"
    using Suc.IH [of "Suc i" ?m] Suc.prems(1) rl by auto
  then show ?case unfolding run using unchanged_trans [OF u] by blast
qed

lemma fill_searchlist_fills:
  assumes ra: "run_area E N" "length ls \<le> rcap N" and root: "root \<notin> set ls" and rl: "run_list N m (root # ls)"
    and blk: "{a ..< a + 8 * length ls} \<inter> run_bytes N = {}" "a + 8 * length ls \<le> 2 ^ 63"
  shows "\<exists>m'. fill_searchlist E root (list_next m (runhead E)) (ptr a) m = Some m' \<and>
      (\<forall>j < length ls. load64 m' (ptr (a + 8 * j)) = ls ! j) \<and> unchanged_outside {a ..< a + 8 * length ls} m m'"
proof -
  have n: "0 < length (root # ls)" "length (root # ls) \<le> Suc (rcap N)" using ra(2) by simp_all
  note W = run_list_walk [OF ra(1) rl n]
  have "fill_searchlist E root (list_next m (runhead E)) (ptr a) m = fill_searchlist E root (run_pos E N 0 ls) (ptr (a + 8 * 0)) m"
    unfolding W(4) using W(1-3) by (subst fill_searchlist.simps) (simp add: run_pos_def Let_def)
  with fill_from [OF ra root blk, of 0 "length ls" m] rl show ?thesis by simp
qed

section \<open>Before the run\<close>

text \<open>
  What the run starts from. \<open>R\<close> is the link map of the root once its dynamic section is read, \<open>names\<close> are the libraries
  it needs.
\<close>

definition deps_ready ::
  "'w env \<Rightarrow> 'w site \<Rightarrow> byte list set \<Rightarrow> (byte list \<Rightarrow> byte list list) \<Rightarrow> addr \<Rightarrow> addr list \<Rightarrow> (addr \<Rightarrow> byte list) \<Rightarrow> nat set \<Rightarrow>
     nat set \<Rightarrow> blocks \<Rightarrow> link_map \<Rightarrow> byte list list \<Rightarrow> 'w rtld \<Rightarrow> bool" where
  "deps_ready E N C sn root ns0 nm T F L R names s \<longleftrightarrow>
     site_inv E N T F L s \<and> libs_ok E N C sn \<and> namespace_ok s ns0 \<and> unat root \<in> T \<and>
     (\<forall>l \<in> set ns0. unat l \<in> T \<and> str_in T (rmem s) (unat (l_name (maps s l))) (nm l) \<and> nm l \<notin> C) \<and>
     run_bytes N \<subseteq> site_mapped N s \<and>
     run_bytes N \<inter> (F \<union> {hcell N ..< hcell N + 8} \<union> live_bytes L \<union> scratch N \<union> T) = {} \<and>
     needs_in T (rmem s) R names \<and> (\<forall>x \<in> set names. \<exists>z \<in> C. resolve N x = Some z) \<and>
     l_next R = l_next (maps s root) \<and> l_prev R = l_prev (maps s root) \<and> l_name R = l_name (maps s root)"

definition with_root :: "'w env \<Rightarrow> addr \<Rightarrow> link_map \<Rightarrow> 'w rtld \<Rightarrow> 'w rtld" where
  "with_root E root R s = (let s = set_rmem (INIT_LIST_HEAD (runhead E) (rmem s)) s in s\<lparr>maps := (maps s)(root := R)\<rparr>)"

lemma needs_in_kept:
  assumes "needs_in T m R names" and u: "unchanged_outside (- T) m m'"
  shows "needs_in T m' R names"
proof -
  obtain n e d where *: "l_info R DT_STRTAB = ptr e" "0 < e" "e + 16 \<le> 2 ^ 64" "{e ..< e + 16} \<subseteq> T"
      "l_ld R = ptr d" "d + 16 * Suc n \<le> 2 ^ 64" "{d ..< d + 16 * Suc n} \<subseteq> T" "dyn_section m (ptr d) n"
      "list_all2 (\<lambda>d x. str_in T m (unat (d_un m (ptr e) + l_addr R + d_un m d)) x) (filter (needed m) (dyns (ptr d) n)) names"
    using assms(1) unfolding needs_in_def by blast
  have same: "d_tag m' (ptr d + ptr (16 * i)) = d_tag m (ptr d + ptr (16 * i)) \<and> d_un m' (ptr d + ptr (16 * i)) = d_un m (ptr d + ptr (16 * i))"
    if "i \<le> n" for i
  proof -
    have "{d + 16 * i ..< d + 16 * i + 16} \<subseteq> {d ..< d + 16 * Suc n}" using that by auto
    then have "{d + 16 * i ..< d + 16 * i + 16} \<subseteq> T" "d + 16 * i + 16 \<le> 2 ^ 64" using *(6,7) that by (blast, simp)
    from dyn_kept [OF u this] show ?thesis by (simp only: ptr_add)
  qed
  have sec: "dyn_section m' (ptr d) n" using *(8) same unfolding dyn_section_nth by (simp del: ptr_add)
  have el: "d_tag m' x = d_tag m x \<and> d_un m' x = d_un m x" if x: "x \<in> set (dyns (ptr d) n)" for x
  proof -
    obtain i where "i < n" "x = dyns (ptr d) n ! i" using x by (auto simp: in_set_conv_nth)
    then show ?thesis using same [of i] dyns_nth [of i n "ptr d"] by (simp del: ptr_add)
  qed
  then have f: "filter (needed m') (dyns (ptr d) n) = filter (needed m) (dyns (ptr d) n)"
    by (intro filter_cong) (auto simp: needed_def)
  have e: "d_un m' (ptr e) = d_un m (ptr e)" by (rule dyn_kept(2) [OF u *(4,3)])
  have "list_all2 (\<lambda>d x. str_in T m' (unat (d_un m' (ptr e) + l_addr R + d_un m' d)) x) (filter (needed m') (dyns (ptr d) n)) names"
    unfolding f
  proof (rule list.rel_mono_strong [OF *(9)])
    fix z x
    assume z: "z \<in> set (filter (needed m) (dyns (ptr d) n))" and x: "str_in T m (unat (d_un m (ptr e) + l_addr R + d_un m z)) x"
    have "d_un m' z = d_un m z" using el z by simp
    then show "str_in T m' (unat (d_un m' (ptr e) + l_addr R + d_un m' z)) x"
      unfolding e using str_in_kept [OF x u] by (simp only:) blast
  qed
  then show ?thesis unfolding needs_in_def using *(1-7) sec by blast
qed

lemma deps_start:
  assumes r: "deps_ready E N C sn root ns0 nm T F L R names s"
  defines "s1 \<equiv> chain_runlist E root (runnode E 0) (with_root E root R s)"
  shows "deps_inv E N C root ns0 nm T F L [] s1" and "unchanged_outside (- T) (rmem s) (rmem s1)"
    and "maps s1 root = R" and "site_room N s1 = site_room N s" and "needs_in T (rmem s1) R names"
    and "\<forall>z. z \<noteq> root \<longrightarrow> maps s1 z = maps s z"
proof -
  note D = r [unfolded deps_ready_def]
  have ra: "run_area E N" using D by (simp add: libs_ok_def)
  let ?m0 = "INIT_LIST_HEAD (runhead E) (rmem s)"
  note i0 = run_list_init [OF ra, of "rmem s"]
  note P = run_list_push [OF ra i0(1), of root, simplified]
  have m1: "rmem s1 = list_add_tail (runnode E 0 + 8) (runhead E) (store64 ?m0 (runnode E 0) root)"
    by (simp add: s1_def with_root_def chain_runlist_def set_rmem_def)
  have l1: "lst s1 = (lst s)\<lparr>smem := rmem s1\<rparr>" "rpath s1 = rpath s" "dl_pagesize s1 = dl_pagesize s" "namespace s1 = namespace s"
    by (simp_all add: s1_def with_root_def chain_runlist_def set_rmem_def Let_def)
  show mr: "maps s1 root = R" "\<forall>z. z \<noteq> root \<longrightarrow> maps s1 z = maps s z" "site_room N s1 = site_room N s"
    by (simp_all add: s1_def with_root_def chain_runlist_def set_rmem_def Let_def)
  have u: "unchanged_outside (run_bytes N) (rmem s) (rmem s1)" unfolding m1 by (rule unchanged_trans [OF i0(2) P(2)])
  then show uT: "unchanged_outside (- T) (rmem s) (rmem s1)" by (rule unchanged_mono) (use D in blast)
  show "needs_in T (rmem s1) R names" using D uT by (blast intro: needs_in_kept)
  have si: "site_inv E N T F L s1" by (rule site_inv_write [OF _ l1(1-3) u]) (use D in blast)+
  have R: "l_next R = l_next (maps s root)" "l_prev R = l_prev (maps s root)" "l_name R = l_name (maps s root)" using D by blast+
  have "l_next (maps s1 l) = l_next (maps s l) \<and> l_prev (maps s1 l) = l_prev (maps s l) \<and> l_name (maps s1 l) = l_name (maps s l)" for l
    using mr(1,2) R by (cases "l = root") simp_all
  note same = this
  have ns0: "namespace_ok s ns0" using D by blast
  have "namespace_ok s1 (ns0 @ [])" unfolding append_Nil2 by (rule namespace_ok_cong [OF ns0 l1(4)]) (use same in blast)
  moreover have "str_in T (rmem s1) (unat (l_name (maps s1 l))) (nm l)" if "l \<in> set ns0" for l
  proof -
    have "str_in T (rmem s) (unat (l_name (maps s l))) (nm l)" using D that by blast
    then have "str_in T (rmem s1) (unat (l_name (maps s l))) (nm l)" by (rule str_in_kept [OF _ uT]) simp
    then show ?thesis using same by simp
  qed
  moreover have "run_list N (rmem s1) (root # [])" using P(1) unfolding m1 by simp
  moreover have "site_mapped N s1 = site_mapped N s" using arg_cong [OF l1(1), of world] by simp
  ultimately show "deps_inv E N C root ns0 nm T F L [] s1" using D si unfolding deps_inv_def by simp
qed

section \<open>After the run\<close>

text \<open>The search list goes into a block of its own; nothing that is protected changes.\<close>

lemma search_list_stored:
  assumes inv: "deps_inv E N C root ns0 nm T F L ls s" and ok: "libs_ok E N C sn" and ne: "ls \<noteq> []" "card C < 2 ^ 31"
    and rm: "8 * card C + 8 + 2 ^ kbits N \<le> site_room N s"
  obtains t a m where "emalloc (kern E) (heap_var E) (8 * of_nat (length ls)) (lst s) = oreturn (t, ptr a)" and "a < 2 ^ 63"
    and "fill_searchlist E root (list_next (smem t) (runhead E)) (ptr a) (smem t) = Some m"
    and "\<forall>i < length ls. load64 m (ptr (a + 8 * i)) = ls ! i" and "unchanged_outside (- T) (rmem s) m"
proof -
  note I = inv [unfolded deps_inv_def]
  have si: "site_inv E N T F L s" using I by blast
  then have "site_ready E N F L s" by (simp add: site_inv_def)
  note RD = this [unfolded load_ready_def]
  have mi: "malloc_inv (kern E) (vmapped (kview N)) (2 ^ kbits N) (hcell N) F L (lst s)" and g: "gives_pages (kern E) (kview N) (2 ^ kbits N)"
    using RD by blast+
  have n: "length ls \<le> card C" "run_area E N" "card C \<le> rcap N" using deps_inv_length [OF inv ok] ok by (simp_all add: libs_ok_def)
  let ?z = "8 * length ls"
  have k: "2 ^ kbits N \<le> (2 :: nat) ^ 30" using page_size(3) [OF malloc_invD(1) [OF mi]] .
  have z: "0 < ?z" "?z + 2 ^ kbits N + 32 < 2 ^ 64" using ne n(1) k by auto
  have "\<not> room (kview N) (world (lst s)) < ?z + 8 + 2 ^ kbits N" using rm n(1) by simp
  with emalloc_correct [OF mi g z] obtain t b j F' where
    t: "emalloc (kern E) (ptr (hcell N)) (ptr ?z) (lst s) = oreturn (t, ptr (b + 8))" "area_ok (b, j)" "?z + 8 \<le> j"
      "F' \<union> {b ..< b + j} \<subseteq> F \<union> - site_mapped N s" "unchanged_outside (spare (vmapped (kview N)) (hcell N) F (lst s)) (rmem s) (smem t)"
    by blast
  have blk: "{b + 8 ..< b + 8 + ?z} \<subseteq> {b ..< b + j}" "b + 8 + ?z \<le> 2 ^ 63" using t(2,3) by (auto simp: area_ok_def)
  have T: "T \<inter> (spare (vmapped (kview N)) (hcell N) F (lst s)) = {}" "T \<subseteq> site_mapped N s" using si unfolding site_inv_def by blast+
  have rl: "run_list N (smem t) (root # ls)"
    by (rule run_list_kept [OF _ t(5) _ n(2)]) (use I n in \<open>auto\<close>)
  have fr: "{b + 8 ..< b + 8 + ?z} \<inter> run_bytes N = {}" "{b + 8 ..< b + 8 + ?z} \<subseteq> F \<union> - site_mapped N s" using blk(1) t(4) I by blast+
  have "root \<notin> set ls" "length ls \<le> rcap N" using I n by auto
  from fill_searchlist_fills [OF n(2) this(2,1) rl fr(1) blk(2)] obtain m where
    m: "fill_searchlist E root (list_next (smem t) (runhead E)) (ptr (b + 8)) (smem t) = Some m"
      "\<forall>i < length ls. load64 m (ptr (b + 8 + 8 * i)) = ls ! i" "unchanged_outside {b + 8 ..< b + 8 + ?z} (smem t) m"
    by blast
  have "unchanged_outside (- T) (rmem s) (smem t)" by (rule unchanged_mono [OF t(5)]) (use T in blast)
  also have "unchanged_outside (- T) (smem t) m" by (rule unchanged_mono [OF m(3)]) (use T fr(2) in blast)
  finally have u: "unchanged_outside (- T) (rmem s) m" .
  have "emalloc (kern E) (heap_var E) (8 * of_nat (length ls)) (lst s) = oreturn (t, ptr (b + 8))" using t(1) RD by simp
  moreover have "b + 8 < 2 ^ 63" using blk(2) z(1) by linarith
  ultimately show ?thesis using that m(1,2) u by blast
qed

lemma libs_after:
  assumes inv: "deps_inv E N C root ns0 nm T F L ls s" and ok: "libs_ok E N C sn" and u: "unchanged_outside (- T) (rmem s) (rmem s')"
    and m: "\<forall>z. z \<noteq> root \<longrightarrow> maps s' z = maps s z" "l_next (maps s' root) = l_next (maps s root)" "l_prev (maps s' root) = l_prev (maps s root)"
    and ns: "namespace s' = namespace s"
  shows "namespace_ok s' (ns0 @ ls)" and "list_all2 (loaded E N T s') ls (map nm ls)"
proof -
  note I = inv [unfolded deps_inv_def]
  have lo: "lib_ok E N y" "kbits N \<le> 30" if "y \<in> C" for y using ok that by (simp_all add: libs_ok_def)
  have eq: "l_next (maps s' l) = l_next (maps s l) \<and> l_prev (maps s' l) = l_prev (maps s l)" for l
    using m by (cases "l = root") simp_all
  have "namespace_ok s (ns0 @ ls)" using I by blast
  from namespace_ok_cong [OF this ns] eq show "namespace_ok s' (ns0 @ ls)" by blast
  have "loaded E N T s' l (nm l)" if "l \<in> set ls" for l
  proof -
    have l: "loaded E N T s l (nm l)" "nm l \<in> C" "l \<noteq> root" using I that by blast+
    have "core (maps s' l) = core (maps s l)" using m(1) l(3) by simp
    then show ?thesis using lo [OF l(2)] by (intro loaded_kept [OF l(1) _ _ _ u _ subset_refl]) simp_all
  qed
  then show "list_all2 (loaded E N T s') ls (map nm ls)" by (simp add: list_all2_conv_all_nth)
qed

text \<open>The end of \<open>map_object_deps\<close>: the search list is allocated and filled when libraries were loaded.\<close>

lemma deps_finish:
  assumes inv: "deps_inv E N C root ns0 nm T F L ls s" and ok: "libs_ok E N C sn" and C: "card C < 2 ^ 31"
    and rm: "8 * card C + 8 + 2 ^ kbits N \<le> site_room N s"
  obtains s' where "(if length ls > 0 then
        obind (emalloc (kern E) (heap_var E) (8 * of_nat (length ls)) (lst s)) (\<lambda>(t, p).
          let s = upd_map root (\<lambda>L. L\<lparr>r_list := p, r_nlist := of_nat (length ls)\<rparr>) (s\<lparr>lst := t\<rparr>)
          in obind (olift (fill_searchlist E root (list_next (rmem s) (runhead E)) (r_list (maps s root)) (rmem s))) (\<lambda>m.
               oreturn (set_rmem m s)))
      else oreturn s) = oreturn s'"
    and "namespace_ok s' (ns0 @ ls)" and "list_all2 (loaded E N T s') ls (map nm ls)" and "unchanged_outside (- T) (rmem s) (rmem s')"
    and "ls \<noteq> [] \<longrightarrow> r_nlist (maps s' root) = of_nat (length ls) \<and>
      (\<forall>i < length ls. load64 (rmem s') (r_list (maps s' root) + ptr (8 * i)) = ls ! i)"
proof (cases "ls = []")
  case True
  from that [of s] True libs_after [OF inv ok unchanged_refl _ refl refl refl] show ?thesis by simp
next
  case False
  obtain t a m where m: "emalloc (kern E) (heap_var E) (8 * of_nat (length ls)) (lst s) = oreturn (t, ptr a)" "a < 2 ^ 63"
      "fill_searchlist E root (list_next (smem t) (runhead E)) (ptr a) (smem t) = Some m"
      "\<forall>i < length ls. load64 m (ptr (a + 8 * i)) = ls ! i" "unchanged_outside (- T) (rmem s) m"
    by (rule search_list_stored [OF inv ok False C rm])
  define s' where "s' = set_rmem m (upd_map root (\<lambda>L. L\<lparr>r_list := ptr a, r_nlist := of_nat (length ls)\<rparr>) (s\<lparr>lst := t\<rparr>))"
  have f: "rmem s' = m" "namespace s' = namespace s" "\<forall>z. z \<noteq> root \<longrightarrow> maps s' z = maps s z"
      "l_next (maps s' root) = l_next (maps s root)" "l_prev (maps s' root) = l_prev (maps s root)"
      "r_list (maps s' root) = ptr a" "r_nlist (maps s' root) = of_nat (length ls)"
    by (simp_all add: s'_def set_rmem_def upd_map_def)
  have u: "unchanged_outside (- T) (rmem s) (rmem s')" using m(5) f(1) by simp
  have "\<forall>i < length ls. load64 (rmem s') (r_list (maps s' root) + ptr (8 * i)) = ls ! i" unfolding f(1,6) ptr_add by (rule m(4))
  with f(7) libs_after [OF inv ok u f(3-5,2)] u show ?thesis
    using False m(1,3) by (intro that [of s']) (simp_all add: Let_def upd_map_def, simp_all add: s'_def upd_map_def)
qed

section \<open>The whole\<close>

lemma deps_whole:
  assumes r: "deps_ready E N C sn root ns0 nm T F L R names s"
    and pd: "parse_dynamic E root (set_rmem (INIT_LIST_HEAD (runhead E) (rmem s)) s) = oreturn (with_root E root R s)"
    and C: "card C < 2 ^ 31"
    and rm: "length names * open_cost N + (entry_costs N sn C + (8 * card C + 8 + 2 ^ kbits N + lib_costs E N C)) \<le> site_room N s"
  obtains s' nm' T' F' L' ls where "deps_run E (list_next (rmem (chain_runlist E root (runnode E 0) (with_root E root R s))) (runhead E)) 0
        (chain_runlist E root (runnode E 0) (with_root E root R s)) = oreturn (length ls, s')"
    and "deps_inv E N C root ns0 nm' T' F' L' ls s'" and "T \<subseteq> T'" and "unchanged_outside (- T) (rmem s) (rmem s')"
    and "map nm' ls = load_order (lib_deps N sn) (card C) (map (the \<circ> resolve N) names)"
    and "8 * card C + 8 + 2 ^ kbits N \<le> site_room N s'"
proof -
  define s1 where "s1 = chain_runlist E root (runnode E 0) (with_root E root R s)"
  note D = r [unfolded deps_ready_def] and S = deps_start [OF r, folded s1_def]
  have ok: "libs_ok E N C sn" and rT: "unat root \<in> T" and nC: "\<forall>x \<in> set names. \<exists>z \<in> C. resolve N x = Some z" using D by blast+
  let ?fin = "8 * card C + 8 + 2 ^ kbits N"
  have nd: "needs_in T (rmem s1) (maps s1 root) names" using S(3,5) by simp
  have rm1: "length names * open_cost N + ((entry_costs N sn C + ?fin) + lib_costs E N (C - set (map nm []))) \<le> site_room N s1"
    using rm S(4) by simp
  obtain s2 nm2 T2 F2 L2 ls2 where d: "deps_dyn E root (l_ld (maps s1 root)) 0 s1 = oreturn (length ls2, s2)"
      and i2: "deps_inv E N C root ns0 nm2 T2 F2 L2 ls2 s2" and a2: "advanced ns0 T nm [] s1 T2 nm2 ls2 s2"
      and m2: "map nm2 ls2 = fold add_new (map (the \<circ> resolve N) names) []"
      and c2: "(entry_costs N sn C + ?fin) + lib_costs E N (C - set (map nm2 ls2)) \<le> site_room N s2"
    using deps_dyn_object [OF S(1) ok rT nd nC rm1] unfolding list.size(3) list.map(1) by blast
  have c2': "entry_costs N sn (C - set (take 0 (map nm2 ls2))) + (?fin + lib_costs E N (C - set (map nm2 ls2))) \<le> site_room N s2"
    using c2 by simp
  obtain s3 nm3 T3 F3 L3 ls3 where e: "deps_run E (run_pos E N 0 ls2) (length ls2) s2 = oreturn (length ls3, s3)"
      and i3: "deps_inv E N C root ns0 nm3 T3 F3 L3 ls3 s3" and a3: "advanced ns0 T2 nm2 ls2 s2 T3 nm3 ls3 s3"
      and m3: "map nm3 ls3 = bfs (lib_deps N sn) (card C) 0 (map nm2 ls2)" and c3: "?fin \<le> site_room N s3"
    using deps_run_libs [OF ok i2 le0 _ c2', of "card C"] unfolding add_0_right by blast
  note W = run_pos_next [OF S(1) ok, of 0, simplified]
  note W2 = run_pos_next(1) [OF i2 ok, of 0, simplified]
  have "deps_run E (list_next (rmem s1) (runhead E)) 0 s1 = oreturn (length ls3, s3)"
    unfolding W(4) using W(2,3) d W2 e by (subst deps_run.simps) (simp add: Let_def)
  moreover have a: "advanced ns0 T nm [] s1 T3 nm3 ls3 s3" by (rule advanced_trans [OF a2 a3])
  then have "unchanged_outside (- T) (rmem s) (rmem s3)" using S(2) unfolding advanced_def by (blast intro: unchanged_trans)
  moreover have "map nm3 ls3 = load_order (lib_deps N sn) (card C) (map (the \<circ> resolve N) names)" using m3 m2 by (simp add: load_order_def)
  ultimately show ?thesis using that i3 c3 a unfolding s1_def advanced_def by blast
qed

section \<open>A program and its libraries\<close>

text \<open>
  The root is an object of its own, loaded from the file \<open>y\<close>: the program in \<open>loader_main\<close> when the loader is called as a
  command.
\<close>

definition program_ready ::
  "'w env \<Rightarrow> 'w site \<Rightarrow> byte list set \<Rightarrow> (byte list \<Rightarrow> byte list list) \<Rightarrow> addr \<Rightarrow> byte list \<Rightarrow> addr list \<Rightarrow> (addr \<Rightarrow> byte list) \<Rightarrow>
     nat set \<Rightarrow> nat set \<Rightarrow> blocks \<Rightarrow> 'w rtld \<Rightarrow> bool" where
  "program_ready E N C sn root y ns0 nm T F L s \<longleftrightarrow>
     site_inv E N T F L s \<and> libs_ok E N C sn \<and> namespace_ok s ns0 \<and>
     (\<forall>l \<in> set ns0. unat l \<in> T \<and> str_in T (rmem s) (unat (l_name (maps s l))) (nm l) \<and> nm l \<notin> C) \<and>
     run_bytes N \<subseteq> site_mapped N s \<and>
     run_bytes N \<inter> (F \<union> {hcell N ..< hcell N + 8} \<union> live_bytes L \<union> scratch N \<union> T) = {} \<and>
     loaded E N T s root y \<and> lib_ok E N y \<and> needs_ok (the (sfiles N y)) (sn y) \<and>
     (\<forall>x \<in> set (sn y). \<exists>z \<in> C. resolve N x = Some z)"

lemma program_deps_ready:
  assumes r: "program_ready E N C sn root y ns0 nm T F L s"
  obtains R where "deps_ready E N C sn root ns0 nm T F L R (sn y) s"
    and "parse_dynamic E root (set_rmem (INIT_LIST_HEAD (runhead E) (rmem s)) s) = oreturn (with_root E root R s)"
proof -
  note D = r [unfolded program_ready_def]
  let ?xs = "the (sfiles N y)" and ?s = "set_rmem (INIT_LIST_HEAD (runhead E) (rmem s)) s"
  have ld: "loaded E N T s root y" and lo: "lib_ok E N y" and k: "kbits N \<le> 30" "run_area E N" using D by (simp_all add: libs_ok_def)
  obtain A where A: "0 < A" "A \<le> 2 ^ 47" "object_at (dt_num E) ?xs (rmem s) (maps s root) A"
      and T: "(+) A ` image_bytes ?xs \<subseteq> T"
    by (rule loaded_object [OF ld lo k(1)])
  let ?R = "with_dynamic (dt_num E) ?xs A (maps s root)"
  have oks: "segments_ok (kbits N) ?xs" "dynamic_ok (dt_num E) ?xs" using lo by (simp_all add: lib_ok_def object_ok_def)
  have im: "image_at (rmem s) A ?xs" and L: "l_addr (maps s root) = ptr A" "l_ld (maps s root) = ptr (A + obj_ld ?xs)"
      "l_info (maps s root) = obj_info (dt_num E) ?xs A"
    using A(3) unfolding object_at_def by blast+
  have "T \<inter> run_bytes N = {}" using D by blast
  moreover have u: "unchanged_outside (run_bytes N) (rmem s) (rmem ?s)" using run_list_init(2) [OF k(2)] by (simp add: set_rmem_def)
  ultimately have "image_at (rmem ?s) A ?xs"
    using T by (intro image_at_unchanged [OF im u _ oks(1) A(2)]) blast
  then have "parse_dynamic E root ?s = oreturn (upd_map root (with_dynamic (dt_num E) ?xs A) ?s)"
    using L by (intro parse_dynamic_object [OF oks _ A(1,2)]) (simp_all add: set_rmem_def)
  also have "upd_map root (with_dynamic (dt_num E) ?xs A) ?s = with_root E root ?R s"
    by (simp add: with_root_def upd_map_def set_rmem_def Let_def)
  finally have pd: "parse_dynamic E root ?s = oreturn (with_root E root ?R s)" .
  have "needs_in T (rmem s) ?R (sn y)"
    using loaded_needs [OF ld lo _ k(1), of "sn y"] D L(3) by (simp add: needs_in_def)
  moreover have "unat root \<in> T" using ld by (simp add: loaded_def)
  moreover have "l_next ?R = l_next (maps s root)" "l_prev ?R = l_prev (maps s root)" "l_name ?R = l_name (maps s root)" by simp_all
  ultimately have "deps_ready E N C sn root ns0 nm T F L ?R (sn y) s" using D unfolding deps_ready_def by blast
  with pd show ?thesis using that by blast
qed

lemma lib_deps_closed:
  assumes "program_ready E N C sn root y ns0 nm T F L s"
  shows "finite C" and "set (lib_deps N sn y) \<subseteq> C" and "z \<in> C \<Longrightarrow> set (lib_deps N sn z) \<subseteq> C"
  using assms by (auto simp: program_ready_def libs_ok_def lib_deps_def) (metis option.sel)+

text \<open>Loading the program puts the loader in such a state, when the program is not in the namespace.\<close>

lemma map_object_program:
  assumes inv: "site_inv E N T F L s" and ok: "libs_ok E N C sn" and ns: "namespace_ok s ns0"
    and ns0: "\<forall>l \<in> set ns0. unat l \<in> T \<and> str_in T (rmem s) (unat (l_name (maps s l))) (nm l) \<and> nm l \<notin> insert y C"
    and run: "run_bytes N \<subseteq> site_mapped N s" "run_bytes N \<inter> (F \<union> {hcell N ..< hcell N + 8} \<union> live_bytes L \<union> scratch N \<union> T) = {}"
    and x: "str_in T (rmem s) a x" and y: "resolve N x = Some y" "lib_ok E N y" "needs_ok (the (sfiles N y)) (sn y)"
      "\<forall>x \<in> set (sn y). \<exists>z \<in> C. resolve N x = Some z"
    and rm: "open_cost N + object_cost E (kbits N) (the (sfiles N y)) \<le> site_room N s"
  obtains s' root T' F' L' where "map_object E (ptr a) s = oreturn (s', root)" and "program_ready E N C sn root y ns0 nm T' F' L' s'"
    and "site_room N s \<le> site_room N s' + (open_cost N + object_cost E (kbits N) (the (sfiles N y)))"
proof -
  have nl: "ns_list (maps s) (namespace s) ns0" using ns by (simp add: namespace_ok_def)
  have f: "find (\<lambda>l. nm l = y) ns0 = None" using ns0 by (auto simp: find_None_iff)
  have st: "\<forall>l \<in> set ns0. str_in T (rmem s) (unat (l_name (maps s l))) (nm l)" using ns0 by blast
  have rm': "open_cost N + (if find (\<lambda>l. nm l = y) ns0 = None then object_cost E (kbits N) (the (sfiles N y)) else 0) \<le> site_room N s"
    using rm f by simp
  obtain s' l F' L' X where r: "map_object E (ptr a) s = oreturn (s', l)" "\<forall>z. z \<noteq> l \<longrightarrow> maps s' z = maps s z"
      and i: "site_inv E N (T \<union> X) F' L' s'"
      and g: "grown N F L s F' L' X s' (open_cost N + object_cost E (kbits N) (the (sfiles N y)))" and l: "loaded E N X s' l y"
    using map_object_site [OF inv x y(1,2) nl st rm'] unfolding f option.case by blast
  note G = g [unfolded grown_def]
  have clear: "T \<inter> (spare (vmapped (kview N)) (hcell N) F (lst s) \<union> scratch N) = {}" by (rule site_inv_clear [OF inv])
  have "T \<subseteq> site_mapped N s" "T \<inter> F = {}" using inv unfolding site_inv_def by blast+
  then have TX: "T \<inter> X = {}" using G by blast
  have lX: "unat l \<in> X" using l by (simp add: loaded_def)
  have same: "maps s' z = maps s z" if "z \<in> set ns0" for z
  proof -
    have "unat z \<in> T" using ns0 that by blast
    then have "z \<noteq> l" using TX lX by auto
    then show ?thesis using r(2) by simp
  qed
  have "namespace_ok s' ns0" by (rule namespace_ok_cong [OF ns]) (use G same in auto)
  moreover have "str_in (T \<union> X) (rmem s') (unat (l_name (maps s' z))) (nm z)" if "z \<in> set ns0" for z
  proof -
    have "str_in T (rmem s) (unat (l_name (maps s z))) (nm z)" using ns0 that by blast
    then have "str_in T (rmem s') (unat (l_name (maps s z))) (nm z)" by (rule str_in_kept [OF _ _ clear]) (use G in blast)
    then show ?thesis unfolding same [OF that] by (rule str_in_mono) blast
  qed
  moreover have "run_bytes N \<subseteq> site_mapped N s'" using run(1) G by blast
  moreover have "run_bytes N \<inter> (F' \<union> {hcell N ..< hcell N + 8} \<union> live_bytes L' \<union> scratch N \<union> (T \<union> X)) = {}" using run G by blast
  moreover have "loaded E N (T \<union> X) s' l y" using l unfolding loaded_def by (blast intro: str_in_mono)
  ultimately have "program_ready E N C sn l y ns0 nm (T \<union> X) F' L' s'" using ok i y(2-4) ns0 unfolding program_ready_def by blast
  with r(1) G show ?thesis using that by blast
qed

end
