(* ===== verification/Load_Libraries_Props.thy ===== *)
theory Load_Libraries_Props
  imports Load_Libraries
begin

text \<open>
  The property of loading a program's dependencies, applied to a program and a library that needs itself.
\<close>

section \<open>A file that needs a library\<close>

text \<open>
  A file of 384 bytes with one loaded segment of 400 bytes. Its dynamic section at 256 needs the library \<open>q\<close> and gives
  the string table at 320 and a symbol table. It serves as the program and as the library, which then needs itself.
\<close>

definition needing_byte :: "nat \<Rightarrow> byte" where
  "needing_byte = (\<lambda>_. 0)(16 := 3, 24 := 40, 32 := 64, 56 := 2,
     64 := 1, 68 := 5, 96 := 128, 97 := 1, 104 := 144, 105 := 1, 113 := 16,
     120 := 2, 137 := 1, 160 := 64, 256 := 1, 264 := 1, 272 := 5, 280 := 64, 281 := 1, 288 := 6, 321 := 113)"

definition needing_file :: "byte list" where
  "needing_file = map needing_byte [0 ..< 384]"

lemma needing_file_byte: "fbyte needing_file i = needing_byte i"
  by (auto simp: fbyte_def needing_file_def needing_byte_def)

lemma needing_file_mem: "file_mem needing_file x = needing_byte (unat x)"
  by (simp add: file_mem_def needing_file_byte)

lemma needing_file_headers:
  "e_type (file_mem needing_file) 0 = 3" "e_phoff (file_mem needing_file) 0 = 64" "e_phnum (file_mem needing_file) 0 = 2"
  "p_type (file_mem needing_file) 64 = 1" "p_offset (file_mem needing_file) 64 = 0" "p_vaddr (file_mem needing_file) 64 = 0"
  "p_filesz (file_mem needing_file) 64 = 384" "p_memsz (file_mem needing_file) 64 = 400" "p_align (file_mem needing_file) 64 = 4096"
  "p_type (file_mem needing_file) 120 = 2" "p_vaddr (file_mem needing_file) 120 = 256" "p_memsz (file_mem needing_file) 120 = 64"
  by (simp_all add: e_type_def e_phoff_def e_phnum_def p_type_def p_offset_def p_vaddr_def p_filesz_def p_memsz_def
      p_align_def word_loads needing_file_mem needing_byte_def)

lemma needing_file_loads: "obj_phnum needing_file = 2" "obj_loads needing_file = [64]"
proof -
  show n: "obj_phnum needing_file = 2" by (simp add: obj_phnum_def needing_file_headers)
  have "phdrs 64 2 = [64, 120]" by (simp add: numeral_2_eq_2 sizeof_Phdr_def)
  then show "obj_loads needing_file = [64]" by (simp add: obj_loads_def n needing_file_headers is_load_def PT_LOAD_def)
qed

lemma needing_file_len: "obj_len 12 needing_file = 400"
  by (simp add: obj_len_def obj_cmds_def needing_file_loads seg_cmd_def needing_file_headers)

lemma needing_file_image: "obj_image needing_file = file_mem needing_file" "image_bytes needing_file = {0 ..< 400}"
proof -
  show "obj_image needing_file = file_mem needing_file"
    by (rule ext) (auto simp: obj_image_def needing_file_loads seg_bytes_def needing_file_headers needing_file_mem needing_file_byte Let_def needing_byte_def)
  show "image_bytes needing_file = {0 ..< 400}"
    by (simp add: image_bytes_def needing_file_loads seg_bytes_def needing_file_headers)
qed

lemma needing_file_tags:
  "d_tag (file_mem needing_file) 256 = 1" "d_tag (file_mem needing_file) 272 = 5" "d_tag (file_mem needing_file) 288 = 6"
  "d_tag (file_mem needing_file) 304 = 0" "d_un (file_mem needing_file) 256 = 1" "d_un (file_mem needing_file) 272 = 320"
  by (simp_all add: d_tag_def d_un_def word_loads needing_file_mem needing_byte_def)

lemma needing_file_dynamic:
  "obj_ld needing_file = 256" "l_ldnum (obj_map needing_file) = 4" "obj_dyns needing_file = [256, 272, 288]"
  "obj_entry needing_file t = (if t = DT_NEEDED then Some 256 else if t = DT_STRTAB then Some 272 else if t = DT_SYMTAB then Some 288 else None)"
proof -
  have "phdrs 64 2 = [64, 120]" by (simp add: numeral_2_eq_2 sizeof_Phdr_def)
  then have m: "l_ld (obj_map needing_file) = 256" "l_ldnum (obj_map needing_file) = 4"
    by (simp_all add: obj_map_def needing_file_loads needing_file_headers phdr_fields_def PT_DYNAMIC_def PT_PHDR_def sizeof_Dyn_def)
  then show "obj_ld needing_file = 256" "l_ldnum (obj_map needing_file) = 4" by (simp_all add: obj_ld_def)
  moreover have "(4 :: nat) = Suc (Suc (Suc (Suc 0)))" by simp
  then have "dyns (ptr 256) 4 = [256, 272, 288, 304]" by (simp only: dyns.simps) (simp add: sizeof_Dyn_def)
  ultimately show d: "obj_dyns needing_file = [256, 272, 288]"
    by (simp add: obj_dyns_def needing_file_image needing_file_tags)
  show "obj_entry needing_file t = (if t = DT_NEEDED then Some 256 else if t = DT_STRTAB then Some 272 else if t = DT_SYMTAB then Some 288 else None)"
    by (auto simp: obj_entry_def d last_entry_def needing_file_image dyn_tag_def needing_file_tags dt_numbers)
qed

lemma needing_file_ok: "object_ok 38 12 needing_file"
proof -
  have "length needing_file = 384" by (simp add: needing_file_def)
  then have "headers_ok needing_file"
    by (simp add: headers_ok_def obj_phoff_def needing_file_loads needing_file_headers ET_DYN_def)
  moreover have "segments_ok 12 needing_file"
    by (simp add: segments_ok_def needing_file_loads needing_file_len obj_cmds_def seg_cmd_def needing_file_headers phdr_aligned_def)
  moreover have "dynamic_ok 38 needing_file"
    by (simp add: dynamic_ok_def needing_file_dynamic needing_file_image bad_entry_def dyn_tag_def needing_file_tags dt_numbers)
  ultimately show ?thesis by (simp add: object_ok_def)
qed

lemma needing_file_needs: "needs_ok needing_file [[113]]"
proof -
  have "filter (needed (obj_image needing_file)) (obj_dyns needing_file) = [256]"
    unfolding needing_file_dynamic needing_file_image by (simp add: needed_def needing_file_tags DT_NEEDED_def del: One_nat_def)
  moreover have "obj_val needing_file DT_STRTAB = 320"
    unfolding obj_val_def needing_file_dynamic needing_file_image by (simp add: needing_file_tags dt_numbers)
  moreover have "cstr (file_mem needing_file) 321 [113]" by (simp add: needing_file_mem needing_byte_def)
  moreover have "{321 .. 322} \<subseteq> {0 ..< 400 :: nat}" by auto
  ultimately show ?thesis unfolding needs_ok_def needing_file_image by (simp add: needing_file_tags)
qed

section \<open>A loader with these files\<close>

text \<open>
  The files \<open>a/p\<close> and \<open>a/q\<close>, one search directory \<open>a\<close>. The strings are in a page of their own: the format, the directory
  and the name of the program.
\<close>

definition library_files :: "(byte list \<times> byte list) list" where
  "library_files = [([97, 47, 112], needing_file), ([97, 47, 113], needing_file)]"

definition library_strings :: "nat \<Rightarrow> byte" where
  "library_strings = (\<lambda>_. 0)(16384 := 37, 16385 := 115, 16386 := 47, 16387 := 37, 16388 := 115, 16400 := 97, 16416 := 112)"

definition library_state :: "pages rtld" where
  "library_state = pages_state\<lparr>
     lst := (lst pages_state)\<lparr>smem := (\<lambda>x. if unat x \<in> {16384 ..< 16448} then library_strings (unat x) else roomy_heap x)\<rparr>,
     rpath := [16400, NULL]\<rparr>"

definition library_site :: "pages site" where
  "library_site = \<lparr>kview = pages_view, kbits = 12, hcell = 4096, nbuf = 18432, fbuf = 20480, pbuf = 22528, pcap = 1024,
     sdirs = [[97]], sfiles = map_of library_files, rhead = 24576, rnode = (\<lambda>j. 24608 + 32 * j), rcap = 1\<rparr>"

abbreviation library_env :: "pages env" where
  "library_env \<equiv> pages_env library_files"

abbreviation library_needs :: "byte list \<Rightarrow> byte list list" where
  "library_needs \<equiv> (\<lambda>_. [[113]])"

lemma library_site_fields [simp]:
  "kview library_site = pages_view" "kbits library_site = 12" "hcell library_site = 4096" "nbuf library_site = 18432"
  "fbuf library_site = 20480" "pbuf library_site = 22528" "pcap library_site = 1024" "sdirs library_site = [[97]]"
  "sfiles library_site = map_of library_files" "rhead library_site = 24576" "rnode library_site j = 24608 + 32 * j" "rcap library_site = 1"
  by (simp_all add: library_site_def)

lemma library_resolve: "resolve library_site [112] = Some [97, 47, 112]" "resolve library_site [113] = Some [97, 47, 113]"
  by (simp_all add: resolve_def path_of_def library_files_def)

lemma library_mapped: "site_mapped library_site library_state = {0 ..< 32768}" "site_room library_site library_state = 2 ^ 47 - 32768"
  by (simp_all add: library_state_def pages_state_def)

lemma library_text:
  "str_in {16384 ..< 16448} (rmem library_state) 16384 path_format" "str_in {16384 ..< 16448} (rmem library_state) 16400 [97]"
  "str_in {16384 ..< 16448} (rmem library_state) 16416 [112]"
  by (auto simp: str_in_def library_state_def library_strings_def path_format_def)

lemma library_ready: "site_ready library_env library_site {8192 ..< 12288} Map.empty library_state"
proof -
  note R = pages_state_ready [of library_files, unfolded load_ready_def]
  have "malloc_inv (kern library_env) (vmapped pages_view) (2 ^ 12) 4096 {8192 ..< 12288} Map.empty (lst library_state)"
    by (rule malloc_inv_step [of _ _ _ _ _ _ "lst pages_state" "{16384 ..< 16448}"])
      (use R in \<open>auto simp: library_state_def unchanged_outside_def pages_state_def live_bytes_def\<close>)
  then show ?thesis using R by (simp add: load_ready_def library_state_def)
qed

lemma library_inv: "site_inv library_env library_site {16384 ..< 16448} {8192 ..< 12288} Map.empty library_state"
proof -
  have op: "opens (kern library_env) pages_view 18432 (map_of library_files)" by (simp add: pages_env_def pages_opens)
  have "rpath library_state = map ptr [16400] @ NULL # []" by (simp add: library_state_def)
  moreover have "list_all2 (str_in {16384 ..< 16448} (rmem library_state)) [16400] (sdirs library_site)" using library_text(2) by simp
  ultimately have "\<exists>ps rest. rpath library_state = map ptr ps @ NULL # rest \<and>
      list_all2 (str_in {16384 ..< 16448} (rmem library_state)) ps (sdirs library_site)"
    by blast
  moreover have "unat (path_fmt library_env) = 16384" "namebuf library_env = ptr 18432" by (simp_all add: pages_env_def)
  moreover have "buf_ok 18432 1024" by (simp add: buf_ok_def)
  moreover have "scratch library_site \<inter> {16384 ..< 16448} = {}" by (auto simp: scratch_def head_bytes_def)
  ultimately show ?thesis
    unfolding site_inv_def library_mapped using op library_ready library_text(1) by (auto simp: live_bytes_def)
qed

lemma library_libs: "libs_ok library_env library_site {[97, 47, 113]} library_needs"
proof -
  have "run_area library_env library_site"
    by (auto simp: run_area_def pages_env_def head_at_def)
  moreover have "lib_ok library_env library_site y" if "y \<in> {[97, 47, 112], [97, 47, 113]}" for y
    using that needing_file_ok by (auto simp: lib_ok_def path_fine_def library_files_def pages_env_def needing_file_loads)
  ultimately show ?thesis
    using needing_file_needs library_resolve by (simp add: libs_ok_def library_files_def)
qed

section \<open>Property\<close>


section \<open>Example\<close>

lemma library_costs:
  "open_cost library_site = 5127" "object_cost library_env 12 needing_file = 9008"
  by (simp_all add: open_cost_def object_cost_def link_cost_def pages_env_def needing_file_len page_up_def)

lemma library_program:
  obtains s root T F L where "map_object library_env 16416 library_state = oreturn (s, root)"
    and "program_ready library_env library_site {[97, 47, 113]} library_needs root [97, 47, 112] [] (\<lambda>_. []) T F L s"
    and "2 ^ 46 \<le> site_room library_site s"
proof -
  have ns: "namespace_ok library_state []" by (simp add: namespace_ok_def library_state_def pages_state_def)
  have y: "lib_ok library_env library_site [97, 47, 112]"
    using needing_file_ok by (simp add: lib_ok_def path_fine_def library_files_def pages_env_def needing_file_loads)
  have run: "run_bytes library_site \<subseteq> site_mapped library_site library_state"
      "run_bytes library_site \<inter> ({8192 ..< 12288} \<union> {hcell library_site ..< hcell library_site + 8} \<union> live_bytes Map.empty \<union>
         scratch library_site \<union> {16384 ..< 16448}) = {}"
    unfolding library_mapped by (auto simp: run_bytes_def scratch_def head_bytes_def live_bytes_def)
  have f: "the (sfiles library_site [97, 47, 112]) = needing_file" by (simp add: library_files_def)
  have "open_cost library_site + object_cost library_env (kbits library_site) (the (sfiles library_site [97, 47, 112]))
      \<le> site_room library_site library_state"
    unfolding library_mapped f by (simp add: library_costs)
  note rm = this
  have "needs_ok (the (sfiles library_site [97, 47, 112])) [[113]]" unfolding f by (rule needing_file_needs)
  moreover have "\<forall>x \<in> set [[113]]. \<exists>z \<in> {[97, 47, 113]}. resolve library_site x = Some z" using library_resolve by simp
  moreover have "\<forall>l \<in> set []. unat l \<in> {16384 ..< 16448} \<and> str_in {16384 ..< 16448} (rmem library_state)
      (unat (l_name (maps library_state l))) [] \<and> [] \<notin> {[97, 47, 112], [97, 47, 113 :: byte]}" by simp
  ultimately obtain s root T F L where r: "map_object library_env (ptr 16416) library_state = oreturn (s, root)"
      "program_ready library_env library_site {[97, 47, 113]} library_needs root [97, 47, 112] [] (\<lambda>_. []) T F L s"
      "site_room library_site library_state \<le> site_room library_site s +
        (open_cost library_site + object_cost library_env (kbits library_site) (the (sfiles library_site [97, 47, 112])))"
    using map_object_program [OF library_inv library_libs ns _ run library_text(3) library_resolve(1) y _ _ rm, of "\<lambda>_. []"] by blast
  from r(3) have "2 ^ 46 \<le> site_room library_site s" unfolding library_mapped f by (simp add: library_costs)
  with r(1,2) show ?thesis using that by simp
qed


end
