(* ===== verification/Rtld.thy ===== *)
theory Rtld
  imports Load
begin

text \<open>
  Start-up of the loader (\<open>rtld/rtld.c\<close>): the parameters the kernel leaves on the stack, the program
  headers of the running program, and \<open>loader_start\<close>, which composes everything and returns the address
  to jump to. Output (\<open>print_maps\<close>, \<open>print_program_info\<close>) is left out.
\<close>

section \<open>Boot parameters\<close>

record program_info =
  argc :: "32 word"
  argv :: addr
  envp :: addr
  entry :: addr
  ehdr :: addr
  phdr :: addr
  phnum :: "16 word"

definition AT_PHDR :: addr where "AT_PHDR = 3"
definition AT_PHNUM :: addr where "AT_PHNUM = 5"
definition AT_PAGESZ :: addr where "AT_PAGESZ = 6"
definition AT_ENTRY :: addr where "AT_ENTRY = 9"
definition AT_SYSINFO_EHDR :: addr where "AT_SYSINFO_EHDR = 33"

text \<open>\<open>Elf64_auxv_t\<close>: \<open>a_type\<close> at 0, \<open>a_un\<close> at 8. The vector ends with \<open>AT_NULL\<close>, which is 0.\<close>

definition a_type :: "mem \<Rightarrow> addr \<Rightarrow> addr" where "a_type m a = load64 m a"
definition a_val :: "mem \<Rightarrow> addr \<Rightarrow> addr" where "a_val m a = load64 m (a + 8)"

definition parse_auxv_one ::
  "mem \<Rightarrow> addr \<Rightarrow> program_info \<times> 'w rtld \<Rightarrow> (program_info \<times> 'w rtld) outcome" where
  "parse_auxv_one m auxv = (\<lambda>(pi, s).
     let t = a_type m auxv; v = a_val m auxv
     in if t = AT_ENTRY then oreturn (pi\<lparr>entry := v\<rparr>, s)
        else if t = AT_SYSINFO_EHDR then
          let pi = pi\<lparr>ehdr := v\<rparr>
          in if phdr pi = NULL then
               (if v = NULL then ostop Null_deref else oreturn (pi\<lparr>phdr := v + e_phoff m v\<rparr>, s))
             else oreturn (pi, s)
        else if t = AT_PHDR then oreturn (pi\<lparr>phdr := v\<rparr>, s)
        else if t = AT_PHNUM then oreturn (pi\<lparr>phnum := ucast v\<rparr>, s)
        else if t = AT_PAGESZ then oreturn (pi, s\<lparr>dl_pagesize := v, lst := (lst s)\<lparr>pagesize := v\<rparr>\<rparr>)
        else oreturn (pi, s))"

partial_function (option) parse_auxv ::
  "mem \<Rightarrow> addr \<Rightarrow> program_info \<times> 'w rtld \<Rightarrow> (program_info \<times> 'w rtld) outcome" where
  "parse_auxv m auxv r =
     (if a_type m auxv = 0 then oreturn r
      else obind (parse_auxv_one m auxv r) (\<lambda>r. parse_auxv m (auxv + 16) r))"

text \<open>\<open>for (envc = 0; *pauxv++ != 0; envc++)\<close>\<close>

partial_function (option) skip_env :: "mem \<Rightarrow> addr \<Rightarrow> addr option" where
  "skip_env m p = (if load64 m p = 0 then Some (p + 8) else skip_env m (p + 8))"

definition parse_params :: "addr \<Rightarrow> program_info \<times> 'w rtld \<Rightarrow> (program_info \<times> 'w rtld) outcome" where
  "parse_params params = (\<lambda>(pi, s).
     let argc_val = load32 (rmem s) params;
         pargv = params + 8;
         penvp = pargv + 8 * scast argc_val + 8
     in obind (olift (skip_env (rmem s) penvp)) (\<lambda>pauxv.
        obind (parse_auxv (rmem s) pauxv (pi, s)) (\<lambda>(pi, s).
          oreturn (pi\<lparr>argc := argc_val, argv := pargv, envp := penvp\<rparr>, s))))"

section \<open>The main program\<close>

text \<open>One program header in \<open>loader_main\<close>: the link map of the running program and \<open>GL(dl_stack_flags)\<close>.\<close>

definition main_phdr_one ::
  "addr \<Rightarrow> mem \<Rightarrow> addr \<Rightarrow> link_map \<times> 32 word \<Rightarrow> (link_map \<times> 32 word) outcome" where
  "main_phdr_one pagesz m ph = (\<lambda>(L, stack_flags).
     if p_type m ph = PT_PHDR then oreturn (L\<lparr>l_addr := ph - p_vaddr m ph\<rparr>, stack_flags)
     else if p_type m ph = PT_DYNAMIC then oreturn (L\<lparr>l_ld := l_addr L + p_vaddr m ph\<rparr>, stack_flags)
     else if p_type m ph = PT_LOAD then
       let map_start = l_addr L + (p_vaddr m ph AND NOT (pagesz - 1));
           alloc_end = l_addr L + p_vaddr m ph + p_memsz m ph;
           L = (if map_start < l_map_start L then L\<lparr>l_map_start := map_start\<rparr> else L);
           L = (if l_map_end L < alloc_end then L\<lparr>l_map_end := alloc_end\<rparr> else L);
           L = (if p_flags m ph AND 1 \<noteq> 0 \<and> l_text_end L < alloc_end then L\<lparr>l_text_end := alloc_end\<rparr> else L)
       in oreturn (L, stack_flags)
     else if p_type m ph = PT_TLS then ostop (Exited 1)
     else if p_type m ph = PT_GNU_STACK then oreturn (L, p_flags m ph)
     else if p_type m ph = PT_GNU_RELRO then
       oreturn (L\<lparr>l_relro_addr := p_vaddr m ph, l_relro_size := p_memsz m ph\<rparr>, stack_flags)
     else oreturn (L, stack_flags))"

primrec main_phdr_loop ::
  "addr \<Rightarrow> mem \<Rightarrow> nat \<Rightarrow> addr \<Rightarrow> link_map \<times> 32 word \<Rightarrow> (link_map \<times> 32 word) outcome" where
  "main_phdr_loop pagesz m 0 ph r = oreturn r"
| "main_phdr_loop pagesz m (Suc n) ph r =
     obind (main_phdr_one pagesz m ph r) (main_phdr_loop pagesz m n (ph + sizeof_Phdr))"

definition main_link_map :: "'w env \<Rightarrow> program_info \<Rightarrow> link_map \<Rightarrow> link_map" where
  "main_link_map E pi L =
     (let L = (if entry pi = start_sym E then L\<lparr>l_addr := begin_sym E\<rparr> else L)
      in L\<lparr>l_phdr := phdr pi, l_phnum := phnum pi, l_entry := entry pi\<rparr>)"

text \<open>When the loader was called as a command, it loads the program its first argument names.\<close>

definition load_main :: "'w env \<Rightarrow> program_info \<Rightarrow> addr \<Rightarrow> 'w rtld \<Rightarrow> ('w rtld \<times> addr) outcome" where
  "load_main E pi rtld_map s =
     obind (strdup (kern E) (heap_var E) (lit_RTLD E) (lst s)) (\<lambda>(t, p).
     let s = upd_map rtld_map (\<lambda>L. L\<lparr>l_name := p\<rparr>) (s\<lparr>lst := t\<rparr>)
     in obind (map_object E (load64 (rmem s) (argv pi + 8)) s) (\<lambda>(s, main_map).
        let s = upd_map rtld_map (\<lambda>L. L\<lparr>l_next := main_map\<rparr>) s;
            s = upd_map main_map (\<lambda>L. L\<lparr>l_prev := rtld_map\<rparr>) s
        in obind (parse_dynamic E main_map s) (\<lambda>s. oreturn (s, main_map))))"

definition loader_main :: "'w env \<Rightarrow> program_info \<Rightarrow> 'w rtld \<Rightarrow> ('w rtld \<times> addr) outcome" where
  "loader_main E pi s =
     obind (create_link_map E s) (\<lambda>(s, rtld_map).
     obind (main_phdr_loop (dl_pagesize s) (rmem s) (unat (phnum pi)) (phdr pi)
              (main_link_map E pi (maps s rtld_map), dl_stack_flags s)) (\<lambda>(L, stack_flags).
     let s = (upd_map rtld_map (\<lambda>_. L) s)\<lparr>dl_stack_flags := stack_flags, namespace := rtld_map\<rparr>
     in obind
          (if entry pi = start_sym E then load_main E pi rtld_map s
           else
             obind (strdup (kern E) (heap_var E) (lit_main E) (lst s)) (\<lambda>(t, p).
               oreturn (upd_map rtld_map (\<lambda>L. L\<lparr>l_name := p\<rparr>) (s\<lparr>lst := t\<rparr>), rtld_map))) (\<lambda>(s, root).
        obind (parse_dynamic E rtld_map s) (\<lambda>s.
        obind (map_object_deps E root s) (\<lambda>s.
        obind (reloc_all E s) (\<lambda>s.
          oreturn (s, l_addr (maps s root) + l_entry (maps s root))))))))"

text \<open>The 16-bit \<open>phnum\<close> starts as \<open>-1\<close> and is promoted to \<open>int\<close> before the comparison with \<open>-1\<close>.\<close>

definition initial_program_info :: "'w env \<Rightarrow> program_info" where
  "initial_program_info E =
     \<lparr>argc = - 1, argv = NULL, envp = NULL, entry = start_sym E, ehdr = NULL, phdr = NULL, phnum = - 1\<rparr>"

definition loader_start :: "'w env \<Rightarrow> addr \<Rightarrow> 'w rtld \<Rightarrow> ('w rtld \<times> addr) outcome" where
  "loader_start E params s =
     (let s = s\<lparr>rpath := (rpath s)[0 := lit_lib E, 1 := lit_usr_lib E, 2 := lit_dot E, 3 := NULL]\<rparr>;
          s = s\<lparr>lst := malloc_init (heap_var E) (initial_fa E) (lst s)\<rparr>
      in obind (parse_params params (initial_program_info E, s)) (\<lambda>(pi, s).
         obind (oassert (phdr pi \<noteq> NULL)) (\<lambda>_.
         obind (oassert (uint (phnum pi) \<noteq> - 1)) (\<lambda>_.
         obind (oassert (entry pi \<noteq> 0)) (\<lambda>_. loader_main E pi s)))))"

end
