(* ===== verification/Rtld_Props.thy ===== *)
theory Rtld_Props
  imports Rtld
begin

text \<open>
  Start-up: what the loader takes from the parameters the kernel leaves on the stack.
\<close>

section \<open>The stack of a new program\<close>

text \<open>
  \<open>env_list m p n\<close>: \<open>n\<close> environment pointers at \<open>p\<close> and the closing NULL. \<open>aux_list m a n\<close>: \<open>n\<close> entries of
  the auxiliary vector at \<open>a\<close> and the closing \<open>AT_NULL\<close>; \<open>auxs\<close> lists their addresses.
\<close>

primrec env_list :: "mem \<Rightarrow> addr \<Rightarrow> nat \<Rightarrow> bool" where
  "env_list m p 0 \<longleftrightarrow> load64 m p = 0"
| "env_list m p (Suc n) \<longleftrightarrow> load64 m p \<noteq> 0 \<and> env_list m (p + 8) n"

primrec aux_list :: "mem \<Rightarrow> addr \<Rightarrow> nat \<Rightarrow> bool" where
  "aux_list m a 0 \<longleftrightarrow> a_type m a = 0"
| "aux_list m a (Suc n) \<longleftrightarrow> a_type m a \<noteq> 0 \<and> aux_list m (a + 16) n"

primrec auxs :: "addr \<Rightarrow> nat \<Rightarrow> addr list" where
  "auxs a 0 = []"
| "auxs a (Suc n) = a # auxs (a + 16) n"

text \<open>The last value with a type, or a default.\<close>

definition aux_value :: "mem \<Rightarrow> addr \<Rightarrow> addr list \<Rightarrow> addr \<Rightarrow> addr" where
  "aux_value m t as d = fold (\<lambda>a v. if a_type m a = t then a_val m a else v) as d"

lemma aux_value_simps [simp]:
  "aux_value m t [] d = d"
  "aux_value m t (a # as) d = aux_value m t as (if a_type m a = t then a_val m a else d)"
  by (simp_all add: aux_value_def)

lemma aux_value_present: "\<exists>a \<in> set as. a_type m a = t \<Longrightarrow> aux_value m t as d = aux_value m t as d'"
proof (induction as arbitrary: d d')
  case (Cons a as)
  show ?case
  proof (cases "\<exists>a \<in> set as. a_type m a = t")
    case True
    then show ?thesis by (simp add: Cons.IH [OF True])
  next
    case False
    with Cons.prems have "a_type m a = t" by auto
    then show ?thesis by simp
  qed
qed simp

lemma skip_env_list: "env_list m p n \<Longrightarrow> skip_env m p = Some (p + 8 * of_nat n + 8)"
proof (induction n arbitrary: p)
  case 0
  then show ?case by (subst skip_env.simps) simp
next
  case (Suc n)
  then show ?case by (subst skip_env.simps) (simp add: of_nat_Suc algebra_simps)
qed

section \<open>The auxiliary vector\<close>

text \<open>Values the scan reads through: program header tables and headers are not at NULL.\<close>

definition aux_ok :: "mem \<Rightarrow> addr list \<Rightarrow> bool" where
  "aux_ok m as \<longleftrightarrow> (\<forall>a \<in> set as. a_type m a \<in> {AT_PHDR, AT_SYSINFO_EHDR} \<longrightarrow> a_val m a \<noteq> NULL)"

lemmas AT_defs = AT_PHDR_def AT_PHNUM_def AT_PAGESZ_def AT_ENTRY_def AT_SYSINFO_EHDR_def

text \<open>One entry: what it sets.\<close>

lemma parse_auxv_one_fields:
  assumes "aux_ok m [a]"
  obtains pi' s' where "parse_auxv_one m a (pi, s) = oreturn (pi', s')"
    and "entry pi' = aux_value m AT_ENTRY [a] (entry pi)"
    and "phnum pi' = (if a_type m a = AT_PHNUM then ucast (a_val m a) else phnum pi)"
    and "a_type m a = AT_PHDR \<Longrightarrow> phdr pi' = a_val m a" and "a_type m a \<noteq> AT_PHDR \<Longrightarrow> phdr pi \<noteq> NULL \<Longrightarrow> phdr pi' = phdr pi"
    and "s' = s\<lparr>dl_pagesize := aux_value m AT_PAGESZ [a] (dl_pagesize s),
           lst := (lst s)\<lparr>pagesize := aux_value m AT_PAGESZ [a] (pagesize (lst s))\<rparr>\<rparr>"
proof -
  note defs = parse_auxv_one_def Let_def AT_defs
  have nn: "a_type m a = AT_SYSINFO_EHDR \<Longrightarrow> a_val m a \<noteq> NULL" using assms by (simp add: aux_ok_def)
  consider "a_type m a = AT_ENTRY" | "a_type m a = AT_SYSINFO_EHDR" | "a_type m a = AT_PHDR" | "a_type m a = AT_PHNUM"
    | "a_type m a = AT_PAGESZ" | "a_type m a \<notin> {AT_ENTRY, AT_SYSINFO_EHDR, AT_PHDR, AT_PHNUM, AT_PAGESZ}"
    by blast
  then show ?thesis
  proof cases
    case 2
    show ?thesis
    proof (cases "phdr pi = NULL")
      case True
      then have "parse_auxv_one m a (pi, s) = oreturn (pi\<lparr>ehdr := a_val m a, phdr := a_val m a + e_phoff m (a_val m a)\<rparr>, s)"
        using 2 nn by (simp add: defs)
      then show ?thesis by (rule that) (use 2 True in \<open>simp_all add: AT_defs\<close>)
    next
      case False
      then have "parse_auxv_one m a (pi, s) = oreturn (pi\<lparr>ehdr := a_val m a\<rparr>, s)" using 2 by (simp add: defs)
      then show ?thesis by (rule that) (use 2 in \<open>simp_all add: AT_defs\<close>)
    qed
  next
    case 1
    then show ?thesis by (intro that [of "pi\<lparr>entry := a_val m a\<rparr>" s]) (simp_all add: defs)
  next
    case 3
    then show ?thesis by (intro that [of "pi\<lparr>phdr := a_val m a\<rparr>" s]) (simp_all add: defs)
  next
    case 4
    then show ?thesis by (intro that [of "pi\<lparr>phnum := ucast (a_val m a)\<rparr>" s]) (simp_all add: defs)
  next
    case 5
    then show ?thesis
      by (intro that [of pi "s\<lparr>dl_pagesize := a_val m a, lst := (lst s)\<lparr>pagesize := a_val m a\<rparr>\<rparr>"]) (simp_all add: defs)
  next
    case 6
    then show ?thesis by (intro that [of pi s]) (simp_all add: defs)
  qed
qed

lemma parse_auxv_list:
  assumes "aux_list m a n" and "aux_ok m (auxs a n)"
  shows "\<exists>pi' s'. parse_auxv m a (pi, s) = oreturn (pi', s') \<and>
           entry pi' = aux_value m AT_ENTRY (auxs a n) (entry pi) \<and>
           phnum pi' = fold (\<lambda>a v. if a_type m a = AT_PHNUM then ucast (a_val m a) else v) (auxs a n) (phnum pi) \<and>
           ((\<exists>b \<in> set (auxs a n). a_type m b = AT_PHDR) \<or> phdr pi \<noteq> NULL \<longrightarrow> phdr pi' = aux_value m AT_PHDR (auxs a n) (phdr pi)) \<and>
           s' = s\<lparr>dl_pagesize := aux_value m AT_PAGESZ (auxs a n) (dl_pagesize s),
             lst := (lst s)\<lparr>pagesize := aux_value m AT_PAGESZ (auxs a n) (pagesize (lst s))\<rparr>\<rparr>"
  using assms
proof (induction n arbitrary: a pi s)
  case 0
  then show ?case by (subst parse_auxv.simps) simp
next
  case (Suc n)
  then have ok: "aux_ok m [a]" "aux_ok m (auxs (a + 16) n)" and rest: "aux_list m (a + 16) n" by (auto simp: aux_ok_def)
  obtain pi1 s1 where 1: "parse_auxv_one m a (pi, s) = oreturn (pi1, s1)" "entry pi1 = aux_value m AT_ENTRY [a] (entry pi)"
      "phnum pi1 = (if a_type m a = AT_PHNUM then ucast (a_val m a) else phnum pi)"
      "a_type m a = AT_PHDR \<Longrightarrow> phdr pi1 = a_val m a" "a_type m a \<noteq> AT_PHDR \<Longrightarrow> phdr pi \<noteq> NULL \<Longrightarrow> phdr pi1 = phdr pi"
      "s1 = s\<lparr>dl_pagesize := aux_value m AT_PAGESZ [a] (dl_pagesize s),
         lst := (lst s)\<lparr>pagesize := aux_value m AT_PAGESZ [a] (pagesize (lst s))\<rparr>\<rparr>"
    by (rule parse_auxv_one_fields [OF ok(1), of pi s]) blast
  have step: "parse_auxv m a (pi, s) = parse_auxv m (a + 16) (pi1, s1)"
    using Suc.prems(1) 1(1) by (subst parse_auxv.simps) simp
  obtain pi' s' where 2: "parse_auxv m (a + 16) (pi1, s1) = oreturn (pi', s')"
      "entry pi' = aux_value m AT_ENTRY (auxs (a + 16) n) (entry pi1)"
      "phnum pi' = fold (\<lambda>a v. if a_type m a = AT_PHNUM then ucast (a_val m a) else v) (auxs (a + 16) n) (phnum pi1)"
      "(\<exists>b \<in> set (auxs (a + 16) n). a_type m b = AT_PHDR) \<or> phdr pi1 \<noteq> NULL \<longrightarrow> phdr pi' = aux_value m AT_PHDR (auxs (a + 16) n) (phdr pi1)"
      "s' = s1\<lparr>dl_pagesize := aux_value m AT_PAGESZ (auxs (a + 16) n) (dl_pagesize s1),
         lst := (lst s1)\<lparr>pagesize := aux_value m AT_PAGESZ (auxs (a + 16) n) (pagesize (lst s1))\<rparr>\<rparr>"
    using Suc.IH [OF rest ok(2), of pi1 s1] by blast
  have "phdr pi' = aux_value m AT_PHDR (auxs a (Suc n)) (phdr pi)"
    if "(\<exists>b \<in> set (auxs a (Suc n)). a_type m b = AT_PHDR) \<or> phdr pi \<noteq> NULL"
  proof (cases "a_type m a = AT_PHDR")
    case True
    then have "phdr pi1 = a_val m a" "a_val m a \<noteq> NULL" using 1(4) ok(1) by (auto simp: aux_ok_def)
    then show ?thesis using True 2(4) by simp
  next
    case False
    show ?thesis
    proof (cases "\<exists>b \<in> set (auxs (a + 16) n). a_type m b = AT_PHDR")
      case True
      with False 2(4) show ?thesis using aux_value_present [OF True, of "phdr pi" "phdr pi1"] by simp
    next
      case none: False
      with that False have "phdr pi \<noteq> NULL" by auto
      with False 1(5) 2(4) show ?thesis by simp
    qed
  qed
  then show ?case using 1 2 by (intro exI [of _ pi'] exI [of _ s']) (simp add: step)
qed

section \<open>Properties\<close>


section \<open>Examples\<close>

text \<open>A stack with no arguments and no environment, and the entry point, the header table and the page size.\<close>

definition demo_stack :: mem where
  "demo_stack = (\<lambda>_. 0)(280 := 9, 288 := 77, 296 := 6, 305 := 16, 312 := 3, 320 := 64)"

definition demo_boot :: "unit rtld" where
  "demo_boot = demo_rtld\<lparr>lst := \<lparr>world = (), smem = demo_stack, errno = 0, pagesize = 0\<rparr>, dl_pagesize := 0\<rparr>"


end
