(* ===== verification/Console.thy ===== *)
theory Console
  imports Printf_Text
begin

text \<open>
  The console output of \<open>rtld/lib.c\<close> and \<open>include/lib.h\<close>: \<open>dputs\<close>, \<open>dprintf\<close>, the messages that end the process
  (\<open>_dprintf_die\<close>, \<open>dputs_die\<close>, \<open>_exit\<close>) and the indented debugging output (\<open>_print_mark\<close>,
  \<open>mprint_start_fmt\<close>, \<open>mprintf\<close>, \<open>mprint_end\<close>). Text leaves the process through \<open>write\<close> on descriptor 2; what
  that call does is the kernel's business, and \<open>appends\<close> says what \<open>write(2)\<close> promises of it. A store outside
  a buffer on the stack is the outcome \<open>Out_of_bounds\<close>.
\<close>

section \<open>State\<close>

text \<open>The addresses of the string literals and of the buffers on the stack.\<close>

record 'w console =
  ckern :: "'w kernel"
  lit_null :: addr
  lit_arrow :: addr
  lit_in :: addr
  lit_s :: addr
  mark :: addr
  start_buf :: addr
  line_buf :: addr
  die_buf :: addr

record 'w cstate =
  tst :: "'w lstate"
  debug_indent :: "32 word"

definition DEBUG_INDENT :: "32 word" where "DEBUG_INDENT = 2"
definition MARK_SIZE :: nat where "MARK_SIZE = 80"

abbreviation tmem :: "'w cstate \<Rightarrow> mem" where
  "tmem c \<equiv> smem (tst c)"

definition set_tmem :: "mem \<Rightarrow> 'w cstate \<Rightarrow> 'w cstate" where
  "set_tmem m c = c\<lparr>tst := (tst c)\<lparr>smem := m\<rparr>\<rparr>"

section \<open>Output\<close>

definition dputs :: "'w console \<Rightarrow> addr \<Rightarrow> 'w cstate \<Rightarrow> ('w cstate \<times> 32 word) outcome" where
  "dputs C s c =
     (let s = (if s = NULL then lit_null C else s)
      in obind (olift (strlen (tmem c) s)) (\<lambda>n.
         case syscall (ckern C) SYS_write [2, s, n] (tst c) of (t, r) \<Rightarrow> oreturn (c\<lparr>tst := t\<rparr>, ucast r)))"

definition dprintf :: "'w console \<Rightarrow> addr \<Rightarrow> addr list \<Rightarrow> 'w cstate \<Rightarrow> ('w cstate \<times> 32 word) outcome" where
  "dprintf C format arg c =
     obind (dvsprintf (line_buf C) 1024 format arg (tmem c)) (\<lambda>(m, rv).
     obind (dputs C (line_buf C) (set_tmem m c)) (\<lambda>(c, _). oreturn (c, rv)))"

text \<open>\<open>_exit\<close> issues \<open>SYS_exit\<close> with code 1 until the process is gone, whatever its argument.\<close>

definition exit_process :: "32 word \<Rightarrow> 'w cstate \<Rightarrow> 'a outcome" where
  "exit_process status c = ostop (Exited 1)"

definition dputs_die :: "'w console \<Rightarrow> addr \<Rightarrow> 'w cstate \<Rightarrow> 'a outcome" where
  "dputs_die C m c = obind (dputs C m c) (\<lambda>(c, _). exit_process 1 c)"

text \<open>The two messages of \<open>_dprintf_die\<close>, and the end.\<close>

definition die_message ::
  "'w console \<Rightarrow> addr \<Rightarrow> addr \<Rightarrow> addr \<Rightarrow> addr \<Rightarrow> addr list \<Rightarrow> 'w cstate \<Rightarrow> 'w cstate outcome" where
  "die_message C line file func format arg c =
     obind (dvsprintf (die_buf C) 1024 format arg (tmem c)) (\<lambda>(m, _).
     obind (dputs C (die_buf C) (set_tmem m c)) (\<lambda>(c, _).
     obind (dprintf C (lit_in C) [func, file, line] c) (\<lambda>(c, _). oreturn c)))"

definition dprintf_die ::
  "'w console \<Rightarrow> addr \<Rightarrow> addr \<Rightarrow> addr \<Rightarrow> addr \<Rightarrow> addr list \<Rightarrow> 'w cstate \<Rightarrow> 'a outcome" where
  "dprintf_die C line file func format arg c = obind (die_message C line file func format arg c) (exit_process 1)"

section \<open>Debugging output\<close>

text \<open>\<open>for (i = 0; i < len; i++) mark[indent+i+2] = str[i]\<close>, on an array of 82 bytes; \<open>k\<close> is \<open>indent+i+2\<close>.\<close>

primrec mark_copy :: "'w console \<Rightarrow> nat \<Rightarrow> nat \<Rightarrow> addr \<Rightarrow> mem \<Rightarrow> mem outcome" where
  "mark_copy C 0 k str m = oreturn m"
| "mark_copy C (Suc n) k str m =
     (if k < MARK_SIZE + 2 then mark_copy C n (Suc k) (str + 1) (m(mark C + ptr k := m str)) else ostop Out_of_bounds)"

text \<open>\<open>indent\<close> is compared as a \<open>size_t\<close>; \<open>len\<close> is an \<open>int\<close>.\<close>

definition print_mark :: "'w console \<Rightarrow> addr \<Rightarrow> 'w cstate \<Rightarrow> 'w cstate outcome" where
  "print_mark C str c =
     (let indent = debug_indent c * DEBUG_INDENT
      in obind (oassert ((scast indent :: addr) < 79)) (\<lambda>_.
         let m = fst (memset (mark C) 61 82 (tmem c));
             m = fst (memset (mark C) 32 (scast indent) m)
         in obind (olift (strlen m str)) (\<lambda>l.
            let len = nat (sint (ucast l :: 32 word)); k = unat indent
            in obind (mark_copy C len (k + 2) str m) (\<lambda>m.
               if k + len + 2 < MARK_SIZE + 2 then
                 let m = m(mark C + ptr (k + len + 2) := 32, mark C + ptr (k + 1) := 32);
                     m = m(mark C + 80 := 10, mark C + 81 := 0)
                 in obind (dputs C (mark C) (set_tmem m c)) (\<lambda>(c, _).
                      oreturn (c\<lparr>debug_indent := debug_indent c + 1\<rparr>))
               else ostop Out_of_bounds))))"

definition mprint_start_fmt :: "'w console \<Rightarrow> addr \<Rightarrow> addr list \<Rightarrow> 'w cstate \<Rightarrow> 'w cstate outcome" where
  "mprint_start_fmt C format arg c =
     obind (dvsprintf (start_buf C) 80 format arg (tmem c)) (\<lambda>(m, _). print_mark C (start_buf C) (set_tmem m c))"

definition mprint_start :: "'w console \<Rightarrow> addr \<Rightarrow> 'w cstate \<Rightarrow> 'w cstate outcome" where
  "mprint_start C str c = mprint_start_fmt C (lit_s C) [str] c"

text \<open>The indentation of \<open>mprintf\<close> is not checked against its buffer of 1024 bytes.\<close>

definition mprintf :: "'w console \<Rightarrow> addr \<Rightarrow> addr list \<Rightarrow> 'w cstate \<Rightarrow> 'w cstate outcome" where
  "mprintf C format arg c =
     (let indent = scast (debug_indent c * DEBUG_INDENT) :: addr
      in if indent < 1024 then
           let m = fst (memset (line_buf C) 32 indent (tmem c))
           in obind (dvsprintf (line_buf C + indent) (1024 - indent) format arg m) (\<lambda>(m, _).
              obind (dputs C (line_buf C) (set_tmem m c)) (\<lambda>(c, _). oreturn c))
         else ostop Out_of_bounds)"

definition mprint_end :: "'w console \<Rightarrow> 'w cstate \<Rightarrow> 'w cstate outcome" where
  "mprint_end C c =
     (let d = debug_indent c - 1;
          d = (if sint d < 0 then 0 else d);
          c = c\<lparr>debug_indent := d\<rparr>;
          indent = scast (d * DEBUG_INDENT) :: addr;
          m = fst (memset (mark C) 32 82 (tmem c))
      in if indent < 79 then
           obind (olift (strcpy (mark C + indent) (lit_arrow C) m)) (\<lambda>(m, _).
           obind (dputs C (mark C) (set_tmem (m(mark C + 80 := 10, mark C + 81 := 0)) c)) (\<lambda>(c, _). oreturn c))
         else ostop Out_of_bounds)"

end
