(* ===== verification/Console_Props.thy ===== *)
theory Console_Props
  imports Console
begin

text \<open>
  Properties of the console output: what reaches the terminal, how a fatal message ends the process, and
  when the banner of the debugging output fits its line.
\<close>

section \<open>Writing\<close>

text \<open>\<open>appends K out\<close>: a \<open>write\<close> on descriptor 2 of less than 2 GB takes all bytes, in the order of memory, and
  leaves the memory alone; \<open>out\<close> reads the text written so far off the kernel's state.\<close>

definition appends :: "'w kernel \<Rightarrow> ('w \<Rightarrow> byte list) \<Rightarrow> bool" where
  "appends K out \<longleftrightarrow>
     (\<forall>a n w m. n < 2 ^ 31 \<longrightarrow>
        (\<exists>w'. K SYS_write [2, ptr a, ptr n] (w, m) = (ptr n, w', m) \<and> out w' = out w @ read_bytes m (ptr a) n))"

abbreviation printed :: "('w \<Rightarrow> byte list) \<Rightarrow> 'w cstate \<Rightarrow> byte list" where
  "printed out c \<equiv> out (world (tst c))"

lemma read_bytes_cstr: "cstr m a xs \<Longrightarrow> read_bytes m (ptr a) (length xs) = xs"
  by (induction xs arbitrary: a) auto

lemma set_tmem_simps [simp]:
  "tmem (set_tmem m c) = m" "world (tst (set_tmem m c)) = world (tst c)" "debug_indent (set_tmem m c) = debug_indent c"
  by (simp_all add: set_tmem_def)

lemma dputs_prints:
  assumes "appends (ckern C) out" and "cstr (tmem c) a xs" and "0 < a" and "length xs < 2 ^ 31"
  obtains c' r where "dputs C (ptr a) c = oreturn (c', r)" and "printed out c' = printed out c @ xs"
    and "tmem c' = tmem c" and "debug_indent c' = debug_indent c"
proof -
  from assms(1,4) obtain w' where k: "ckern C SYS_write [2, ptr a, ptr (length xs)] (world (tst c), tmem c) =
      (ptr (length xs), w', tmem c)" "out w' = printed out c @ read_bytes (tmem c) (ptr a) (length xs)"
    unfolding appends_def by meson
  have "ptr a \<noteq> NULL" using assms(3) cstr_bound [OF assms(2)] by (simp add: ptr_eq_0)
  then have "dputs C (ptr a) c = oreturn (c\<lparr>tst := (tst c)\<lparr>world := w'\<rparr>\<rparr>, ucast (ptr (length xs)))"
    by (simp add: dputs_def strlen_cstr [OF assms(2)] syscall_def k(1))
  then show ?thesis using that k(2) read_bytes_cstr [OF assms(2)] by simp
qed

lemma dprintf_prints:
  assumes "appends (ckern C) out" and "line_buf C = ptr b" and "buf_ok b 1024"
    and "cstr (tmem c) f (format_of ps)" and "{f .. f + length (format_of ps)} \<inter> {b ..< b + 1024} = {}"
    and "\<forall>p \<in> set ps. piece_ok (tmem c) b 1024 p" and "length (text_of ps) < 1024"
  obtains c' where "dprintf C (ptr f) (args_of ps) c = oreturn (c', word_of_nat (length (text_of ps)))"
    and "printed out c' = printed out c @ text_of ps" and "unchanged_outside {b ..< b + 1024} (tmem c) (tmem c')"
    and "debug_indent c' = debug_indent c"
proof -
  obtain m' where m': "dvsprintf (ptr b) 1024 (ptr f) (args_of ps) (tmem c) = oreturn (m', word_of_nat (length (text_of ps)))"
      "cstr m' b (text_of ps)" "unchanged_outside {b ..< b + 1024} (tmem c) m'"
    using dvsprintf_text [OF assms(3-7)] by auto
  moreover have "0 < b" using assms(3) by (simp add: buf_ok_def)
  ultimately obtain c' r where "dputs C (ptr b) (set_tmem m' c) = oreturn (c', r)"
      "printed out c' = printed out (set_tmem m' c) @ text_of ps" "tmem c' = m'" "debug_indent c' = debug_indent c"
    using dputs_prints [OF assms(1), of "set_tmem m' c" b "text_of ps"] assms(7) by auto
  with m' show ?thesis by (intro that [of c']) (simp_all add: dprintf_def assms(2))
qed

section \<open>Fatal messages\<close>

text \<open>\<open>" in %s [%s:%d]\n"\<close> with the function, the file and the line.\<close>

definition in_pieces :: "nat \<Rightarrow> byte list \<Rightarrow> nat \<Rightarrow> byte list \<Rightarrow> int \<Rightarrow> piece list" where
  "in_pieces pf func pl file line =
     [PLit 32, PLit 105, PLit 110, PLit 32, PStr pf func, PLit 32, PLit 91, PStr pl file, PLit 58, PInt line, PLit 93, PLit 10]"

text \<open>
  What \<open>_dprintf_die\<close> finds in memory: its format with the pieces \<open>ps\<close>, the second format, the names of
  function and file, all outside both buffers, and texts that fit the buffers.
\<close>

definition die_ok :: "'w console \<Rightarrow> nat \<Rightarrow> nat \<Rightarrow> mem \<Rightarrow> nat \<Rightarrow> piece list \<Rightarrow> nat \<Rightarrow> piece list \<Rightarrow> bool" where
  "die_ok C b d m f ps g qs \<longleftrightarrow>
     die_buf C = ptr d \<and> line_buf C = ptr b \<and> buf_ok d 1024 \<and> buf_ok b 1024 \<and> lit_in C = ptr g \<and>
     cstr m f (format_of ps) \<and> {f .. f + length (format_of ps)} \<inter> {d ..< d + 1024} = {} \<and>
     (\<forall>p \<in> set ps. piece_ok m d 1024 p) \<and> length (text_of ps) < 1024 \<and>
     cstr m g (format_of qs) \<and> {g .. g + length (format_of qs)} \<inter> ({d ..< d + 1024} \<union> {b ..< b + 1024}) = {} \<and>
     (\<forall>q \<in> set qs. piece_ok m d 1024 q \<and> piece_ok m b 1024 q) \<and> length (text_of qs) < 1024"

lemma piece_ok_frame:
  "piece_ok m b z p \<Longrightarrow> piece_ok m d y p \<Longrightarrow> unchanged_outside {d ..< d + y} m m' \<Longrightarrow> piece_ok m' b z p"
  by (cases p) (auto intro: cstr_unchanged)

section \<open>The banner\<close>

text \<open>The line of \<open>_print_mark\<close>: 80 characters and a newline.\<close>

definition mark_text :: "nat \<Rightarrow> byte list \<Rightarrow> byte list" where
  "mark_text k xs = replicate k 32 @ [61, 32] @ xs @ [32] @ replicate (77 - k - length xs) 61 @ [10]"

lemma mark_copy_fits:
  assumes "mark C = ptr B" and "B + 82 \<le> 2 ^ 64" and "a + n \<le> 2 ^ 64" and "{a ..< a + n} \<inter> {B ..< B + 82} = {}" and "k + n \<le> 82"
  shows "mark_copy C n k (ptr a) m =
           oreturn (\<lambda>x. if unat x \<in> {B + k ..< B + k + n} then m (ptr (a + (unat x - (B + k)))) else m x)"
  using assms(3-5)
proof (induction n arbitrary: k a m)
  case (Suc n)
  let ?m = "m(ptr (B + k) := m (ptr a))"
  have bk: "unat (ptr (B + k)) = B + k" using Suc.prems assms(2) by (intro unat_ptr) simp
  have "mark_copy C (Suc n) k (ptr a) m = mark_copy C n (Suc k) (ptr (Suc a)) ?m"
    using Suc.prems(3) by (simp add: MARK_SIZE_def assms(1))
  also have "\<dots> = oreturn (\<lambda>x. if unat x \<in> {B + Suc k ..< B + Suc k + n} then ?m (ptr (Suc a + (unat x - (B + Suc k)))) else ?m x)"
    using Suc.prems by (intro Suc.IH) auto
  also have "(\<lambda>x. if unat x \<in> {B + Suc k ..< B + Suc k + n} then ?m (ptr (Suc a + (unat x - (B + Suc k)))) else ?m x) =
      (\<lambda>x. if unat x \<in> {B + k ..< B + k + Suc n} then m (ptr (a + (unat x - (B + k)))) else m x)"
  proof
    fix x :: addr
    obtain i where x: "x = ptr i" "i < 2 ^ 64" by (rule ex_ptr)
    then have ux: "unat x = i" by (simp add: unat_ptr)
    consider "i = B + k" | "i \<in> {B + Suc k ..< B + Suc k + n}" | "i \<notin> {B + k ..< B + k + Suc n}" by fastforce
    then show "(if unat x \<in> {B + Suc k ..< B + Suc k + n} then ?m (ptr (Suc a + (unat x - (B + Suc k)))) else ?m x) =
      (if unat x \<in> {B + k ..< B + k + Suc n} then m (ptr (a + (unat x - (B + k)))) else m x)"
    proof cases
      case 1
      then show ?thesis unfolding ux using x by simp
    next
      case 2
      let ?s = "Suc a + (i - (B + Suc k))"
      have s: "?s = a + (i - (B + k))" "?s \<in> {a ..< a + Suc n}" using 2 by auto
      then have "?s \<noteq> B + k" using Suc.prems(2,3) by auto
      moreover have "?s < 2 ^ 64" using s(2) Suc.prems(1) by auto
      moreover have "B + k < 2 ^ 64" using Suc.prems(3) assms(2) by simp
      ultimately have "ptr ?s \<noteq> ptr (B + k)" by (simp only: ptr_eq not_False_eq_True)
      then have "?m (ptr ?s) = m (ptr ?s)" by (rule fun_upd_other)
      moreover have "i \<in> {B + k ..< B + k + Suc n}" using 2 by auto
      ultimately show ?thesis unfolding ux using 2 s(1) by (simp only: if_True)
    next
      case 3
      then have "x \<noteq> ptr (B + k)" and "i \<notin> {B + Suc k ..< B + Suc k + n}" using bk ux by auto
      with 3 show ?thesis unfolding ux by (simp only: if_False fun_upd_other not_False_eq_True)
    qed
  qed
  finally show ?case .
qed auto

lemma mark_copy_overflows: "k \<le> 82 \<Longrightarrow> 82 < k + n \<Longrightarrow> mark_copy C n k str m = ostop Out_of_bounds"
  by (induction n arbitrary: k str m) (auto simp: MARK_SIZE_def)

text \<open>The indentation as a number.\<close>

lemma indent_number:
  assumes "unat d < 2 ^ 30"
  shows "unat (d * DEBUG_INDENT) = 2 * unat d" and "(scast (d * DEBUG_INDENT) :: addr) = ptr (2 * unat d)"
proof -
  have lt: "unat d * 2 < 2 ^ LENGTH(32)" using assms by simp
  show u: "unat (d * DEBUG_INDENT) = 2 * unat d"
    using lt by (simp add: DEBUG_INDENT_def unat_mult_lem [THEN iffD1])
  obtain n where n: "unat d = n" by simp
  have un: "uint (d * DEBUG_INDENT) = int (2 * n)" unfolding uint_nat u n ..
  then have "sint (d * DEBUG_INDENT) = int (2 * n)"
    using assms unfolding sint_uint un n by (intro signed_take_bit_int_eq_self) simp_all
  then have "sint (d * DEBUG_INDENT) = int (2 * unat d)" by (simp only: n)
  then show "(scast (d * DEBUG_INDENT) :: addr) = ptr (2 * unat d)"
    by (metis of_int_of_nat_eq scast_eq)
qed

lemma index_cases:
  fixes i k n :: nat
  assumes "i < 81"
  obtains "i < k" | "i = k" | "i = k + 1" | j where "i = k + 2 + j" "j < n" | "i = k + n + 2" | "k + n + 2 < i" "i < 80" | "i = 80"
proof (cases "k + 2 \<le> i \<and> i < k + 2 + n")
  case True
  then have "i = k + 2 + (i - (k + 2))" "i - (k + 2) < n" by auto
  then show ?thesis using that by blast
next
  case False
  then show ?thesis using that assms by linarith
qed

text \<open>The buffer after the banner is built, as a string.\<close>

lemma mark_cells:
  assumes "buf_ok B 82" and "k + n \<le> 77" and "n = length xs" and "0 \<notin> set xs"
    and "\<And>i. i < k \<Longrightarrow> m (ptr (B + i)) = 32" and "m (ptr (B + k)) = 61" and "m (ptr (B + (k + 1))) = 32"
    and "\<And>i. i < n \<Longrightarrow> m (ptr (B + (k + 2 + i))) = xs ! i" and "m (ptr (B + (k + n + 2))) = 32"
    and "\<And>i. k + n + 2 < i \<Longrightarrow> i < 80 \<Longrightarrow> m (ptr (B + i)) = 61" and "m (ptr (B + 80)) = 10" and "m (ptr (B + 81)) = 0"
  shows "cstr m B (mark_text k xs)"
proof (rule cells_cstr)
  have len: "length (mark_text k xs) = 81" using assms(2,3) by (simp add: mark_text_def)
  show "\<forall>i < length (mark_text k xs). m (ptr (B + i)) = mark_text k xs ! i"
    unfolding len
  proof (intro allI impI)
    fix i :: nat
    assume "i < 81"
    then show "m (ptr (B + i)) = mark_text k xs ! i"
      by (rule index_cases [where i = i and k = k and n = n]) (use assms in \<open>auto simp: mark_text_def nth_append nth_Cons'\<close>)
  qed
  show "m (ptr (B + length (mark_text k xs))) = 0" unfolding len by (rule assms(12))
  show "0 \<notin> set (mark_text k xs)" using assms(4) by (auto simp: mark_text_def)
  show "B + length (mark_text k xs) < 2 ^ 64" unfolding len using assms(1) by (simp add: buf_ok_def)
qed

text \<open>The background of the line, and the run of \<open>_print_mark\<close> after the assertion.\<close>

definition mark_fill :: "nat \<Rightarrow> nat \<Rightarrow> mem \<Rightarrow> mem" where
  "mark_fill B k m = (\<lambda>x. if unat x \<in> {B ..< B + k} then 32 else if unat x \<in> {B ..< B + 82} then 61 else m x)"

lemma mark_fill_cstr:
  "cstr m a xs \<Longrightarrow> {a .. a + length xs} \<inter> {B ..< B + 82} = {} \<Longrightarrow> k \<le> 82 \<Longrightarrow> cstr (mark_fill B k m) a xs"
  by (erule cstr_unchanged [rotated, of m a xs "{B ..< B + 82}"]) (auto simp: mark_fill_def unchanged_outside_def)

lemma int_length: "n < 2 ^ 31 \<Longrightarrow> nat (sint (ucast (ptr n) :: 32 word)) = n"
proof -
  assume n: "n < 2 ^ 31"
  have "(ucast (ptr n) :: 32 word) = word_of_int (int n)" by (rule bit_word_eqI) (simp add: bit_simps)
  moreover have "signed_take_bit 31 (int n) = int n" using n by (intro signed_take_bit_int_eq_self) simp_all
  ultimately show ?thesis by (simp add: signed_of_nat)
qed

lemma source_apart: "{a .. a + n} \<inter> S = {} \<Longrightarrow> {a ..< a + n :: nat} \<inter> S = {}"
  unfolding disjoint_iff by simp

lemma print_mark_run:
  assumes "mark C = ptr B" and "buf_ok B 82" and "cstr (tmem c) a xs"
    and "{a .. a + length xs} \<inter> {B ..< B + 82} = {}" and "k < 79" and "unat (debug_indent c) < 2 ^ 30" and "k = 2 * unat (debug_indent c)"
    and "length xs < 2 ^ 31"
  shows "print_mark C (ptr a) c = obind (mark_copy C (length xs) (k + 2) (ptr a) (mark_fill B k (tmem c))) (\<lambda>m.
           if k + length xs + 2 < MARK_SIZE + 2 then
             obind (dputs C (ptr B) (set_tmem (m(ptr B + ptr (k + length xs + 2) := 32, ptr B + ptr (k + 1) := 32, ptr B + 80 := 10, ptr B + 81 := 0)) c))
               (\<lambda>(c, _). oreturn (c\<lparr>debug_indent := debug_indent c + 1\<rparr>))
           else ostop Out_of_bounds)"
proof -
  note ind = indent_number [OF assms(6), folded assms(7)]
  have assert: "(scast (debug_indent c * DEBUG_INDENT) :: addr) < 79"
    unfolding ind(2) using assms(5) ptr_less [of k 79] by simp
  have B: "B + 82 \<le> 2 ^ 64" using assms(2) by (simp add: buf_ok_def)
  have fill: "fst (memset (ptr B) 32 (ptr k) (fst (memset (ptr B) 61 82 (tmem c)))) = mark_fill B k (tmem c)"
  proof -
    have "in_range (ptr B) 82 x \<longleftrightarrow> unat x \<in> {B ..< B + 82}" "in_range (ptr B) k x \<longleftrightarrow> unat x \<in> {B ..< B + k}" for x
      using in_range_ptr [of B 82 "unat x"] in_range_ptr [of B k "unat x"] unsigned_less [of x] B assms(5) by simp_all
    moreover have "unat (ptr k) = k" using assms(5) by (simp add: unat_ptr)
    ultimately show ?thesis by (simp add: memset_def memset_loop_eq mark_fill_def fun_eq_iff)
  qed
  have "cstr (mark_fill B k (tmem c)) a xs" using assms(3-5) by (intro mark_fill_cstr) simp_all
  note len = strlen_cstr [OF this] int_length [OF assms(8)]
  show ?thesis
    unfolding print_mark_def Let_def assms(1) ind fill len using assert
    by (simp only: ind(2) oassert_simps obind_simps olift_simps fill len)
qed

lemma print_mark_fits:
  assumes "mark C = ptr B" and "buf_ok B 82" and "cstr (tmem c) a xs"
    and "{a .. a + length xs} \<inter> {B ..< B + 82} = {}" and "k < 79" and "unat (debug_indent c) < 2 ^ 30" and "k = 2 * unat (debug_indent c)"
    and "length xs < 2 ^ 31" and n: "k + length xs \<le> 77"
  obtains m' where "cstr m' B (mark_text k xs)" and "unchanged_outside {B ..< B + 82} (tmem c) m'"
    and "print_mark C (ptr a) c = obind (dputs C (ptr B) (set_tmem m' c)) (\<lambda>(c, _). oreturn (c\<lparr>debug_indent := debug_indent c + 1\<rparr>))"
proof -
  let ?n = "length xs"
  have B: "B + 82 \<le> 2 ^ 64" using assms(2) by (simp add: buf_ok_def)
  define m1 where "m1 = (\<lambda>x. if unat x \<in> {B + (k + 2) ..< B + (k + 2) + ?n}
    then mark_fill B k (tmem c) (ptr (a + (unat x - (B + (k + 2))))) else mark_fill B k (tmem c) x)"
  have "a + ?n \<le> 2 ^ 64" using cstr_bound [OF assms(3)] by simp
  moreover have "{a ..< a + ?n} \<inter> {B ..< B + 82} = {}" using assms(4) by (rule source_apart)
  ultimately have copy: "mark_copy C ?n (k + 2) (ptr a) (mark_fill B k (tmem c)) = oreturn m1"
    unfolding m1_def using n by (intro mark_copy_fits [OF assms(1) B]) auto
  define m2 where "m2 = m1(ptr (B + (k + ?n + 2)) := 32, ptr (B + (k + 1)) := 32, ptr (B + 80) := 10, ptr (B + 81) := 0)"
  have u: "unat (ptr (B + i)) = B + i" if "i < 82" for i using that B by (intro unat_ptr) simp
  have at: "m2 (ptr (B + i)) = (if i = 81 then 0 else if i = 80 then 10 else if i = k + 1 then 32 else if i = k + ?n + 2 then 32 else m1 (ptr (B + i)))"
    if "i < 82" for i
  proof -
    have "ptr (B + i) = ptr (B + j) \<longleftrightarrow> i = j" if "j < 82" for j using that \<open>i < 82\<close> B by (subst ptr_eq) auto
    from this [of "k + ?n + 2"] this [of "k + 1"] this [of 80] this [of 81] n
    show ?thesis unfolding m2_def fun_upd_apply by (simp only:)
  qed
  have m1: "m1 (ptr (B + i)) = (if k + 2 \<le> i \<and> i < k + 2 + ?n then xs ! (i - (k + 2)) else if i < k then 32 else 61)" if "i < 82" for i
  proof -
    have s: "cstr (mark_fill B k (tmem c)) a xs" using assms(3-5) by (intro mark_fill_cstr) simp_all
    have "mark_fill B k (tmem c) (ptr (a + (i - (k + 2)))) = xs ! (i - (k + 2))" if "k + 2 \<le> i \<and> i < k + 2 + ?n"
      using that by (intro cstr_nth(1) [OF s]) auto
    then show ?thesis using that u [OF that] by (auto simp: m1_def mark_fill_def)
  qed
  have "m2 (ptr (B + (k + 1))) = 32" "m2 (ptr (B + (k + ?n + 2))) = 32" by (subst at; use n in simp)+
  moreover have "m2 (ptr (B + (k + 2 + i))) = xs ! i" if "i < ?n" for i
    using that n by (subst at, simp, subst m1) auto
  ultimately have "cstr m2 B (mark_text k xs)"
    by (intro mark_cells [OF assms(2) n refl]) (use n at m1 cstr_nonzero [OF assms(3)] in \<open>simp_all only: simp_thms\<close>, simp_all)
  moreover have "unchanged_outside {B ..< B + 82} (tmem c) m2"
  proof -
    have "unat (ptr (B + (k + ?n + 2))) = B + (k + ?n + 2)" "unat (ptr (B + (k + 1))) = B + (k + 1)" by (rule u, use n in simp)+
    then have "unchanged_outside {B ..< B + 82} m1 m2" using u [of 80] u [of 81] n by (auto simp: unchanged_outside_def m2_def)
    moreover have "unchanged_outside {B ..< B + 82} (tmem c) m1" using n by (auto simp: unchanged_outside_def m1_def mark_fill_def)
    ultimately show ?thesis by (rule unchanged_trans [rotated])
  qed
  moreover have "print_mark C (ptr a) c = obind (dputs C (ptr B) (set_tmem m2 c)) (\<lambda>(c, _). oreturn (c\<lparr>debug_indent := debug_indent c + 1\<rparr>))"
    using n unfolding print_mark_run [OF assms(1-8)] copy by (simp add: MARK_SIZE_def m2_def)
  ultimately show ?thesis by (rule that)
qed

section \<open>Properties\<close>

text \<open>
  C12. A fatal message: \<open>_dprintf_die\<close> writes the formatted text and then \<open>" in <function> [<file>:<line>]"\<close> with a
  newline, in this order, to descriptor 2, changes no memory but its two buffers, and ends the process
  with exit code 1.
\<close>

theorem die_reports:
  assumes "appends (ckern C) out" and "qs = in_pieces pf func pl file line" and "die_ok C b d (tmem c) f ps g qs"
  shows "(\<exists>c'. die_message C (word_of_int line) (ptr pl) (ptr pf) (ptr f) (args_of ps) c = oreturn c' \<and>
            printed out c' = printed out c @ text_of ps @
              [32, 105, 110, 32] @ func @ [32, 91] @ file @ [58] @ dec_text line @ [93, 10] \<and>
            unchanged_outside ({d ..< d + 1024} \<union> {b ..< b + 1024}) (tmem c) (tmem c')) \<and>
         dprintf_die C (word_of_int line) (ptr pl) (ptr pf) (ptr f) (args_of ps) c = ostop (Exited 1)"
proof -
  note D = assms(3) [unfolded die_ok_def]
  obtain m1 where m1: "dvsprintf (ptr d) 1024 (ptr f) (args_of ps) (tmem c) = oreturn (m1, word_of_nat (length (text_of ps)))"
      "cstr m1 d (text_of ps)" "unchanged_outside {d ..< d + 1024} (tmem c) m1"
    using dvsprintf_text [of d 1024 "tmem c" f ps] D by auto
  have d0: "0 < d" using D by (simp add: buf_ok_def)
  obtain c1 r where c1: "dputs C (ptr d) (set_tmem m1 c) = oreturn (c1, r)"
      "printed out c1 = printed out c @ text_of ps" "tmem c1 = m1"
    by (rule dputs_prints [OF assms(1), of "set_tmem m1 c" d "text_of ps"]) (use m1(2) d0 D in simp_all)
  have g: "cstr (tmem c1) g (format_of qs)" unfolding c1(3) by (rule cstr_unchanged [OF m1(3)]) (use D in auto)
  have q: "\<forall>q \<in> set qs. piece_ok (tmem c1) b 1024 q" unfolding c1(3) using D piece_ok_frame [OF _ _ m1(3)] by blast
  obtain c2 where c2: "dprintf C (ptr g) (args_of qs) c1 = oreturn (c2, word_of_nat (length (text_of qs)))"
      "printed out c2 = printed out c1 @ text_of qs" "unchanged_outside {b ..< b + 1024} (tmem c1) (tmem c2)"
    by (rule dprintf_prints [OF assms(1), of b c1 g qs]) (use D g q in \<open>simp_all add: Int_Un_distrib\<close>)
  have args: "args_of qs = [ptr pf, ptr pl, word_of_int line]"
    and shown: "text_of qs = [32, 105, 110, 32] @ func @ [32, 91] @ file @ [58] @ dec_text line @ [93, 10]"
    by (simp_all add: assms(2) in_pieces_def)
  have run: "die_message C (word_of_int line) (ptr pl) (ptr pf) (ptr f) (args_of ps) c = oreturn c2"
    using D m1(1) c1(1) c2(1) by (simp add: die_message_def args)
  moreover have "unchanged_outside ({d ..< d + 1024} \<union> {b ..< b + 1024}) (tmem c) (tmem c2)"
    using m1(3) c2(3) unfolding c1(3) by (auto simp: unchanged_outside_def)
  ultimately show ?thesis
    using c1(2) c2(2) shown by (simp add: dprintf_die_def exit_process_def)
qed

text \<open>
  C17. The banner \<open>_print_mark\<close> draws around a text of \<open>n\<close> characters at nesting depth \<open>debug_indent\<close>, that is
  indented by \<open>k\<close> columns: when \<open>k + n\<close> is at most 77, one line of 80 columns goes out and the depth grows by
  one; from 80 on the code writes outside its buffer of 82 bytes; and from an indentation of 79 on the
  assertion ends the process.
\<close>

theorem print_mark_line:
  assumes "appends (ckern C) out" and "mark C = ptr B" and "buf_ok B 82" and "cstr (tmem c) a xs"
    and "{a .. a + length xs} \<inter> {B ..< B + 82} = {}" and "unat (debug_indent c) < 2 ^ 30" and "k = 2 * unat (debug_indent c)"
    and "length xs < 2 ^ 31"
  shows "(k + length xs \<le> 77 \<longrightarrow>
            (\<exists>c'. print_mark C (ptr a) c = oreturn c' \<and> printed out c' = printed out c @ mark_text k xs \<and>
               debug_indent c' = debug_indent c + 1 \<and> unchanged_outside {B ..< B + 82} (tmem c) (tmem c'))) \<and>
         (k < 79 \<longrightarrow> 80 \<le> k + length xs \<longrightarrow> print_mark C (ptr a) c = ostop Out_of_bounds) \<and>
         (79 \<le> k \<longrightarrow> print_mark C (ptr a) c = ostop (Exited 1))"
proof (cases "k < 79")
  case False
  have "\<not> (scast (debug_indent c * DEBUG_INDENT) :: addr) < 79"
    using False assms(6,7) ptr_less [of k 79] by (simp add: indent_number)
  then show ?thesis using False by (simp add: print_mark_def)
next
  case True
  note run = print_mark_run [OF assms(2-5) True assms(6-8)]
  let ?m = "mark_fill B k (tmem c)"
  have "k + length xs \<le> 77 \<Longrightarrow>
    \<exists>c'. print_mark C (ptr a) c = oreturn c' \<and> printed out c' = printed out c @ mark_text k xs \<and>
         debug_indent c' = debug_indent c + 1 \<and> unchanged_outside {B ..< B + 82} (tmem c) (tmem c')"
  proof -
    assume n: "k + length xs \<le> 77"
    obtain m' where m': "cstr m' B (mark_text k xs)" "unchanged_outside {B ..< B + 82} (tmem c) m'"
      and go: "print_mark C (ptr a) c = obind (dputs C (ptr B) (set_tmem m' c)) (\<lambda>(c, _). oreturn (c\<lparr>debug_indent := debug_indent c + 1\<rparr>))"
      using print_mark_fits [OF assms(2-5) True assms(6-8) n] .
    have "length (mark_text k xs) < 2 ^ 31" using n by (simp add: mark_text_def)
    moreover have "0 < B" using assms(3) by (simp add: buf_ok_def)
    ultimately obtain c1 r where "dputs C (ptr B) (set_tmem m' c) = oreturn (c1, r)"
        "printed out c1 = printed out c @ mark_text k xs" "tmem c1 = m'" "debug_indent c1 = debug_indent c"
      using dputs_prints [OF assms(1), of "set_tmem m' c" B "mark_text k xs"] m'(1) by auto
    then show ?thesis using go m'(2) by (intro exI [of _ "c1\<lparr>debug_indent := debug_indent c1 + 1\<rparr>"]) simp
  qed
  moreover have "print_mark C (ptr a) c = ostop Out_of_bounds" if "80 \<le> k + length xs"
  proof (cases "82 < k + 2 + length xs")
    case big: True
    then show ?thesis unfolding run using True mark_copy_overflows [OF _ big, of C "ptr a" ?m] by simp
  next
    case False
    have "a + length xs \<le> 2 ^ 64" "B + 82 \<le> 2 ^ 64" using cstr_bound [OF assms(4)] assms(3) by (simp_all add: buf_ok_def)
    then have "\<exists>m. mark_copy C (length xs) (k + 2) (ptr a) ?m = oreturn m"
      using mark_copy_fits [OF assms(2) _ _ source_apart [OF assms(5)], of "k + 2" ?m] False by auto
    then show ?thesis unfolding run using that by (auto simp: MARK_SIZE_def)
  qed
  ultimately show ?thesis using True by auto
qed

section \<open>Examples\<close>

text \<open>A kernel that keeps the text written so far, and the strings of one fatal message.\<close>

definition demo_writer :: "byte list kernel" where
  "demo_writer sysno args = (\<lambda>(w, m).
     if sysno = SYS_write then (args ! 2, w @ read_bytes m (args ! 1) (unat (args ! 2)), m) else (0, w, m))"

lemma demo_writer_appends: "appends demo_writer (\<lambda>w. w)"
  by (auto simp: appends_def demo_writer_def unat_ptr)

definition demo_message :: mem where
  "demo_message = write_bytes (\<lambda>_. 0) 64
     [101, 37, 115, 0, 120, 0, 102, 0, 108, 0, 32, 105, 110, 32, 37, 115, 32, 91, 37, 115, 58, 37, 100, 93, 10, 0]"

definition demo_console :: "byte list console" where
  "demo_console = \<lparr>ckern = demo_writer, lit_null = 0, lit_arrow = 0, lit_in = 74, lit_s = 0, mark = 12288, start_buf = 0,
     line_buf = 8192, die_buf = 4096\<rparr>"

definition demo_cstate :: "byte list cstate" where
  "demo_cstate = \<lparr>tst = \<lparr>world = [], smem = demo_message, errno = 0, pagesize = 4096\<rparr>, debug_indent = 1\<rparr>"

lemma demo_message_strings:
  "cstr demo_message 64 [101, 37, 115]" "cstr demo_message 68 [120]" "cstr demo_message 70 [102]" "cstr demo_message 72 [108]"
  "cstr demo_message 74 [32, 105, 110, 32, 37, 115, 32, 91, 37, 115, 58, 37, 100, 93, 10]"
  by (simp_all add: demo_message_def)

theorem die_reports_witness:
  "\<exists>c'. die_message demo_console 7 72 70 64 [68] demo_cstate = oreturn c' \<and>
     world (tst c') = [101, 120, 32, 105, 110, 32, 102, 32, 91, 108, 58, 55, 93, 10] \<and>
     dprintf_die demo_console 7 72 70 64 [68] demo_cstate = (ostop (Exited 1) :: unit outcome)"
proof -
  let ?qs = "in_pieces 70 [102] 72 [108] 7" and ?ps = "[PLit 101, PStr 68 [120]]"
  have seven: "dec_text 7 = [55]" by (simp add: dec_text_def ledigits.simps)
  have "die_ok demo_console 8192 4096 (tmem demo_cstate) 64 ?ps 74 ?qs"
    using demo_message_strings by (auto simp: die_ok_def in_pieces_def demo_console_def demo_cstate_def buf_ok_def seven)
  with die_reports [of demo_console "\<lambda>w. w" ?qs 70 "[102]" 72 "[108]" 7 8192 4096 demo_cstate 64 ?ps 74] demo_writer_appends
  show ?thesis by (auto simp: demo_console_def demo_cstate_def seven)
qed

theorem print_mark_line_witness:
  "\<exists>c'. print_mark demo_console 68 demo_cstate = oreturn c' \<and>
     world (tst c') = [32, 32, 61, 32, 120, 32] @ replicate 74 61 @ [10] \<and> debug_indent c' = 2"
proof -
  have two: "replicate 2 32 = [32, 32 :: byte]" by (simp add: numeral_2_eq_2)
  have "{68 .. 68 + length [120 :: byte]} \<inter> {12288 ..< 12288 + 82} = {}" by auto
  with print_mark_line [of demo_console "\<lambda>w. w" 12288 demo_cstate 68 "[120]" 2] demo_writer_appends demo_message_strings(2)
  show ?thesis by (auto simp: demo_console_def demo_cstate_def buf_ok_def mark_text_def two)
qed

end
