(* ===== verification/Clack.thy ===== *)
theory Clack
  imports Load
begin

text \<open>
  The tool \<open>elf-clack\<close>, which adds a segment with its own code to an ELF executable (\<open>analyze.h\<close>,
  \<open>analyze.c\<close>, \<open>crack.c\<close>). The file is mapped at \<open>elf_start\<close> in the byte memory; the C library's
  allocator is a parameter, a function from the number of the call and the size to the address. The
  lists \<open>segments\<close>, \<open>sections\<close> and the lists of sections of a segment, which the code keeps with the
  macros of \<open>list.h\<close>, are lists here; a pointer to a segment or section is its position. Output and the
  opening and closing of files are left out.
\<close>

section \<open>The file\<close>

text \<open>\<open>Elf64_Ehdr\<close> beyond the fields the loader uses, \<open>Elf64_Shdr\<close> and \<open>p_paddr\<close>.\<close>

definition e_shoff :: "mem \<Rightarrow> addr \<Rightarrow> addr" where "e_shoff m h = load64 m (h + 40)"
definition e_phentsize :: "mem \<Rightarrow> addr \<Rightarrow> 16 word" where "e_phentsize m h = load16 m (h + 54)"
definition e_shentsize :: "mem \<Rightarrow> addr \<Rightarrow> 16 word" where "e_shentsize m h = load16 m (h + 58)"
definition e_shnum :: "mem \<Rightarrow> addr \<Rightarrow> 16 word" where "e_shnum m h = load16 m (h + 60)"
definition e_shstrndx :: "mem \<Rightarrow> addr \<Rightarrow> 16 word" where "e_shstrndx m h = load16 m (h + 62)"
definition sh_name :: "mem \<Rightarrow> addr \<Rightarrow> 32 word" where "sh_name m sh = load32 m sh"
definition sh_addr :: "mem \<Rightarrow> addr \<Rightarrow> addr" where "sh_addr m sh = load64 m (sh + 16)"
definition sh_offset :: "mem \<Rightarrow> addr \<Rightarrow> addr" where "sh_offset m sh = load64 m (sh + 24)"
definition sh_size :: "mem \<Rightarrow> addr \<Rightarrow> addr" where "sh_size m sh = load64 m (sh + 32)"

record segment =
  seg_index :: addr
  seg_phdr :: addr
  seg_data :: addr
  seg_sections :: "nat list"

record sect =
  sec_index :: addr
  sec_shdr :: addr
  sec_data :: addr
  sec_segment :: "nat option"
  sec_name :: addr

record clack =
  cmem :: mem
  elf_start :: addr
  elf_end :: addr
  segments :: "segment list"
  sections :: "sect list"
  nalloc :: nat

type_synonym allocator = "nat \<Rightarrow> addr \<Rightarrow> addr"

definition SHDR :: "clack \<Rightarrow> addr \<Rightarrow> addr" where
  "SHDR s n =
     (if e_shoff (cmem s) (elf_start s) = 0 then NULL
      else elf_start s + e_shoff (cmem s) (elf_start s) + ucast (e_shentsize (cmem s) (elf_start s)) * n)"

definition PHDR :: "clack \<Rightarrow> addr \<Rightarrow> addr" where
  "PHDR s n =
     (if e_phoff (cmem s) (elf_start s) = 0 then NULL
      else elf_start s + e_phoff (cmem s) (elf_start s) + ucast (e_phentsize (cmem s) (elf_start s)) * n)"

definition clack_emalloc :: "allocator \<Rightarrow> addr \<Rightarrow> clack \<Rightarrow> (clack \<times> addr) outcome" where
  "clack_emalloc al sz s =
     (let p = al (nalloc s) sz in if p = NULL then ostop (Exited 1) else oreturn (s\<lparr>nalloc := Suc (nalloc s)\<rparr>, p))"

section \<open>Analysis\<close>

primrec find_pos :: "('a \<Rightarrow> bool) \<Rightarrow> 'a list \<Rightarrow> nat option" where
  "find_pos P [] = None"
| "find_pos P (x # xs) = (if P x then Some 0 else map_option Suc (find_pos P xs))"

definition find_segment_by_type :: "clack \<Rightarrow> 32 word \<Rightarrow> nat option" where
  "find_segment_by_type s t = find_pos (\<lambda>g. p_type (cmem s) (seg_phdr g) = t) (segments s)"

definition find_segment_by_offset :: "clack \<Rightarrow> addr \<Rightarrow> nat option" where
  "find_segment_by_offset s off =
     find_pos (\<lambda>g. let ph = seg_phdr g; m = cmem s in p_offset m ph \<le> off \<and> off < p_offset m ph + p_filesz m ph) (segments s)"

definition find_segment_by_vaddr :: "clack \<Rightarrow> addr \<Rightarrow> nat option" where
  "find_segment_by_vaddr s a =
     find_pos (\<lambda>g. let ph = seg_phdr g; m = cmem s in p_vaddr m ph \<le> a \<and> a < p_vaddr m ph + p_memsz m ph) (segments s)"

definition find_segsection_by_vaddr :: "clack \<Rightarrow> segment \<Rightarrow> addr \<Rightarrow> nat option" where
  "find_segsection_by_vaddr s g a =
     map_option (\<lambda>i. seg_sections g ! i)
       (find_pos (\<lambda>k. let sh = sec_shdr (sections s ! k); m = cmem s in sh_addr m sh \<le> a \<and> a < sh_addr m sh + sh_size m sh)
          (seg_sections g))"

definition init_segment :: "allocator \<Rightarrow> addr \<Rightarrow> clack \<Rightarrow> clack outcome" where
  "init_segment al i s =
     obind (clack_emalloc al 56 s) (\<lambda>(s, newp).
       if PHDR s i = NULL then ostop Null_deref
       else oreturn (s\<lparr>segments := segments s @ [\<lparr>seg_index = i, seg_phdr = PHDR s i,
              seg_data = elf_start s + p_offset (cmem s) (PHDR s i), seg_sections = []\<rparr>]\<rparr>))"

primrec init_segments_loop :: "allocator \<Rightarrow> nat \<Rightarrow> nat \<Rightarrow> clack \<Rightarrow> clack outcome" where
  "init_segments_loop al i 0 s = oreturn s"
| "init_segments_loop al i (Suc n) s = obind (init_segment al (of_nat i) s) (init_segments_loop al (Suc i) n)"

definition init_segments_early :: "allocator \<Rightarrow> clack \<Rightarrow> clack outcome" where
  "init_segments_early al s = init_segments_loop al 0 (unat (e_phnum (cmem s) (elf_start s))) s"

definition init_section :: "allocator \<Rightarrow> addr \<Rightarrow> addr \<Rightarrow> clack \<Rightarrow> clack outcome" where
  "init_section al p i s =
     obind (clack_emalloc al 72 s) (\<lambda>(s, newp).
       let sh = SHDR s i
       in if sh = NULL then ostop Null_deref
          else
            let off = sh_offset (cmem s) sh
            in oreturn (s\<lparr>sections := sections s @ [\<lparr>sec_index = i, sec_shdr = sh,
                 sec_data = (if off = 0 then NULL else elf_start s + off),
                 sec_segment = (if off = 0 then None else find_segment_by_offset s off),
                 sec_name = (if p = NULL then NULL else p + ucast (sh_name (cmem s) sh))\<rparr>]\<rparr>))"

primrec init_sections_loop :: "allocator \<Rightarrow> addr \<Rightarrow> nat \<Rightarrow> nat \<Rightarrow> clack \<Rightarrow> clack outcome" where
  "init_sections_loop al p i 0 s = oreturn s"
| "init_sections_loop al p i (Suc n) s = obind (init_section al p (of_nat i) s) (init_sections_loop al p (Suc i) n)"

definition init_sections :: "allocator \<Rightarrow> clack \<Rightarrow> clack outcome" where
  "init_sections al s =
     (let ndx = e_shstrndx (cmem s) (elf_start s); n = unat (e_shnum (cmem s) (elf_start s))
      in if ndx \<noteq> 0 then
           (if SHDR s (ucast ndx) = NULL then ostop Null_deref
            else init_sections_loop al (elf_start s + sh_offset (cmem s) (SHDR s (ucast ndx))) 0 n s)
         else init_sections_loop al NULL 0 n s)"

text \<open>\<open>init_segments\<close>: every section is appended to the list of its segment, in the order of the sections.\<close>

definition init_segments :: "clack \<Rightarrow> clack" where
  "init_segments s =
     fold (\<lambda>k s. case sec_segment (sections s ! k) of
             None \<Rightarrow> s
           | Some g \<Rightarrow> s\<lparr>segments := (segments s)[g := (segments s ! g)\<lparr>seg_sections := seg_sections (segments s ! g) @ [k]\<rparr>]\<rparr>)
       [0 ..< length (sections s)] s"

definition analyze :: "allocator \<Rightarrow> clack \<Rightarrow> clack outcome" where
  "analyze al s =
     obind (init_segments_early al s) (\<lambda>s. obind (init_sections al s) (\<lambda>s. oreturn (init_segments s)))"

section \<open>The new segment\<close>

text \<open>The loops of \<open>add_new_segment\<close>: where the segments end in memory and where all of them and the
  sections end in the file.\<close>

definition end_vaddr :: "clack \<Rightarrow> addr" where
  "end_vaddr s =
     fold (\<lambda>g a. let e = p_vaddr (cmem s) (seg_phdr g) + p_memsz (cmem s) (seg_phdr g) in if a < e then e else a) (segments s) 0"

definition end_offset :: "clack \<Rightarrow> addr" where
  "end_offset s =
     fold (\<lambda>c a. let e = sh_offset (cmem s) (sec_shdr c) + sh_size (cmem s) (sec_shdr c) in if a < e then e else a) (sections s)
       (fold (\<lambda>g a. let e = p_offset (cmem s) (seg_phdr g) + p_filesz (cmem s) (seg_phdr g) in if a < e then e else a) (segments s) 0)"

definition set_e_phnum :: "16 word \<Rightarrow> clack \<Rightarrow> clack" where
  "set_e_phnum v s = s\<lparr>cmem := store16 (cmem s) (elf_start s + 56) v\<rparr>"

definition write_phdr :: "addr \<Rightarrow> addr \<Rightarrow> addr \<Rightarrow> addr \<Rightarrow> mem \<Rightarrow> mem" where
  "write_phdr ph vaddr sz off m =
     (let m = store64 m (ph + 24) vaddr; m = store64 m (ph + 16) vaddr;
          m = store64 m (ph + 32) sz; m = store64 m (ph + 40) sz;
          m = store64 m (ph + 8) off; m = store64 m (ph + 48) 0x200000;
          m = store32 m ph PT_LOAD
      in store32 m (ph + 4) 5)"

definition add_new_segment :: "allocator \<Rightarrow> addr \<Rightarrow> clack \<Rightarrow> (clack \<times> segment \<times> addr) outcome" where
  "add_new_segment al segment_size s =
     (let new_addr = end_vaddr s;
          new_offset = end_offset s;
          new_addr = new_addr + (0x200000 - new_addr mod 0x200000);
          sz = 0x200 - new_offset mod 0x200;
          new_offset = new_offset + (0x200 - new_offset mod 0x200);
          sz = sz + segment_size
      in obind (clack_emalloc al 56 s) (\<lambda>(s, seg).
         obind (clack_emalloc al segment_size s) (\<lambda>(s, data).
         let n = e_phnum (cmem s) (elf_start s);
             s = set_e_phnum (n + 1) s
         in obind (clack_emalloc al 56 s) (\<lambda>(s, ph).
            let s = s\<lparr>cmem := write_phdr ph (new_addr + new_offset) segment_size new_offset (cmem s)\<rparr>;
                g = \<lparr>seg_index = ucast n, seg_phdr = ph, seg_data = data, seg_sections = []\<rparr>
            in oreturn (s\<lparr>segments := segments s @ [g]\<rparr>, g, sz)))))"

section \<open>The code in the new segment\<close>

text \<open>\<open>do_crack\<close>: the instructions before \<open>crack_code\<close>, the code (100 bytes from its address), and the
  message at the end of the segment. The addresses of the code and of the literal are parameters.\<close>

definition sizeof_MESSAGE :: addr where
  "sizeof_MESSAGE = 13"

definition do_crack :: "addr \<Rightarrow> addr \<Rightarrow> segment \<Rightarrow> clack \<Rightarrow> clack" where
  "do_crack crack_code lit_message g s =
     (let p = seg_data g; ph = seg_phdr g; m = cmem s;
          m = m(p := 0x50, p + 1 := 0x52, p + 2 := 0x57);
          m = m(p + 3 := 0x6a, p + 4 := ucast (sizeof_MESSAGE - 1));
          m = m(p + 5 := 0x48, p + 6 := 0xc7, p + 7 := 0xc7);
          m = store32 m (p + 8) (ucast (p_vaddr m ph + p_filesz m ph - sizeof_MESSAGE));
          m = m(p + 12 := 0x48, p + 13 := 0xc7, p + 14 := 0xc6);
          m = store32 m (p + 15) (ucast (e_entry m (elf_start s)));
          m = fst (memcpy (p + 19) crack_code 100 m);
          m = fst (memcpy (p + p_filesz m ph - sizeof_MESSAGE) lit_message sizeof_MESSAGE m);
          m = store64 m (elf_start s + 24) (p_vaddr m ph)
      in s\<lparr>cmem := m\<rparr>)"

section \<open>The new file\<close>

text \<open>The sizes of the tables are products of 16-bit fields in \<open>int\<close> arithmetic, taken modulo \<open>2 ^ 32\<close> here.\<close>

definition shdr_bytes :: "mem \<Rightarrow> addr \<Rightarrow> 32 word" where
  "shdr_bytes m h = ucast (e_shentsize m h) * ucast (e_shnum m h)"

definition phdr_bytes :: "mem \<Rightarrow> addr \<Rightarrow> 32 word \<Rightarrow> 32 word" where
  "phdr_bytes m h n = ucast (e_phentsize m h) * n"

definition phnum_int :: "mem \<Rightarrow> addr \<Rightarrow> 32 word" where
  "phnum_int m h = ucast (e_phnum m h)"

definition exe_length :: "segment \<Rightarrow> clack \<Rightarrow> addr" where
  "exe_length g s =
     (let m = cmem s; h = elf_start s
      in p_offset m (seg_phdr g) + p_filesz m (seg_phdr g) + scast (shdr_bytes m h)
           + scast (phdr_bytes m h (phnum_int m h)) + ucast (e_shentsize m h))"

text \<open>The header of the program header table itself, when there is one.\<close>

definition move_phdr_segment :: "segment \<Rightarrow> clack \<Rightarrow> mem outcome" where
  "move_phdr_segment newseg s =
     (let m = cmem s; h = elf_start s; np = seg_phdr newseg
      in case find_segment_by_type s PT_PHDR of
           None \<Rightarrow> oreturn m
         | Some k \<Rightarrow>
             if p_align m np = 0 then ostop Div_by_zero
             else
               let ph = seg_phdr (segments s ! k);
                   v = p_vaddr m np - p_offset m np + e_phoff m h mod p_align m np;
                   m = store64 m (ph + 16) v; m = store64 m (ph + 24) v;
                   sz = scast (phdr_bytes m h (phnum_int m h));
                   m = store64 m (ph + 40) sz; m = store64 m (ph + 32) sz;
                   m = store64 m (ph + 8) (e_phoff m h)
               in oreturn (store64 m (ph + 48) 8))"

text \<open>\<open>dump_elf\<close> into the mapping of the new file at \<open>start\<close>.\<close>

definition dump_elf :: "addr \<Rightarrow> segment \<Rightarrow> clack \<Rightarrow> clack outcome" where
  "dump_elf start newseg s =
     (let h = elf_start s; np = seg_phdr newseg; m = cmem s;
          phdr_addr = PHDR s 0; shdr_addr = SHDR s 0;
          m = store64 m (h + 40) (p_offset m np + p_filesz m np);
          m = store64 m (h + 32) (e_shoff m h + scast (shdr_bytes m h))
      in obind (move_phdr_segment newseg (s\<lparr>cmem := m\<rparr>)) (\<lambda>m.
         let m = fst (memcpy start h (elf_end s - h) m);
             m = store64 m (np + 32) (p_filesz m np + scast (phdr_bytes m h (phnum_int m h) + shdr_bytes m h));
             m = store64 m (np + 40) (p_filesz m np);
             m = fst (memcpy (start + p_offset m np) (seg_data newseg) (p_filesz m np) m);
             m = fst (memcpy start h 64 m);
             m = fst (memcpy (start + e_shoff m h) shdr_addr (scast (shdr_bytes m h)) m);
             m = fst (memcpy (start + e_phoff m h) phdr_addr (scast (phdr_bytes m h (phnum_int m h - 1))) m);
             m = fst (memcpy (start + e_phoff m h + scast (phdr_bytes m h (phnum_int m h - 1))) np (ucast (e_phentsize m h)) m)
         in oreturn (s\<lparr>cmem := m\<rparr>)))"

end
