(* ===== verification/Reloc_Info.thy ===== *)
theory Reloc_Info
  imports Host Clack
begin

text \<open>
  The viewer \<open>elf-info/reloc-info.c\<close>: it maps an ELF file and prints its string tables, its relocation
  tables and its dynamic section. The file is at \<open>h\<close> in the byte memory; a function that prints returns the
  text. Indices are natural numbers: the code counts with \<open>int\<close>, which is enough below 2 GB.
\<close>

section \<open>Sections\<close>

definition sh_type :: "mem \<Rightarrow> addr \<Rightarrow> 32 word" where "sh_type m sh = load32 m (sh + 4)"
definition sh_entsize :: "mem \<Rightarrow> addr \<Rightarrow> addr" where "sh_entsize m sh = load64 m (sh + 56)"
definition sizeof_Shdr :: addr where "sizeof_Shdr = 64"

definition SHT_STRTAB :: "32 word" where "SHT_STRTAB = 3"
definition SHT_RELA :: "32 word" where "SHT_RELA = 4"
definition SHT_DYNAMIC :: "32 word" where "SHT_DYNAMIC = 6"
definition SHT_DYNSYM :: "32 word" where "SHT_DYNSYM = 11"

definition shdr_at :: "mem \<Rightarrow> addr \<Rightarrow> nat \<Rightarrow> addr" where
  "shdr_at m h i = h + e_shoff m h + sizeof_Shdr * ptr i"

definition find_shdr_name :: "mem \<Rightarrow> addr \<Rightarrow> addr \<Rightarrow> addr" where
  "find_shdr_name m h sh =
     h + sh_offset m (shdr_at m h (unat (e_shstrndx m h))) + ucast (sh_name m sh)"

primrec find_shdr_loop :: "mem \<Rightarrow> addr \<Rightarrow> byte list \<Rightarrow> nat \<Rightarrow> nat \<Rightarrow> addr option" where
  "find_shdr_loop m h secname i 0 = None"
| "find_shdr_loop m h secname i (Suc n) =
     (if str_eq_at m secname (find_shdr_name m h (shdr_at m h i)) then Some (shdr_at m h i)
      else find_shdr_loop m h secname (Suc i) n)"

definition find_shdr_by_name :: "mem \<Rightarrow> addr \<Rightarrow> byte list \<Rightarrow> addr option" where
  "find_shdr_by_name m h secname = find_shdr_loop m h secname 0 (unat (e_shnum m h))"

definition find_shdr_data :: "mem \<Rightarrow> addr \<Rightarrow> addr \<Rightarrow> addr" where
  "find_shdr_data m h sh = h + sh_offset m sh"

definition find_sec_by_name :: "mem \<Rightarrow> addr \<Rightarrow> byte list \<Rightarrow> addr option" where
  "find_sec_by_name m h secname = map_option (\<lambda>sh. h + sh_offset m sh) (find_shdr_by_name m h secname)"

definition find_phdr_data :: "mem \<Rightarrow> addr \<Rightarrow> addr \<Rightarrow> addr" where
  "find_phdr_data m h ph = h + p_offset m ph"

section \<open>String tables\<close>

text \<open>The loop over the bytes of the table; \<open>print_index\<close> is set at the start of a string.\<close>

primrec strtab_loop :: "mem \<Rightarrow> addr \<Rightarrow> nat \<Rightarrow> bool \<Rightarrow> nat \<Rightarrow> byte list" where
  "strtab_loop m p index print_index 0 = []"
| "strtab_loop m p index print_index (Suc n) =
     (if print_index then lit ''  ['' @ pad_left 2 32 (dec_text (int index)) @ lit '']: '' else []) @
     (if m p \<noteq> 0 then m p # strtab_loop m (p + 1) index False n
      else newline @ strtab_loop m (p + 1) (Suc index) True n)"

definition print_strtab :: "mem \<Rightarrow> addr \<Rightarrow> byte list \<Rightarrow> byte list" where
  "print_strtab m h secname =
     lit ''String Table ('' @ secname @ lit ''):'' @ newline @
     (case find_shdr_by_name m h secname of
        None \<Rightarrow> lit '' not found'' @ newline
      | Some sh \<Rightarrow>
          if sh_type m sh \<noteq> SHT_STRTAB then lit '' this section not SHT_STRTAB'' @ newline
          else strtab_loop m (h + sh_offset m sh) 0 True (unat (sh_size m sh)))"

text \<open>The start of the string with number \<open>index\<close> in a table.\<close>

partial_function (option) find_symstr_loop :: "mem \<Rightarrow> addr \<Rightarrow> nat \<Rightarrow> addr option" where
  "find_symstr_loop m p k =
     (if k = 0 then Some p else find_symstr_loop m (p + 1) (if m p = 0 then k - 1 else k))"

definition find_symstr :: "mem \<Rightarrow> addr \<Rightarrow> addr \<Rightarrow> addr option" where
  "find_symstr m symstr index = find_symstr_loop m symstr (unat index)"

section \<open>Relocations\<close>

definition rel_type_to_str :: "32 word \<Rightarrow> byte list" where
  "rel_type_to_str type =
     (if type = 0 then lit ''R_X86_64_NONE'' else if type = 1 then lit ''R_X86_64_64''
      else if type = 2 then lit ''R_X86_64_PC32'' else if type = 3 then lit ''R_X86_64_GOT32''
      else if type = 4 then lit ''R_X86_64_PLT32'' else if type = 5 then lit ''R_X86_64_COPY''
      else if type = 6 then lit ''R_X86_64_GLOB_DAT'' else if type = 7 then lit ''R_X86_64_JUMP_SLOT''
      else if type = 8 then lit ''R_X86_64_RELATIVE'' else if type = 9 then lit ''R_X86_64_GOTPCREL''
      else lit ''unknown'')"

definition rela_row :: "mem \<Rightarrow> addr \<Rightarrow> addr \<Rightarrow> addr \<Rightarrow> byte list option" where
  "rela_row m symtab symstr r =
     (let sym = symtab + sizeof_Sym * ELF64_R_SYM (r_info m r)
      in map_option (\<lambda>name.
           lit ''  '' @ pad_left 12 48 (hex_text (unat (r_offset m r))) @ lit ''  '' @
           pad_left 12 32 (hex_text (unat (r_info m r))) @ lit '' '' @
           pad_left 20 32 (rel_type_to_str (ucast (ELF64_R_TYPE (r_info m r)))) @ lit '' '' @
           pad_left 12 48 (hex_text (unat (st_value m sym))) @ lit '' '' @
           pad_left 3 32 (dec_text (int (unat (st_shndx m sym)))) @ lit '' '' @ name @ lit '' + '' @
           hex_text (unat (r_addend m r)) @ newline)
         (cstring m (symstr + ucast (st_name m sym))))"

primrec rela_rows :: "mem \<Rightarrow> addr \<Rightarrow> addr \<Rightarrow> addr \<Rightarrow> nat \<Rightarrow> byte list option" where
  "rela_rows m symtab symstr r 0 = Some []"
| "rela_rows m symtab symstr r (Suc n) =
     do { row \<leftarrow> rela_row m symtab symstr r; rest \<leftarrow> rela_rows m symtab symstr (r + sizeof_Rela) n; Some (row @ rest) }"

definition print_rela :: "mem \<Rightarrow> addr \<Rightarrow> byte list \<Rightarrow> byte list \<Rightarrow> byte list \<Rightarrow> byte list option" where
  "print_rela m h secname s_symtab s_symstr =
     map_option (append (lit ''Relocation Information (rela) ('' @ secname @ lit ''): '' @ newline))
       (case (find_shdr_by_name m h secname, find_shdr_by_name m h s_symtab, find_shdr_by_name m h s_symstr) of
          (Some r, Some t, Some n) \<Rightarrow>
            if sh_type m r = SHT_RELA \<and> sh_type m t = SHT_DYNSYM \<and> sh_type m n = SHT_STRTAB then
              map_option (append
                  (lit ''  Virt Address: '' @ hex_text (unat (sh_addr m r)) @ newline @
                   lit ''  '' @ pad_left 12 32 (lit ''Offset'') @ lit ''  '' @ pad_left 12 32 (lit ''Info'') @ lit '' '' @
                   pad_left 20 32 (lit ''Type'') @ lit '' '' @ pad_left 12 32 (lit ''Sym.Value'') @ lit '' '' @ lit ''NDX'' @
                   lit '' '' @ pad_left 3 32 (lit ''Sym.Name'') @ lit '' + '' @ lit ''Addend'' @ newline))
                (rela_rows m (h + sh_offset m t) (h + sh_offset m n) (h + sh_offset m r) (unat (sh_size m r div sizeof_Rela)))
            else Some (lit ''  BAD ARGUMENT'' @ newline)
        | _ \<Rightarrow> Some (lit ''  BAD ARGUMENT'' @ newline))"

section \<open>The dynamic section\<close>

text \<open>Runs of entries that are not \<open>DT_NEEDED\<close> are shown as dots on one line.\<close>

primrec dyn_entries :: "mem \<Rightarrow> addr option \<Rightarrow> addr \<Rightarrow> addr \<Rightarrow> bool \<Rightarrow> nat \<Rightarrow> byte list option" where
  "dyn_entries m symstr d entsize skipping 0 = Some (if skipping then newline else [])"
| "dyn_entries m symstr d entsize skipping (Suc n) =
     (if d_tag m d = of_nat DT_NEEDED then
        do {
          name \<leftarrow> (case symstr of None \<Rightarrow> Some (lit ''(unknown)'') | Some p \<Rightarrow> cstring m (p + d_un m d));
          rest \<leftarrow> dyn_entries m symstr (d + entsize) entsize False n;
          Some ((if skipping then newline else []) @ lit ''  DT_NEEDED: '' @ name @ newline @ rest)
        }
      else
        map_option (\<lambda>rest. (if skipping then [] else lit ''  skip: '') @ lit ''.'' @ rest)
          (dyn_entries m symstr (d + entsize) entsize True n))"

definition print_dynamic_entry :: "mem \<Rightarrow> addr \<Rightarrow> addr \<Rightarrow> byte list outcome" where
  "print_dynamic_entry m h sh =
     obind (olift (cstring m (find_shdr_name m h sh))) (\<lambda>name.
       if sh_entsize m sh = 0 then ostop Div_by_zero
       else
         obind (olift (dyn_entries m (find_sec_by_name m h (lit ''.dynstr'')) (find_shdr_data m h sh) (sh_entsize m sh) False
                         (unat (sh_size m sh div sh_entsize m sh)))) (\<lambda>rest.
           oreturn (lit ''Dynamic section: '' @ name @ newline @ rest)))"

primrec print_dynamic_loop :: "mem \<Rightarrow> addr \<Rightarrow> addr \<Rightarrow> nat \<Rightarrow> byte list outcome" where
  "print_dynamic_loop m h sh 0 = oreturn []"
| "print_dynamic_loop m h sh (Suc n) =
     obind (if sh_type m sh = SHT_DYNAMIC then print_dynamic_entry m h sh else oreturn []) (\<lambda>t.
     obind (print_dynamic_loop m h (sh + sizeof_Shdr) n) (\<lambda>rest. oreturn (t @ rest)))"

definition print_dynamic :: "mem \<Rightarrow> addr \<Rightarrow> byte list outcome" where
  "print_dynamic m h = print_dynamic_loop m h (h + e_shoff m h) (unat (e_shnum m h))"

primrec dynamic_phdr_rows :: "mem \<Rightarrow> addr \<Rightarrow> nat \<Rightarrow> byte list" where
  "dynamic_phdr_rows m d 0 = []"
| "dynamic_phdr_rows m d (Suc n) =
     pad_left 10 32 (hex_text (unat (d_tag m d))) @ lit '' '' @
     (if d_tag m d \<noteq> of_nat DT_RELA then lit ''skip'' @ newline
      else lit ''DT_RELA '' @ hex_text (unat (d_un m d)) @ newline) @
     dynamic_phdr_rows m (d + sizeof_Dyn) n"

definition print_dynamic_phdr_sub :: "mem \<Rightarrow> addr \<Rightarrow> addr \<Rightarrow> byte list" where
  "print_dynamic_phdr_sub m h ph =
     lit ''----'' @ newline @ dynamic_phdr_rows m (find_phdr_data m h ph) (unat (p_filesz m ph div sizeof_Dyn))"

primrec print_dynamic_phdr_loop :: "mem \<Rightarrow> addr \<Rightarrow> addr \<Rightarrow> nat \<Rightarrow> byte list" where
  "print_dynamic_phdr_loop m h ph 0 = []"
| "print_dynamic_phdr_loop m h ph (Suc n) =
     (if p_type m ph = PT_DYNAMIC then print_dynamic_phdr_sub m h ph else []) @ print_dynamic_phdr_loop m h (ph + sizeof_Phdr) n"

definition print_dynamic_phdr :: "mem \<Rightarrow> addr \<Rightarrow> byte list" where
  "print_dynamic_phdr m h = print_dynamic_phdr_loop m h (h + e_phoff m h) (unat (e_phnum m h))"

section \<open>The program\<close>

definition reloc_info_text :: "mem \<Rightarrow> addr \<Rightarrow> byte list outcome" where
  "reloc_info_text m h =
     obind (olift (print_rela m h (lit ''.rela.dyn'') (lit ''.dynsym'') (lit ''.dynstr''))) (\<lambda>rd.
     obind (olift (print_rela m h (lit ''.rela.plt'') (lit ''.dynsym'') (lit ''.dynstr''))) (\<lambda>rp.
     obind (print_dynamic m h) (\<lambda>dy.
       oreturn (lit ''shstrndx = '' @ dec_text (int (unat (e_shstrndx m h))) @ newline @
         print_strtab m h (lit ''.shstrtab'') @ print_strtab m h (lit ''.strtab'') @ print_strtab m h (lit ''.dynstr'') @
         rd @ rp @ dy @ print_dynamic_phdr m h))))"

definition reloc_info_main :: "'w host \<Rightarrow> byte list list \<Rightarrow> 'w \<times> mem \<Rightarrow> (('w \<times> mem) \<times> byte list) outcome" where
  "reloc_info_main H argv s =
     (if length argv < 2 then ostop (Exited 1)
      else case map_file H (argv ! 1) s of
        (s, Inl c) \<Rightarrow> ostop c
      | (s, Inr (h, len)) \<Rightarrow> obind (reloc_info_text (snd s) h) (\<lambda>t. oreturn (s, t)))"

end
