(* ===== verification/Reloc_Info_Props.thy ===== *)
theory Reloc_Info_Props
  imports Reloc_Info
begin

text \<open>
  Properties of \<open>elf-info\<close>: a section is found by its name, and the listing of a string table shows its
  strings with their numbers.
\<close>

section \<open>Sections by name\<close>

lemma find_shdr_loop_find:
  "find_shdr_loop m h nm i n = find (\<lambda>sh. str_eq_at m nm (find_shdr_name m h sh)) (map (shdr_at m h) [i ..< i + n])"
proof (induction n arbitrary: i)
  case (Suc n)
  have "[i ..< i + Suc n] = i # [Suc i ..< Suc i + n]" by (simp add: upt_conv_Cons del: upt_Suc)
  then show ?case using Suc.IH [of "Suc i"] by simp
qed simp

section \<open>String tables\<close>

definition table_of :: "byte list list \<Rightarrow> byte list" where
  "table_of ss = concat (map (\<lambda>s. s @ [0]) ss)"

definition strtab_line :: "nat \<Rightarrow> byte list \<Rightarrow> byte list" where
  "strtab_line i s = lit ''  ['' @ pad_left 2 32 (dec_text (int i)) @ lit '']: '' @ s @ newline"

lemma ptr_shift [simp]: "(p :: addr) + 1 + ptr n = p + ptr (Suc n)" and ptr_Suc_0 [simp]: "ptr (Suc 0) = 1"
  by (simp_all add: of_nat_Suc add.assoc)

lemma strtab_loop_string:
  "0 \<notin> set s \<Longrightarrow> read_bytes m p (length s) = s \<Longrightarrow>
     strtab_loop m p i False (length s + n) = s @ strtab_loop m (p + ptr (length s)) i False n"
proof (induction s arbitrary: p)
  case (Cons x s)
  then show ?case by auto
qed simp

lemma read_bytes_append: "read_bytes m p (a + b) = read_bytes m p a @ read_bytes m (p + ptr a) b"
proof (induction a arbitrary: p)
  case (Suc a)
  then show ?case by simp
qed simp

lemma read_bytes_split:
  "read_bytes m p n = xs @ ys \<longleftrightarrow>
     n = length xs + length ys \<and> read_bytes m p (length xs) = xs \<and> read_bytes m (p + ptr (length xs)) (length ys) = ys"
proof
  assume eq: "read_bytes m p n = xs @ ys"
  then have n: "n = length xs + length ys" by (metis length_append length_read_bytes)
  with eq show "n = length xs + length ys \<and> read_bytes m p (length xs) = xs \<and> read_bytes m (p + ptr (length xs)) (length ys) = ys"
    by (simp add: read_bytes_append append_eq_append_conv)
qed (simp add: read_bytes_append)

text \<open>The first string of a table, and the rest.\<close>

lemma table_cons:
  assumes "read_bytes m p n = table_of (s # ss)"
  shows "n = length s + Suc (length (table_of ss))" and "read_bytes m p (length s) = s" and "m (p + ptr (length s)) = 0"
    and "read_bytes m (p + ptr (Suc (length s))) (length (table_of ss)) = table_of ss"
proof -
  have "table_of (s # ss) = s @ [0] @ table_of ss" by (simp add: table_of_def)
  then have "n = length s + (1 + length (table_of ss)) \<and> read_bytes m p (length s) = s \<and>
      read_bytes m (p + ptr (length s)) (1 + length (table_of ss)) = [0] @ table_of ss"
    using assms by (simp add: read_bytes_split)
  moreover have "p + ptr (length s) + 1 = p + ptr (Suc (length s))" by (simp add: add.assoc)
  ultimately show "n = length s + Suc (length (table_of ss))" and "read_bytes m p (length s) = s" and "m (p + ptr (length s)) = 0"
    and "read_bytes m (p + ptr (Suc (length s))) (length (table_of ss)) = table_of ss"
    by simp_all
qed

lemma strtab_first:
  assumes "0 \<notin> set s" and "read_bytes m p (length s) = s" and "m (p + ptr (length s)) = 0"
  shows "strtab_loop m p i True (length s + Suc n) = strtab_line i s @ strtab_loop m (p + ptr (Suc (length s))) (Suc i) True n"
proof -
  let ?mark = "lit ''  ['' @ pad_left 2 32 (dec_text (int i)) @ lit '']: ''"
  have mark: "strtab_loop m p i True (Suc k) = ?mark @ strtab_loop m p i False (Suc k)" for k by simp
  have "length s + Suc n = Suc (length s + n)" by simp
  then have "strtab_loop m p i True (length s + Suc n) = ?mark @ strtab_loop m p i False (length s + Suc n)" using mark by metis
  also have "strtab_loop m p i False (length s + Suc n) = s @ strtab_loop m (p + ptr (length s)) i False (Suc n)"
    by (rule strtab_loop_string [OF assms(1,2)])
  also have "strtab_loop m (p + ptr (length s)) i False (Suc n) = newline @ strtab_loop m (p + ptr (Suc (length s))) (Suc i) True n"
    using assms(3) by (simp add: add.assoc)
  finally show ?thesis by (simp only: strtab_line_def append.assoc)
qed

lemma strtab_loop_table:
  "read_bytes m p n = table_of ss \<Longrightarrow> \<forall>s \<in> set ss. 0 \<notin> set s \<Longrightarrow>
     strtab_loop m p i True n = concat (map (\<lambda>k. strtab_line (i + k) (ss ! k)) [0 ..< length ss])"
proof (induction ss arbitrary: p n i)
  case Nil
  then have "length (read_bytes m p n) = 0" by (simp add: table_of_def)
  then show ?case by simp
next
  case (Cons s ss)
  note T = table_cons [OF Cons.prems(1)]
  have "strtab_loop m p i True n = strtab_line i s @ strtab_loop m (p + ptr (Suc (length s))) (Suc i) True (length (table_of ss))"
    unfolding T(1) using Cons.prems(2) by (intro strtab_first [OF _ T(2,3)]) simp
  also have "strtab_loop m (p + ptr (Suc (length s))) (Suc i) True (length (table_of ss)) =
      concat (map (\<lambda>k. strtab_line (Suc i + k) (ss ! k)) [0 ..< length ss])"
    using Cons.prems(2) by (intro Cons.IH [OF T(4)]) simp
  finally have run: "strtab_loop m p i True n =
      strtab_line i s @ concat (map (\<lambda>k. strtab_line (Suc i + k) (ss ! k)) [0 ..< length ss])" .
  have "[0 ..< length (s # ss)] = 0 # map Suc [0 ..< length ss]" 
    by (simp add: map_Suc_upt upt_conv_Cons del: upt_Suc)
  then show ?case unfolding run by (simp add: o_def del: upt_Suc)
qed

text \<open>The walk of \<open>find_symstr\<close>.\<close>

lemma find_symstr_string:
  "0 \<notin> set s \<Longrightarrow> read_bytes m p (length s) = s \<Longrightarrow> m (p + ptr (length s)) = 0 \<Longrightarrow>
     find_symstr_loop m p (Suc k) = find_symstr_loop m (p + ptr (Suc (length s))) k"
proof (induction s arbitrary: p)
  case Nil
  then show ?case by (subst find_symstr_loop.simps) simp
next
  case (Cons x s)
  have "find_symstr_loop m p (Suc k) = find_symstr_loop m (p + 1) (Suc k)"
    using Cons.prems by (subst find_symstr_loop.simps) auto
  also have "\<dots> = find_symstr_loop m (p + 1 + ptr (Suc (length s))) k"
    using Cons.prems by (intro Cons.IH) auto
  finally show ?case by simp
qed

lemma find_symstr_loop_table:
  "read_bytes m p n = table_of ss \<Longrightarrow> \<forall>s \<in> set ss. 0 \<notin> set s \<Longrightarrow> k \<le> length ss \<Longrightarrow>
     find_symstr_loop m p k = Some (p + ptr (length (table_of (take k ss))))"
proof (induction k arbitrary: p n ss)
  case 0
  then show ?case by (subst find_symstr_loop.simps) (simp add: table_of_def)
next
  case (Suc k)
  then obtain s rest where ss: "ss = s # rest" by (cases ss) auto
  note T = table_cons [OF Suc.prems(1) [unfolded ss]]
  have "find_symstr_loop m p (Suc k) = find_symstr_loop m (p + ptr (Suc (length s))) k"
    using Suc.prems(2) ss by (intro find_symstr_string [OF _ T(2,3)]) simp
  also have "\<dots> = Some (p + ptr (Suc (length s)) + ptr (length (table_of (take k rest))))"
    using Suc.prems(2,3) ss by (intro Suc.IH [OF T(4)]) simp_all
  also have "p + ptr (Suc (length s)) + ptr (length (table_of (take k rest))) = p + ptr (length (table_of (take (Suc k) ss)))"
    by (simp add: ss table_of_def add.assoc)
  finally show ?case .
qed

lemma cstring_read:
  "0 \<notin> set s \<Longrightarrow> read_bytes m p (length s) = s \<Longrightarrow> m (p + ptr (length s)) = 0 \<Longrightarrow> cstring m p = Some s"
proof (induction s arbitrary: p)
  case Nil
  then show ?case by (subst cstring.simps) simp
next
  case (Cons x s)
  then have "cstring m (p + 1) = Some s" by (intro Cons.IH) auto
  then show ?case using Cons.prems by (subst cstring.simps) auto
qed

lemma string_in_table:
  assumes "read_bytes m p n = table_of ss" and "\<forall>s \<in> set ss. 0 \<notin> set s" and "k < length ss"
  shows "cstring m (p + ptr (length (table_of (take k ss)))) = Some (ss ! k)"
proof -
  have "table_of ss = table_of (take k ss) @ table_of (ss ! k # drop (Suc k) ss)"
    using id_take_nth_drop [OF assms(3)] unfolding table_of_def by (metis concat_append map_append)
  then have "read_bytes m (p + ptr (length (table_of (take k ss)))) (length (table_of (ss ! k # drop (Suc k) ss))) =
      table_of (ss ! k # drop (Suc k) ss)"
    using assms(1) by (simp add: read_bytes_split)
  note T = table_cons [OF this]
  show ?thesis using assms(2,3) by (intro cstring_read [OF _ T(2,3)]) simp
qed

section \<open>Properties\<close>


section \<open>Examples\<close>

text \<open>A file at 4096 with one section, whose name \<open>.s\<close> is in its own table.\<close>

definition demo_elf :: mem where
  "demo_elf = (\<lambda>_. 0)(4136 := 64, 4156 := 1, 4160 := 1, 4164 := 3, 4184 := 128, 4192 := 6, 4225 := 46, 4226 := 115, 4228 := 97)"

lemma demo_elf_fields:
  "e_shoff demo_elf 4096 = 64" "e_shnum demo_elf 4096 = 1" "e_shstrndx demo_elf 4096 = 0" "shdr_at demo_elf 4096 0 = 4160"
  "sh_name demo_elf 4160 = 1" "sh_type demo_elf 4160 = 3" "sh_offset demo_elf 4160 = 128" "sh_size demo_elf 4160 = 6"
  by (simp_all add: e_shoff_def e_shnum_def e_shstrndx_def shdr_at_def sh_name_def sh_type_def sh_offset_def sh_size_def
      sizeof_Shdr_def demo_elf_def word_loads)


end
