(* ===== verification/Clack_Props.thy ===== *)
theory Clack_Props
  imports Clack
begin

text \<open>
  Properties of \<open>elf-clack\<close>: where the new segment lies, and what \<open>dump_elf\<close> reads of it.
\<close>

section \<open>Accesses of different widths\<close>

lemma load64_store32_ptr:
  assumes "a + 4 \<le> b \<or> b + 8 \<le> a" and "a + 4 \<le> 2 ^ 64" and "b + 8 \<le> 2 ^ 64"
  shows "load64 (store32 m (ptr a) v) (ptr b) = load64 m (ptr b)"
proof (rule m64.load_cong)
  fix x
  assume x: "in_range (ptr b) 8 x"
  obtain n where n: "x = ptr n" "n < 2 ^ 64" by (rule ex_ptr)
  from x n assms have "\<not> in_range (ptr a) 4 x" by (auto simp: in_range_ptr)
  then show "store32 m (ptr a) v x = m x" by (rule m32.store_other)
qed

lemma load32_store32_ptr:
  "a + 4 \<le> b \<or> b + 4 \<le> a \<Longrightarrow> a + 4 \<le> 2 ^ 64 \<Longrightarrow> b + 4 \<le> 2 ^ 64 \<Longrightarrow> load32 (store32 m (ptr a) v) (ptr b) = load32 m (ptr b)"
  by (rule m32.load_store_ptr)

lemma write_phdr_fields:
  assumes "p + 56 \<le> 2 ^ 64"
  shows "p_vaddr (write_phdr (ptr p) v z off m) (ptr p) = v" "p_filesz (write_phdr (ptr p) v z off m) (ptr p) = z"
    "p_memsz (write_phdr (ptr p) v z off m) (ptr p) = z" "p_offset (write_phdr (ptr p) v z off m) (ptr p) = off"
    "p_align (write_phdr (ptr p) v z off m) (ptr p) = 0x200000" "p_type (write_phdr (ptr p) v z off m) (ptr p) = PT_LOAD"
    "p_flags (write_phdr (ptr p) v z off m) (ptr p) = 5"
  using assms
  by (simp_all add: write_phdr_def Let_def p_vaddr_def p_filesz_def p_memsz_def p_offset_def p_align_def p_type_def p_flags_def
      ptr_add_numeral load64_store32_ptr load32_store32_ptr m64.load_store_ptr m64.load_store_same m32.load_store_same
      del: of_nat_add)

section \<open>The end of what is there\<close>

abbreviation max_step :: "('a \<Rightarrow> addr) \<Rightarrow> 'a \<Rightarrow> addr \<Rightarrow> addr" where
  "max_step f \<equiv> \<lambda>g a. let e = f g in if a < e then e else a"

lemma fold_max_start: "unat a \<le> unat (fold (max_step f) gs a)"
proof (induction gs arbitrary: a)
  case (Cons h gs)
  have "unat a \<le> unat (max_step f h a)" by (auto simp: Let_def word_less_nat_alt)
  also have "\<dots> \<le> unat (fold (max_step f) gs (max_step f h a))" by (rule Cons.IH)
  finally show ?case by simp
qed simp

lemma fold_max_ge: "g \<in> set gs \<Longrightarrow> unat (f g) \<le> unat (fold (max_step f) gs a)"
proof (induction gs arbitrary: a)
  case (Cons h gs)
  have "unat (f h) \<le> unat (max_step f h a)" by (auto simp: Let_def word_less_nat_alt)
  also have "\<dots> \<le> unat (fold (max_step f) gs (max_step f h a))" by (rule fold_max_start)
  finally show ?case using Cons by auto
qed simp

lemma fold_max_less: "\<forall>g \<in> set gs. unat (f g) < b \<Longrightarrow> unat a < b \<Longrightarrow> unat (fold (max_step f) gs a) < b"
  by (induction gs arbitrary: a) (auto simp: Let_def)

text \<open>Rounding up to the next multiple: always strictly above.\<close>

lemma round_next:
  fixes a c :: addr
  assumes "0 < c" and "unat a + unat c < 2 ^ 64"
  shows "unat (a + (c - a mod c)) = (unat a div unat c + 1) * unat c" and "unat a < unat (a + (c - a mod c))"
proof -
  have c: "0 < unat c" using assms(1) by (simp add: unat_gt_0 word_neq_0_conv)
  have mod: "unat (a mod c) = unat a mod unat c" by (rule unat_mod)
  have lt: "unat a mod unat c < unat c" using c by (rule mod_less_divisor)
  then have "a mod c \<le> c" by (simp add: word_le_nat_alt mod)
  then have d: "unat (c - a mod c) = unat c - unat a mod unat c" by (simp add: unat_sub mod)
  have "unat a + (unat c - unat a mod unat c) < 2 ^ 64" using assms(2) by linarith
  then have u: "unat (a + (c - a mod c)) = unat a + (unat c - unat a mod unat c)"
    using unat_add_lem [of a "c - a mod c"] d by simp
  have "unat a div unat c * unat c + unat a mod unat c = unat a" by (rule div_mult_mod_eq)
  with u lt have "unat (a + (c - a mod c)) = unat a div unat c * unat c + unat c" by linarith
  then show "unat (a + (c - a mod c)) = (unat a div unat c + 1) * unat c" by (simp add: distrib_right)
  show "unat a < unat (a + (c - a mod c))" using u lt by linarith
qed

text \<open>Segments and sections whose ends are far from the end of the address space.\<close>

definition seg_small :: "mem \<Rightarrow> segment \<Rightarrow> bool" where
  "seg_small m g \<longleftrightarrow> unat (p_vaddr m (seg_phdr g)) + unat (p_memsz m (seg_phdr g)) < 2 ^ 62 \<and>
     unat (p_offset m (seg_phdr g)) + unat (p_filesz m (seg_phdr g)) < 2 ^ 62"

definition sec_small :: "mem \<Rightarrow> sect \<Rightarrow> bool" where
  "sec_small m c \<longleftrightarrow> unat (sh_offset m (sec_shdr c)) + unat (sh_size m (sec_shdr c)) < 2 ^ 62"

lemma unat_plus_small: "unat (a :: addr) + unat b < 2 ^ 62 \<Longrightarrow> unat (a + b) = unat a + unat b"
  using unat_add_lem [of a b] by simp

lemma end_vaddr_bounds:
  assumes "\<forall>g \<in> set (segments s). seg_small (cmem s) g"
  shows "unat (end_vaddr s) < 2 ^ 62"
    and "g \<in> set (segments s) \<Longrightarrow> unat (p_vaddr (cmem s) (seg_phdr g)) + unat (p_memsz (cmem s) (seg_phdr g)) \<le> unat (end_vaddr s)"
proof -
  let ?f = "\<lambda>g. p_vaddr (cmem s) (seg_phdr g) + p_memsz (cmem s) (seg_phdr g)"
  have u: "unat (?f g) = unat (p_vaddr (cmem s) (seg_phdr g)) + unat (p_memsz (cmem s) (seg_phdr g))" "unat (?f g) < 2 ^ 62"
    if "g \<in> set (segments s)" for g
    using assms that unat_plus_small [of "p_vaddr (cmem s) (seg_phdr g)"] by (simp_all add: seg_small_def)
  then show "unat (end_vaddr s) < 2 ^ 62"
    unfolding end_vaddr_def by (intro fold_max_less) auto
  show "unat (p_vaddr (cmem s) (seg_phdr g)) + unat (p_memsz (cmem s) (seg_phdr g)) \<le> unat (end_vaddr s)" if "g \<in> set (segments s)"
    using fold_max_ge [of g "segments s" ?f 0] u(1) [OF that] that by (simp add: end_vaddr_def)
qed

lemma end_offset_bounds:
  assumes "\<forall>g \<in> set (segments s). seg_small (cmem s) g" and "\<forall>c \<in> set (sections s). sec_small (cmem s) c"
  shows "unat (end_offset s) < 2 ^ 62"
    and "g \<in> set (segments s) \<Longrightarrow> unat (p_offset (cmem s) (seg_phdr g)) + unat (p_filesz (cmem s) (seg_phdr g)) \<le> unat (end_offset s)"
    and "c \<in> set (sections s) \<Longrightarrow> unat (sh_offset (cmem s) (sec_shdr c)) + unat (sh_size (cmem s) (sec_shdr c)) \<le> unat (end_offset s)"
proof -
  let ?f = "\<lambda>g. p_offset (cmem s) (seg_phdr g) + p_filesz (cmem s) (seg_phdr g)"
    and ?h = "\<lambda>c. sh_offset (cmem s) (sec_shdr c) + sh_size (cmem s) (sec_shdr c)"
  let ?a = "fold (\<lambda>g a. let e = ?f g in if a < e then e else a) (segments s) 0"
  have f: "unat (?f g) = unat (p_offset (cmem s) (seg_phdr g)) + unat (p_filesz (cmem s) (seg_phdr g))" "unat (?f g) < 2 ^ 62"
    if "g \<in> set (segments s)" for g
    using assms(1) that unat_plus_small [of "p_offset (cmem s) (seg_phdr g)"] by (simp_all add: seg_small_def)
  have h: "unat (?h c) = unat (sh_offset (cmem s) (sec_shdr c)) + unat (sh_size (cmem s) (sec_shdr c))" "unat (?h c) < 2 ^ 62"
    if "c \<in> set (sections s)" for c
    using assms(2) that unat_plus_small [of "sh_offset (cmem s) (sec_shdr c)"] by (simp_all add: sec_small_def)
  have "unat ?a < 2 ^ 62" using f(2) by (intro fold_max_less) auto
  then show "unat (end_offset s) < 2 ^ 62"
    unfolding end_offset_def using h(2) by (intro fold_max_less [of "sections s"]) auto
  show "unat (p_offset (cmem s) (seg_phdr g)) + unat (p_filesz (cmem s) (seg_phdr g)) \<le> unat (end_offset s)" if "g \<in> set (segments s)"
  proof -
    have "unat (?f g) \<le> unat ?a" using that by (rule fold_max_ge)
    also have "unat ?a \<le> unat (end_offset s)" unfolding end_offset_def by (rule fold_max_start)
    finally show ?thesis using f(1) [OF that] by simp
  qed
  show "unat (sh_offset (cmem s) (sec_shdr c)) + unat (sh_size (cmem s) (sec_shdr c)) \<le> unat (end_offset s)" if "c \<in> set (sections s)"
  proof -
    have "unat (?h c) \<le> unat (end_offset s)" unfolding end_offset_def using that by (rule fold_max_ge)
    then show ?thesis using h(1) [OF that] by simp
  qed
qed

section \<open>Properties\<close>

text \<open>
  C40. The segment that \<open>add_new_segment\<close> adds lies behind everything there is: its address is above the
  end of every segment in memory, its file offset behind the end of every segment and section in the
  file. The offset is a multiple of 512, and address and offset agree modulo the alignment, as the ELF
  format asks of a \<open>PT_LOAD\<close> segment (readable and executable, of the size that was asked for).
\<close>

theorem new_segment_is_clear:
  assumes "\<forall>g \<in> set (segments s). seg_small (cmem s) g" and "\<forall>c \<in> set (sections s). sec_small (cmem s) c"
    and "al (nalloc s) 56 \<noteq> NULL" and "al (Suc (nalloc s)) sz \<noteq> NULL" and "al (Suc (Suc (nalloc s))) 56 = ptr p"
    and "0 < p" and "p + 56 \<le> 2 ^ 64"
  shows "\<exists>s' g total. add_new_segment al sz s = oreturn (s', g, total) \<and> segments s' = segments s @ [g] \<and> seg_phdr g = ptr p \<and>
           p_type (cmem s') (ptr p) = PT_LOAD \<and> p_flags (cmem s') (ptr p) = 5 \<and>
           p_filesz (cmem s') (ptr p) = sz \<and> p_memsz (cmem s') (ptr p) = sz \<and>
           unat (p_vaddr (cmem s') (ptr p)) mod unat (p_align (cmem s') (ptr p)) = unat (p_offset (cmem s') (ptr p)) mod unat (p_align (cmem s') (ptr p)) \<and>
           512 dvd unat (p_offset (cmem s') (ptr p)) \<and>
           (\<forall>h \<in> set (segments s).
              unat (p_vaddr (cmem s) (seg_phdr h)) + unat (p_memsz (cmem s) (seg_phdr h)) < unat (p_vaddr (cmem s') (ptr p)) \<and>
              unat (p_offset (cmem s) (seg_phdr h)) + unat (p_filesz (cmem s) (seg_phdr h)) < unat (p_offset (cmem s') (ptr p))) \<and>
           (\<forall>c \<in> set (sections s).
              unat (sh_offset (cmem s) (sec_shdr c)) + unat (sh_size (cmem s) (sec_shdr c)) < unat (p_offset (cmem s') (ptr p)))"
proof -
  let ?a = "end_vaddr s" and ?o = "end_offset s"
  let ?v = "?a + (0x200000 - ?a mod 0x200000)" and ?w = "?o + (0x200 - ?o mod 0x200)"
  note A = end_vaddr_bounds [OF assms(1)] and O = end_offset_bounds [OF assms(1,2)]
  have v: "unat ?v = (unat ?a div 0x200000 + 1) * 0x200000" "unat ?a < unat ?v"
    using round_next [of "0x200000" ?a] A(1) by simp_all
  have w: "unat ?w = (unat ?o div 0x200 + 1) * 0x200" "unat ?o < unat ?w"
    using round_next [of "0x200" ?o] O(1) by simp_all
  have "unat ?v \<le> unat ?a + 0x200000" "unat ?w \<le> unat ?o + 0x200"
    using v(1) w(1) div_times_less_eq_dividend [of "unat ?a" "0x200000"] div_times_less_eq_dividend [of "unat ?o" "0x200"] by simp_all
  then have "unat ?v + unat ?w < 2 ^ 64" using A(1) O(1) by simp
  then have sum: "unat (?v + ?w) = unat ?v + unat ?w" using unat_add_lem [of ?v ?w] by simp
  have p0: "ptr p \<noteq> NULL" using assms(6,7) by (simp add: ptr_eq_0)
  let ?m = "write_phdr (ptr p) (?v + ?w) sz ?w (store16 (cmem s) (elf_start s + 56) (e_phnum (cmem s) (elf_start s) + 1))"
  let ?g = "\<lparr>seg_index = ucast (e_phnum (cmem s) (elf_start s)), seg_phdr = ptr p, seg_data = al (Suc (nalloc s)) sz, seg_sections = []\<rparr>"
  let ?s = "s\<lparr>nalloc := Suc (Suc (Suc (nalloc s))), cmem := ?m, segments := segments s @ [?g]\<rparr>"
  have run: "add_new_segment al sz s = oreturn (?s, ?g, 0x200 - ?o mod 0x200 + sz)"
    using assms(3-5) p0 by (simp add: add_new_segment_def clack_emalloc_def Let_def set_e_phnum_def)
  note F = write_phdr_fields [OF assms(7)]
  have al: "unat (?v + ?w) mod 0x200000 = unat ?w mod 0x200000" unfolding sum v(1) by (rule mod_mult_self3)
  have dv: "512 dvd unat ?w" unfolding w(1) by simp
  have sv: "unat ?a < unat (?v + ?w)" using sum v(2) by simp
  show ?thesis
  proof (intro exI conjI ballI)
    show "add_new_segment al sz s = oreturn (?s, ?g, 0x200 - ?o mod 0x200 + sz)" by (rule run)
    show "unat (p_vaddr (cmem ?s) (ptr p)) mod unat (p_align (cmem ?s) (ptr p)) = unat (p_offset (cmem ?s) (ptr p)) mod unat (p_align (cmem ?s) (ptr p))"
      using al by (simp add: F)
    show "unat (p_vaddr (cmem s) (seg_phdr h)) + unat (p_memsz (cmem s) (seg_phdr h)) < unat (p_vaddr (cmem ?s) (ptr p))"
      if "h \<in> set (segments s)" for h
      using A(2) [OF that] sv by (simp add: F)
    show "unat (p_offset (cmem s) (seg_phdr h)) + unat (p_filesz (cmem s) (seg_phdr h)) < unat (p_offset (cmem ?s) (ptr p))"
      if "h \<in> set (segments s)" for h
      using O(2) [OF that] w(2) by (simp add: F)
    show "unat (sh_offset (cmem s) (sec_shdr c)) + unat (sh_size (cmem s) (sec_shdr c)) < unat (p_offset (cmem ?s) (ptr p))"
      if "c \<in> set (sections s)" for c
      using O(3) [OF that] w(2) by (simp add: F)
    show "512 dvd unat (p_offset (cmem ?s) (ptr p))" using dv by (simp add: F)
  qed (simp_all add: F)
qed

section \<open>Examples\<close>

text \<open>One segment of 5000 bytes at 4112 whose header is the example of the loader; no sections.\<close>

definition demo_clack :: clack where
  "demo_clack = \<lparr>cmem = (\<lambda>_. 0)(64 := 1, 72 := 16, 80 := 16, 81 := 16, 96 := 8, 104 := 0x88, 105 := 0x13), elf_start = 0, elf_end = 200,
     segments = [\<lparr>seg_index = 0, seg_phdr = 64, seg_data = 16, seg_sections = []\<rparr>], sections = [], nalloc = 1\<rparr>"

theorem new_segment_is_clear_witness:
  "\<exists>s' g total. add_new_segment (\<lambda>k sz. ptr (4096 * k)) 1024 demo_clack = oreturn (s', g, total) \<and>
     p_filesz (cmem s') 12288 = 1024 \<and> 9112 < unat (p_vaddr (cmem s') 12288) \<and> 24 < unat (p_offset (cmem s') 12288)"
proof -
  have f: "p_offset (cmem demo_clack) 64 = 16" "p_vaddr (cmem demo_clack) 64 = 4112" "p_filesz (cmem demo_clack) 64 = 8" "p_memsz (cmem demo_clack) 64 = 5000"
    by (simp_all add: p_offset_def p_vaddr_def p_filesz_def p_memsz_def demo_clack_def word_loads)
  have s: "segments demo_clack = [\<lparr>seg_index = 0, seg_phdr = 64, seg_data = 16, seg_sections = []\<rparr>]" "sections demo_clack = []" "nalloc demo_clack = 1"
    by (simp_all add: demo_clack_def)
  from new_segment_is_clear [of demo_clack "\<lambda>k sz. ptr (4096 * k)" 1024 12288]
  obtain s' g total where "add_new_segment (\<lambda>k sz. ptr (4096 * k)) 1024 demo_clack = oreturn (s', g, total)"
    "p_filesz (cmem s') (ptr 12288) = 1024" "4112 + 5000 < unat (p_vaddr (cmem s') (ptr 12288))" "16 + 8 < unat (p_offset (cmem s') (ptr 12288))"
    by (auto simp: s f seg_small_def)
  then show ?thesis by (intro exI [of _ s'] exI [of _ g] exI [of _ total]) simp
qed

end
