(* ===== verification/Clack_Tool.thy ===== *)
theory Clack_Tool
  imports Host Reloc_Info
begin

text \<open>
  The rest of \<open>elf-clack\<close>: opening and mapping the executable (\<open>startup\<close>, \<open>endup\<close>), writing the new one
  (\<open>create_exe\<close>), what is printed (\<open>utils.c\<close>, \<open>show.c\<close>), and the two programs \<open>crack\<close> and \<open>show\<close>. The state of
  the system behind the C library is threaded beside the state of the tool; messages on \<open>stderr\<close> are left
  out.
\<close>

section \<open>Names\<close>

definition segname :: "mem \<Rightarrow> addr \<Rightarrow> byte list" where
  "segname m ph =
     (let type = p_type m ph
      in if type = 0 then lit ''NULL'' else if type = 1 then lit ''LOAD''
         else if type = 2 then lit ''DYNAMIC'' else if type = 3 then lit ''INTERP''
         else if type = 4 then lit ''NOTE'' else if type = 5 then lit ''SHLIB''
         else if type = 6 then lit ''PHDR'' else if type = 7 then lit ''TLS''
         else if type = 8 then lit ''NUM'' else if type = 0x60000000 then lit ''LOOS''
         else if type = 0x6474e550 then lit ''GNU_EH_FRAME'' else if type = 0x6474e551 then lit ''GNU_STACK''
         else if type = 0x6474e552 then lit ''GNU_RELRO'' else if type = 0x6ffffffa then lit ''LOSUNW''
         else if type = 0x6ffffffb then lit ''SUNWSTACK'' else if type = 0x6fffffff then lit ''HISUNW''
         else if type = 0x70000000 then lit ''LOPROC'' else if type = 0x7fffffff then lit ''HIPROC''
         else lit ''UNKNOWN'')"

section \<open>Listings\<close>

definition PRINT_FIELD :: "string \<Rightarrow> nat \<Rightarrow> byte list" where
  "PRINT_FIELD e v = lit ''    '' @ pad_right 8 (lit e) @ lit '' = '' @ alt_hex v @ newline"

definition p_paddr :: "mem \<Rightarrow> addr \<Rightarrow> addr" where "p_paddr m ph = load64 m (ph + 24)"
definition sh_addralign :: "mem \<Rightarrow> addr \<Rightarrow> addr" where "sh_addralign m sh = load64 m (sh + 48)"
definition e_ehsize :: "mem \<Rightarrow> addr \<Rightarrow> 16 word" where "e_ehsize m h = load16 m (h + 52)"

definition print_phdr :: "mem \<Rightarrow> addr \<Rightarrow> byte list" where
  "print_phdr m ph =
     PRINT_FIELD ''p_offset'' (unat (p_offset m ph)) @ PRINT_FIELD ''p_vaddr'' (unat (p_vaddr m ph)) @
     PRINT_FIELD ''p_paddr'' (unat (p_paddr m ph)) @ PRINT_FIELD ''p_filesz'' (unat (p_filesz m ph)) @
     PRINT_FIELD ''p_memsz'' (unat (p_memsz m ph)) @ PRINT_FIELD ''p_align'' (unat (p_align m ph))"

text \<open>The names of the sections of a segment; a section without a name is \<open>no_name\<close>.\<close>

primrec section_names :: "clack \<Rightarrow> nat list \<Rightarrow> byte list option" where
  "section_names s [] = Some []"
| "section_names s (k # ks) =
     do {
       name \<leftarrow> (if sec_name (sections s ! k) = NULL then Some (lit ''no_name'') else cstring (cmem s) (sec_name (sections s ! k)));
       rest \<leftarrow> section_names s ks;
       Some (name @ lit '' '' @ rest)
     }"

definition print_segment :: "clack \<Rightarrow> segment \<Rightarrow> byte list outcome" where
  "print_segment s g =
     obind (olift (section_names s (seg_sections g))) (\<lambda>names.
       oreturn (lit '' ['' @ dec_text (int (unat (seg_index g))) @ lit ''] '' @ segname (cmem s) (seg_phdr g) @ lit '' ('' @
         alt_hex (unat (seg_phdr g - elf_start s)) @ lit '')'' @ newline @ lit ''    Sections: '' @ names @ newline @
         print_phdr (cmem s) (seg_phdr g)))"

text \<open>\<open>print_section\<close> prints the name without a check.\<close>

definition print_section :: "clack \<Rightarrow> sect \<Rightarrow> byte list outcome" where
  "print_section s c =
     (let m = cmem s; sh = sec_shdr c
      in if sec_name c = NULL then ostop Null_deref
         else obind (olift (cstring m (sec_name c))) (\<lambda>name.
           oreturn (lit '' ['' @ dec_text (int (unat (sec_index c))) @ lit ''] '' @ name @ lit '' ('' @
             alt_hex (unat (sh - elf_start s)) @ lit '')'' @ newline @
             (case sec_segment c of
                None \<Rightarrow> []
              | Some g \<Rightarrow> lit ''    Segment: '' @ segname m (seg_phdr (segments s ! g)) @ newline) @
             PRINT_FIELD ''sh_name'' (unat (sh_name m sh)) @ PRINT_FIELD ''sh_addr'' (unat (sh_addr m sh)) @
             PRINT_FIELD ''sh_offset'' (unat (sh_offset m sh)) @ PRINT_FIELD ''sh_size'' (unat (sh_size m sh)) @
             PRINT_FIELD ''sh_entsize'' (unat (sh_entsize m sh)) @ PRINT_FIELD ''sh_addralign'' (unat (sh_addralign m sh)))))"

definition print_ehdr :: "mem \<Rightarrow> addr \<Rightarrow> byte list" where
  "print_ehdr m h =
     lit ''ELF Header:'' @ newline @ PRINT_FIELD ''e_ehsize'' (unat (e_ehsize m h)) @ PRINT_FIELD ''e_entry'' (unat (e_entry m h)) @
     newline @ PRINT_FIELD ''e_phoff'' (unat (e_phoff m h)) @ PRINT_FIELD ''e_phentsize'' (unat (e_phentsize m h)) @
     PRINT_FIELD ''e_phnum'' (unat (e_phnum m h)) @
     newline @ PRINT_FIELD ''e_shoff'' (unat (e_shoff m h)) @ PRINT_FIELD ''e_shentsize'' (unat (e_shentsize m h)) @
     PRINT_FIELD ''e_shnum'' (unat (e_shnum m h)) @
     newline @ PRINT_FIELD ''e_shstrndx'' (unat (e_shstrndx m h))"

primrec print_all :: "('a \<Rightarrow> byte list outcome) \<Rightarrow> 'a list \<Rightarrow> byte list outcome" where
  "print_all f [] = oreturn []"
| "print_all f (x # xs) = obind (f x) (\<lambda>t. obind (print_all f xs) (\<lambda>rest. oreturn (t @ rest)))"

definition print_section_header :: "clack \<Rightarrow> byte list outcome" where
  "print_section_header s =
     obind (print_all (print_section s) (sections s)) (\<lambda>t. oreturn (lit ''Section Header:'' @ newline @ t))"

definition print_program_header :: "clack \<Rightarrow> byte list outcome" where
  "print_program_header s =
     obind (print_all (print_segment s) (segments s)) (\<lambda>t. oreturn (lit ''Program Header:'' @ newline @ t))"

definition show_info :: "byte list" where
  "show_info =
     lit ''Size of:'' @ newline @ lit ''  Elf64_Ehdr = '' @ alt_hex 64 @ newline @ lit ''  Elf64_Phdr = '' @ alt_hex 56 @ newline @
     lit ''  Elf64_Shdr = '' @ alt_hex 64 @ newline @ newline"

definition show_elf :: "allocator \<Rightarrow> clack \<Rightarrow> (clack \<times> byte list) outcome" where
  "show_elf al s =
     obind (analyze al s) (\<lambda>s.
     obind (print_section_header s) (\<lambda>sh.
     obind (print_program_header s) (\<lambda>ph.
       oreturn (s, show_info @ print_ehdr (cmem s) (elf_start s) @ sh @ ph))))"

section \<open>Files\<close>

text \<open>\<open>startup\<close>: the file named by the first argument, mapped; \<open>map_file\<close> has its calls in the same order.\<close>

definition startup :: "'w host \<Rightarrow> byte list list \<Rightarrow> 'w \<times> clack \<Rightarrow> ('w \<times> clack) outcome" where
  "startup H argv = (\<lambda>(w, s).
     if length argv < 2 then ostop (Exited 1)
     else case map_file H (argv ! 1) (w, cmem s) of
       (_, Inl c) \<Rightarrow> ostop c
     | ((w, m), Inr (a, len)) \<Rightarrow> oreturn (w, s\<lparr>cmem := m, elf_start := a, elf_end := a + len\<rparr>))"

definition endup :: "'w host \<Rightarrow> 'w \<times> clack \<Rightarrow> ('w \<times> clack) outcome" where
  "endup H = (\<lambda>(w, s).
     case h_munmap H (elf_start s) (elf_end s - elf_start s) (w, cmem s) of (r, w, m) \<Rightarrow>
       if r < 0 then ostop (Exited 1) else oreturn (w, s\<lparr>cmem := m, elf_start := NULL, elf_end := NULL\<rparr>))"

text \<open>The part of a path after its last slash, and the name of the new file in a buffer of 100 bytes.\<close>

definition after_slash :: "byte list \<Rightarrow> byte list" where
  "after_slash f = rev (takeWhile (\<lambda>c. c \<noteq> 47) (rev f))"

definition crack_name :: "byte list \<Rightarrow> byte list" where
  "crack_name f = take 99 (after_slash f @ lit ''.crack'')"

text \<open>\<open>O_CREAT|O_RDWR|O_TRUNC\<close> is 578, the mode is 0700. Every failure is reported and leaves the function; the
  result of \<open>munmap\<close> and \<open>close\<close> only changes what is printed.\<close>

definition create_exe :: "'w host \<Rightarrow> byte list \<Rightarrow> segment \<Rightarrow> 'w \<times> clack \<Rightarrow> ('w \<times> clack) outcome" where
  "create_exe H filename newseg = (\<lambda>(w, s).
     let len = exe_length newseg s
     in case h_open H (crack_name filename) 578 448 (w, cmem s) of (fd, w, m) \<Rightarrow>
        if fd < 0 then oreturn (w, s\<lparr>cmem := m\<rparr>)
        else
          obind
            (case h_ftruncate H fd len (w, m) of (r, w, m) \<Rightarrow>
               if r < 0 then oreturn (w, s\<lparr>cmem := m\<rparr>)
               else case h_mmap H len PROT_RW HOST_SHARED fd (w, m) of (a, w, m) \<Rightarrow>
                 if a = HOST_MAP_FAILED then oreturn (w, s\<lparr>cmem := m\<rparr>)
                 else obind (dump_elf a newseg (s\<lparr>cmem := m\<rparr>)) (\<lambda>s.
                   case h_munmap H a len (w, cmem s) of (_, w, m) \<Rightarrow> oreturn (w, s\<lparr>cmem := m\<rparr>))) (\<lambda>(w, s).
          case h_close H fd (w, cmem s) of (_, w, m) \<Rightarrow> oreturn (w, s\<lparr>cmem := m\<rparr>)))"

section \<open>The programs\<close>

definition crack_main :: "'w host \<Rightarrow> allocator \<Rightarrow> addr \<Rightarrow> addr \<Rightarrow> byte list list \<Rightarrow> 'w \<times> clack \<Rightarrow> ('w \<times> clack) outcome" where
  "crack_main H al crack_code lit_message argv st =
     obind (startup H argv st) (\<lambda>(w, s).
     obind (analyze al s) (\<lambda>s.
     obind (add_new_segment al 1024 s) (\<lambda>(s, g, new_size).
     obind (create_exe H (argv ! 1) g (w, do_crack crack_code lit_message g s)) (endup H))))"

definition show_main :: "'w host \<Rightarrow> allocator \<Rightarrow> byte list list \<Rightarrow> 'w \<times> clack \<Rightarrow> (('w \<times> clack) \<times> byte list) outcome" where
  "show_main H al argv st =
     obind (startup H argv st) (\<lambda>(w, s).
     obind (show_elf al s) (\<lambda>(s, t).
     obind (endup H (w, s)) (\<lambda>st. oreturn (st, t))))"

end
