(* ===== verification/Clack_Image.thy ===== *)
theory Clack_Image
  imports Clack_Props Clack_Tool
begin

text \<open>
  The file that \<open>dump_elf\<close> writes: the old contents, the new segment, the moved section headers, the moved
  program headers and the header of the new segment, each at the place the new ELF header gives.
\<close>

section \<open>Copies and fields\<close>

lemma memcpy_mem:
  assumes "a + n \<le> 2 ^ 64" and "b + n \<le> 2 ^ 64" and "n < 2 ^ 64" and "{a ..< a + n} \<inter> {b ..< b + n} = {}"
  shows "fst (memcpy (ptr a) (ptr b) (ptr n) m) = (\<lambda>x. if unat x \<in> {a ..< a + n} then m (ptr (b + (unat x - a))) else m x)"
proof
  fix x :: addr
  obtain i where x: "x = ptr i" "i < 2 ^ 64" by (rule ex_ptr)
  then have u: "unat x = i" by (simp add: unat_ptr)
  note M = memcpy_ptr [OF assms]
  show "fst (memcpy (ptr a) (ptr b) (ptr n) m) x = (if unat x \<in> {a ..< a + n} then m (ptr (b + (unat x - a))) else m x)"
  proof (cases "i \<in> {a ..< a + n}")
    case True
    then have "i = a + (i - a)" "i - a < n" by auto
    then show ?thesis using M(1) [of "i - a" m] True x u by (simp add: memcpy_def)
  next
    case False
    then have "memcpy_loop (ptr a) (ptr b) (ptr n) m x = m x" using M(2) [of m] u by (simp add: unchanged_outside_def)
    then show ?thesis using False u by (auto simp: memcpy_def)
  qed
qed

lemma unchanged_load16:
  assumes "unchanged_outside S m m'" and "{a ..< a + 2} \<inter> S = {}" and "a + 2 \<le> 2 ^ 64"
  shows "load16 m' (ptr a) = load16 m (ptr a)"
proof (rule m16.load_cong)
  fix x :: addr
  assume x: "in_range (ptr a) 2 x"
  have "unat x \<in> {a ..< a + 2}"
    using x assms(3) unsigned_less [of x] in_range_ptr [of a 2 "unat x"] by simp
  with assms show "m' x = m x" by (auto simp: unchanged_outside_def)
qed

lemma load16_store64_ptr:
  assumes "a + 8 \<le> b \<or> b + 2 \<le> a" and "a + 8 \<le> 2 ^ 64" and "b + 2 \<le> 2 ^ 64"
  shows "load16 (store64 m (ptr a) v) (ptr b) = load16 m (ptr b)"
  by (rule unchanged_load16 [of "{a ..< a + 8}"]) (use assms in \<open>auto intro: unchanged_store64\<close>)

text \<open>A cell of memory that is a copy of another.\<close>

lemma load64_moved:
  assumes "\<And>i. i < 8 \<Longrightarrow> m' (ptr (a + i)) = m (ptr (b + i))"
  shows "load64 m' (ptr a) = load64 m (ptr b)"
proof -
  have "read_bytes m' (ptr a) 8 = read_bytes m (ptr b) 8"
    by (rule nth_equalityI) (use assms in \<open>simp_all add: nth_read_bytes\<close>)
  then show ?thesis by (simp add: load64_def)
qed

lemma load32_moved:
  assumes "\<And>i. i < 4 \<Longrightarrow> m' (ptr (a + i)) = m (ptr (b + i))"
  shows "load32 m' (ptr a) = load32 m (ptr b)"
proof -
  have "read_bytes m' (ptr a) 4 = read_bytes m (ptr b) 4"
    by (rule nth_equalityI) (use assms in \<open>simp_all add: nth_read_bytes\<close>)
  then show ?thesis by (simp add: load32_def)
qed

lemma load16_moved:
  assumes "\<And>i. i < 2 \<Longrightarrow> m' (ptr (a + i)) = m (ptr (b + i))"
  shows "load16 m' (ptr a) = load16 m (ptr b)"
proof -
  have "read_bytes m' (ptr a) 2 = read_bytes m (ptr b) 2"
    by (rule nth_equalityI) (use assms in \<open>simp_all add: nth_read_bytes\<close>)
  then show ?thesis by (simp add: load16_def)
qed

section \<open>What \<open>dump_elf\<close> starts from\<close>

text \<open>
  The numbers in the headers: sizes of the two tables, offset and size of the new segment. The products
  are computed as \<open>int\<close>.
\<close>

definition sh_bytes :: "mem \<Rightarrow> addr \<Rightarrow> nat" where
  "sh_bytes m h = unat (e_shentsize m h) * unat (e_shnum m h)"

definition ph_bytes :: "mem \<Rightarrow> addr \<Rightarrow> nat \<Rightarrow> nat" where
  "ph_bytes m h n = unat (e_phentsize m h) * n"

lemma scast_small: "n < 2 ^ 31 \<Longrightarrow> (scast (word_of_nat n :: 32 word) :: addr) = ptr n"
proof -
  assume "n < 2 ^ 31"
  then have "signed_take_bit 31 (int n) = int n" by (intro signed_take_bit_int_eq_self) simp_all
  then have "sint (word_of_nat n :: 32 word) = int n" by (simp add: signed_of_nat)
  then show ?thesis by (metis of_int_of_nat_eq scast_eq)
qed

lemma shdr_bytes_nat: "shdr_bytes m h = word_of_nat (sh_bytes m h)"
  by (simp add: shdr_bytes_def sh_bytes_def)

lemma phdr_bytes_nat: "phdr_bytes m h (word_of_nat n) = word_of_nat (ph_bytes m h n)"
  by (simp add: phdr_bytes_def ph_bytes_def)

text \<open>
  \<open>image_ok s g H S N D L\<close>: the old file of \<open>osz\<close> bytes is at \<open>H\<close>, the mapping of the new one of \<open>L\<close> bytes at \<open>S\<close>, the
  header of the new segment at \<open>N\<close> and its contents at \<open>D\<close>. They do not meet, the tables are in the old file
  behind its header, there is no \<open>PT_PHDR\<close> segment, and everything fits into the new file.
\<close>

definition image_ok :: "clack \<Rightarrow> segment \<Rightarrow> nat \<Rightarrow> nat \<Rightarrow> nat \<Rightarrow> nat \<Rightarrow> nat \<Rightarrow> nat \<Rightarrow> bool" where
  "image_ok s g H osz S L N D \<longleftrightarrow>
     (let m = cmem s; h = ptr H; off = unat (p_offset m (ptr N)); fz = unat (p_filesz m (ptr N));
          sb = sh_bytes m h; pn = unat (e_phnum m h); so = unat (e_shoff m h); po = unat (e_phoff m h)
      in elf_start s = ptr H \<and> elf_end s = ptr (H + osz) \<and> seg_phdr g = ptr N \<and> seg_data g = ptr D \<and>
         64 \<le> osz \<and> osz \<le> L \<and> H + osz < 2 ^ 64 \<and> N + 56 < 2 ^ 64 \<and> S + L < 2 ^ 64 \<and> D + fz + sb + ph_bytes m h pn < 2 ^ 64 \<and>
         sb + ph_bytes m h pn < 2 ^ 31 \<and> e_phentsize m h = 56 \<and> 1 \<le> pn \<and>
         64 \<le> so \<and> so + sb \<le> osz \<and> 64 \<le> po \<and> po + ph_bytes m h (pn - 1) \<le> osz \<and>
         64 \<le> off \<and> off + fz + sb + ph_bytes m h pn \<le> L \<and>
         {S ..< S + L} \<inter> ({H ..< H + osz} \<union> {N ..< N + 56} \<union> {D ..< D + fz + sb + ph_bytes m h pn}) = {} \<and>
         {N ..< N + 56} \<inter> {H ..< H + osz} = {} \<and> {D ..< D + fz} \<inter> ({H ..< H + 64} \<union> {N ..< N + 56}) = {} \<and>
         (\<forall>q \<in> set (segments s). p_type m (seg_phdr q) \<noteq> PT_PHDR \<and>
            (\<exists>a. seg_phdr q = ptr a \<and> a + 4 < 2 ^ 64 \<and> {a ..< a + 4} \<inter> {H ..< H + 64} = {})))"

section \<open>The steps\<close>

abbreviation copy :: "nat \<Rightarrow> nat \<Rightarrow> nat \<Rightarrow> mem \<Rightarrow> mem" where
  "copy a b n m \<equiv> fst (memcpy (ptr a) (ptr b) (ptr n) m)"

definition head_edit :: "nat \<Rightarrow> nat \<Rightarrow> nat \<Rightarrow> mem \<Rightarrow> mem" where
  "head_edit H sho pho m = store64 (store64 m (ptr (H + 40)) (ptr sho)) (ptr (H + 32)) (ptr pho)"

lemma head_edit_fields:
  assumes "H + 64 < 2 ^ 64" and "m = head_edit H sho pho m0"
  shows "e_shoff m (ptr H) = ptr sho" "e_phoff m (ptr H) = ptr pho" "e_shentsize m (ptr H) = e_shentsize m0 (ptr H)"
    "e_shnum m (ptr H) = e_shnum m0 (ptr H)" "e_phentsize m (ptr H) = e_phentsize m0 (ptr H)" "e_phnum m (ptr H) = e_phnum m0 (ptr H)"
    "e_entry m (ptr H) = e_entry m0 (ptr H)" "unchanged_outside {H ..< H + 64} m0 m"
proof -
  show "unchanged_outside {H ..< H + 64} m0 m"
    unfolding assms(2) head_edit_def
    by (rule unchanged_trans; rule unchanged_store64) (use assms(1) in auto)
qed (use assms in \<open>simp_all add: head_edit_def e_shoff_def e_phoff_def e_shentsize_def e_shnum_def e_phentsize_def e_phnum_def e_entry_def
  m64.load_store_ptr load16_store64_ptr\<close>)

lemma header_frame:
  assumes "unchanged_outside W m m'" and "{H ..< H + 64} \<inter> W = {}" and "H + 64 < 2 ^ 64"
  shows "e_shoff m' (ptr H) = e_shoff m (ptr H)" "e_phoff m' (ptr H) = e_phoff m (ptr H)" "e_shentsize m' (ptr H) = e_shentsize m (ptr H)"
    "e_shnum m' (ptr H) = e_shnum m (ptr H)" "e_phentsize m' (ptr H) = e_phentsize m (ptr H)" "e_phnum m' (ptr H) = e_phnum m (ptr H)"
proof -
  have sub: "{H + i ..< H + i + n} \<inter> W = {}" if "i + n \<le> 64" for i n
  proof -
    have "{H + i ..< H + i + n} \<subseteq> {H ..< H + 64}" using that by auto
    then show ?thesis using assms(2) by blast
  qed
  note l64 = unchanged_load64 [OF assms(1) sub] and l16 = unchanged_load16 [OF assms(1) sub]
  show "e_shoff m' (ptr H) = e_shoff m (ptr H)" "e_phoff m' (ptr H) = e_phoff m (ptr H)" "e_shentsize m' (ptr H) = e_shentsize m (ptr H)"
    "e_shnum m' (ptr H) = e_shnum m (ptr H)" "e_phentsize m' (ptr H) = e_phentsize m (ptr H)" "e_phnum m' (ptr H) = e_phnum m (ptr H)"
    using l64 [of 40] l64 [of 32] l16 [of 58] l16 [of 60] l16 [of 54] l16 [of 56] assms(3)
    by (simp_all add: e_shoff_def e_phoff_def e_shentsize_def e_shnum_def e_phentsize_def e_phnum_def)
qed

lemma load32_frame:
  assumes "unchanged_outside W m m'" and "{a ..< a + 4} \<inter> W = {}" and "a + 4 \<le> 2 ^ 64"
  shows "load32 m' (ptr a) = load32 m (ptr a)"
proof (rule m32.load_cong)
  fix x :: addr
  assume x: "in_range (ptr a) 4 x"
  have "unat x \<in> {a ..< a + 4}"
    using x assms(3) unsigned_less [of x] in_range_ptr [of a 4 "unat x"] by simp
  with assms show "m' x = m x" by (auto simp: unchanged_outside_def)
qed

lemma phdr_frame:
  assumes "unchanged_outside W m m'" and "{N ..< N + 56} \<inter> W = {}" and "N + 56 < 2 ^ 64"
  shows "p_offset m' (ptr N) = p_offset m (ptr N)" "p_filesz m' (ptr N) = p_filesz m (ptr N)"
    "p_vaddr m' (ptr N) = p_vaddr m (ptr N)" "p_type m' (ptr N) = p_type m (ptr N)"
proof -
  have sub: "{N + i ..< N + i + n} \<inter> W = {}" if "i + n \<le> 56" for i n
  proof -
    have "{N + i ..< N + i + n} \<subseteq> {N ..< N + 56}" using that by auto
    then show ?thesis using assms(2) by blast
  qed
  note l64 = unchanged_load64 [OF assms(1) sub] and l32 = load32_frame [OF assms(1) sub [of 0 4]]
  show "p_offset m' (ptr N) = p_offset m (ptr N)" "p_filesz m' (ptr N) = p_filesz m (ptr N)"
    "p_vaddr m' (ptr N) = p_vaddr m (ptr N)" "p_type m' (ptr N) = p_type m (ptr N)"
    using l64 [of 8] l64 [of 32] l64 [of 16] l32 assms(3) by (simp_all add: p_offset_def p_filesz_def p_vaddr_def p_type_def)
qed

lemma copy_frame:
  assumes "S \<le> a" and "a + n \<le> S + L" and "S + L < 2 ^ 64" and "b + n < 2 ^ 64" and "{S ..< S + L} \<inter> {b ..< b + n} = {}"
  shows "unchanged_outside {S ..< S + L} m (copy a b n m)"
proof -
  have "{a ..< a + n} \<subseteq> {S ..< S + L}" using assms(1,2) by auto
  then have "{a ..< a + n} \<inter> {b ..< b + n} = {}" using assms(5) by blast
  then have "copy a b n m = (\<lambda>x. if unat x \<in> {a ..< a + n} then m (ptr (b + (unat x - a))) else m x)"
    using assms by (intro memcpy_mem) simp_all
  then show ?thesis using \<open>{a ..< a + n} \<subseteq> {S ..< S + L}\<close> by (auto simp: unchanged_outside_def)
qed

lemma copy_at:
  assumes "S \<le> a" and "a + n \<le> S + L" and "S + L < 2 ^ 64" and "b + n < 2 ^ 64" and "{S ..< S + L} \<inter> {b ..< b + n} = {}" and "x < 2 ^ 64"
  shows "copy a b n m (ptr x) = (if x \<in> {a ..< a + n} then m (ptr (b + (x - a))) else m (ptr x))"
proof -
  have "{a ..< a + n} \<subseteq> {S ..< S + L}" using assms(1,2) by auto
  then have "{a ..< a + n} \<inter> {b ..< b + n} = {}" using assms(5) by blast
  then have "copy a b n m = (\<lambda>x. if unat x \<in> {a ..< a + n} then m (ptr (b + (unat x - a))) else m x)"
    using assms by (intro memcpy_mem) simp_all
  then show ?thesis using assms(6) by (simp add: unat_ptr)
qed

text \<open>The first edits of the header, and that no segment needs to be moved.\<close>

lemma first_edit:
  assumes "H + 64 < 2 ^ 64" and "m = store64 m0 (ptr (H + 40)) (ptr sho)" and "sh_bytes m0 (ptr H) < 2 ^ 31"
  shows "e_shoff m (ptr H) = ptr sho" and "scast (shdr_bytes m (ptr H)) = ptr (sh_bytes m0 (ptr H))"
proof -
  have "e_shentsize m (ptr H) = e_shentsize m0 (ptr H)" "e_shnum m (ptr H) = e_shnum m0 (ptr H)"
    using assms(1) by (simp_all add: assms(2) e_shentsize_def e_shnum_def load16_store64_ptr)
  then have "sh_bytes m (ptr H) = sh_bytes m0 (ptr H)" by (simp add: sh_bytes_def)
  then show "scast (shdr_bytes m (ptr H)) = ptr (sh_bytes m0 (ptr H))" using scast_small [OF assms(3)] by (simp add: shdr_bytes_nat)
  show "e_shoff m (ptr H) = ptr sho" by (simp add: assms(2) e_shoff_def)
qed

text \<open>The sizes of the tables as the code computes them, in a memory with the header of \<open>m1\<close>.\<close>

lemma table_sizes:
  assumes "unchanged_outside W m1 m" and "{H ..< H + 64} \<inter> W = {}" and H: "H + 64 < 2 ^ 64" and m1: "m1 = head_edit H sho pho m0"
    and "sb = sh_bytes m0 (ptr H)" and "pb = ph_bytes m0 (ptr H) (unat (e_phnum m0 (ptr H)) - 1)"
    and "unat (e_phentsize m0 (ptr H)) = 56" and "1 \<le> unat (e_phnum m0 (ptr H))" and "sb + (pb + 56) < 2 ^ 31"
  shows "e_shoff m (ptr H) = ptr sho" "e_phoff m (ptr H) = ptr pho" "scast (shdr_bytes m (ptr H)) = ptr sb"
    "scast (phdr_bytes m (ptr H) (phnum_int m (ptr H)) + shdr_bytes m (ptr H)) = ptr (pb + 56 + sb)"
    "scast (phdr_bytes m (ptr H) (phnum_int m (ptr H) - 1)) = ptr pb" "ucast (e_phentsize m (ptr H)) = (56 :: addr)"
proof -
  note F = header_frame [OF assms(1-3)] and E = head_edit_fields [OF H m1]
  let ?n = "unat (e_phnum m0 (ptr H))"
  show "e_shoff m (ptr H) = ptr sho" "e_phoff m (ptr H) = ptr pho" by (simp_all add: F E)
  have sb: "sh_bytes m (ptr H) = sb" by (simp add: sh_bytes_def F E assms(5))
  have pn: "phnum_int m (ptr H) = word_of_nat ?n" by (simp add: phnum_int_def F E)
  have pe: "ph_bytes m (ptr H) k = 56 * k" "ph_bytes m0 (ptr H) k = 56 * k" for k by (simp_all add: ph_bytes_def F E assms(7))
  have pn1: "phnum_int m (ptr H) - 1 = word_of_nat (?n - 1)" unfolding pn using assms(8) by (simp add: of_nat_diff of_nat_Suc)
  have all: "56 * ?n = pb + 56" unfolding assms(6) pe using assms(8) by (cases ?n) auto
  show "scast (shdr_bytes m (ptr H)) = ptr sb" unfolding shdr_bytes_nat sb using assms(9) by (intro scast_small) simp
  show "scast (phdr_bytes m (ptr H) (phnum_int m (ptr H) - 1)) = ptr pb"
    unfolding pn1 phdr_bytes_nat pe using assms(9) unfolding assms(6) pe by (intro scast_small) simp
  have "phdr_bytes m (ptr H) (phnum_int m (ptr H)) + shdr_bytes m (ptr H) = word_of_nat (pb + 56 + sb)"
    unfolding pn phdr_bytes_nat shdr_bytes_nat pe sb all by (simp add: of_nat_add)
  then show "scast (phdr_bytes m (ptr H) (phnum_int m (ptr H)) + shdr_bytes m (ptr H)) = ptr (pb + 56 + sb)"
    using assms(9) scast_small [of "pb + 56 + sb"] by simp
  have "ucast (e_phentsize m (ptr H)) = ptr (unat (e_phentsize m (ptr H)))" by simp
  then show "ucast (e_phentsize m (ptr H)) = (56 :: addr)" by (simp add: F E assms(7))
qed

lemma find_pos_None: "(\<forall>x \<in> set xs. \<not> P x) \<Longrightarrow> find_pos P xs = None"
  by (induction xs) auto

lemma no_phdr_segment:
  assumes "\<forall>q \<in> set (segments s). p_type (cmem s) (seg_phdr q) \<noteq> PT_PHDR \<and>
      (\<exists>a. seg_phdr q = ptr a \<and> a + 4 < 2 ^ 64 \<and> {a ..< a + 4} \<inter> {H ..< H + 64} = {})"
    and "unchanged_outside {H ..< H + 64} (cmem s) m"
  shows "find_segment_by_type (s\<lparr>cmem := m\<rparr>) PT_PHDR = None"
proof -
  have "p_type m (seg_phdr q) \<noteq> PT_PHDR" if q: "q \<in> set (segments s)" for q
  proof -
    obtain a where "seg_phdr q = ptr a" "a + 4 < 2 ^ 64" "{a ..< a + 4} \<inter> {H ..< H + 64} = {}" using assms(1) q by blast
    then have "p_type m (seg_phdr q) = p_type (cmem s) (seg_phdr q)"
      using load32_frame [OF assms(2), of a] by (simp add: p_type_def)
    then show ?thesis using assms(1) q by simp
  qed
  then show ?thesis by (simp add: find_segment_by_type_def find_pos_None)
qed

definition final_image :: "nat \<Rightarrow> nat \<Rightarrow> nat \<Rightarrow> nat \<Rightarrow> nat \<Rightarrow> nat \<Rightarrow> nat \<Rightarrow> nat \<Rightarrow> nat \<Rightarrow> nat \<Rightarrow> nat \<Rightarrow> mem \<Rightarrow> mem" where
  "final_image S H N D off fz sb so po pb big m =
     copy (S + (off + fz + sb + pb)) N 56 (copy (S + (off + fz + sb)) (H + po) pb (copy (S + (off + fz)) (H + so) sb
       (copy S H 64 (copy (S + off) D big m))))"

lemma let_step: "a = b \<Longrightarrow> f b = r \<Longrightarrow> (let x = a in f x) = r"
  by simp

lemma image_okD:
  assumes ok: "image_ok s g H osz S L N D" and off: "off = unat (p_offset (cmem s) (ptr N))" and fz: "fz = unat (p_filesz (cmem s) (ptr N))"
    and sb: "sb = sh_bytes (cmem s) (ptr H)" and pb: "pb = ph_bytes (cmem s) (ptr H) (unat (e_phnum (cmem s) (ptr H)) - 1)"
    and so: "so = unat (e_shoff (cmem s) (ptr H))" and po: "po = unat (e_phoff (cmem s) (ptr H))" and big: "big = fz + (pb + 56 + sb)"
  shows "{S ..< S + L} \<inter> {H ..< H + osz} = {}" "{S ..< S + L} \<inter> {N ..< N + 56} = {}" "{S ..< S + L} \<inter> {D ..< D + big} = {}"
    and "{N ..< N + 56} \<inter> {H ..< H + osz} = {}" and "{D ..< D + fz} \<inter> ({H ..< H + 64} \<union> {N ..< N + 56}) = {}"
    and "64 \<le> osz" "osz \<le> L" "H + osz < 2 ^ 64" "N + 56 < 2 ^ 64" "S + L < 2 ^ 64" "D + big < 2 ^ 64" "sb + (pb + 56) < 2 ^ 31"
      "64 \<le> so" "so + sb \<le> osz" "64 \<le> po" "po + pb \<le> osz" "64 \<le> off" "off + fz + sb + (pb + 56) \<le> L"
    and "elf_start s = ptr H" "elf_end s - elf_start s = ptr osz" "seg_phdr g = ptr N" "seg_data g = ptr D"
      "unat (e_phentsize (cmem s) (ptr H)) = 56" "1 \<le> unat (e_phnum (cmem s) (ptr H))"
    and "\<forall>q \<in> set (segments s). p_type (cmem s) (seg_phdr q) \<noteq> PT_PHDR \<and>
      (\<exists>a. seg_phdr q = ptr a \<and> a + 4 < 2 ^ 64 \<and> {a ..< a + 4} \<inter> {H ..< H + 64} = {})"
proof -
  note K = ok [unfolded image_ok_def Let_def, folded off fz sb so po]
  have pn: "ph_bytes (cmem s) (ptr H) (unat (e_phnum (cmem s) (ptr H))) = pb + 56"
    using K unfolding pb ph_bytes_def by (cases "unat (e_phnum (cmem s) (ptr H))") auto
  note K = K [unfolded pn, folded pb]
  have "D + fz + sb + (pb + 56) = D + big" by (simp add: big)
  moreover have "{S ..< S + L} \<inter> ({H ..< H + osz} \<union> {N ..< N + 56} \<union> {D ..< D + fz + sb + (pb + 56)}) = {}"
    using K by (elim conjE) assumption
  ultimately show "{S ..< S + L} \<inter> {H ..< H + osz} = {}" "{S ..< S + L} \<inter> {N ..< N + 56} = {}" "{S ..< S + L} \<inter> {D ..< D + big} = {}"
    by (simp_all only: Int_Un_distrib Un_empty)
  show "{N ..< N + 56} \<inter> {H ..< H + osz} = {}" using K by (elim conjE) assumption
  show "{D ..< D + fz} \<inter> ({H ..< H + 64} \<union> {N ..< N + 56}) = {}" using K by (elim conjE) assumption
  show "64 \<le> osz" "osz \<le> L" "H + osz < 2 ^ 64" "N + 56 < 2 ^ 64" "S + L < 2 ^ 64" "D + big < 2 ^ 64" "sb + (pb + 56) < 2 ^ 31"
      "64 \<le> so" "so + sb \<le> osz" "64 \<le> po" "po + pb \<le> osz" "64 \<le> off" "off + fz + sb + (pb + 56) \<le> L"
    using K by (simp_all add: big)
  show "elf_start s = ptr H" "elf_end s - elf_start s = ptr osz" "seg_phdr g = ptr N" "seg_data g = ptr D"
      "unat (e_phentsize (cmem s) (ptr H)) = 56" "1 \<le> unat (e_phnum (cmem s) (ptr H))"
    using K by simp_all
  show "\<forall>q \<in> set (segments s). p_type (cmem s) (seg_phdr q) \<noteq> PT_PHDR \<and>
      (\<exists>a. seg_phdr q = ptr a \<and> a + 4 < 2 ^ 64 \<and> {a ..< a + 4} \<inter> {H ..< H + 64} = {})"
    using K by (elim conjE) assumption
qed

lemma dump_elf_run:
  assumes ok: "image_ok s g H osz S L N D" and off: "off = unat (p_offset (cmem s) (ptr N))" and fz: "fz = unat (p_filesz (cmem s) (ptr N))"
    and sb: "sb = sh_bytes (cmem s) (ptr H)" and pb: "pb = ph_bytes (cmem s) (ptr H) (unat (e_phnum (cmem s) (ptr H)) - 1)"
    and so: "so = unat (e_shoff (cmem s) (ptr H))" and po: "po = unat (e_phoff (cmem s) (ptr H))" and big: "big = fz + (pb + 56 + sb)"
    and m1: "m1 = head_edit H (off + fz) (off + fz + sb) (cmem s)" and m2: "m2 = copy S H osz m1"
    and m4: "m4 = store64 (store64 m2 (ptr (N + 32)) (ptr big)) (ptr (N + 40)) (ptr big)"
  shows "dump_elf (ptr S) g s = oreturn (s\<lparr>cmem := final_image S H N D off fz sb so po pb big m4\<rparr>)"
    and "unchanged_outside ({S ..< S + L} \<union> {N ..< N + 56}) m1 m4"
proof -
  note K = image_okD [OF ok off fz sb pb so po big]
  note T = K(1-3) and NH = K(4) and bnd = K(6-18) and base = K(19-24)
  have H64: "H + 64 < 2 ^ 64" using bnd by linarith
  note E = head_edit_fields [OF H64 m1]
  have none: "find_segment_by_type (s\<lparr>cmem := m1\<rparr>) PT_PHDR = None" by (rule no_phdr_segment [OF K(25) E(8)])
  have u2: "unchanged_outside {S ..< S + L} m1 m2" unfolding m2 using T bnd by (intro copy_frame) auto
  have H_T: "{H ..< H + 64} \<inter> {S ..< S + L} = {}" "{H ..< H + 64} \<inter> ({S ..< S + L} \<union> {N ..< N + 56}) = {}" and N_H: "{N ..< N + 56} \<inter> {H ..< H + 64} = {}"
  proof -
    have "{H ..< H + 64} \<subseteq> {H ..< H + osz}" using bnd(1) by auto
    then show "{H ..< H + 64} \<inter> {S ..< S + L} = {}" "{H ..< H + 64} \<inter> ({S ..< S + L} \<union> {N ..< N + 56}) = {}" "{N ..< N + 56} \<inter> {H ..< H + 64} = {}"
      using T(1) NH by blast+
  qed
  note P1 = phdr_frame [OF E(8) N_H bnd(4)]
  have P2: "p_offset m2 (ptr N) = ptr off" "p_filesz m2 (ptr N) = ptr fz"
    using phdr_frame [OF u2 _ bnd(4)] T(2) P1 by (simp_all add: Int_commute off fz)
  define m3 where "m3 = store64 m2 (ptr (N + 32)) (ptr big)"
  have m34: "m4 = store64 m3 (ptr (N + 40)) (ptr big)" by (simp add: m4 m3_def)
  have P3: "p_filesz m3 (ptr N) = ptr big" and P4: "p_filesz m4 (ptr N) = ptr big" "p_offset m4 (ptr N) = ptr off"
    using bnd(4) P2 by (simp_all add: m34 m3_def p_filesz_def p_offset_def m64.load_store_ptr)
  show u4: "unchanged_outside ({S ..< S + L} \<union> {N ..< N + 56}) m1 m4"
  proof -
    have "unchanged_outside {N ..< N + 56} m2 m3" "unchanged_outside {N ..< N + 56} m3 m4"
      unfolding m34 m3_def using bnd(4) by (auto intro!: unchanged_store64)
    then show ?thesis using u2 by (auto simp: unchanged_outside_def)
  qed
  define m5 where "m5 = copy (S + off) D big m4"
  define m6 where "m6 = copy S H 64 m5"
  define m7 where "m7 = copy (S + (off + fz)) (H + so) sb m6"
  define m8 where "m8 = copy (S + (off + fz + sb)) (H + po) pb m7"
  have sub_T: "{S ..< S + L} \<inter> {H + a ..< H + a + n} = {}" if "a + n \<le> osz" for a n
  proof -
    have "{H + a ..< H + a + n} \<subseteq> {H ..< H + osz}" using that by auto
    then show ?thesis using T(1) by blast
  qed
  have c5: "unchanged_outside {S ..< S + L} m4 m5" unfolding m5_def using T(3) bnd big by (intro copy_frame) auto
  have c6: "unchanged_outside {S ..< S + L} m5 m6" unfolding m6_def using H_T(1) bnd by (intro copy_frame) (auto simp: Int_commute)
  have c7: "unchanged_outside {S ..< S + L} m6 m7" unfolding m7_def using bnd by (intro copy_frame [OF _ _ _ _ sub_T]) auto
  have c8: "unchanged_outside {S ..< S + L} m7 m8" unfolding m8_def using bnd by (intro copy_frame [OF _ _ _ _ sub_T]) auto
  have w: "unchanged_outside ({S ..< S + L} \<union> {N ..< N + 56}) m1 m2" "unchanged_outside ({S ..< S + L} \<union> {N ..< N + 56}) m1 m6"
    "unchanged_outside ({S ..< S + L} \<union> {N ..< N + 56}) m1 m7" "unchanged_outside ({S ..< S + L} \<union> {N ..< N + 56}) m1 m8"
    using u2 u4 c5 c6 c7 c8 by (auto simp: unchanged_outside_def)
  note sizes = table_sizes [OF _ H_T(2) H64 m1 sb pb base(5,6) bnd(7)]
  define m0 where "m0 = store64 (cmem s) (ptr (H + 40)) (ptr (off + fz))"
  have "sb < 2 ^ 31" using bnd(7) by simp
  note first = first_edit [OF H64 m0_def, folded sb, OF this]
  have m01: "store64 m0 (ptr (H + 32)) (ptr (off + fz + sb)) = m1" by (simp add: m1 head_edit_def m0_def)
  have tabs: "PHDR s 0 = ptr (H + po)" "SHDR s 0 = ptr (H + so)"
    using bnd(8,10) by (auto simp: PHDR_def SHDR_def base(1) po so ptr_add_unat)
  have p0: "p_offset (cmem s) (ptr N) + p_filesz (cmem s) (ptr N) = ptr (off + fz)"
    using ptr_add [of off fz] by (simp add: off fz del: ptr_add)
  have move: "move_phdr_segment g (s\<lparr>cmem := m1\<rparr>) = oreturn m1" by (simp add: move_phdr_segment_def none Let_def)
  have e0: "store64 (cmem s) (ptr H + 40) (p_offset (cmem s) (ptr N) + p_filesz (cmem s) (ptr N)) = m0"
    and e1: "store64 m0 (ptr H + 32) (e_shoff m0 (ptr H) + scast (shdr_bytes m0 (ptr H))) = m1"
    and e2: "fst (memcpy (ptr S) (ptr H) (elf_end s - ptr H) m1) = m2"
    unfolding p0 first using base(1,2) by (simp_all add: m01 m2) (simp add: m0_def)
  have e3: "store64 m2 (ptr N + 32) (p_filesz m2 (ptr N) + scast (phdr_bytes m2 (ptr H) (phnum_int m2 (ptr H)) + shdr_bytes m2 (ptr H))) = m3"
    and e4: "store64 m3 (ptr N + 40) (p_filesz m3 (ptr N)) = m4"
    and e5: "fst (memcpy (ptr S + p_offset m4 (ptr N)) (ptr D) (p_filesz m4 (ptr N)) m4) = m5"
    and e6: "fst (memcpy (ptr S) (ptr H) 64 m5) = m6"
    unfolding P2 P3 P4 sizes [OF w(1)] by (simp_all add: m3_def m34 m5_def m6_def big)
  have e7: "fst (memcpy (ptr S + e_shoff m6 (ptr H)) (ptr (H + so)) (scast (shdr_bytes m6 (ptr H))) m6) = m7"
    and e8: "fst (memcpy (ptr S + e_phoff m7 (ptr H)) (ptr (H + po)) (scast (phdr_bytes m7 (ptr H) (phnum_int m7 (ptr H) - 1))) m7) = m8"
    and e9: "fst (memcpy (ptr S + e_phoff m8 (ptr H) + scast (phdr_bytes m8 (ptr H) (phnum_int m8 (ptr H) - 1))) (ptr N)
        (ucast (e_phentsize m8 (ptr H))) m8) = final_image S H N D off fz sb so po pb big m4"
    unfolding sizes [OF w(2)] sizes [OF w(3)] sizes [OF w(4)]
    by (simp_all add: m7_def m8_def final_image_def m6_def m5_def add.assoc)
  show "dump_elf (ptr S) g s = oreturn (s\<lparr>cmem := final_image S H N D off fz sb so po pb big m4\<rparr>)"
    unfolding dump_elf_def base tabs
    by (rule let_step [OF refl] | simp only: e0 e1 e2 e3 e4 e5 e6 e7 e8 e9 move obind_simps)+
qed

section \<open>The contents\<close>

text \<open>One copy into the new file, whose source is still as it was in \<open>m0\<close>.\<close>

lemma copy_into:
  assumes "unchanged_outside {S ..< S + L} m0 m" and "a + n \<le> L" and "S + L < 2 ^ 64" and "b + n < 2 ^ 64"
    and "{S ..< S + L} \<inter> {b ..< b + n} = {}" and "j < L"
  shows "copy (S + a) b n m (ptr (S + j)) = (if j \<in> {a ..< a + n} then m0 (ptr (b + (j - a))) else m (ptr (S + j)))"
    and "unchanged_outside {S ..< S + L} m0 (copy (S + a) b n m)"
proof -
  have "m (ptr (b + (j - a))) = m0 (ptr (b + (j - a)))" if j: "j \<in> {a ..< a + n}"
  proof -
    have in_b: "b + (j - a) \<in> {b ..< b + n}" using j by auto
    then have "b + (j - a) \<notin> {S ..< S + L}" using assms(5) by blast
    moreover have "b + (j - a) < 2 ^ 64" using in_b assms(4) by simp
    ultimately show ?thesis using assms(1) by (metis unchanged_outside_def unat_ptr)
  qed
  moreover have "copy (S + a) b n m (ptr (S + j)) =
      (if S + j \<in> {S + a ..< S + a + n} then m (ptr (b + (S + j - (S + a)))) else m (ptr (S + j)))"
    using assms by (intro copy_at [of S _ _ L]) simp_all
  moreover have "S + j \<in> {S + a ..< S + a + n} \<longleftrightarrow> j \<in> {a ..< a + n}" "S + j - (S + a) = j - a" by auto
  ultimately show "copy (S + a) b n m (ptr (S + j)) = (if j \<in> {a ..< a + n} then m0 (ptr (b + (j - a))) else m (ptr (S + j)))"
    by (cases "j \<in> {a ..< a + n}") (simp_all only: if_True if_False)
  have "unchanged_outside {S ..< S + L} m (copy (S + a) b n m)" using assms by (intro copy_frame) simp_all
  then show "unchanged_outside {S ..< S + L} m0 (copy (S + a) b n m)" by (rule unchanged_trans [OF assms(1)])
qed

lemma final_image_at:
  assumes T: "{S ..< S + L} \<inter> {H ..< H + osz} = {}" "{S ..< S + L} \<inter> {N ..< N + 56} = {}" "{S ..< S + L} \<inter> {D ..< D + big} = {}"
    and bnd: "64 \<le> osz" "osz \<le> L" "H + osz < 2 ^ 64" "N + 56 < 2 ^ 64" "S + L < 2 ^ 64" "D + big < 2 ^ 64"
      "so + sb \<le> osz" "po + pb \<le> osz" "off + fz + sb + (pb + 56) \<le> L" "big = fz + (pb + 56 + sb)"
    and j: "j < L"
  shows "final_image S H N D off fz sb so po pb big m (ptr (S + j)) =
     (if j \<in> {off + fz + sb + pb ..< off + fz + sb + pb + 56} then m (ptr (N + (j - (off + fz + sb + pb))))
      else if j \<in> {off + fz + sb ..< off + fz + sb + pb} then m (ptr (H + po + (j - (off + fz + sb))))
      else if j \<in> {off + fz ..< off + fz + sb} then m (ptr (H + so + (j - (off + fz))))
      else if j < 64 then m (ptr (H + j))
      else if j \<in> {off ..< off + big} then m (ptr (D + (j - off))) else m (ptr (S + j)))" (is ?at)
    and "unchanged_outside {S ..< S + L} m (final_image S H N D off fz sb so po pb big m)" (is ?frame)
proof -
  have sub: "{S ..< S + L} \<inter> {H + a ..< H + a + n} = {}" if "a + n \<le> osz" for a n
  proof -
    have "{H + a ..< H + a + n} \<subseteq> {H ..< H + osz}" using that by auto
    then show ?thesis using T(1) by blast
  qed
  have b: "off + big \<le> L" "0 + 64 \<le> L" "off + fz + sb \<le> L" "off + fz + sb + pb \<le> L" "off + fz + sb + pb + 56 \<le> L"
    "H + 0 + 64 < 2 ^ 64" "H + so + sb < 2 ^ 64" "H + po + pb < 2 ^ 64" "0 + 64 \<le> osz"
    using bnd by linarith+
  have e: "copy S H 64 x = copy (S + 0) (H + 0) 64 x" for x by simp
  note c5 = copy_into [OF unchanged_refl b(1) bnd(5,6) T(3) j]
  note c6 = copy_into [OF c5(2) b(2) bnd(5) b(6) sub [OF b(9)] j]
  note c7 = copy_into [OF c6(2) b(3) bnd(5) b(7) sub [OF bnd(7)] j]
  note c8 = copy_into [OF c7(2) b(4) bnd(5) b(8) sub [OF bnd(8)] j]
  note c9 = copy_into [OF c8(2) b(5) bnd(5,4) T(2) j]
  show ?frame unfolding final_image_def e by (rule c9(2))
  have "j \<in> {0 ..< 0 + 64} \<longleftrightarrow> j < 64" "H + 0 + (j - 0) = H + j" by simp_all
  then show ?at unfolding final_image_def e c9(1) c8(1) c7(1) c6(1) c5(1) by (simp only:)
qed

text \<open>The header of the new segment after the change of its sizes.\<close>

lemma phdr_edit:
  assumes "N + 56 < 2 ^ 64" and "m' = store64 (store64 m (ptr (N + 32)) v) (ptr (N + 40)) v"
  shows "p_offset m' (ptr N) = p_offset m (ptr N)" "p_filesz m' (ptr N) = v" "p_memsz m' (ptr N) = v"
    "p_vaddr m' (ptr N) = p_vaddr m (ptr N)" "p_type m' (ptr N) = p_type m (ptr N)" "unchanged_outside {N ..< N + 56} m m'"
proof -
  have u: "unchanged_outside {N + 32 ..< N + 48} m m'"
    unfolding assms(2) by (rule unchanged_trans; rule unchanged_store64) (use assms(1) in auto)
  then show "unchanged_outside {N ..< N + 56} m m'" by (rule unchanged_mono) auto
  show "p_type m' (ptr N) = p_type m (ptr N)"
    unfolding p_type_def by (rule load32_frame [OF u]) (use assms(1) in auto)
qed (use assms in \<open>simp_all add: p_offset_def p_filesz_def p_memsz_def p_vaddr_def m64.load_store_ptr\<close>)

lemma phdr_moved:
  assumes "\<And>i. i < 56 \<Longrightarrow> m' (ptr (a + i)) = m (ptr (b + i))"
  shows "p_offset m' (ptr a) = p_offset m (ptr b)" "p_filesz m' (ptr a) = p_filesz m (ptr b)" "p_memsz m' (ptr a) = p_memsz m (ptr b)"
    "p_vaddr m' (ptr a) = p_vaddr m (ptr b)" "p_type m' (ptr a) = p_type m (ptr b)"
proof -
  have "load64 m' (ptr (a + k)) = load64 m (ptr (b + k))" if "k + 8 \<le> 56" for k
    by (rule load64_moved) (use assms that in \<open>simp add: add.assoc\<close>)
  then show "p_offset m' (ptr a) = p_offset m (ptr b)" "p_filesz m' (ptr a) = p_filesz m (ptr b)" "p_memsz m' (ptr a) = p_memsz m (ptr b)"
    "p_vaddr m' (ptr a) = p_vaddr m (ptr b)"
    by (simp_all add: p_offset_def p_filesz_def p_memsz_def p_vaddr_def)
  show "p_type m' (ptr a) = p_type m (ptr b)" unfolding p_type_def by (rule load32_moved) (use assms in simp)
qed

lemma header_moved:
  assumes "\<And>i. i < 64 \<Longrightarrow> m' (ptr (a + i)) = m (ptr (b + i))"
  shows "e_shoff m' (ptr a) = e_shoff m (ptr b)" "e_phoff m' (ptr a) = e_phoff m (ptr b)" "e_entry m' (ptr a) = e_entry m (ptr b)"
    "e_phnum m' (ptr a) = e_phnum m (ptr b)"
proof -
  have "load64 m' (ptr (a + k)) = load64 m (ptr (b + k))" if "k + 8 \<le> 64" for k
    by (rule load64_moved) (use assms that in \<open>simp add: add.assoc\<close>)
  then show "e_shoff m' (ptr a) = e_shoff m (ptr b)" "e_phoff m' (ptr a) = e_phoff m (ptr b)" "e_entry m' (ptr a) = e_entry m (ptr b)"
    by (simp_all add: e_shoff_def e_phoff_def e_entry_def)
  have "load16 m' (ptr (a + 56)) = load16 m (ptr (b + 56))" by (rule load16_moved) (use assms in \<open>simp add: add.assoc\<close>)
  then show "e_phnum m' (ptr a) = e_phnum m (ptr b)" by (simp add: e_phnum_def)
qed

lemma new_file_bytes:
  assumes ok: "image_ok s g H osz S L N D" and off: "off = unat (p_offset (cmem s) (ptr N))" and fz: "fz = unat (p_filesz (cmem s) (ptr N))"
    and sb: "sb = sh_bytes (cmem s) (ptr H)" and pb: "pb = ph_bytes (cmem s) (ptr H) (unat (e_phnum (cmem s) (ptr H)) - 1)"
    and so: "so = unat (e_shoff (cmem s) (ptr H))" and po: "po = unat (e_phoff (cmem s) (ptr H))" and big: "big = fz + (pb + 56 + sb)"
    and m1: "m1 = head_edit H (off + fz) (off + fz + sb) (cmem s)" and m2: "m2 = copy S H osz m1"
    and m4: "m4 = store64 (store64 m2 (ptr (N + 32)) (ptr big)) (ptr (N + 40)) (ptr big)"
    and m': "m' = final_image S H N D off fz sb so po pb big m4"
  shows "\<And>i. i < 64 \<Longrightarrow> m' (ptr (S + i)) = m1 (ptr (H + i))"
    and "\<And>i. 64 \<le> i \<Longrightarrow> i < osz \<Longrightarrow> i < off \<Longrightarrow> m' (ptr (S + i)) = cmem s (ptr (H + i))"
    and "\<And>i. i < fz \<Longrightarrow> m' (ptr (S + (off + i))) = cmem s (ptr (D + i))"
    and "\<And>i. i < sb \<Longrightarrow> m' (ptr (S + (off + fz + i))) = cmem s (ptr (H + (so + i)))"
    and "\<And>i. i < pb \<Longrightarrow> m' (ptr (S + (off + fz + sb + i))) = cmem s (ptr (H + (po + i)))"
    and "\<And>i. i < 56 \<Longrightarrow> m' (ptr (S + (off + fz + sb + pb) + i)) = m4 (ptr (N + i))"
proof -
  note K = image_okD [OF ok off fz sb pb so po big]
  note run = dump_elf_run [OF ok off fz sb pb so po big m1 m2 m4]
  note at = final_image_at [OF K(1-3,6-11,14,16,18) big, of _ m4, folded m']
  have H64: "H + 64 < 2 ^ 64" using K(6,8) by linarith
  note E = head_edit_fields [OF H64 m1]
  have H_out: "H + a \<notin> {S ..< S + L} \<union> {N ..< N + 56}" if "a < osz" for a
  proof -
    have "H + a \<in> {H ..< H + osz}" using that by simp
    then show ?thesis using K(1,4) by blast
  qed
  have D_out: "D + i \<notin> {S ..< S + L} \<union> {N ..< N + 56} \<union> {H ..< H + 64}" if "i < fz" for i
  proof -
    have "D + i \<in> {D ..< D + fz}" "D + i \<in> {D ..< D + big}" using that big by simp_all
    then show ?thesis using K(3,5) by blast
  qed
  have keep: "m4 (ptr x) = cmem s (ptr x)" if "x < 2 ^ 64" "x \<notin> {S ..< S + L} \<union> {N ..< N + 56} \<union> {H ..< H + 64}" for x
    using run(2) E(8) that by (simp add: unchanged_outside_def unat_ptr)
  have keep_H: "m4 (ptr (H + a)) = cmem s (ptr (H + a))" if "64 \<le> a" "a < osz" for a
    by (rule keep) (use that H_out [of a] K(8) in auto)
  show "m' (ptr (S + i)) = m1 (ptr (H + i))" if "i < 64" for i
  proof -
    have "m' (ptr (S + i)) = m4 (ptr (H + i))" using that K by (subst at(1)) auto
    also have "\<dots> = m1 (ptr (H + i))"
      using run(2) H_out [of i] that K(6) H64 by (simp add: unchanged_outside_def unat_ptr)
    finally show ?thesis .
  qed
  show "m' (ptr (S + i)) = cmem s (ptr (H + i))" if "64 \<le> i" "i < osz" "i < off" for i
  proof -
    have "S + i \<in> {S ..< S + L}" using that K(7) by simp
    then have "S + i \<notin> {N ..< N + 56}" using K(2) by blast
    then have "m4 (ptr (S + i)) = m2 (ptr (S + i))"
      using phdr_edit(6) [OF K(9) m4] that K(7,10) by (simp add: unchanged_outside_def unat_ptr)
    moreover have "m2 (ptr (S + i)) = m1 (ptr (H + i))"
      using copy_into(1) [OF unchanged_refl, of 0 osz L S H i m1] K(1,7,8,10) that by (simp add: m2)
    moreover have "m1 (ptr (H + i)) = cmem s (ptr (H + i))"
      using E(8) that K(8) by (simp add: unchanged_outside_def unat_ptr)
    ultimately show ?thesis using that K by (subst at(1)) auto
  qed
  show "m' (ptr (S + (off + i))) = cmem s (ptr (D + i))" if "i < fz" for i
  proof -
    have "m' (ptr (S + (off + i))) = m4 (ptr (D + i))" using that K big by (subst at(1)) auto
    then show ?thesis using keep [OF _ D_out [OF that]] K(11) that big by simp
  qed
  show "m' (ptr (S + (off + fz + i))) = cmem s (ptr (H + (so + i)))" if "i < sb" for i
  proof -
    have "m' (ptr (S + (off + fz + i))) = m4 (ptr (H + (so + i)))" using that K by (subst at(1)) (auto simp: add.assoc)
    then show ?thesis using keep_H [of "so + i"] that K(13,14) by simp
  qed
  show "m' (ptr (S + (off + fz + sb + i))) = cmem s (ptr (H + (po + i)))" if "i < pb" for i
  proof -
    have "m' (ptr (S + (off + fz + sb + i))) = m4 (ptr (H + (po + i)))" using that K by (subst at(1)) (auto simp: add.assoc)
    then show ?thesis using keep_H [of "po + i"] that K(15,16) by simp
  qed
  show "m' (ptr (S + (off + fz + sb + pb) + i)) = m4 (ptr (N + i))" if "i < 56" for i
  proof -
    have "S + (off + fz + sb + pb) + i = S + (off + fz + sb + pb + i)" by simp
    then show ?thesis using that K(18) by (simp only:) (subst at(1), auto)
  qed
qed

section \<open>Properties\<close>


section \<open>Examples\<close>

text \<open>A file of 128 bytes at 4096 with one program header and a table of 8 bytes, and a new segment of 16 bytes.\<close>

definition demo_old :: mem where
  "demo_old = (\<lambda>_. 0)(4120 := 5, 4128 := 64, 4136 := 120, 4150 := 56, 4152 := 2, 4154 := 8, 4156 := 1, 4160 := 1,
     8192 := 1, 8200 := 128, 8224 := 16, 12288 := 7)"

definition demo_new_segment :: segment where
  "demo_new_segment = \<lparr>seg_index = 1, seg_phdr = 8192, seg_data = 12288, seg_sections = []\<rparr>"

definition demo_crack :: clack where
  "demo_crack = \<lparr>cmem = demo_old, elf_start = 4096, elf_end = 4224,
     segments = [\<lparr>seg_index = 0, seg_phdr = 4160, seg_data = 4096, seg_sections = []\<rparr>, demo_new_segment], sections = [], nalloc = 3\<rparr>"

lemma demo_old_fields:
  "p_offset demo_old 8192 = 128" "p_filesz demo_old 8192 = 16" "p_type demo_old 8192 = 1" "p_type demo_old 4160 = 1" "e_shoff demo_old 4096 = 120"
  "e_phoff demo_old 4096 = 64" "e_shentsize demo_old 4096 = 8" "e_shnum demo_old 4096 = 1" "e_phentsize demo_old 4096 = 56"
  "e_phnum demo_old 4096 = 2"
  by (simp_all add: p_offset_def p_filesz_def p_type_def e_shoff_def e_phoff_def e_shentsize_def e_shnum_def e_phentsize_def e_phnum_def
      demo_old_def word_loads)


end
