(* ===== verification/Spec2Isabelle.thy ===== *)
theory Spec2Isabelle
  imports Malloc_Limits Malloc_Debug Load_Libraries_Props Rtld_Props
    Console_Props Reloc_Info_Props Clack_Image
begin

text \<open>
  Verification of \<open>binary-lab\<close>: a dynamic loader for x86-64 ELF programs that runs without a C library
  (\<open>elf-loader\<close>), a tool that adds a segment to an executable (\<open>elf-clack\<close>) and a viewer for ELF files
  (\<open>elf-info\<close>).

  \<^bold>\<open>The program.\<close> The kernel starts the loader at \<open>_start\<close>, which calls \<open>loader_start\<close> with the stack
  pointer (\<open>rtld/rtld.c\<close>). It reads the boot parameters, describes the running program by a
  \<open>struct link_map\<close>, loads the shared objects it needs (\<open>rtld/load.c\<close>: search along the paths, mapping of
  the segments, dynamic section, a breadth-first run over \<open>DT_NEEDED\<close>), relocates all objects of the
  namespace in reverse order (\<open>rtld/reloc.c\<close>, with the symbol lookup of \<open>rtld/lookup.c\<close>), and returns the
  entry point. Later calls through the PLT come back to \<open>got_fixup\<close>. Everything rests on the small
  library of \<open>rtld/lib.c\<close> (strings, formatter, system calls), on the lists of \<open>include/list.h\<close>, and on an
  allocator taken from uClibc (\<open>malloc/\<close>), which keeps free areas in a sorted list inside the areas.

  \<^bold>\<open>The machine.\<close> Addresses are 64-bit words, memory is a total function from addresses to bytes, and
  loads and stores are little-endian (\<open>Prelude\<close>; its locale \<open>cell_memory\<close> states the laws of an access and
  is interpreted on the three widths). The state of the process and the kernel, a parameter, are in
  \<open>System\<close>. A run of the loader has an outcome: a value, the end of the process (\<open>Exited 1\<close> for \<open>assert\<close>,
  \<open>dprintf_die\<close>, \<open>dputs_die\<close> and a failed \<open>_emalloc\<close>), a NULL dereference, a division by zero, an access
  outside an array, or \<open>None\<close> when it does not end. Walks over linked structures and strings are
  \<open>partial_function (option)\<close>: no fuel is used, and that they return is part of the theorems.

  \<^bold>\<open>Theories and sources.\<close>
  \<^item> \<open>Areas\<close>, \<open>Heap\<close>, \<open>Heap_Refine\<close>, \<open>Heap_Correct\<close>, \<open>Heap_Props\<close>: \<open>malloc/heap.h\<close>, \<open>heap_alloc.c\<close>,
    \<open>heap_alloc_at.c\<close>, \<open>heap_free.c\<close> and the check of \<open>heap_debug.c\<close>. \<open>Areas\<close> is the abstract heap, a sorted
    list of areas; the pointer code refines it (C1, C2), allocation and freeing are inverse (C3), the
    search of \<open>__heap_alloc_at\<close> is characterised (C32), and the consistency check accepts exactly the
    well-formed heaps. \<open>Malloc_Debug\<close>: \<open>malloc_debug.c\<close> and the printing half of \<open>heap_debug.c\<close>, with the text on
    \<open>stderr\<close>; the dump lists exactly the areas, and a heap that fails the check ends the process (C6).
  \<^item> \<open>Malloc\<close>, \<open>Malloc_Inv\<close>, \<open>Malloc_Correct\<close>, \<open>Malloc_Resize\<close>, \<open>Alloc_Clients\<close>, \<open>Malloc_Props\<close>, \<open>Malloc_Limits\<close>:
    \<open>malloc.c\<close>, \<open>free.c\<close>, \<open>realloc.c\<close>, \<open>calloc.c\<close>, \<open>memalign.c\<close>, \<open>_emalloc\<close> and \<open>__strdup\<close>. The invariant says which
    bytes are free, which blocks are live and that headers record their sizes; every operation keeps it
    and gives or resizes blocks as it should (C8 to C11, C13), also in every interleaving of client
    steps (C14), and \<open>__strdup\<close> copies (C15). C16 and C18 are inputs on which the code goes wrong.
  \<^item> \<open>Strlib\<close>: the string and memory routines of \<open>rtld/lib.c\<close>. \<open>Printf\<close>, \<open>Printf_Props\<close>: \<open>dvsprintf\<close> and
    \<open>dsnprintf\<close>, which stay in their buffer (C29) and print numbers that read back (C30). \<open>Printf_Text\<close> gives the text of a format
    from its pieces. \<open>Console\<close>, \<open>Console_Props\<close>: \<open>dputs\<close>, \<open>dprintf\<close>, \<open>_dprintf_die\<close> (C12) and the indented debugging
    output, with the limits of its buffers (C17).
  \<^item> \<open>Klist\<close>: \<open>include/list.h\<close> on the byte memory. A ring represents a list of nodes; the operations are
    list operations (C19, C20).
  \<^item> \<open>Linkmap\<close>: \<open>include/link.h\<close>, \<open>include/ldsodefs.h\<close>. Link maps are records in a store from addresses; the
    environment record collects what build and link fix. \<open>Lookup\<close>: \<open>rtld/lookup.c\<close>. The hash is the one
    of the ABI (C22), the search finds the first definition (C23) and stops on malformed objects (C24).
  \<^item> \<open>Reloc\<close>: \<open>rtld/reloc.c\<close>. Relocation stores the right values and nothing else (C25), compared with the
    psABI (C26), in reverse order of the namespace (C27); lazy binding (C28).
  \<^item> \<open>Load\<close>: \<open>rtld/load.c\<close>. \<open>Load_Props\<close>: the namespace stays a doubly linked list and its walks end (C31). \<open>Load_Path\<close>: the search for a file and the reuse of a loaded object, with the formatter, the
    allocator and the string routines behind them (C33, C34). \<open>Load_Map\<close>: program headers become load
    commands (C35) and the segments are in memory as ELF asks (C36). \<open>Load_Dyn\<close>: the dynamic section
    (C37) and the search paths (C38). \<open>Load_Files\<close> states what loading needs of a kernel with files,
    \<open>Load_Object\<close> the headers of a file and the first mapping, \<open>Load_Image\<close> the image of an object in memory and what is
    read from its dynamic section, \<open>Load_Shared\<close> the run of \<open>map_object_fd\<close>, and \<open>Load_Shared_Props\<close> puts these together:
    a shared object is loaded whole, and the loader is ready for the next one (C4).
  \<^item> The dependencies of a program, \<open>map_object_deps\<close>: \<open>Load_Order\<close> is the reference, a breadth-first run over a graph.
    \<open>Load_Site\<close> collects what surrounds the loader (kernel, buffers, search directories, files) with the bytes that must
    not change, and shows \<open>map_object\<close> correct there. \<open>Load_Runlist\<close> is the run list of the objects whose dependencies are
    to be loaded, on the lists of \<open>Klist\<close>; \<open>Load_Needs\<close> the names an object needs, in its file and in memory; \<open>Load_Deps\<close> the
    invariant of the loops and their run; \<open>Load_Libraries\<close>, \<open>Load_Libraries_Props\<close> the whole: exactly the libraries a
    program needs are loaded, in the order of the reference, and its search list holds them (C5). The nodes of the run list
    are assumed not to overlap, although the code asks \<open>ealloca\<close> for the size of a list head, which is less than a node.
  \<^item> \<open>Rtld\<close>, \<open>Rtld_Props\<close>: \<open>rtld/rtld.c\<close>, from the boot parameters (C39) to \<open>loader_start\<close>, which composes
    all of the above.
  \<^item> \<open>Clack\<close>, \<open>Clack_Props\<close>: \<open>elf-clack/analyze.c\<close> and \<open>crack.c\<close>; the new segment lies clear of everything (C40).
    \<open>Clack_Image\<close>: the layout of the new file (C7). \<open>Clack_Tool\<close>: \<open>utils.c\<close>, \<open>show.c\<close>, \<open>create_exe\<close> and the two programs.
  \<^item> \<open>Host\<close>: the C library under the two tools, and \<open>elf-info/util.c\<close>. \<open>Reloc_Info\<close>, \<open>Reloc_Info_Props\<close>:
    \<open>elf-info/reloc-info.c\<close>, with the listing of a string table (C21).

  \<^bold>\<open>Interfaces.\<close> The clients of a component use it through a locale that the component interprets: cells of
  memory (\<open>cell_memory\<close>), the heap as a store of free bytes, the pages the kernel hands out, the allocator
  for its clients, nodes in a queue (\<open>node_queue\<close>), and the scope of a symbol search (\<open>symbol_scope\<close>).

  \<^bold>\<open>Parameters and hypotheses.\<close> The kernel is a function; what a theorem needs of it is a named predicate
  that states what the manual page of the call says: fresh pages (\<open>page_source\<close>), files that open by name
  (\<open>open_by_name\<close>), mappings that are granted with their contents (\<open>grants\<close>),
  and all of these for files that can be read and mapped (\<open>reads_files\<close>, \<open>maps_files\<close>, \<open>opens\<close>). Each is shown to hold for a
  concrete kernel in the examples. \<open>DT_NUM\<close> and the size of \<open>struct link_map\<close> depend on the version of
  \<open>elf.h\<close> and are parameters, as are the addresses of static objects, string literals and stack buffers,
  and for \<open>elf-clack\<close> the allocator of the C library. Sizes are bounded in the theorems where the code's
  64-bit arithmetic would wrap.

  \<^bold>\<open>Not modelled.\<close> In the definitions of the loader the messages that \<open>dprintf_die\<close>, \<open>dputs_die\<close> and \<open>assert\<close>
  print are left out and their outcome is kept; \<open>Console\<close> has the routines that print them. \<open>MPRINTF\<close> and its
  relatives are switched off by the build (\<open>DEBUG_PRINT_*\<close> is 0), and \<open>print_maps\<close> and
  \<open>print_program_info\<close> only print. The tools print through the C library: what goes to \<open>stdout\<close> in
  the listings is modelled, progress messages and \<open>stderr\<close> are not. The assembly files are register-level glue
  around definitions that are modelled. The configurations of the allocator that the build does not select
  (threads, \<open>sbrk\<close>) are left out, as are the trace lines that a debugging build adds to its operations, and so are the programs that are only loaded, patched or traced
  (\<open>look-into-got\<close>, \<open>hello\<close>, \<open>sample\<close>, \<open>runner.c\<close>). Concurrency does not occur: the loader is single-threaded.
\<close>

end
